(* ===== verification/Prelude.thy ===== *)
theory Prelude
  imports "HOL-Library.Word" "HOL-Library.Monad_Syntax"
begin

text \<open>
  Shared vocabulary of the development: the C integer types as words, the option type as the
  outcome of code that may diverge or run into undefined behaviour, and the generic facts on
  words, lists and options that the component theories use.
\<close>

unbundle bit_operations_syntax

section \<open>C integer types\<close>

type_synonym u8 = "8 word"
type_synonym u16 = "16 word"
type_synonym u32 = "32 word"
type_synonym u64 = "64 word"

text \<open>The value of a C \<open>int\<close> (or \<open>int32_t\<close>) that is stored in 32 bits.\<close>

abbreviation int_of_u32 :: "u32 \<Rightarrow> int" where
  "int_of_u32 w \<equiv> sint w"

text \<open>C division of signed integers truncates towards zero.\<close>

definition c_div :: "int \<Rightarrow> int \<Rightarrow> int" where
  "c_div a b = sgn a * sgn b * (\<bar>a\<bar> div \<bar>b\<bar>)"

definition c_mod :: "int \<Rightarrow> int \<Rightarrow> int" where
  "c_mod a b = a - c_div a b * b"

section \<open>Collections\<close>

named_theorems unat_facts \<open>rules that move word arithmetic to the natural numbers\<close>
named_theorems step_defs \<open>definitions of state-changing operations\<close>

section \<open>Options as outcomes\<close>

lemma bind_eq_SomeE:
  assumes "m \<bind> f = Some y"
  obtains x where "m = Some x" "f x = Some y"
  using assms by (cases m) auto

lemma bind_SomeI [intro]: "m = Some x \<Longrightarrow> f x = Some y \<Longrightarrow> m \<bind> f = Some y"
  by simp

section \<open>Words and natural numbers\<close>

lemma unat_less_2p32 [simp]: "unat (w::u32) < 4294967296"
  using unsigned_less [of w, where ?'a=nat] by simp

lemma unat_less_2p64 [simp]: "unat (w::u64) < 18446744073709551616"
  using unsigned_less [of w, where ?'a=nat] by simp

lemma unat_plus_one_u32 [unat_facts]: "unat ((w::u32) + 1) = (unat w + 1) mod 4294967296"
  by (simp add: unat_word_ariths)

text \<open>
  C code tests whether two values lie in the same aligned block of size \<open>2 ^ k\<close> by setting the
  low bits of both; on natural numbers this is equality of the quotients.
\<close>

lemma unat_and_mask:
  fixes a :: "'a::len word"
  shows "unat (a AND mask k) = unat a mod 2 ^ k"
  by (simp add: unsigned_take_bit_eq flip: take_bit_eq_mod take_bit_eq_mask)

lemma unat_shift_right:
  fixes a :: "'a::len word"
  shows "unat (drop_bit k a) = unat a div 2 ^ k"
  by (simp add: unat_drop_bit_eq flip: drop_bit_eq_div)

lemma or_mask_drop_bit_iff:
  fixes a b :: "'a::len word"
  shows "(a OR mask k = b OR mask k) \<longleftrightarrow> drop_bit k a = drop_bit k b"
proof
  assume h: "a OR mask k = b OR mask k"
  have "bit (drop_bit k a) n = bit (drop_bit k b) n" for n
  proof -
    have "bit (a OR mask k) (k + n) = bit (b OR mask k) (k + n)" by (simp add: h)
    then show ?thesis by (simp add: bit_simps)
  qed
  then show "drop_bit k a = drop_bit k b" by (simp add: bit_eq_iff)
next
  assume h: "drop_bit k a = drop_bit k b"
  have "bit (a OR mask k) n = bit (b OR mask k) n" for n
  proof (cases "n < k")
    case False
    then obtain m where n: "n = k + m" using le_Suc_ex not_less by blast
    have "bit (drop_bit k a) m = bit (drop_bit k b) m" by (simp add: h)
    with n show ?thesis by (simp add: bit_simps)
  next
    case True
    then show ?thesis by (auto simp: bit_simps dest: bit_imp_le_length)
  qed
  then show "a OR mask k = b OR mask k" by (simp add: bit_eq_iff)
qed

lemma or_mask_eq_iff:
  fixes a b :: "'a::len word"
  shows "(a OR mask k = b OR mask k) \<longleftrightarrow> unat a div 2 ^ k = unat b div 2 ^ k"
  unfolding or_mask_drop_bit_iff by (metis unat_shift_right word_unat_eq_iff)

lemma sint_u32: "sint (w::u32) = (if uint w < 2147483648 then uint w else uint w - 4294967296)"
proof -
  have u: "sint w = signed_take_bit 31 (uint w)"
    by (simp add: sint_uint)
  have b: "uint w < 4294967296" "0 \<le> uint w" using uint_lt2p [of w] by simp_all
  show ?thesis
  proof (cases "uint w < 2147483648")
    case True
    then have "signed_take_bit 31 (uint w) = uint w" using b(2) by (intro signed_take_bit_int_eq_self) (auto intro: order_trans [of _ 0])
    with True u show ?thesis by simp
  next
    case False
    have "signed_take_bit 31 (uint w) = signed_take_bit 31 (uint w - 4294967296)"
      by (rule signed_take_bit_eq_iff_take_bit_eq [THEN iffD2]) (simp add: take_bit_eq_mod)
    also have "\<dots> = uint w - 4294967296" using False b by (intro signed_take_bit_int_eq_self) simp_all
    finally show ?thesis using False u by simp
  qed
qed

lemma sint_of_nat_u32:
  assumes "n < 2147483648"
  shows "sint (of_nat n :: u32) = int n"
proof -
  have "uint (of_nat n :: u32) = int n" using assms by (simp add: unsigned_of_nat take_bit_nat_eq_self)
  then show ?thesis using assms by (simp add: sint_u32)
qed

lemma sint_pos_u32: "0 < sint (w::u32) \<longleftrightarrow> 0 < unat w \<and> unat w < 2147483648"
proof -
  have "uint w = int (unat w)" "unat w < 4294967296" by simp_all
  then show ?thesis by (cases "uint w < 2147483648"; simp only: sint_u32 if_True if_False; linarith)
qed

section \<open>Lists\<close>

lemma filter_False_if: "(\<forall>x \<in> set xs. \<not> P x) \<Longrightarrow> filter P xs = []"
  by (simp add: filter_empty_conv)

lemma nth_list_update_if:
  "i < length xs \<Longrightarrow> xs[i := v] ! j = (if i = j then v else xs ! j)"
  by auto

lemma nth_list_update_if2:
  "j < length xs \<Longrightarrow> xs[i := v] ! j = (if i = j then v else xs ! j)"
  by auto

section \<open>Running a step function against its specification\<close>

text \<open>
  A step either fails (\<open>None\<close>) or gives a state and a list of observations.  The locale states
  the contract of a component that follows an abstract machine step by step; its lemma lifts the
  contract to runs of any length.
\<close>

fun run_steps :: "('s \<Rightarrow> ('s \<times> 'o list) option) \<Rightarrow> nat \<Rightarrow> 's \<Rightarrow> ('s \<times> 'o list) option" where
  "run_steps step 0 s = Some (s, [])"
| "run_steps step (Suc n) s = do {
     (s1, obs1) \<leftarrow> step s;
     (s2, obs2) \<leftarrow> run_steps step n s1;
     Some (s2, obs1 @ obs2)
   }"

fun run_spec :: "('a \<Rightarrow> 'a \<times> 'o list) \<Rightarrow> nat \<Rightarrow> 'a \<Rightarrow> 'a \<times> 'o list" where
  "run_spec spec 0 a = (a, [])"
| "run_spec spec (Suc n) a =
     (case spec a of (a1, obs1) \<Rightarrow> case run_spec spec n a1 of (a2, obs2) \<Rightarrow> (a2, obs1 @ obs2))"

locale lockstep =
  fixes step :: "'s \<Rightarrow> ('s \<times> 'o list) option"
    and spec :: "'a \<Rightarrow> 'a \<times> 'o list"
    and rel :: "'s \<Rightarrow> 'a \<Rightarrow> bool"
  assumes step_sim: "rel s a \<Longrightarrow> \<exists>s'. step s = Some (s', snd (spec a)) \<and> rel s' (fst (spec a))"
begin

lemma run_sim:
  "rel s a \<Longrightarrow>
     \<exists>s'. run_steps step n s = Some (s', snd (run_spec spec n a)) \<and> rel s' (fst (run_spec spec n a))"
proof (induction n arbitrary: s a)
  case (Suc n)
  from step_sim [OF Suc.prems] obtain s1 where
    1: "step s = Some (s1, snd (spec a))" "rel s1 (fst (spec a))" by blast
  from Suc.IH [OF 1(2)] 1(1) show ?case by (auto split: prod.splits)
qed simp

end

end
