(* ===== verification/Timer.thy ===== *)
theory Timer
  imports Prelude
begin

text \<open>
  The timing wheel of \<^verbatim>\<open>src/depends/timer\<close>: \<open>near\<close> holds the timers of the current block of
  256 ticks, \<open>tvec\<close> (the field \<open>t\<close> of the C struct) four coarser levels of 64 slots.  A
  \<open>link_list\<close> is the list of its nodes from \<open>head.next\<close> to \<open>tail\<close>.  An outcome \<open>None\<close> means that
  the code spins for ever on a lock that its own thread holds, calls a callback that was never
  set, or reads outside an array.  The Lua callback is a parameter: called with a handle it moves
  an environment on and asks for a list of further timers, which are added while it runs.
\<close>

section \<open>Data\<close>

record timer_node =
  expire :: u32
  handle :: u32

type_synonym 'e timer_cb = "'e \<Rightarrow> u32 \<Rightarrow> 'e \<times> (u32 \<times> u32) list"

record 'e timer =
  near :: "timer_node list list"
  tvec :: "timer_node list list list"
  lock :: nat
  tm_time :: u32
  starttime :: u32
  current :: u64
  current_point :: u64
  on_timer :: "'e timer_cb option"

section \<open>Spin lock\<close>

definition spinlock_lock :: "'e timer \<Rightarrow> 'e timer option" where
  "spinlock_lock T = (if lock T = 0 then Some (T\<lparr>lock := 1\<rparr>) else None)"

definition spinlock_unlock :: "'e timer \<Rightarrow> 'e timer" where
  "spinlock_unlock T = T\<lparr>lock := 0\<rparr>"

section \<open>Slots\<close>

definition link_near :: "'e timer \<Rightarrow> nat \<Rightarrow> timer_node \<Rightarrow> 'e timer" where
  "link_near T j node = T\<lparr>near := (near T)[j := near T ! j @ [node]]\<rparr>"

definition link_level :: "'e timer \<Rightarrow> nat \<Rightarrow> nat \<Rightarrow> timer_node \<Rightarrow> 'e timer" where
  "link_level T i j node = T\<lparr>tvec := (tvec T)[i := (tvec T ! i)[j := tvec T ! i ! j @ [node]]]\<rparr>"

function add_level :: "u32 \<Rightarrow> u32 \<Rightarrow> u32 \<Rightarrow> nat \<Rightarrow> nat" where
  "add_level time current_time msk i =
     (if i < 3 then
        if time OR (msk - 1) = current_time OR (msk - 1) then i
        else add_level time current_time (push_bit 6 msk) (Suc i)
      else i)"
  by pat_completeness auto
termination
  by (relation "measure (\<lambda>(_, _, _, i). 3 - i)") auto

definition add_node :: "'e timer \<Rightarrow> timer_node \<Rightarrow> 'e timer" where
  "add_node T node =
     (let time = expire node; current_time = tm_time T in
      if time OR 255 = current_time OR 255
      then link_near T (unat (time AND 255)) node
      else let i = add_level time current_time (push_bit 6 256) 0
           in link_level T i (unat (drop_bit (8 + i * 6) time AND 63)) node)"

definition timer_add :: "'e timer \<Rightarrow> u32 \<Rightarrow> u32 \<Rightarrow> 'e timer option" where
  "timer_add T h time = do {
     T1 \<leftarrow> spinlock_lock T;
     Some (spinlock_unlock (add_node T1 \<lparr>expire = time + tm_time T1, handle = h\<rparr>))
   }"

definition timeout :: "'e timer \<Rightarrow> u32 \<Rightarrow> u32 \<Rightarrow> ('e timer \<times> int) option" where
  "timeout T h time =
     (if sint time \<le> 0 then Some (T, -1)
      else do { T1 \<leftarrow> timer_add T h time; Some (T1, 1) })"

section \<open>Ticks\<close>

definition move_list :: "'e timer \<Rightarrow> nat \<Rightarrow> nat \<Rightarrow> 'e timer option" where
  "move_list T level idx =
     (if level < 4 \<and> idx < 64
      then Some (foldl add_node
             (T\<lparr>tvec := (tvec T)[level := (tvec T ! level)[idx := []]]\<rparr>)
             (tvec T ! level ! idx))
      else None)"

partial_function (option) shift_loop :: "'e timer \<Rightarrow> u32 \<Rightarrow> u32 \<Rightarrow> u32 \<Rightarrow> nat \<Rightarrow> 'e timer option" where
  "shift_loop T ct msk time i =
     (if ct AND (msk - 1) = 0 then
        (if time AND 63 \<noteq> 0 then move_list T i (unat (time AND 63))
         else shift_loop T ct (push_bit 6 msk) (drop_bit 6 time) (Suc i))
      else Some T)"

definition timer_shift :: "'e timer \<Rightarrow> 'e timer option" where
  "timer_shift T =
     (let ct = tm_time T + 1; T1 = T\<lparr>tm_time := ct\<rparr> in
      if ct = 0 then move_list T1 3 0
      else shift_loop T1 ct 256 (drop_bit 8 ct) 0)"

fun timer_adds :: "'e timer \<Rightarrow> (u32 \<times> u32) list \<Rightarrow> 'e timer option" where
  "timer_adds T [] = Some T"
| "timer_adds T ((h, ti) # adds) = do { (T1, _) \<leftarrow> timeout T h ti; timer_adds T1 adds }"

fun dispatch_list :: "'e timer \<Rightarrow> 'e \<Rightarrow> timer_node list \<Rightarrow> ('e timer \<times> 'e \<times> u32 list) option" where
  "dispatch_list T e [] = None"
| "dispatch_list T e (cur # rest) =
     (case on_timer T of
        None \<Rightarrow> None
      | Some cb \<Rightarrow>
          (case cb e (handle cur) of (e1, adds) \<Rightarrow>
             do {
               T1 \<leftarrow> timer_adds T adds;
               if rest = [] then Some (T1, e1, [handle cur])
               else do {
                 (T2, e2, hs) \<leftarrow> dispatch_list T1 e1 rest;
                 Some (T2, e2, handle cur # hs)
               }
             }))"

partial_function (option) execute_loop ::
    "nat \<Rightarrow> 'e timer \<Rightarrow> 'e \<Rightarrow> u32 list \<Rightarrow> ('e timer \<times> 'e \<times> u32 list) option" where
  "execute_loop idx T e fired =
     (if near T ! idx = [] then Some (T, e, fired)
      else do {
        (T1, e1, hs) \<leftarrow>
          dispatch_list (spinlock_unlock (T\<lparr>near := (near T)[idx := []]\<rparr>)) e (near T ! idx);
        T2 \<leftarrow> spinlock_lock T1;
        execute_loop idx T2 e1 (fired @ hs)
      })"

definition timer_execute :: "'e timer \<Rightarrow> 'e \<Rightarrow> ('e timer \<times> 'e \<times> u32 list) option" where
  "timer_execute T e = execute_loop (unat (tm_time T AND 255)) T e []"

definition timer_update :: "'e timer \<Rightarrow> 'e \<Rightarrow> ('e timer \<times> 'e \<times> u32 list) option" where
  "timer_update T e = do {
     T1 \<leftarrow> spinlock_lock T;
     (T2, e2, hs2) \<leftarrow> timer_execute T1 e;
     T3 \<leftarrow> timer_shift T2;
     (T4, e4, hs4) \<leftarrow> timer_execute T3 e2;
     Some (spinlock_unlock T4, e4, hs2 @ hs4)
   }"

section \<open>Creation, clock and the Lua interface\<close>

definition timer_create_timer :: "'e timer" where
  "timer_create_timer =
     \<lparr>near = replicate 256 [], tvec = replicate 4 (replicate 64 []), lock = 0, tm_time = 0,
      starttime = 0, current = 0, current_point = 0, on_timer = None\<rparr>"

text \<open>\<open>systime\<close> and \<open>gettime\<close> read a \<open>timespec\<close>, given here as its two fields.\<close>

definition systime :: "int \<times> int \<Rightarrow> u32 \<times> u32" where
  "systime ti = (word_of_int (fst ti), word_of_int (c_div (snd ti) 10000000))"

definition gettime :: "int \<times> int \<Rightarrow> u64" where
  "gettime ti = word_of_int (fst ti) * 100 + word_of_int (c_div (snd ti) 10000000)"

definition timer_init :: "int \<times> int \<Rightarrow> int \<times> int \<Rightarrow> 'e timer" where
  "timer_init realtime monotonic =
     timer_create_timer\<lparr>starttime := fst (systime realtime),
       current := ucast (snd (systime realtime)), current_point := gettime monotonic\<rparr>"

definition set_on_timer :: "'e timer \<Rightarrow> 'e timer_cb \<Rightarrow> 'e timer" where
  "set_on_timer T cb = T\<lparr>on_timer := Some cb\<rparr>"

fun update_ticks :: "nat \<Rightarrow> 'e timer \<Rightarrow> 'e \<Rightarrow> ('e timer \<times> 'e \<times> u32 list) option" where
  "update_ticks 0 T e = Some (T, e, [])"
| "update_ticks (Suc n) T e = do {
     (T1, e1, hs1) \<leftarrow> timer_update T e;
     (T2, e2, hs2) \<leftarrow> update_ticks n T1 e1;
     Some (T2, e2, hs1 @ hs2)
   }"

definition updatetime :: "u64 \<Rightarrow> 'e timer \<Rightarrow> 'e \<Rightarrow> ('e timer \<times> 'e \<times> u32 list) option" where
  "updatetime cp T e =
     (if cp < current_point T then Some (T\<lparr>current_point := cp\<rparr>, e, [])
      else if cp \<noteq> current_point T then
        (let diff = (ucast (cp - current_point T) :: u32)
         in update_ticks (unat diff)
              (T\<lparr>current_point := cp, current := current T + ucast diff\<rparr>) e)
      else Some (T, e, []))"

text \<open>The Lua function \<open>add\<close> narrows both 64-bit arguments to \<open>int\<close> and drops the result.\<close>

definition lua_timer_add :: "'e timer \<Rightarrow> u64 \<Rightarrow> u64 \<Rightarrow> 'e timer option" where
  "lua_timer_add T h ti = map_option fst (timeout T (ucast h) (ucast ti))"

end
