(* ===== verification/Timer_Slots.thy ===== *)
theory Timer_Slots
  imports Timer
begin

text \<open>
  Where the wheel of \<^verbatim>\<open>src/depends/timer/timer.c\<close> keeps a timer: the slot is a function of the
  expiry and of the clock, and the arithmetic fact behind the cascades says that a pending timer
  changes its slot at a tick only when the tick moves exactly that slot.
\<close>

section \<open>Where a timer lives\<close>

datatype slot = Near nat | Lev nat nat

definition slot_of :: "nat \<Rightarrow> nat \<Rightarrow> slot" where
  "slot_of e c =
     (if e div 256 = c div 256 then Near (e mod 256)
      else if e div 16384 = c div 16384 then Lev 0 (e div 256 mod 64)
      else if e div 1048576 = c div 1048576 then Lev 1 (e div 16384 mod 64)
      else if e div 67108864 = c div 67108864 then Lev 2 (e div 1048576 mod 64)
      else Lev 3 (e div 67108864 mod 64))"

fun slot_list :: "'e timer \<Rightarrow> slot \<Rightarrow> timer_node list" where
  "slot_list T (Near j) = near T ! j"
| "slot_list T (Lev i j) = tvec T ! i ! j"

fun valid_slot :: "slot \<Rightarrow> bool" where
  "valid_slot (Near j) \<longleftrightarrow> j < 256"
| "valid_slot (Lev i j) \<longleftrightarrow> i < 4 \<and> j < 64"

definition shape :: "'e timer \<Rightarrow> bool" where
  "shape T \<longleftrightarrow> length (near T) = 256 \<and> length (tvec T) = 4 \<and> (\<forall>i<4. length (tvec T ! i) = 64)"

section \<open>Words and blocks\<close>

lemma mask_eqs:
  "(255::u32) = mask 8" "(16383::u32) = mask 14" "(1048575::u32) = mask 20" "(67108863::u32) = mask 26" "(63::u32) = mask 6"
  by (simp_all add: mask_eq_exp_minus_1)

lemma or_block:
  "(a OR 255 = b OR (255::u32)) \<longleftrightarrow> unat a div 256 = unat b div 256"
  "(a OR 16383 = b OR (16383::u32)) \<longleftrightarrow> unat a div 16384 = unat b div 16384"
  "(a OR 1048575 = b OR (1048575::u32)) \<longleftrightarrow> unat a div 1048576 = unat b div 1048576"
  "(a OR 67108863 = b OR (67108863::u32)) \<longleftrightarrow> unat a div 67108864 = unat b div 67108864"
  by (simp_all only: mask_eqs or_mask_eq_iff) simp_all

lemma and_low:
  "unat (a AND (255::u32)) = unat a mod 256" "unat (a AND (63::u32)) = unat a mod 64"
  by (simp_all only: mask_eqs unat_and_mask) simp_all

declare add_level.simps [simp del]

lemma shl6:
  "push_bit 6 (256::u32) = 16384" "push_bit 6 (16384::u32) = 1048576"
  "push_bit 6 (1048576::u32) = 67108864"
  by (simp_all add: push_bit_eq_mult)

lemma add_level_eq:
  "add_level e c (push_bit 6 256) 0 =
     (if unat e div 16384 = unat c div 16384 then 0
      else if unat e div 1048576 = unat c div 1048576 then 1
      else if unat e div 67108864 = unat c div 67108864 then 2 else 3)"
proof -
  have a: "add_level e c (push_bit 6 1048576) 2 = add_level e c 67108864 2" by (simp add: shl6)
  have 3: "add_level e c w 3 = 3" for w by (subst add_level.simps) simp
  have 2: "add_level e c 67108864 2 = (if unat e div 67108864 = unat c div 67108864 then 2 else 3)"
    by (subst add_level.simps) (simp add: or_block 3)
  have 1: "add_level e c 1048576 1 = (if unat e div 1048576 = unat c div 1048576 then 1
      else add_level e c 67108864 2)"
    by (subst add_level.simps) (simp add: or_block shl6 Suc_1 [symmetric] del: Suc_1)
  have 0: "add_level e c 16384 0 = (if unat e div 16384 = unat c div 16384 then 0
      else add_level e c 1048576 1)"
    by (subst add_level.simps) (simp add: or_block shl6)
  show ?thesis by (simp add: shl6(1) 0 1 [simplified] 2)
qed

definition link_slot :: "'e timer \<Rightarrow> slot \<Rightarrow> timer_node \<Rightarrow> 'e timer" where
  "link_slot T s n = (case s of Near j \<Rightarrow> link_near T j n | Lev i j \<Rightarrow> link_level T i j n)"

lemma add_node_slot:
  "add_node T n = link_slot T (slot_of (unat (expire n)) (unat (tm_time T))) n"
proof -
  let ?e = "unat (expire n)" and ?c = "unat (tm_time T)"
  have l: "unat (drop_bit k (expire n) AND 63) = ?e div 2 ^ k mod 64" for k
    by (simp only: and_low unat_shift_right)
  have p: "(2::nat) ^ (8 + 0 * 6) = 256" "(2::nat) ^ (8 + 1 * 6) = 16384"
    "(2::nat) ^ (8 + 2 * 6) = 1048576" "(2::nat) ^ (8 + 3 * 6) = 67108864" by simp_all
  note u = add_node_def Let_def or_block and_low(1) add_level_eq l link_slot_def slot_of_def
  consider (a) "?e div 256 = ?c div 256"
    | (b) "?e div 256 \<noteq> ?c div 256" "?e div 16384 = ?c div 16384"
    | (c) "?e div 256 \<noteq> ?c div 256" "?e div 16384 \<noteq> ?c div 16384" "?e div 1048576 = ?c div 1048576"
    | (d) "?e div 256 \<noteq> ?c div 256" "?e div 16384 \<noteq> ?c div 16384" "?e div 1048576 \<noteq> ?c div 1048576"
        "?e div 67108864 = ?c div 67108864"
    | (e) "?e div 256 \<noteq> ?c div 256" "?e div 16384 \<noteq> ?c div 16384" "?e div 1048576 \<noteq> ?c div 1048576"
        "?e div 67108864 \<noteq> ?c div 67108864" by blast
  then show ?thesis
    by cases (simp_all only: u p if_True if_False slot.case simp_thms)
qed

section \<open>Cascades\<close>

definition shift_target :: "nat \<Rightarrow> slot option" where
  "shift_target c =
     (if c = 0 then Some (Lev 3 0)
      else if c mod 256 \<noteq> 0 then None
      else if c div 256 mod 64 \<noteq> 0 then Some (Lev 0 (c div 256 mod 64))
      else if c div 16384 mod 64 \<noteq> 0 then Some (Lev 1 (c div 16384 mod 64))
      else if c div 1048576 mod 64 \<noteq> 0 then Some (Lev 2 (c div 1048576 mod 64))
      else Some (Lev 3 (c div 67108864 mod 64)))"

definition ahead :: "nat \<Rightarrow> nat \<Rightarrow> bool" where
  "ahead e c \<longleftrightarrow> c < e \<or> e div 67108864 \<noteq> c div 67108864"

lemma mod_mult_0_iff:
  "0 < a \<Longrightarrow> (c::nat) mod (a * b) = 0 \<longleftrightarrow> c mod a = 0 \<and> c div a mod b = 0"
  by (auto simp: mod_mult2_eq)

lemma div_mult_up: "e div a = c div a \<Longrightarrow> e div (a * b) = (c::nat) div (a * b)"
  by (simp add: div_mult2_eq)

lemmas block_split =
  mod_mult_0_iff [of 256 _ 64, simplified] mod_mult_0_iff [of 16384 _ 64, simplified]
  mod_mult_0_iff [of 1048576 _ 64, simplified]

lemmas block_up =
  div_mult_up [of _ 256 _ 64, simplified] div_mult_up [of _ 16384 _ 64, simplified]
  div_mult_up [of _ 1048576 _ 64, simplified]

lemma block_same: "Suc c mod b \<noteq> 0 \<Longrightarrow> Suc c div b = c div b"
  by (simp add: div_Suc)

lemma last_of_block:
  assumes "ahead e c" "Suc c mod b = 0" "e div b = c div b \<Longrightarrow> e div 67108864 = c div 67108864"
  shows "e div b \<noteq> c div b"
proof
  assume h: "e div b = c div b"
  with assms(1,3) have "Suc c \<le> e" by (auto simp: ahead_def)
  then have "Suc c div b \<le> e div b" by (rule div_le_mono)
  with h assms(2) show False by (simp add: div_Suc)
qed

lemma boundary:
  assumes "ahead e c"
  shows "Suc c mod 256 = 0 \<Longrightarrow> e div 256 \<noteq> c div 256"
    and "Suc c mod 16384 = 0 \<Longrightarrow> e div 16384 \<noteq> c div 16384"
    and "Suc c mod 1048576 = 0 \<Longrightarrow> e div 1048576 \<noteq> c div 1048576"
    and "Suc c mod 67108864 = 0 \<Longrightarrow> e div 67108864 \<noteq> c div 67108864"
  by (rule last_of_block [OF assms], assumption, blast dest: block_up)+

lemma slot_lev:
  "e div 256 \<noteq> c div 256 \<Longrightarrow> e div 16384 = c div 16384 \<Longrightarrow> slot_of e c = Lev 0 (e div 256 mod 64)"
  "e div 16384 \<noteq> c div 16384 \<Longrightarrow> e div 1048576 = c div 1048576 \<Longrightarrow>
     slot_of e c = Lev 1 (e div 16384 mod 64)"
  "e div 1048576 \<noteq> c div 1048576 \<Longrightarrow> e div 67108864 = c div 67108864 \<Longrightarrow>
     slot_of e c = Lev 2 (e div 1048576 mod 64)"
  "e div 67108864 \<noteq> c div 67108864 \<Longrightarrow> slot_of e c = Lev 3 (e div 67108864 mod 64)"
  using block_up [of e c] unfolding slot_of_def by argo+

lemma slot_cong:
  assumes "e div 256 = c div 256 \<longleftrightarrow> e div 256 = c' div 256"
    "e div 16384 = c div 16384 \<longleftrightarrow> e div 16384 = c' div 16384"
    "e div 1048576 = c div 1048576 \<longleftrightarrow> e div 1048576 = c' div 1048576"
    "e div 67108864 = c div 67108864 \<longleftrightarrow> e div 67108864 = c' div 67108864"
  shows "slot_of e c = slot_of e c'"
  by (simp only: slot_of_def assms)

lemma slot_stays0:
  assumes "Suc c mod 256 \<noteq> 0"
  shows "slot_of e (Suc c) = slot_of e c"
proof -
  have "Suc c mod 16384 \<noteq> 0" "Suc c mod 1048576 \<noteq> 0" "Suc c mod 67108864 \<noteq> 0"
    using assms by (simp_all only: block_split) simp_all
  then show ?thesis using assms by (simp add: slot_of_def block_same)
qed

lemma slot_stays1:
  assumes "ahead e c" "Suc c mod 256 = 0" "Suc c div 256 mod 64 \<noteq> 0"
  shows "slot_of e (Suc c) = slot_of e c \<or> Lev 0 (Suc c div 256 mod 64) = slot_of e c"
proof -
  have "Suc c mod 16384 \<noteq> 0" "Suc c mod 1048576 \<noteq> 0" "Suc c mod 67108864 \<noteq> 0"
    using assms(3) by (simp_all only: block_split) simp_all
  note s = this [THEN block_same] and n = boundary(1) [OF assms(1,2)]
  show ?thesis
  proof (cases "e div 256 = Suc c div 256")
    case True
    with slot_lev(1) [OF n] block_up(1) [OF True] s show ?thesis by metis
  next
    case False
    with n s have "slot_of e (Suc c) = slot_of e c" by (intro slot_cong; metis)
    then show ?thesis ..
  qed
qed

lemma slot_stays2:
  assumes "ahead e c" "Suc c mod 16384 = 0" "Suc c div 16384 mod 64 \<noteq> 0"
  shows "slot_of e (Suc c) = slot_of e c \<or> Lev 1 (Suc c div 16384 mod 64) = slot_of e c"
proof -
  have "Suc c mod 1048576 \<noteq> 0" "Suc c mod 67108864 \<noteq> 0" and z: "Suc c mod 256 = 0"
    using assms(2,3) by (simp_all only: block_split) simp_all
  note s = this(1,2) [THEN block_same] and n = boundary(1) [OF assms(1) z] boundary(2) [OF assms(1,2)]
  show ?thesis
  proof (cases "e div 16384 = Suc c div 16384")
    case True
    with slot_lev(2) [OF n(2)] block_up(2) [OF True] s show ?thesis by metis
  next
    case False
    with n s block_up(1) [of e "Suc c"] have "slot_of e (Suc c) = slot_of e c"
      by (intro slot_cong; metis)
    then show ?thesis ..
  qed
qed

lemma slot_stays3:
  assumes "ahead e c" "Suc c mod 1048576 = 0" "Suc c div 1048576 mod 64 \<noteq> 0"
  shows "slot_of e (Suc c) = slot_of e c \<or> Lev 2 (Suc c div 1048576 mod 64) = slot_of e c"
proof -
  have "Suc c mod 67108864 \<noteq> 0" and z: "Suc c mod 16384 = 0" "Suc c mod 256 = 0"
    using assms(2,3) by (simp_all only: block_split) simp_all
  note s = this(1) [THEN block_same]
    and n = boundary(1) [OF assms(1) z(2)] boundary(2) [OF assms(1) z(1)] boundary(3) [OF assms(1,2)]
  show ?thesis
  proof (cases "e div 1048576 = Suc c div 1048576")
    case True
    with slot_lev(3) [OF n(3)] block_up(3) [OF True] s show ?thesis by metis
  next
    case False
    with n s block_up(1,2) [of e "Suc c"] have "slot_of e (Suc c) = slot_of e c"
      by (intro slot_cong; metis)
    then show ?thesis ..
  qed
qed

lemma slot_stays4:
  assumes "ahead e c" "Suc c mod 67108864 = 0"
  shows "slot_of e (Suc c) = slot_of e c \<or> Lev 3 (Suc c div 67108864 mod 64) = slot_of e c"
proof -
  have z: "Suc c mod 1048576 = 0" "Suc c mod 16384 = 0" "Suc c mod 256 = 0"
    using assms(2) by (simp_all only: block_split)
  note n = boundary(1) [OF assms(1) z(3)] boundary(2) [OF assms(1) z(2)]
    boundary(3) [OF assms(1) z(1)] boundary(4) [OF assms]
  show ?thesis
  proof (cases "e div 67108864 = Suc c div 67108864")
    case True
    with slot_lev(4) [OF n(4)] show ?thesis by metis
  next
    case False
    with n block_up [of e "Suc c"] have "slot_of e (Suc c) = slot_of e c"
      by (intro slot_cong; metis)
    then show ?thesis ..
  qed
qed

lemma slot_stays_Suc:
  assumes "ahead e c"
  shows "slot_of e (Suc c) = slot_of e c \<or> shift_target (Suc c) = Some (slot_of e c)"
proof -
  have "shift_target (Suc c) = Some s \<longleftrightarrow> Suc c mod 256 = 0 \<and>
     (if Suc c div 256 mod 64 \<noteq> 0 then s = Lev 0 (Suc c div 256 mod 64)
      else if Suc c div 16384 mod 64 \<noteq> 0 then s = Lev 1 (Suc c div 16384 mod 64)
      else if Suc c div 1048576 mod 64 \<noteq> 0 then s = Lev 2 (Suc c div 1048576 mod 64)
      else s = Lev 3 (Suc c div 67108864 mod 64))" for s
    by (auto simp: shift_target_def)
  note t = this
  show ?thesis
  proof (cases "Suc c mod 256 = 0")
    case False
    then show ?thesis using slot_stays0 by blast
  next
    case True
    show ?thesis
      using t [of "slot_of e c"] True slot_stays1 [OF assms True] slot_stays2 [OF assms]
        slot_stays3 [OF assms] slot_stays4 [OF assms] block_split [of "Suc c"] by metis
  qed
qed

lemma and_zero:
  "(w AND (255::u32)) = 0 \<longleftrightarrow> unat w mod 256 = 0"
  "(w AND (16383::u32)) = 0 \<longleftrightarrow> unat w mod 16384 = 0"
  "(w AND (1048575::u32)) = 0 \<longleftrightarrow> unat w mod 1048576 = 0"
  "(w AND (67108863::u32)) = 0 \<longleftrightarrow> unat w mod 67108864 = 0"
  "(w AND (63::u32)) = 0 \<longleftrightarrow> unat w mod 64 = 0"
  by (simp_all only: mask_eqs word_unat_eq_iff unat_and_mask) simp_all

fun move_slot :: "'e timer \<Rightarrow> slot option \<Rightarrow> 'e timer option" where
  "move_slot T (Some (Lev i j)) = move_list T i j"
| "move_slot T _ = Some T"

lemma top_slot:
  fixes c :: nat
  assumes "c < 4294967296" "c \<noteq> 0" "c mod 67108864 = 0"
  shows "c div 67108864 mod 64 \<noteq> 0"
proof -
  have "c div 67108864 < 64" using assms(1) by (intro less_mult_imp_div_less) simp
  moreover have "c div 67108864 \<noteq> 0" using assms(2,3) by (metis mod_less div_eq_0_iff zero_neq_numeral)
  ultimately show ?thesis by simp
qed

lemma timer_shift_eq:
  "timer_shift T = move_slot (T\<lparr>tm_time := tm_time T + 1\<rparr>) (shift_target (unat (tm_time T + 1)))"
proof -
  let ?T = "T\<lparr>tm_time := tm_time T + 1\<rparr>"
  define ct where "ct = tm_time T + 1"
  have ix: "unat (drop_bit k ct AND 63) = unat ct div 2 ^ k mod 64" for k
    by (simp only: and_low unat_shift_right)
  have z: "drop_bit k ct AND 63 = 0 \<longleftrightarrow> unat ct div 2 ^ k mod 64 = 0" for k
    by (simp only: and_zero unat_shift_right)
  have t: "unat ct div 67108864 mod 64 \<noteq> 0" if "ct \<noteq> 0" "unat ct mod 67108864 = 0"
    by (rule top_slot) (use that in \<open>simp_all add: unat_eq_0 [symmetric] del: unat_eq_0\<close>)
  note u = shift_loop.simps
  have d: "drop_bit 6 (drop_bit 8 ct) = drop_bit 14 ct" "drop_bit 6 (drop_bit 14 ct) = drop_bit 20 ct"
    "drop_bit 6 (drop_bit 20 ct) = drop_bit 26 ct" by simp_all
  have 3: "shift_loop ?T ct 67108864 (drop_bit 26 ct) 3 = move_list ?T 3 (unat ct div 67108864 mod 64)"
    if "ct \<noteq> 0" "unat ct mod 67108864 = 0"
    by (subst u) (use t [OF that] that(2) ix [of 26] z [of 26] in \<open>simp add: and_zero\<close>)
  have 2: "shift_loop ?T ct 1048576 (drop_bit 20 ct) 2 =
      (if unat ct div 1048576 mod 64 \<noteq> 0 then move_list ?T 2 (unat ct div 1048576 mod 64)
       else move_list ?T 3 (unat ct div 67108864 mod 64))"
    if "ct \<noteq> 0" "unat ct mod 1048576 = 0"
    using that(2) ix [of 20] z [of 20] 3 [OF that(1)] block_split(3) [of "unat ct"]
    by (subst u) (simp add: and_zero shl6 d)
  have 1: "shift_loop ?T ct 16384 (drop_bit 14 ct) 1 =
      (if unat ct div 16384 mod 64 \<noteq> 0 then move_list ?T 1 (unat ct div 16384 mod 64)
       else shift_loop ?T ct 1048576 (drop_bit 20 ct) 2)"
    if "unat ct mod 16384 = 0"
    using that ix [of 14] z [of 14]
    by (subst u) (simp add: and_zero shl6 d flip: numeral_2_eq_2)
  have 0: "shift_loop ?T ct 256 (drop_bit 8 ct) 0 =
      (if unat ct mod 256 \<noteq> 0 then Some ?T
       else if unat ct div 256 mod 64 \<noteq> 0 then move_list ?T 0 (unat ct div 256 mod 64)
       else shift_loop ?T ct 16384 (drop_bit 14 ct) 1)"
    using ix [of 8] z [of 8] by (subst u) (simp add: and_zero shl6 d)
  have zc: "ct = 0 \<longleftrightarrow> unat ct = 0" by (simp add: word_unat_eq_iff)
  show ?thesis
    using 0 1 2 block_split(1,2) [of "unat ct"]
    unfolding timer_shift_def Let_def ct_def [symmetric] shift_target_def zc
    by (auto simp: zc)
qed

end
