(* ===== verification/Timer_Correct.thy ===== *)
theory Timer_Correct
  imports Timer_Slots
begin

text \<open>
  The wheel implements a calendar: a clock and a list of pending timers in the order in which
  they were added.  A tick of the calendar fires the timers that expire then, in that order.
  The relation \<open>timer_rel\<close> says that every slot of the wheel holds, for every expiry, exactly the
  pending timers with that expiry when the slot is theirs, and none otherwise.
\<close>

section \<open>Calendar: the abstract timer\<close>

record 'e calendar =
  now :: u32
  pending :: "timer_node list"
  env :: 'e

definition spec_adds :: "u32 \<Rightarrow> (u32 \<times> u32) list \<Rightarrow> timer_node list" where
  "spec_adds c adds =
     map (\<lambda>(h, ti). \<lparr>expire = ti + c, handle = h\<rparr>) (filter (\<lambda>(h, ti). 0 < sint ti) adds)"

fun spec_fire :: "'e timer_cb \<Rightarrow> u32 \<Rightarrow> 'e \<Rightarrow> timer_node list \<Rightarrow> 'e \<times> timer_node list" where
  "spec_fire cb c e [] = (e, [])"
| "spec_fire cb c e (n # ns) =
     (case cb e (handle n) of (e1, adds) \<Rightarrow>
        case spec_fire cb c e1 ns of (e2, new) \<Rightarrow> (e2, spec_adds c adds @ new))"

definition cal_tick :: "'e timer_cb \<Rightarrow> 'e calendar \<Rightarrow> 'e calendar \<times> u32 list" where
  "cal_tick cb k =
     (let c = now k + 1; due = filter (\<lambda>n. expire n = c) (pending k) in
      case spec_fire cb c (env k) due of (e, new) \<Rightarrow>
        (\<lparr>now = c, pending = filter (\<lambda>n. expire n \<noteq> c) (pending k) @ new, env = e\<rparr>,
         map handle due))"

section \<open>The relation\<close>

definition timer_rel :: "'e timer \<Rightarrow> timer_node list \<Rightarrow> bool" where
  "timer_rel T pend \<longleftrightarrow> shape T \<and>
     (\<forall>s e. valid_slot s \<longrightarrow> filter (\<lambda>n. expire n = e) (slot_list T s) =
        (if slot_of (unat e) (unat (tm_time T)) = s then filter (\<lambda>n. expire n = e) pend else []))"

definition fut :: "u32 \<Rightarrow> u32 \<Rightarrow> bool" where
  "fut e c \<longleftrightarrow> e \<noteq> c \<and> unat (e - c) < 2147483648"

definition frame :: "'e timer \<Rightarrow> 'e timer \<Rightarrow> bool" where
  "frame T T' \<longleftrightarrow> tm_time T' = tm_time T \<and> on_timer T' = on_timer T \<and> starttime T' = starttime T \<and>
     current T' = current T \<and> current_point T' = current_point T"

lemma frame_refl [simp]: "frame T T" by (simp add: frame_def)

lemma frame_trans: "frame T T' \<Longrightarrow> frame T' T'' \<Longrightarrow> frame T T''"
  by (simp add: frame_def)

lemma frameD: "frame T T' \<Longrightarrow> tm_time T' = tm_time T" "frame T T' \<Longrightarrow> on_timer T' = on_timer T"
  by (simp_all add: frame_def)

lemma slot_of_valid: "e < 4294967296 \<Longrightarrow> valid_slot (slot_of e c)"
  using less_mult_imp_div_less [of e 64 67108864] by (simp add: slot_of_def)

lemma slot_list_link:
  assumes "shape T" "valid_slot s"
  shows "slot_list (link_slot T s n) s' = (if s' = s then slot_list T s @ [n] else slot_list T s')"
  using assms
  by (cases s; cases s') (auto simp: link_slot_def link_near_def link_level_def shape_def nth_list_update_if)

lemma shape_link: "shape T \<Longrightarrow> shape (link_slot T s n)"
  by (cases s) (auto simp: link_slot_def link_near_def link_level_def shape_def nth_list_update_if2)

lemma frame_link [simp]: "frame T (link_slot T s n)" "lock (link_slot T s n) = lock T"
  by (cases s; simp add: link_slot_def link_near_def link_level_def frame_def)+

lemma timer_rel_add_node:
  assumes "timer_rel T pend"
  shows "timer_rel (add_node T n) (pend @ [n])" "frame T (add_node T n)" "lock (add_node T n) = lock T"
proof -
  let ?s = "slot_of (unat (expire n)) (unat (tm_time T))"
  have v: "valid_slot ?s" by (simp add: slot_of_valid)
  have f: "frame T (add_node T n)" by (simp add: add_node_slot)
  then show "frame T (add_node T n)" "lock (add_node T n) = lock T" by (simp_all add: add_node_slot)
  have "slot_list (add_node T n) s = (if s = ?s then slot_list T ?s @ [n] else slot_list T s)" for s
    unfolding add_node_slot using assms v by (simp add: slot_list_link timer_rel_def)
  then show "timer_rel (add_node T n) (pend @ [n])"
    using assms shape_link unfolding timer_rel_def frameD(1) [OF f]
    by (auto simp: add_node_slot)
qed

lemma timer_rel_lock [simp]:
  "timer_rel (T\<lparr>lock := l\<rparr>) pend = timer_rel T pend"
proof -
  have "slot_list (T\<lparr>lock := l\<rparr>) s = slot_list T s" for s by (cases s) simp_all
  then show ?thesis by (simp add: timer_rel_def shape_def)
qed


lemma foldl_add_node:
  assumes "timer_rel T pend"
  shows "timer_rel (foldl add_node T ns) (pend @ ns) \<and> frame T (foldl add_node T ns)
     \<and> lock (foldl add_node T ns) = lock T"
  using assms
proof (induction ns arbitrary: T pend)
  case (Cons n ns)
  from timer_rel_add_node [OF Cons.prems, of n] Cons.IH [of "add_node T n" "pend @ [n]"]
  show ?case using frame_trans by fastforce
qed simp

subsection \<open>Moving the clock on\<close>

lemma fut_ahead: "fut e c \<Longrightarrow> ahead (unat e) (unat c)"
proof -
  assume f: "fut e c"
  show ?thesis
  proof (cases "unat c < unat e")
    case False
    with f have lt: "unat e < unat c" by (auto simp: fut_def word_unat_eq_iff)
    have d: "unat (e - c) = unat e + 4294967296 - unat c"
      using lt by (simp add: unat_sub_if')
    have "unat e div 67108864 \<noteq> unat c div 67108864"
    proof
      assume q: "unat e div 67108864 = unat c div 67108864"
      have "unat c < unat e + 67108864"
        using q mult_div_mod_eq [of 67108864 "unat c"] mult_div_mod_eq [of 67108864 "unat e"]
          mod_less_divisor [of 67108864 "unat c"] by linarith
      moreover have "unat e + 4294967296 - unat c < 2147483648" using f d by (simp add: fut_def)
      ultimately show False using lt by linarith
    qed
    then show ?thesis by (simp add: ahead_def)
  qed (simp add: ahead_def)
qed

lemma fut_step: "fut e c \<Longrightarrow> e \<noteq> c + 1 \<Longrightarrow> fut e (c + 1)"
proof -
  assume f: "fut e c" "e \<noteq> c + 1"
  have eq: "e - (c + 1) = (e - c) - 1" by simp
  have "e - c \<noteq> 0" using f by (simp add: fut_def)
  then have "unat ((e - c) - 1) = unat (e - c) - 1" by (rule unat_minus_one)
  then show ?thesis using f unfolding fut_def eq by (auto intro: less_imp_diff_less)
qed

lemma slot_stays:
  assumes "fut e c"
  shows "slot_of (unat e) (unat (c + 1)) = slot_of (unat e) (unat c) \<or>
    shift_target (unat (c + 1)) = Some (slot_of (unat e) (unat c))"
proof (cases "unat c = 4294967295")
  case False
  then have "Suc (unat c) < 4294967296" using unat_less_2p32 [of c] by linarith
  then have "unat (c + 1) = Suc (unat c)" by (simp add: unat_plus_one_u32)
  then show ?thesis using slot_stays_Suc [OF fut_ahead [OF assms]] by simp
next
  case True
  then have c: "unat (c + 1) = 0" by (simp add: unat_plus_one_u32)
  have a: "ahead (unat e) 4294967295" using fut_ahead [OF assms] True by simp
  from boundary [OF a] have n: "unat e div 67108864 \<noteq> 63" "unat e div 1048576 \<noteq> 4095"
     "unat e div 16384 \<noteq> 262143" "unat e div 256 \<noteq> 16777215" by simp_all
  then have s: "slot_of (unat e) 4294967295 = Lev 3 (unat e div 67108864 mod 64)"
    by (simp add: slot_of_def)
  show ?thesis
  proof (cases "unat e div 67108864 = 0")
    case True
    with s show ?thesis unfolding c \<open>unat c = 4294967295\<close> by (simp add: shift_target_def)
  next
    case False
    then have "slot_of (unat e) 0 = Lev 3 (unat e div 67108864 mod 64)"
      by (subst slot_lev(4)) simp_all
    with s show ?thesis unfolding c \<open>unat c = 4294967295\<close> by simp
  qed
qed



definition at_exp :: "u32 \<Rightarrow> timer_node list \<Rightarrow> timer_node list" where
  "at_exp e ns = filter (\<lambda>n. expire n = e) ns"

lemma at_exp_simps [simp]:
  "at_exp e [] = []" "at_exp e (xs @ ys) = at_exp e xs @ at_exp e ys"
  by (simp_all add: at_exp_def)

lemma at_exp_filter: "at_exp e (filter (\<lambda>n. P (expire n)) ns) = (if P e then at_exp e ns else [])"
  by (induction ns) (auto simp: at_exp_def)

lemma at_exp_Nil: "at_exp e ns = [] \<longleftrightarrow> e \<notin> expire ` set ns"
  by (auto simp: at_exp_def filter_empty_conv)

lemma timer_rel_alt:
  "timer_rel T pend \<longleftrightarrow> shape T \<and> (\<forall>s e. valid_slot s \<longrightarrow> at_exp e (slot_list T s) =
     (if slot_of (unat e) (unat (tm_time T)) = s then at_exp e pend else []))"
  by (simp add: timer_rel_def at_exp_def)

lemma timer_rel_cong:
  "timer_rel T p \<Longrightarrow> (\<And>e. at_exp e p = at_exp e q) \<Longrightarrow> timer_rel T q"
  by (simp add: timer_rel_alt)

lemma move_list_rel:
  assumes r: "timer_rel T pend" and v: "i < 4" "j < 64"
    and f: "\<And>e. e \<in> expire ` set pend \<Longrightarrow>
      slot_of (unat e) (unat c) = slot_of (unat e) (unat (tm_time T)) \<or>
      slot_of (unat e) (unat (tm_time T)) = Lev i j"
  shows "\<exists>T'. move_list (T\<lparr>tm_time := c\<rparr>) i j = Some T' \<and> timer_rel T' pend \<and>
    frame (T\<lparr>tm_time := c\<rparr>) T' \<and> lock T' = lock T"
proof -
  define sl where "sl e = slot_of (unat (e::u32)) (unat (tm_time T))" for e
  define U where "U = T\<lparr>tm_time := c, tvec := (tvec T)[i := (tvec T ! i)[j := []]]\<rparr>"
  define ms where "ms = tvec T ! i ! j"
  define rest where "rest = filter (\<lambda>n. sl (expire n) \<noteq> Lev i j) pend"
  have sh: "shape U" "shape T" using r by (auto simp: U_def timer_rel_def shape_def nth_list_update_if2)
  have slU: "slot_list U s = (if s = Lev i j then [] else slot_list T s)" for s
    using sh v by (cases s) (auto simp: U_def shape_def nth_list_update_if)
  have e_T: "at_exp e (slot_list T s) = (if sl e = s then at_exp e pend else [])" if "valid_slot s" for e s
    using r that by (simp add: timer_rel_alt sl_def)
  then have e_ms: "at_exp e ms = (if sl e = Lev i j then at_exp e pend else [])" for e
    using v unfolding ms_def by (metis slot_list.simps(2) valid_slot.simps(2))
  have e_rest: "at_exp e rest = (if sl e = Lev i j then [] else at_exp e pend)" for e
    unfolding rest_def at_exp_filter [of e "\<lambda>x. sl x \<noteq> Lev i j"] by simp
  have "timer_rel U rest"
    unfolding timer_rel_alt slU
  proof (intro conjI allI impI sh)
    fix s e assume "valid_slot s"
    then show "at_exp e (if s = Lev i j then [] else slot_list T s) =
      (if slot_of (unat e) (unat (tm_time U)) = s then at_exp e rest else [])"
      using e_T [of s e] e_rest [of e] f [of e, folded sl_def] at_exp_Nil [of e pend]
      by (cases "at_exp e pend = []") (auto simp: U_def)
  qed
  from foldl_add_node [OF this, of ms]
  have fo: "timer_rel (foldl add_node U ms) (rest @ ms)" "frame U (foldl add_node U ms)"
    "lock (foldl add_node U ms) = lock T" by (simp_all add: U_def)
  moreover have "timer_rel (foldl add_node U ms) pend"
    using fo(1) by (rule timer_rel_cong) (simp add: e_rest e_ms)
  moreover have "move_list (T\<lparr>tm_time := c\<rparr>) i j = Some (foldl add_node U ms)"
    using v by (simp add: move_list_def U_def ms_def)
  ultimately show ?thesis by (auto simp: frame_def U_def)
qed

lemma shift_target_valid:
  "shift_target c = Some s \<Longrightarrow> \<exists>i j. s = Lev i j \<and> i < 4 \<and> j < 64"
  by (auto simp: shift_target_def split: if_splits)

theorem timer_shift_rel:
  assumes r: "timer_rel T pend" and f: "\<forall>n \<in> set pend. fut (expire n) (tm_time T)"
  shows "\<exists>T'. timer_shift T = Some T' \<and> timer_rel T' pend \<and>
    frame (T\<lparr>tm_time := tm_time T + 1\<rparr>) T' \<and> lock T' = lock T"
proof (cases "shift_target (unat (tm_time T + 1))")
  case None
  define T' where "T' = T\<lparr>tm_time := tm_time T + 1\<rparr>"
  have st: "slot_of (unat e) (unat (tm_time T + 1)) = slot_of (unat e) (unat (tm_time T))"
    if "at_exp e pend \<noteq> []" for e
    using slot_stays [of e "tm_time T"] f that None by (auto simp: at_exp_Nil)
  have sl: "slot_list T' s = slot_list T s" for s by (cases s) (simp_all add: T'_def)
  have at: "at_exp e (slot_list T s) =
      (if slot_of (unat e) (unat (tm_time T + 1)) = s then at_exp e pend else [])" if "valid_slot s" for e s
    using r that st [of e] by (cases "at_exp e pend = []") (simp_all add: timer_rel_alt)
  have "timer_rel T' pend"
    unfolding timer_rel_alt sl using r at by (simp add: timer_rel_alt T'_def shape_def)
  then show ?thesis using None by (simp add: timer_shift_eq T'_def)
next
  case (Some s)
  then obtain i j where s: "s = Lev i j" "i < 4" "j < 64" using shift_target_valid by blast
  have "\<exists>T'. move_list (T\<lparr>tm_time := tm_time T + 1\<rparr>) i j = Some T' \<and> timer_rel T' pend \<and>
    frame (T\<lparr>tm_time := tm_time T + 1\<rparr>) T' \<and> lock T' = lock T"
  proof (rule move_list_rel [OF r s(2,3)])
    fix e assume "e \<in> expire ` set pend"
    then show "slot_of (unat e) (unat (tm_time T + 1)) = slot_of (unat e) (unat (tm_time T)) \<or>
      slot_of (unat e) (unat (tm_time T)) = Lev i j"
      using f slot_stays [of e "tm_time T"] Some s(1) by auto
  qed
  with Some s(1) show ?thesis by (simp add: timer_shift_eq)
qed

lemma spin_simps [simp]:
  "lock T = 0 \<Longrightarrow> spinlock_lock T = Some (T\<lparr>lock := 1\<rparr>)"
  "lock T \<noteq> 0 \<Longrightarrow> spinlock_lock T = None"
  "lock (spinlock_unlock T) = 0"
  "timer_rel (spinlock_unlock T) pend = timer_rel T pend"
  "frame T (spinlock_unlock T)"
  by (simp_all add: spinlock_lock_def spinlock_unlock_def frame_def)

lemma frame_lock [simp]: "frame T (T\<lparr>lock := l\<rparr>)"
  by (simp add: frame_def)

lemma fut_new:
  assumes "0 < sint (ti::u32)"
  shows "fut (ti + c) c"
proof -
  from assms have "unat ti < 2147483648" "ti \<noteq> 0" unfolding sint_pos_u32 by auto
  then show ?thesis by (simp add: fut_def)
qed

lemma timeout_rel:
  assumes "timer_rel T pend" "lock T = 0"
  shows "\<exists>T'. timeout T h ti = Some (T', if 0 < sint ti then 1 else -1) \<and>
    timer_rel T' (pend @ spec_adds (tm_time T) [(h, ti)]) \<and> lock T' = 0 \<and> frame T T'"
proof (cases "0 < sint ti")
  case True
  define n where "n = \<lparr>expire = ti + tm_time T, handle = h\<rparr>"
  have "timer_rel (T\<lparr>lock := 1\<rparr>) pend" using assms by simp
  from timer_rel_add_node [OF this, of n] show ?thesis
    using True assms by (auto simp: timeout_def timer_add_def spec_adds_def n_def frame_def spinlock_unlock_def)
qed (use assms in \<open>auto simp: timeout_def spec_adds_def\<close>)

lemma spec_adds_Cons: "spec_adds c (x # xs) = spec_adds c [x] @ spec_adds c xs"
  by (simp add: spec_adds_def)

lemma spec_adds_Nil [simp]: "spec_adds c [] = []"
  by (simp add: spec_adds_def)

lemma spec_adds_fut: "n \<in> set (spec_adds c adds) \<Longrightarrow> fut (expire n) c"
  by (auto simp: spec_adds_def intro: fut_new)

lemma timer_adds_rel:
  assumes "timer_rel T pend" "lock T = 0"
  shows "\<exists>T'. timer_adds T adds = Some T' \<and> timer_rel T' (pend @ spec_adds (tm_time T) adds) \<and>
    lock T' = 0 \<and> frame T T'"
  using assms
proof (induction adds arbitrary: T pend)
  case (Cons a adds)
  obtain h ti where a: "a = (h, ti)" by force
  from timeout_rel [OF Cons.prems, of h ti] obtain T1 r where
    1: "timeout T h ti = Some (T1, r)" "timer_rel T1 (pend @ spec_adds (tm_time T) [(h, ti)])"
      "lock T1 = 0" "frame T T1" by blast
  from Cons.IH [OF 1(2,3)] 1 frame_trans [OF 1(4)] show ?case
    by (auto simp: a spec_adds_Cons [of _ "(h, ti)" adds] frameD(1) [OF 1(4)])
qed simp

lemma spec_fire_fut: "n \<in> set (snd (spec_fire cb c e ns)) \<Longrightarrow> fut (expire n) c"
  by (induction cb c e ns rule: spec_fire.induct) (auto split: prod.splits dest: spec_adds_fut)

lemma dispatch_list_rel:
  assumes "timer_rel T pend" "lock T = 0" "on_timer T = Some cb" "ns \<noteq> []"
  shows "\<exists>T'. dispatch_list T e ns = Some (T', fst (spec_fire cb (tm_time T) e ns), map handle ns) \<and>
    timer_rel T' (pend @ snd (spec_fire cb (tm_time T) e ns)) \<and> lock T' = 0 \<and> frame T T'"
  using assms
proof (induction ns arbitrary: T pend e)
  case (Cons n ns)
  obtain e1 adds where cb: "cb e (handle n) = (e1, adds)" by force
  from timer_adds_rel [OF Cons.prems(1,2), of adds] obtain T1 where
    1: "timer_adds T adds = Some T1" "timer_rel T1 (pend @ spec_adds (tm_time T) adds)"
      "lock T1 = 0" "frame T T1" by blast
  show ?case
  proof (cases "ns = []")
    case True
    with 1 cb Cons.prems(3) show ?thesis by simp
  next
    case False
    from Cons.IH [OF 1(2,3) _ False, of e1] 1 frame_trans [OF 1(4)] frameD [OF 1(4)] Cons.prems(3) cb False
    show ?thesis by (fastforce split: prod.splits)
  qed
qed simp

lemma due_slot:
  assumes "timer_rel T pend"
  shows "near T ! unat (tm_time T AND 255) = at_exp (tm_time T) pend"
    and "timer_rel (T\<lparr>near := (near T)[unat (tm_time T AND 255) := []]\<rparr>)
       (filter (\<lambda>n. expire n \<noteq> tm_time T) pend)"
proof -
  let ?c = "tm_time T" and ?j = "unat (tm_time T AND 255)"
  let ?U = "T\<lparr>near := (near T)[?j := []]\<rparr>"
  have j: "?j = unat ?c mod 256" "?j < 256" by (simp_all add: and_low)
  have sc: "slot_of (unat e) (unat ?c) = Near ?j \<longleftrightarrow> e = ?c" for e
  proof -
    have "unat e div 256 = unat ?c div 256 \<and> unat e mod 256 = unat ?c mod 256 \<longleftrightarrow> unat e = unat ?c"
      by (metis div_mult_mod_eq)
    then show ?thesis by (auto simp: slot_of_def j(1) word_unat_eq_iff)
  qed
  have sh: "shape T" "shape ?U" using assms by (auto simp: timer_rel_def shape_def)
  have at: "at_exp e (slot_list T s) = (if slot_of (unat e) (unat ?c) = s then at_exp e pend else [])"
    if "valid_slot s" for e s using assms that by (simp add: timer_rel_alt)
  have e: "at_exp e (near T ! ?j) = (if e = ?c then at_exp e pend else [])" for e
    using at [of "Near ?j" e] j(2) sc by simp
  have "\<forall>n \<in> set (near T ! ?j). expire n = ?c"
    using e at_exp_Nil by (metis imageI)
  then have "near T ! ?j = at_exp ?c (near T ! ?j)" by (simp add: at_exp_def)
  with e [of ?c] show "near T ! ?j = at_exp ?c pend" by simp
  have sl: "slot_list ?U s = (if s = Near ?j then [] else slot_list T s)" for s
    using sh j(2) by (cases s) (auto simp: shape_def nth_list_update_if)
  show "timer_rel ?U (filter (\<lambda>n. expire n \<noteq> ?c) pend)"
    using sh(2) at sc at_exp_filter [of _ "\<lambda>x. x \<noteq> ?c" pend] unfolding timer_rel_alt sl by auto
qed

lemma exec_rel:
  assumes r: "timer_rel T pend" and l: "lock T = 1" and cb: "on_timer T = Some cb"
  defines "due \<equiv> filter (\<lambda>n. expire n = tm_time T) pend"
  shows "\<exists>T'. timer_execute T e = Some (T', fst (spec_fire cb (tm_time T) e due), map handle due) \<and>
    timer_rel T' (filter (\<lambda>n. expire n \<noteq> tm_time T) pend @ snd (spec_fire cb (tm_time T) e due)) \<and>
    lock T' = 1 \<and> frame T T'"
proof -
  let ?c = "tm_time T" and ?j = "unat (tm_time T AND 255)"
  let ?rest = "filter (\<lambda>n. expire n \<noteq> ?c) pend"
  have nj: "near T ! ?j = due" using due_slot(1) [OF r] by (simp add: due_def at_exp_def)
  show ?thesis
  proof (cases "due = []")
    case True
    have "timer_rel T ?rest"
      by (rule timer_rel_cong [OF r])
        (use True in \<open>auto simp: due_def at_exp_def filter_empty_conv intro!: filter_cong\<close>)
    moreover have "timer_execute T e = Some (T, e, [])"
      unfolding timer_execute_def by (subst execute_loop.simps) (simp add: nj True)
    ultimately show ?thesis using True l by auto
  next
    case False
    define U where "U = spinlock_unlock (T\<lparr>near := (near T)[?j := []]\<rparr>)"
    have U: "timer_rel U ?rest" "lock U = 0" "on_timer U = Some cb" "tm_time U = ?c" "frame T U"
      using due_slot(2) [OF r] cb by (simp_all add: U_def spinlock_unlock_def frame_def)
    let ?sf = "spec_fire cb ?c e due"
    from dispatch_list_rel [OF U(1-3) False, of e] U(4) obtain T1 where
      1: "dispatch_list U e due = Some (T1, fst ?sf, map handle due)" "timer_rel T1 (?rest @ snd ?sf)"
        "lock T1 = 0" "frame U T1" by auto
    define T2 where "T2 = T1\<lparr>lock := 1\<rparr>"
    have 2: "timer_rel T2 (?rest @ snd ?sf)" "frame T T2" "lock T2 = 1"
      using 1 frame_trans [OF U(5) 1(4)] frame_trans [of T T1 T2] by (simp_all add: T2_def)
    have "filter (\<lambda>n. expire n = ?c) (?rest @ snd ?sf) = []"
      by (auto simp: filter_empty_conv fut_def dest: spec_fire_fut)
    then have emp: "near T2 ! ?j = []"
      using due_slot(1) [OF 2(1)] frameD(1) [OF 2(2)] by (simp add: at_exp_def)
    have "execute_loop ?j T2 (fst ?sf) (map handle due) = Some (T2, fst ?sf, map handle due)"
      by (subst execute_loop.simps) (simp add: emp)
    then have "timer_execute T e = Some (T2, fst ?sf, map handle due)"
      unfolding timer_execute_def using False 1(1,3)
      by (subst execute_loop.simps) (simp add: nj T2_def flip: U_def)
    with 2 show ?thesis by auto
  qed
qed

definition timer_wf :: "'e timer \<Rightarrow> timer_node list \<Rightarrow> bool" where
  "timer_wf T pend \<longleftrightarrow> lock T = 0 \<and> timer_rel T pend \<and> (\<forall>n \<in> set pend. fut (expire n) (tm_time T))"

definition timer_sim :: "'e timer_cb \<Rightarrow> 'e timer \<times> 'e \<Rightarrow> 'e calendar \<Rightarrow> bool" where
  "timer_sim cb s k \<longleftrightarrow> timer_wf (fst s) (pending k) \<and> on_timer (fst s) = Some cb \<and>
     tm_time (fst s) = now k \<and> snd s = env k"

theorem timer_update_sim:
  assumes "timer_sim cb (T, e) k"
  shows "\<exists>T'. timer_update T e = Some (T', env (fst (cal_tick cb k)), snd (cal_tick cb k)) \<and>
    timer_sim cb (T', env (fst (cal_tick cb k))) (fst (cal_tick cb k)) \<and>
    frame (T\<lparr>tm_time := tm_time T + 1\<rparr>) T'"
proof -
  let ?p = "pending k" and ?c = "tm_time T + 1"
  have wf: "timer_rel T ?p" "lock T = 0" "on_timer T = Some cb" "now k = tm_time T" "env k = e"
      "\<forall>n \<in> set ?p. fut (expire n) (tm_time T)"
    using assms by (auto simp: timer_sim_def timer_wf_def)
  define L where "L = T\<lparr>lock := 1\<rparr>"
  have L: "timer_rel L ?p" "lock L = 1" "on_timer L = Some cb" "tm_time L = tm_time T" "frame T L"
    using wf by (simp_all add: L_def)
  have none: "filter (\<lambda>n. expire n = tm_time T) ?p = []" "filter (\<lambda>n. expire n \<noteq> tm_time T) ?p = ?p"
    using wf(6) by (auto simp: filter_empty_conv fut_def intro!: filter_True)
  from exec_rel [OF L(1-3), of e] L(4) none obtain T1 where
    1: "timer_execute L e = Some (T1, e, [])" "timer_rel T1 ?p" "lock T1 = 1" "frame L T1" by auto
  have t1: "tm_time T1 = tm_time T" using frameD(1) [OF 1(4)] L(4) by simp
  from timer_shift_rel [OF 1(2)] wf(6) t1 1(3) obtain T2 where
    2: "timer_shift T1 = Some T2" "timer_rel T2 ?p" "frame (T1\<lparr>tm_time := ?c\<rparr>) T2" "lock T2 = 1" by auto
  have u2: "tm_time T2 = ?c" "on_timer T2 = Some cb"
    using 2(3) 1(4) L(5) wf(3) by (simp_all add: frame_def)
  define due where "due = filter (\<lambda>n. expire n = ?c) ?p"
  define sf where "sf = spec_fire cb ?c e due"
  from exec_rel [OF 2(2) 2(4) u2(2), of e] obtain T3 where
    3: "timer_execute T2 e = Some (T3, fst sf, map handle due)"
      "timer_rel T3 (filter (\<lambda>n. expire n \<noteq> ?c) ?p @ snd sf)" "lock T3 = 1" "frame T2 T3"
    by (auto simp: u2(1) sf_def due_def)
  have k: "cal_tick cb k = (\<lparr>now = ?c, pending = filter (\<lambda>n. expire n \<noteq> ?c) ?p @ snd sf, env = fst sf\<rparr>,
      map handle due)"
    by (simp add: cal_tick_def wf(4,5) sf_def due_def Let_def split: prod.split)
  have fu: "\<forall>n \<in> set (filter (\<lambda>n. expire n \<noteq> ?c) ?p @ snd sf). fut (expire n) ?c"
    using wf(6) fut_step spec_fire_fut unfolding sf_def by fastforce
  have up: "timer_update T e = Some (spinlock_unlock T3, fst sf, map handle due)"
    using wf(2) 1(1) 2(1) 3(1) by (simp add: timer_update_def L_def)
  have fr: "frame (T\<lparr>tm_time := ?c\<rparr>) (spinlock_unlock T3)"
    using L(5) 1(4) 2(3) 3(4) by (simp add: frame_def spinlock_unlock_def)
  have "timer_sim cb (spinlock_unlock T3, fst sf) (fst (cal_tick cb k))"
    using 3(2) fu fr wf(3) by (simp add: k timer_sim_def timer_wf_def frame_def)
  with up fr show ?thesis by (auto simp: k)
qed


end
