(* ===== verification/Timer_Props.thy ===== *)
theory Timer_Props
  imports Timer_Correct
begin

text \<open>
  The properties of the timing wheel: the calendar of \<^verbatim>\<open>Timer_Correct\<close> and the wheel run in
  lockstep, so that every timer is called back on its tick, and the clock of the component
  performs one tick per hundredth of a second.
\<close>

section \<open>The wheel follows the calendar\<close>

definition wheel_step :: "'e timer \<times> 'e \<Rightarrow> (('e timer \<times> 'e) \<times> u32 list) option" where
  "wheel_step s = map_option (\<lambda>(T, e, hs). ((T, e), hs)) (timer_update (fst s) (snd s))"

lemma update_ticks_run:
  "update_ticks n T e = map_option (\<lambda>((T, e), hs). (T, e, hs)) (run_steps wheel_step n (T, e))"
proof (induction n arbitrary: T e)
  case (Suc n)
  show ?case by (cases "timer_update T e") (auto simp: wheel_step_def Suc option.map_comp split: bind_splits)
qed simp

interpretation wheel: lockstep wheel_step "cal_tick cb" "timer_sim cb" for cb :: "'e timer_cb"
proof
  fix s :: "'e timer \<times> 'e" and k
  assume "timer_sim cb s k"
  then show "\<exists>s'. wheel_step s = Some (s', snd (cal_tick cb k)) \<and> timer_sim cb s' (fst (cal_tick cb k))"
    using timer_update_sim [of cb "fst s" "snd s" k] by (auto simp: wheel_step_def)
qed

text \<open>The empty calendar and the fresh wheel.\<close>

lemma slot_list_init: "valid_slot s \<Longrightarrow> slot_list (set_on_timer (timer_init rt mt) cb) s = []"
  by (cases s) (auto simp: set_on_timer_def timer_init_def timer_create_timer_def)

lemma timer_init_sim:
  "timer_sim cb (set_on_timer (timer_init rt mt) cb, e) \<lparr>now = 0, pending = [], env = e\<rparr>"
  by (simp add: timer_sim_def timer_wf_def timer_rel_alt slot_list_init)
    (simp add: shape_def set_on_timer_def timer_init_def timer_create_timer_def)

text \<open>
  C1: Running the clock by any number of ticks, the wheel never deadlocks on its spin lock, never
  calls a missing callback or leaves its arrays, and calls back exactly the handles that the
  calendar fires, in the order in which they were added, leaving a wheel that represents the
  calendar's remaining timers.
\<close>

theorem update_ticks_refines:
  assumes "timer_sim cb (T, e) k"
  shows "\<exists>T'. update_ticks n T e =
      Some (T', env (fst (run_spec (cal_tick cb) n k)), snd (run_spec (cal_tick cb) n k)) \<and>
    timer_sim cb (T', env (fst (run_spec (cal_tick cb) n k))) (fst (run_spec (cal_tick cb) n k))"
proof -
  from wheel.run_sim [OF assms, of n] obtain T' e' where
    "run_steps wheel_step n (T, e) = Some ((T', e'), snd (run_spec (cal_tick cb) n k))"
    "timer_sim cb (T', e') (fst (run_spec (cal_tick cb) n k))" by auto
  then show ?thesis by (auto simp: update_ticks_run timer_sim_def)
qed

lemma update_ticks_refines_witness:
  "\<exists>T'. update_ticks 2 (set_on_timer (timer_init (0, 0) (0, 0)) (\<lambda>e h. (e, [(h, 1)]))) () =
     Some (T', (), snd (run_spec (cal_tick (\<lambda>e h. (e, [(h, 1)]))) 2 \<lparr>now = 0, pending = [], env = ()\<rparr>))"
  using update_ticks_refines [OF timer_init_sim [of "\<lambda>e h. (e, [(h, 1)])" "(0, 0)" "(0, 0)" "()"], of 2]
  by auto

text \<open>Every pending timer is stored in the wheel, and nothing else is.\<close>

lemma stored_iff_pending:
  assumes "timer_rel T p"
  shows "(\<exists>s. valid_slot s \<and> n \<in> set (slot_list T s)) \<longleftrightarrow> n \<in> set p"
proof -
  let ?s = "slot_of (unat (expire n)) (unat (tm_time T))"
  have at: "n \<in> set ns \<longleftrightarrow> n \<in> set (at_exp (expire n) ns)" for ns by (simp add: at_exp_def)
  have "valid_slot s \<Longrightarrow> at_exp (expire n) (slot_list T s) = (if ?s = s then at_exp (expire n) p else [])" for s
    using assms by (simp add: timer_rel_alt)
  moreover have "valid_slot ?s" by (simp add: slot_of_valid)
  ultimately show ?thesis using at by (metis empty_iff empty_set)
qed

lemma cal_tick_now: "now (fst (cal_tick cb k)) = now k + 1"
  by (simp add: cal_tick_def Let_def split: prod.split)

lemma fst_run_spec_Suc: "fst (run_spec f (Suc m) a) = fst (run_spec f m (fst (f a)))"
  by (simp split: prod.split)

lemma run_spec_now: "now (fst (run_spec (cal_tick cb) m k)) = now k + of_nat m"
proof (induction m arbitrary: k)
  case (Suc m)
  then show ?case by (simp add: fst_run_spec_Suc cal_tick_now del: run_spec.simps)
qed simp

lemma cal_tick_keeps:
  "n \<in> set (pending k) \<Longrightarrow> expire n \<noteq> now k + 1 \<Longrightarrow> n \<in> set (pending (fst (cal_tick cb k)))"
  by (simp add: cal_tick_def Let_def split: prod.split)

lemma cal_tick_fires:
  "n \<in> set (pending k) \<Longrightarrow> expire n = now k + 1 \<Longrightarrow> handle n \<in> set (snd (cal_tick cb k))"
  by (auto simp: cal_tick_def Let_def split: prod.split)

lemma run_spec_keeps:
  "n \<in> set (pending k) \<Longrightarrow> m < unat (expire n - now k) \<Longrightarrow>
     n \<in> set (pending (fst (run_spec (cal_tick cb) m k)))"
proof (induction m arbitrary: k)
  case (Suc m)
  let ?k = "fst (cal_tick cb k)"
  have ne: "expire n - now k \<noteq> 0" "expire n \<noteq> now k + 1" using Suc.prems(2) by auto
  have eq: "expire n - now ?k = (expire n - now k) - 1" by (simp add: cal_tick_now)
  have "unat (expire n - now ?k) = unat (expire n - now k) - 1"
    using unat_minus_one [OF ne(1)] unfolding eq .
  then have "m < unat (expire n - now ?k)" using Suc.prems(2) by linarith
  from Suc.IH [OF cal_tick_keeps [OF Suc.prems(1) ne(2)] this] show ?case
    by (simp add: fst_run_spec_Suc del: run_spec.simps)
qed simp

text \<open>
  C2: A timer added with a positive \<open>timeout\<close> is accepted, stays stored in the wheel for every
  number of ticks below its timeout, and its handle is called back by the tick that completes
  the timeout, whatever timers the callbacks add meanwhile and also when the 32-bit clock wraps.
\<close>

theorem timer_fires_on_time:
  assumes "timer_sim cb (T, e) k" and "0 < sint ti"
  shows "\<exists>T1. timeout T h ti = Some (T1, 1) \<and>
    (\<forall>m < unat ti. \<exists>T2 e2 hs. update_ticks m T1 e = Some (T2, e2, hs) \<and>
       (\<exists>s. valid_slot s \<and> \<lparr>expire = ti + tm_time T, handle = h\<rparr> \<in> set (slot_list T2 s)) \<and>
       (Suc m = unat ti \<longrightarrow> (\<exists>T3 e3 hs3. timer_update T2 e2 = Some (T3, e3, hs3) \<and> h \<in> set hs3)))"
proof -
  define n where "n = \<lparr>expire = ti + tm_time T, handle = h\<rparr>"
  define k1 where "k1 = k\<lparr>pending := pending k @ [n]\<rparr>"
  have wf: "timer_rel T (pending k)" "lock T = 0" "now k = tm_time T"
    using assms(1) by (auto simp: timer_sim_def timer_wf_def)
  from timeout_rel [OF wf(1,2), of h ti] assms(2) obtain T1 where
    1: "timeout T h ti = Some (T1, 1)" "timer_rel T1 (pending k @ [n])" "lock T1 = 0" "frame T T1"
    by (auto simp: spec_adds_def n_def)
  have s1: "timer_sim cb (T1, e) k1"
    using 1 assms fut_new [OF assms(2)]
    by (auto simp: timer_sim_def timer_wf_def k1_def n_def frame_def)
  have now1: "now k1 = tm_time T" "n \<in> set (pending k1)" "unat (expire n - now k1) = unat ti"
    by (simp_all add: k1_def wf(3) n_def)
  have "\<exists>T2 e2 hs. update_ticks m T1 e = Some (T2, e2, hs) \<and>
       (\<exists>s. valid_slot s \<and> n \<in> set (slot_list T2 s)) \<and>
       (Suc m = unat ti \<longrightarrow> (\<exists>T3 e3 hs3. timer_update T2 e2 = Some (T3, e3, hs3) \<and> h \<in> set hs3))"
    if m: "m < unat ti" for m
  proof -
    let ?k2 = "fst (run_spec (cal_tick cb) m k1)"
    have p: "n \<in> set (pending ?k2)" using run_spec_keeps now1 m by metis
    obtain T2 where 2: "update_ticks m T1 e = Some (T2, env ?k2, snd (run_spec (cal_tick cb) m k1))"
      "timer_sim cb (T2, env ?k2) ?k2"
      using update_ticks_refines [OF s1, of m] by blast
    have st: "\<exists>s. valid_slot s \<and> n \<in> set (slot_list T2 s)"
      using stored_iff_pending [of T2 "pending ?k2" n] 2(2) p by (simp add: timer_sim_def timer_wf_def)
    have "\<exists>T3 e3 hs3. timer_update T2 (env ?k2) = Some (T3, e3, hs3) \<and> h \<in> set hs3" if "Suc m = unat ti"
    proof -
      have "of_nat (Suc m) = ti" using that by simp
      then have "expire n = now ?k2 + 1"
        by (simp add: run_spec_now now1 n_def) (metis add.commute of_nat_Suc)
      from cal_tick_fires [OF p this, of cb] timer_update_sim [OF 2(2)]
      show ?thesis by (auto simp: n_def)
    qed
    with 2(1) st show ?thesis by blast
  qed
  with 1(1) show ?thesis by (auto simp: n_def)
qed

lemma timer_fires_on_time_witness:
  "\<exists>T1. timeout (set_on_timer (timer_init (0, 0) (0, 0)) (\<lambda>e h. (e, []))) 7 300 = Some (T1, 1) \<and>
    (\<exists>T2 hs. update_ticks 299 T1 () = Some (T2, (), hs) \<and>
       (\<exists>T3 hs3. timer_update T2 () = Some (T3, (), hs3) \<and> 7 \<in> set hs3))"
proof -
  have p: "0 < sint (300::u32)" and u: "unat (300::u32) = 300" by simp_all
  from timer_fires_on_time [OF timer_init_sim [of "\<lambda>e h. (e, [])" "(0, 0)" "(0, 0)" "()"] p, of 7, unfolded u]
  obtain T1 where
    "timeout (set_on_timer (timer_init (0, 0) (0, 0)) (\<lambda>e h. (e, []))) 7 300 = Some (T1, 1)"
    "\<And>m. m < 300 \<Longrightarrow> \<exists>T2 e2 hs. update_ticks m T1 () = Some (T2, e2, hs) \<and>
      (Suc m = 300 \<longrightarrow> (\<exists>T3 e3 hs3. timer_update T2 e2 = Some (T3, e3, hs3) \<and> 7 \<in> set hs3))" by blast
  from this(1) this(2) [of 299] show ?thesis by auto
qed

text \<open>
  C35: Whatever the state of the wheel, moving the clock on terminates and moves a slot that exists:
  the loop of \<open>timer_shift\<close> never reaches a fifth level.
\<close>

theorem timer_shift_total: "\<exists>T'. timer_shift T = Some T'"
proof (cases "shift_target (unat (tm_time T + 1))")
  case (Some s)
  with shift_target_valid obtain i j where "s = Lev i j" "i < 4" "j < 64" by blast
  with Some show ?thesis by (simp add: timer_shift_eq move_list_def)
qed (simp add: timer_shift_eq)

lemma update_ticks_clock:
  assumes "timer_sim cb (T, e) k" "update_ticks n T e = Some (T', e', hs)"
  shows "current T' = current T \<and> current_point T' = current_point T"
  using assms
proof (induction n arbitrary: T e k hs)
  case (Suc n)
  from timer_update_sim [OF Suc.prems(1)] Suc.prems(2) obtain T1 hs2 where
    "timer_sim cb (T1, env (fst (cal_tick cb k))) (fst (cal_tick cb k))"
    "frame (T\<lparr>tm_time := tm_time T + 1\<rparr>) T1"
    "update_ticks n T1 (env (fst (cal_tick cb k))) = Some (T', e', hs2)"
    by (auto split: bind_splits)
  with Suc.IH show ?case by (fastforce simp: frame_def)
qed simp

lemma timer_sim_clock:
  "timer_sim cb (T\<lparr>current_point := cp, current := cu\<rparr>, e) k = timer_sim cb (T, e) k"
  "timer_sim cb (T\<lparr>current_point := cp\<rparr>, e) k = timer_sim cb (T, e) k"
proof -
  have "slot_list (T\<lparr>current_point := cp, current := cu\<rparr>) s = slot_list T s"
    "slot_list (T\<lparr>current_point := cp\<rparr>) s = slot_list T s" for s by (cases s; simp)+
  then show "timer_sim cb (T\<lparr>current_point := cp, current := cu\<rparr>, e) k = timer_sim cb (T, e) k"
    "timer_sim cb (T\<lparr>current_point := cp\<rparr>, e) k = timer_sim cb (T, e) k"
    by (simp_all add: timer_sim_def timer_wf_def timer_rel_def shape_def)
qed

text \<open>
  C34: \<open>updatetime\<close> always returns.  When the monotonic clock has moved on it performs one tick per
  elapsed hundredth of a second (the difference as a 32-bit count) and adds the count to
  \<open>current\<close>; when the clock went back or stands still no timer fires.  In every case the clock
  reading is stored.
\<close>

theorem updatetime_spec:
  fixes T :: "'e timer" and cp :: u64
  assumes "timer_sim cb (T, e) k"
  defines "n \<equiv> (if current_point T \<le> cp then unat (ucast (cp - current_point T) :: u32) else 0)"
  shows "\<exists>T' e'. updatetime cp T e = Some (T', e', snd (run_spec (cal_tick cb) n k)) \<and>
    timer_sim cb (T', e') (fst (run_spec (cal_tick cb) n k)) \<and>
    current_point T' = cp \<and> current T' = current T + of_nat n"
proof -
  define U where "U = T\<lparr>current_point := cp, current := current T + of_nat n\<rparr>"
  have "timer_sim cb (U, e) k" using assms(1) by (simp add: U_def timer_sim_clock)
  note s = this
  from update_ticks_refines [OF s, of n] obtain T' where
    1: "update_ticks n U e = Some (T', env (fst (run_spec (cal_tick cb) n k)), snd (run_spec (cal_tick cb) n k))"
      "timer_sim cb (T', env (fst (run_spec (cal_tick cb) n k))) (fst (run_spec (cal_tick cb) n k))" by blast
  have c: "current T' = current T + of_nat n" "current_point T' = cp"
    using update_ticks_clock [OF s 1(1)] by (simp_all add: U_def)
  consider "cp < current_point T" | "cp = current_point T" | "current_point T < cp" by force
  then show ?thesis
  proof cases
    case 3
    have "(of_nat (unat (ucast (cp - current_point T) :: u32)) :: u64) = ucast (ucast (cp - current_point T) :: u32)"
      by (simp add: of_nat_unat)
    moreover have "\<not> cp < current_point T" "cp \<noteq> current_point T" "current_point T \<le> cp" using 3 by auto
    ultimately have "updatetime cp T e = update_ticks n U e"
      by (simp add: updatetime_def U_def n_def Let_def)
    with 1 c show ?thesis by auto
  next
    case 1
    then have "updatetime cp T e = Some (T\<lparr>current_point := cp\<rparr>, e, [])" "n = 0"
      by (auto simp: updatetime_def n_def)
    then show ?thesis using assms(1) by (simp add: timer_sim_clock)
  next
    case 2
    then have "updatetime cp T e = Some (T, e, [])" "n = 0"
      by (auto simp: updatetime_def n_def)
    then show ?thesis using assms(1) 2 by simp
  qed
qed

lemma updatetime_spec_witness:
  "\<exists>T'. updatetime 5 (set_on_timer (timer_init (0, 0) (0, 20000000)) (\<lambda>e h. (e, []))) () = Some (T', (), []) \<and>
    current T' = 3"
proof -
  let ?T = "set_on_timer (timer_init (0, 0) (0, 20000000)) (\<lambda>e h. ((), []))"
  have c: "current_point ?T = 2" "current ?T = 0"
    by (simp_all add: set_on_timer_def timer_init_def gettime_def systime_def c_div_def)
  have n: "(if (2::u64) \<le> 5 then unat (ucast (5 - 2 :: u64) :: u32) else 0) = 3" by simp
  have r: "run_spec (cal_tick (\<lambda>e h. ((), []))) 3 \<lparr>now = 0, pending = [], env = ()\<rparr> =
      (\<lparr>now = 3, pending = [], env = ()\<rparr>, [])"
    by (simp add: numeral_3_eq_3 cal_tick_def)
  from updatetime_spec [OF timer_init_sim [of "\<lambda>e h. ((), [])" "(0, 0)" "(0, 20000000)" "()"], of 5,
      unfolded c n r]
  show ?thesis by auto
qed
end
