(* ===== verification/Timer_Free.thy ===== *)
theory Timer_Free
  imports Timer_Props "HOL-Library.Multiset"
begin

text \<open>
  The end of a wheel: \<open>timer_free\<close> of \<^verbatim>\<open>src/depends/timer/timer.c\<close> gives the nodes of all slots back.  The functions return the nodes in
  the order in which they are given back.
\<close>

fun link_list_free :: "timer_node list \<Rightarrow> timer_node list" where
  "link_list_free [] = []"
| "link_list_free (node # nxt) = node # link_list_free nxt"

definition timer_free :: "'e timer \<Rightarrow> timer_node list" where
  "timer_free T =
     concat (map (\<lambda>i. link_list_free (near T ! i)) [0..<256]) @
     concat (map (\<lambda>i. concat (map (\<lambda>j. link_list_free (tvec T ! i ! j)) [0..<64])) [0..<4])"

lemma link_list_free_id: "link_list_free ns = ns"
  by (induction ns) simp_all

text \<open>The slots, in the order of the loops.\<close>

definition all_slots :: "slot list" where
  "all_slots = map Near [0..<256] @ concat (map (\<lambda>i. map (Lev i) [0..<64]) [0..<4])"

lemma all_slots_set: "set all_slots = {s. valid_slot s}"
proof -
  have "s \<in> set all_slots \<longleftrightarrow> valid_slot s" for s by (cases s) (force simp: all_slots_def)+
  then show ?thesis by blast
qed

lemma Lev_rows_inj: "0 < n \<Longrightarrow> inj_on (\<lambda>i. map (Lev i) [0..<n]) A"
  by (rule inj_onI, cases n) (simp_all add: upt_conv_Cons del: upt_Suc)

lemma rows_distinct: "0 < n \<Longrightarrow> distinct (concat (map (\<lambda>i. map (Lev i) [0..<n]) [0..<m]))"
  by (rule distinct_concat) (auto simp: distinct_map Lev_rows_inj inj_on_def)

lemma all_slots_distinct: "distinct all_slots"
  unfolding all_slots_def distinct_append using rows_distinct [of 64 4] by (auto simp: distinct_map inj_on_def simp del: upt_Suc)

lemma timer_free_slots: "timer_free T = concat (map (slot_list T) all_slots)"
  
proof -
  have c: "concat (map f (concat (map g is))) = concat (map (\<lambda>i. concat (map f (g i))) is)" for f :: "slot \<Rightarrow> timer_node list" and g and "is" :: "nat list"
    by (induction "is") simp_all
  show ?thesis by (simp add: timer_free_def all_slots_def link_list_free_id c comp_def del: upt_Suc)
qed

lemma count_slots:
  assumes "\<And>s. s \<in> set ss \<Longrightarrow> count (mset (f s)) n = (if s = s0 then c else 0)" "distinct ss"
  shows "count (mset (concat (map f ss))) n = (if s0 \<in> set ss then c else 0)"
  using assms by (induction ss) auto

text \<open>Every pending timer is given back exactly once, and nothing else.\<close>

theorem timer_free_frees_all:
  assumes "timer_rel T pend"
  shows "mset (timer_free T) = mset pend"
proof (rule multiset_eqI)
  fix n :: timer_node
  let ?s = "slot_of (unat (expire n)) (unat (tm_time T))"
  have at: "count (mset ns) n = count (mset (at_exp (expire n) ns)) n" for ns :: "timer_node list"
    by (induction ns) (auto simp: at_exp_def)
  have "count (mset (slot_list T s)) n = (if s = ?s then count (mset pend) n else 0)" if "s \<in> set all_slots" for s
  proof -
    have "at_exp (expire n) (slot_list T s) = (if ?s = s then at_exp (expire n) pend else [])"
      using assms that by (simp add: timer_rel_alt all_slots_set)
    then show ?thesis using at [of "slot_list T s"] at [of pend] by auto
  qed
  from count_slots [of all_slots "slot_list T" n ?s "count (mset pend) n", OF this all_slots_distinct]
  show "count (mset (timer_free T)) n = count (mset pend) n"
    by (simp add: timer_free_slots all_slots_set slot_of_valid)
qed

end
