(* ===== verification/Lua_Number.thy ===== *)
theory Lua_Number
  imports Complex_Main Prelude
begin

text \<open>
  The C type \<open>double\<close> that Lua numbers have, its comparisons and its conversion to integer types.
\<close>

section \<open>Numbers of type \<open>double\<close>\<close>

text \<open>
  \<open>Fin\<close> is a finite value; the two zeros compare equal in C
  and are one value here.  Every comparison with \<open>NaN\<close> is false.
\<close>

datatype dbl = NaN | NegInf | Fin rat | PosInf

instantiation dbl :: linorder
begin

fun less_dbl :: "dbl \<Rightarrow> dbl \<Rightarrow> bool" where
  "less_dbl NaN y = (y \<noteq> NaN)"
| "less_dbl NegInf y = (y \<noteq> NaN \<and> y \<noteq> NegInf)"
| "less_dbl (Fin a) y = (case y of Fin b \<Rightarrow> a < b | PosInf \<Rightarrow> True | _ \<Rightarrow> False)"
| "less_dbl PosInf y = False"

definition less_eq_dbl :: "dbl \<Rightarrow> dbl \<Rightarrow> bool" where
  "less_eq_dbl x y \<longleftrightarrow> x < y \<or> x = y"

instance
proof
  fix x y z :: dbl
  show "x < y \<longleftrightarrow> x \<le> y \<and> \<not> y \<le> x"
    by (cases x; cases y) (auto simp: less_eq_dbl_def)
  show "x \<le> x" by (simp add: less_eq_dbl_def)
  show "x \<le> y \<Longrightarrow> y \<le> z \<Longrightarrow> x \<le> z"
    by (cases x; cases y; cases z) (auto simp: less_eq_dbl_def)
  show "x \<le> y \<Longrightarrow> y \<le> x \<Longrightarrow> x = y"
    by (cases x; cases y) (auto simp: less_eq_dbl_def)
  show "x \<le> y \<or> y \<le> x"
    by (cases x; cases y) (auto simp: less_eq_dbl_def)
qed

end

definition dlt :: "dbl \<Rightarrow> dbl \<Rightarrow> bool" where
  "dlt x y \<longleftrightarrow> x \<noteq> NaN \<and> y \<noteq> NaN \<and> x < y"

definition deq :: "dbl \<Rightarrow> dbl \<Rightarrow> bool" where
  "deq x y \<longleftrightarrow> x \<noteq> NaN \<and> y \<noteq> NaN \<and> x = y"

definition dle :: "dbl \<Rightarrow> dbl \<Rightarrow> bool" where
  "dle x y \<longleftrightarrow> dlt x y \<or> deq x y"

text \<open>
  A cast to an integer type cuts the fraction off; it is undefined (\<open>None\<close>) when the result does not
  fit, and for values that are not finite.
\<close>

definition trunc :: "rat \<Rightarrow> int" where
  "trunc q = (if q \<ge> 0 then \<lfloor>q\<rfloor> else - \<lfloor>- q\<rfloor>)"

definition int_range :: "nat \<Rightarrow> int \<Rightarrow> int option" where
  "int_range n i = (if - (2 ^ (n - 1)) \<le> i \<and> i < 2 ^ (n - 1) then Some i else None)"

fun dbl_to_int :: "nat \<Rightarrow> dbl \<Rightarrow> int option" where
  "dbl_to_int n (Fin q) = int_range n (trunc q)"
| "dbl_to_int n _ = None"

lemma trunc_of_int [simp]: "trunc (of_int i) = i"
  by (simp add: trunc_def)

lemma int_range_SomeI: "- (2 ^ (n - 1)) \<le> i \<Longrightarrow> i < 2 ^ (n - 1) \<Longrightarrow> int_range n i = Some i"
  by (simp add: int_range_def)

end
