(* ===== verification/Zset.thy ===== *)
theory Zset
  imports Lua_Number
begin

text \<open>
  The skip list of \<^verbatim>\<open>src/depends/lua-zset/skiplist.c\<close>, with its nodes in an explicit memory.
  The file \<^verbatim>\<open>src/depends/lua-timezset/timeskiplist.c\<close> has the same functions over another kind
  of object, so everything here takes the comparison of objects (\<open>compareslObj\<close>) as its first
  argument.  An outcome \<open>None\<close> is undefined behaviour (a null or freed pointer, a level a node
  does not have) or a loop that never ends.
\<close>

section \<open>Nodes and memory\<close>

record 'o node =
  n_obj :: "'o option"
  n_score :: dbl
  n_backward :: "nat option"
  n_levels :: "(nat option \<times> u32) list"

record 'o skiplist =
  sl_mem :: "nat \<rightharpoonup> 'o node"
  sl_brk :: nat
  sl_header :: nat
  sl_tail :: "nat option"
  sl_length :: u64
  sl_level :: nat

definition get_lv :: "(nat \<rightharpoonup> 'o node) \<Rightarrow> nat \<Rightarrow> nat \<Rightarrow> (nat option \<times> u32) option" where
  "get_lv H a i = do {
     n \<leftarrow> H a;
     if i < length (n_levels n) then Some (n_levels n ! i) else None
   }"

definition set_lv :: "(nat \<rightharpoonup> 'o node) \<Rightarrow> nat \<Rightarrow> nat \<Rightarrow> nat option \<times> u32 \<Rightarrow> (nat \<rightharpoonup> 'o node) option" where
  "set_lv H a i v = do {
     n \<leftarrow> H a;
     if i < length (n_levels n) then Some (H(a \<mapsto> n\<lparr>n_levels := (n_levels n)[i := v]\<rparr>)) else None
   }"

definition set_back :: "(nat \<rightharpoonup> 'o node) \<Rightarrow> nat \<Rightarrow> nat option \<Rightarrow> (nat \<rightharpoonup> 'o node) option" where
  "set_back H a b = map_option (\<lambda>n. H(a \<mapsto> n\<lparr>n_backward := b\<rparr>)) (H a)"

text \<open>The loop \<open>for (i = from; i < from + n; i++)\<close> over a body that may fail.\<close>

fun for_upto :: "(nat \<Rightarrow> 's \<Rightarrow> 's option) \<Rightarrow> nat \<Rightarrow> nat \<Rightarrow> 's \<Rightarrow> 's option" where
  "for_upto f i 0 s = Some s"
| "for_upto f i (Suc n) s = do { s1 \<leftarrow> f i s; for_upto f (Suc i) n s1 }"

text \<open>
  \<open>malloc\<close> is taken to succeed and to give an address that was never used.  The members that
  \<open>slCreateNode\<close> leaves uninitialised are all written before they are read.
\<close>

definition slCreateNode ::
    "nat \<Rightarrow> dbl \<Rightarrow> 'o option \<Rightarrow> 'o skiplist \<Rightarrow> nat \<times> 'o skiplist" where
  "slCreateNode lvl sc ob S =
     (let n = \<lparr>n_obj = ob, n_score = sc, n_backward = None, n_levels = replicate lvl (None, 0)\<rparr>
      in (sl_brk S, S\<lparr>sl_mem := (sl_mem S)(sl_brk S \<mapsto> n), sl_brk := Suc (sl_brk S)\<rparr>))"

definition slCreate :: "'o skiplist option" where
  "slCreate =
     (let S0 = \<lparr>sl_mem = Map.empty, sl_brk = 0, sl_header = 0, sl_tail = None,
                sl_length = 0, sl_level = 1\<rparr>;
          (h, S1) = slCreateNode 32 (Fin 0) None S0
      in do {
        H1 \<leftarrow> for_upto (\<lambda>j H. set_lv H h j (None, 0)) 0 32 (sl_mem S1);
        H2 \<leftarrow> set_back H1 h None;
        Some (S1\<lparr>sl_header := h, sl_mem := H2\<rparr>)
      })"

section \<open>Random levels\<close>

text \<open>
  The values that \<open>random\<close> returns are given as a list; \<open>None\<close> says that the list is used up.
  The test \<open>(r & 0xffff) < 0.25 * 0xffff\<close> is written without fractions.
\<close>

fun random_hits :: "u32 list \<Rightarrow> nat \<Rightarrow> (nat \<times> u32 list) option" where
  "random_hits [] lvl = None"
| "random_hits (r # rs) lvl =
     (if 4 * unat (r AND 0xffff) < 0xffff then random_hits rs (lvl + 1) else Some (lvl, rs))"

definition slRandomLevel :: "u32 list \<Rightarrow> (nat \<times> u32 list) option" where
  "slRandomLevel rs =
     map_option (\<lambda>(lvl, rs'). (if lvl < 32 then lvl else 32, rs')) (random_hits rs 1)"

section \<open>Walking down the levels\<close>

text \<open>
  \<open>advance\<close> is the inner \<open>while\<close> loop that every search has, \<open>c\<close> its condition on the
  accumulated rank, the spn and the node ahead; \<open>descend\<close> is the outer \<open>for\<close> loop, giving the
  node and the rank at which the walk left each level.
\<close>

type_synonym ('o, 'a) cond = "'a word \<Rightarrow> u32 \<Rightarrow> 'o node \<Rightarrow> bool option"

partial_function (option) advance ::
    "(nat \<rightharpoonup> 'o node) \<Rightarrow> ('o, 'a::len) cond \<Rightarrow> nat \<Rightarrow> nat \<Rightarrow> 'a word \<Rightarrow> (nat \<times> 'a word) option" where
  "advance H c i x acc = do {
     (fwd, spn) \<leftarrow> get_lv H x i;
     case fwd of
       None \<Rightarrow> Some (x, acc)
     | Some f \<Rightarrow> do {
         n \<leftarrow> H f;
         go \<leftarrow> c acc spn n;
         if go then advance H c i f (acc + ucast spn) else Some (x, acc)
       }
   }"

fun descend ::
    "(nat \<rightharpoonup> 'o node) \<Rightarrow> ('o, 'a::len) cond \<Rightarrow> nat \<Rightarrow> nat \<Rightarrow> 'a word \<Rightarrow> (nat \<times> 'a word) list option" where
  "descend H c 0 x acc = Some []"
| "descend H c (Suc i) x acc = do {
     (y, r) \<leftarrow> advance H c i x acc;
     below \<leftarrow> descend H c i y r;
     Some (below @ [(y, r)])
   }"

type_synonym 'o cmp = "'o \<Rightarrow> 'o \<Rightarrow> int"

definition before :: "'o cmp \<Rightarrow> dbl \<Rightarrow> 'o \<Rightarrow> 'a word \<Rightarrow> u32 \<Rightarrow> 'o node \<Rightarrow> bool option" where
  "before cmp sc ob acc spn n =
     (if dlt (n_score n) sc then Some True
      else if deq (n_score n) sc then map_option (\<lambda>p. cmp p ob < 0) (n_obj n)
      else Some False)"

definition up_to :: "'o cmp \<Rightarrow> dbl \<Rightarrow> 'o \<Rightarrow> 'a word \<Rightarrow> u32 \<Rightarrow> 'o node \<Rightarrow> bool option" where
  "up_to cmp sc ob acc spn n =
     (if dlt (n_score n) sc then Some True
      else if deq (n_score n) sc then map_option (\<lambda>p. cmp p ob \<le> 0) (n_obj n)
      else Some False)"

section \<open>Insertion\<close>

definition grow_body :: "nat \<Rightarrow> u64 \<Rightarrow> nat \<Rightarrow> (nat \<rightharpoonup> 'o node) \<Rightarrow> (nat \<rightharpoonup> 'o node) option" where
  "grow_body h len i H = do { (f, _) \<leftarrow> get_lv H h i; set_lv H h i (f, ucast len) }"

definition link_body ::
    "nat \<Rightarrow> (nat \<times> u32) list \<Rightarrow> nat \<Rightarrow> (nat \<rightharpoonup> 'o node) \<Rightarrow> (nat \<rightharpoonup> 'o node) option" where
  "link_body x upd i H =
     (let (u, r) = upd ! i; d = snd (upd ! 0) - r in
      do {
        (f, s) \<leftarrow> get_lv H u i;
        H1 \<leftarrow> set_lv H x i (f, s - d);
        set_lv H1 u i (Some x, d + 1)
      })"

definition bump_body ::
    "(nat \<times> u32) list \<Rightarrow> nat \<Rightarrow> (nat \<rightharpoonup> 'o node) \<Rightarrow> (nat \<rightharpoonup> 'o node) option" where
  "bump_body upd i H = do {
     (f, s) \<leftarrow> get_lv H (fst (upd ! i)) i;
     set_lv H (fst (upd ! i)) i (f, s + 1)
   }"

definition slInsert ::
    "'o cmp \<Rightarrow> 'o skiplist \<Rightarrow> dbl \<Rightarrow> 'o \<Rightarrow> u32 list \<Rightarrow> ('o skiplist \<times> u32 list) option" where
  "slInsert cmp S sc ob rnd = do {
     upd0 \<leftarrow> descend (sl_mem S) (before cmp sc ob) (sl_level S) (sl_header S) (0 :: u32);
     (lvl, rnd') \<leftarrow> slRandomLevel rnd;
     let more = lvl - sl_level S;
     H1 \<leftarrow> for_upto (grow_body (sl_header S) (sl_length S)) (sl_level S) more (sl_mem S);
     let upd = upd0 @ replicate more (sl_header S, 0);
     let S1 = S\<lparr>sl_mem := H1, sl_level := sl_level S + more\<rparr>;
     let (x, S2) = slCreateNode lvl sc (Some ob) S1;
     H2 \<leftarrow> for_upto (link_body x upd) 0 lvl (sl_mem S2);
     H3 \<leftarrow> for_upto (bump_body upd) lvl (sl_level S2 - lvl) H2;
     H4 \<leftarrow> set_back H3 x (if fst (upd ! 0) = sl_header S then None else Some (fst (upd ! 0)));
     (f, _) \<leftarrow> get_lv H4 x 0;
     (case f of
        Some y \<Rightarrow> do {
          H5 \<leftarrow> set_back H4 y (Some x);
          Some (S2\<lparr>sl_mem := H5, sl_length := sl_length S + 1\<rparr>, rnd') }
      | None \<Rightarrow> Some (S2\<lparr>sl_mem := H4, sl_tail := Some x, sl_length := sl_length S + 1\<rparr>, rnd'))
   }"

section \<open>Deletion\<close>

definition unlink_body ::
    "nat \<Rightarrow> nat list \<Rightarrow> nat \<Rightarrow> (nat \<rightharpoonup> 'o node) \<Rightarrow> (nat \<rightharpoonup> 'o node) option" where
  "unlink_body x upd i H = do {
     (f, s) \<leftarrow> get_lv H (upd ! i) i;
     if f = Some x then do {
       (fx, sx) \<leftarrow> get_lv H x i;
       set_lv H (upd ! i) i (fx, s + (sx - 1)) }
     else set_lv H (upd ! i) i (f, s - 1)
   }"

fun shrink_level :: "(nat \<rightharpoonup> 'o node) \<Rightarrow> nat \<Rightarrow> nat \<Rightarrow> nat option" where
  "shrink_level H h (Suc (Suc l)) = do {
     (f, _) \<leftarrow> get_lv H h (Suc l);
     if f = None then shrink_level H h (Suc l) else Some (Suc (Suc l))
   }"
| "shrink_level H h l = Some l"

definition slDeleteNode :: "'o skiplist \<Rightarrow> nat \<Rightarrow> nat list \<Rightarrow> 'o skiplist option" where
  "slDeleteNode S x upd = do {
     H1 \<leftarrow> for_upto (unlink_body x upd) 0 (sl_level S) (sl_mem S);
     (f, _) \<leftarrow> get_lv H1 x 0;
     n \<leftarrow> H1 x;
     S2 \<leftarrow> (case f of
        Some y \<Rightarrow> do {
          H2 \<leftarrow> set_back H1 y (n_backward n);
          Some (S\<lparr>sl_mem := H2\<rparr>) }
      | None \<Rightarrow> Some (S\<lparr>sl_mem := H1, sl_tail := n_backward n\<rparr>));
     lvl \<leftarrow> shrink_level (sl_mem S2) (sl_header S) (sl_level S);
     Some (S2\<lparr>sl_level := lvl, sl_length := sl_length S - 1\<rparr>)
   }"

definition slFreeNode :: "nat \<Rightarrow> 'o skiplist \<Rightarrow> 'o skiplist" where
  "slFreeNode x S = S\<lparr>sl_mem := (sl_mem S)(x := None)\<rparr>"

definition slDelete :: "'o cmp \<Rightarrow> 'o skiplist \<Rightarrow> dbl \<Rightarrow> 'o \<Rightarrow> ('o skiplist \<times> bool) option" where
  "slDelete cmp S sc ob = do {
     upd \<leftarrow> descend (sl_mem S) (before cmp sc ob) (sl_level S) (sl_header S) (0 :: u32);
     (f, _) \<leftarrow> get_lv (sl_mem S) (fst (upd ! 0)) 0;
     (case f of
        None \<Rightarrow> Some (S, False)
      | Some x \<Rightarrow> do {
          n \<leftarrow> sl_mem S x;
          eq \<leftarrow> (if deq sc (n_score n) then map_option (\<lambda>p. cmp p ob = 0) (n_obj n) else Some False);
          if eq then do {
            S1 \<leftarrow> slDeleteNode S x (map fst upd);
            Some (slFreeNode x S1, True) }
          else Some (S, False)
        })
   }"

partial_function (option) delete_run ::
    "'o skiplist \<Rightarrow> nat option \<Rightarrow> nat list \<Rightarrow> u64 \<Rightarrow> u64 \<Rightarrow> u64 \<Rightarrow> 'o list \<Rightarrow>
     ('o skiplist \<times> u64 \<times> 'o list) option" where
  "delete_run S x upd traversed removed stop out =
     (case x of
        None \<Rightarrow> Some (S, removed, out)
      | Some a \<Rightarrow>
          if traversed \<le> stop then do {
            (nxt, _) \<leftarrow> get_lv (sl_mem S) a 0;
            S1 \<leftarrow> slDeleteNode S a upd;
            n \<leftarrow> sl_mem S1 a;
            ob \<leftarrow> n_obj n;
            delete_run (slFreeNode a S1) nxt upd (traversed + 1) (removed + 1) stop (out @ [ob])
          } else Some (S, removed, out))"

text \<open>
  The callback gets every deleted object; the list of these calls is the last component.  The
  callback is taken not to use the skip list itself.
\<close>

definition slDeleteByRank ::
    "'o skiplist \<Rightarrow> u32 \<Rightarrow> u32 \<Rightarrow> ('o skiplist \<times> u64 \<times> 'o list) option" where
  "slDeleteByRank S start stop = do {
     upd \<leftarrow> descend (sl_mem S) (\<lambda>traversed spn n. Some (traversed + ucast spn < ucast start))
              (sl_level S) (sl_header S) (0 :: u64);
     (x, _) \<leftarrow> get_lv (sl_mem S) (fst (upd ! 0)) 0;
     delete_run S x (map fst upd) (snd (upd ! 0) + 1) 0 (ucast stop) []
   }"

section \<open>Queries\<close>

fun rank_loop ::
    "(nat \<rightharpoonup> 'o node) \<Rightarrow> 'o cmp \<Rightarrow> dbl \<Rightarrow> 'o \<Rightarrow> nat \<Rightarrow> nat \<Rightarrow> u64 \<Rightarrow> u64 option" where
  "rank_loop H cmp sc ob 0 x rank = Some 0"
| "rank_loop H cmp sc ob (Suc i) x rank = do {
     (y, r) \<leftarrow> advance H (up_to cmp sc ob) i x rank;
     n \<leftarrow> H y;
     (case n_obj n of
        Some p \<Rightarrow> if cmp p ob = 0 then Some r else rank_loop H cmp sc ob i y r
      | None \<Rightarrow> rank_loop H cmp sc ob i y r)
   }"

definition slGetRank :: "'o cmp \<Rightarrow> 'o skiplist \<Rightarrow> dbl \<Rightarrow> 'o \<Rightarrow> u64 option" where
  "slGetRank cmp S sc ob = rank_loop (sl_mem S) cmp sc ob (sl_level S) (sl_header S) 0"

fun node_loop :: "(nat \<rightharpoonup> 'o node) \<Rightarrow> u64 \<Rightarrow> nat \<Rightarrow> nat \<Rightarrow> u64 \<Rightarrow> nat option option" where
  "node_loop H rank 0 x traversed = Some None"
| "node_loop H rank (Suc i) x traversed = do {
     (y, t) \<leftarrow> advance H (\<lambda>t spn n. Some (t + ucast spn \<le> rank)) i x traversed;
     if t = rank then Some (Some y) else node_loop H rank i y t
   }"

definition slGetNodeByRank :: "'o skiplist \<Rightarrow> u64 \<Rightarrow> nat option option" where
  "slGetNodeByRank S rank =
     (if rank = 0 \<or> rank > sl_length S then Some None
      else node_loop (sl_mem S) rank (sl_level S) (sl_header S) 0)"

definition slIsInRange :: "'o skiplist \<Rightarrow> dbl \<Rightarrow> dbl \<Rightarrow> bool option" where
  "slIsInRange S lo hi =
     (if dlt hi lo then Some False
      else case sl_tail S of
        None \<Rightarrow> Some False
      | Some t \<Rightarrow> do {
          n \<leftarrow> sl_mem S t;
          if dlt (n_score n) lo then Some False
          else do {
            (f, _) \<leftarrow> get_lv (sl_mem S) (sl_header S) 0;
            case f of
              None \<Rightarrow> Some False
            | Some x \<Rightarrow> do {
                m \<leftarrow> sl_mem S x;
                Some (\<not> dlt hi (n_score m)) }
          } })"

definition slFirstInRange :: "'o skiplist \<Rightarrow> dbl \<Rightarrow> dbl \<Rightarrow> nat option option" where
  "slFirstInRange S lo hi = do {
     ok \<leftarrow> slIsInRange S lo hi;
     if ok then do {
       upd \<leftarrow> descend (sl_mem S) (\<lambda>_ _ n. Some (dlt (n_score n) lo)) (sl_level S) (sl_header S) (0 :: u32);
       (f, _) \<leftarrow> get_lv (sl_mem S) (fst (upd ! 0)) 0;
       Some f }
     else Some None
   }"

definition slLastInRange :: "'o skiplist \<Rightarrow> dbl \<Rightarrow> dbl \<Rightarrow> nat option option" where
  "slLastInRange S lo hi = do {
     ok \<leftarrow> slIsInRange S lo hi;
     if ok then do {
       upd \<leftarrow> descend (sl_mem S) (\<lambda>_ _ n. Some (dle (n_score n) hi)) (sl_level S) (sl_header S) (0 :: u32);
       Some (Some (fst (upd ! 0))) }
     else Some None
   }"

text \<open>\<open>slDumpOut\<close> calls its callback with the index, the score and the object of every node.\<close>

partial_function (option) dump_loop ::
    "(nat \<rightharpoonup> 'o node) \<Rightarrow> nat \<Rightarrow> nat \<Rightarrow> (nat \<times> dbl \<times> 'o) list \<Rightarrow> (nat \<times> dbl \<times> 'o) list option" where
  "dump_loop H x i out = do {
     (f, _) \<leftarrow> get_lv H x 0;
     case f of
       None \<Rightarrow> Some out
     | Some y \<Rightarrow> do {
         n \<leftarrow> H y;
         ob \<leftarrow> n_obj n;
         dump_loop H y (i + 1) (out @ [(i + 1, n_score n, ob)])
       }
   }"

definition slDumpOut :: "'o skiplist \<Rightarrow> (nat \<times> dbl \<times> 'o) list option" where
  "slDumpOut S = dump_loop (sl_mem S) (sl_header S) 0 []"

section \<open>The Lua interface\<close>

partial_function (option) rank_range_loop ::
    "(nat \<rightharpoonup> 'o node) \<Rightarrow> bool \<Rightarrow> int \<Rightarrow> int \<Rightarrow> nat option \<Rightarrow> 'o list \<Rightarrow> 'o list option" where
  "rank_range_loop H reverse rangelen n x out =
     (case x of
        None \<Rightarrow> Some out
      | Some a \<Rightarrow>
          if n < rangelen then do {
            nd \<leftarrow> H a;
            ob \<leftarrow> n_obj nd;
            (f, _) \<leftarrow> (if reverse then Some (n_backward nd, 0) else get_lv H a 0);
            rank_range_loop H reverse rangelen (n + 1) f (out @ [ob])
          } else Some out)"

definition lua_get_rank_range :: "'o skiplist \<Rightarrow> u64 \<Rightarrow> u64 \<Rightarrow> 'o list option" where
  "lua_get_rank_range S r1 r2 =
     (let reverse = \<not> r1 \<le> r2;
          rangelen = sint (ucast (if r1 \<le> r2 then r2 - r1 + 1 else r1 - r2 + 1) :: u32)
      in do {
        x \<leftarrow> slGetNodeByRank S r1;
        rank_range_loop (sl_mem S) reverse rangelen 0 x []
      })"

partial_function (option) score_range_loop ::
    "(nat \<rightharpoonup> 'o node) \<Rightarrow> bool \<Rightarrow> dbl \<Rightarrow> nat option \<Rightarrow> 'o list \<Rightarrow> 'o list option" where
  "score_range_loop H reverse s2 x out =
     (case x of
        None \<Rightarrow> Some out
      | Some a \<Rightarrow> do {
          nd \<leftarrow> H a;
          if (if reverse then dlt (n_score nd) s2 else dlt s2 (n_score nd)) then Some out
          else do {
            ob \<leftarrow> n_obj nd;
            (f, _) \<leftarrow> (if reverse then Some (n_backward nd, 0) else get_lv H a 0);
            score_range_loop H reverse s2 f (out @ [ob])
          } })"

definition lua_get_score_range :: "'o skiplist \<Rightarrow> dbl \<Rightarrow> dbl \<Rightarrow> 'o list option" where
  "lua_get_score_range S s1 s2 =
     (if dle s1 s2 then do {
        x \<leftarrow> slFirstInRange S s1 s2;
        score_range_loop (sl_mem S) False s2 x [] }
      else do {
        x \<leftarrow> slLastInRange S s2 s1;
        score_range_loop (sl_mem S) True s2 x [] })"

definition lua_delete_by_rank ::
    "'o skiplist \<Rightarrow> u64 \<Rightarrow> u64 \<Rightarrow> ('o skiplist \<times> u64 \<times> 'o list) option" where
  "lua_delete_by_rank S a b =
     (let start = ucast a; stop = ucast b in
      if stop < start then slDeleteByRank S stop start else slDeleteByRank S start stop)"

definition lua_get_count :: "'o skiplist \<Rightarrow> u64" where
  "lua_get_count S = sl_length S"

definition lua_get_rank :: "'o cmp \<Rightarrow> 'o skiplist \<Rightarrow> dbl \<Rightarrow> 'o \<Rightarrow> u64 option option" where
  "lua_get_rank cmp S sc ob =
     map_option (\<lambda>rank. if rank = 0 then None else Some rank) (slGetRank cmp S sc ob)"

end
