(* ===== verification/Zset_Inv.thy ===== *)
theory Zset_Inv
  imports Zset
begin

text \<open>
  The shape of a skip list in memory.  A list of entries (address and height of the tower, score,
  object) describes the nodes in order.  \<open>sl_inv\<close> says that the memory holds exactly these nodes,
  that every pointer leads to the next tower which is high enough, that every span is the number
  of entries it skips, and that \<open>backward\<close>, \<open>tail\<close> and \<open>length\<close> agree.  \<open>advance_walk\<close> and
  \<open>descend_walk\<close> say where every search ends.
\<close>

section \<open>Entries, links and positions\<close>

type_synonym 'o entry = "(nat \<times> nat) \<times> dbl \<times> 'o"

abbreviation ad :: "'o entry \<Rightarrow> nat" where "ad e \<equiv> fst (fst e)"
abbreviation ht :: "'o entry \<Rightarrow> nat" where "ht e \<equiv> snd (fst e)"
abbreviation esc :: "'o entry \<Rightarrow> dbl" where "esc e \<equiv> fst (snd e)"
abbreviation eob :: "'o entry \<Rightarrow> 'o" where "eob e \<equiv> snd (snd e)"

text \<open>The link of level \<open>i\<close> over the entries ahead: the next tower that is high enough, and how far.\<close>

fun lnk :: "nat \<Rightarrow> 'o entry list \<Rightarrow> nat option \<times> nat" where
  "lnk i [] = (None, 0)"
| "lnk i (e # es) = (if i < ht e then (Some (ad e), 1) else (fst (lnk i es), Suc (snd (lnk i es))))"

definition wlnk :: "nat \<Rightarrow> 'o entry list \<Rightarrow> nat option \<times> u32" where
  "wlnk i es = (fst (lnk i es), of_nat (snd (lnk i es)))"

definition atp :: "nat \<Rightarrow> 'o entry list \<Rightarrow> nat \<Rightarrow> nat" where
  "atp h L p = (if p = 0 then h else ad (L ! (p - 1)))"

definition limp :: "nat \<Rightarrow> 'o entry list \<Rightarrow> nat \<Rightarrow> nat" where
  "limp lvl L p = (if p = 0 then lvl else ht (L ! (p - 1)))"

definition backp :: "'o entry list \<Rightarrow> nat \<Rightarrow> nat option" where
  "backp L p = (if p = 0 then None else Some (ad (L ! (p - 1))))"

text \<open>The last position up to \<open>m\<close> whose tower has level \<open>i\<close>; position 0 is the header.\<close>

fun prv :: "'o entry list \<Rightarrow> nat \<Rightarrow> nat \<Rightarrow> nat" where
  "prv L i 0 = 0"
| "prv L i (Suc m) = (if i < ht (L ! m) then Suc m else prv L i m)"

definition skel :: "'o node \<Rightarrow> 'o option \<times> dbl \<times> nat option \<times> nat" where
  "skel n = (n_obj n, n_score n, n_backward n, length (n_levels n))"

lemma lnk_none: "\<forall>e \<in> set es. ht e \<le> i \<Longrightarrow> lnk i es = (None, length es)"
  by (induction es) auto

lemma lnk_append_none:
  "\<forall>e \<in> set us. ht e \<le> i \<Longrightarrow> lnk i (us @ vs) = (fst (lnk i vs), length us + snd (lnk i vs))"
  by (induction us) auto

lemma lnk_append_some:
  "\<exists>e \<in> set us. i < ht e \<Longrightarrow> lnk i (us @ vs) = lnk i us"
proof (induction us)
  case (Cons e us)
  then show ?case by (cases "i < ht e") auto
qed simp

lemma lnk_cases:
  obtains (none) "\<forall>e \<in> set es. ht e \<le> i" "lnk i es = (None, length es)"
  | (some) g where "g < length es" "i < ht (es ! g)" "\<forall>k < g. ht (es ! k) \<le> i"
      "lnk i es = (Some (ad (es ! g)), Suc g)"
proof (induction es arbitrary: thesis)
  case Nil
  then show ?case by simp
next
  case (Cons e es)
  show ?case
  proof (cases "i < ht e")
    case True
    then show ?thesis by (intro Cons.prems(2) [of 0]) auto
  next
    case False
    show ?thesis
    proof (rule Cons.IH)
      assume "\<forall>e \<in> set es. ht e \<le> i" "lnk i es = (None, length es)"
      then show ?thesis using False by (intro Cons.prems(1)) auto
    next
      fix g assume "g < length es" "i < ht (es ! g)" "\<forall>k < g. ht (es ! k) \<le> i"
        "lnk i es = (Some (ad (es ! g)), Suc g)"
      then show ?thesis using False
        by (intro Cons.prems(2) [of "Suc g"]) (auto simp: less_Suc_eq_0_disj)
    qed
  qed
qed

lemma snd_lnk_le: "snd (lnk i es) \<le> length es"
  by (induction es) auto

lemma prv_le: "prv L i m \<le> m"
  by (induction m) auto

lemma prv_eq:
  "p \<le> m \<Longrightarrow> p = 0 \<or> i < ht (L ! (p - 1)) \<Longrightarrow> \<forall>k. p \<le> k \<longrightarrow> k < m \<longrightarrow> ht (L ! k) \<le> i \<Longrightarrow> prv L i m = p"
proof (induction m)
  case (Suc m)
  show ?case
  proof (cases "p = Suc m")
    case True
    with Suc.prems(2) show ?thesis by auto
  next
    case False
    with Suc.prems(1) have "p \<le> m" by simp
    moreover have "ht (L ! m) \<le> i" using Suc.prems(3) \<open>p \<le> m\<close> by auto
    ultimately show ?thesis using Suc by auto
  qed
qed simp

lemma prv_good: "prv L i m = 0 \<or> i < ht (L ! (prv L i m - 1))"
  by (induction m) auto

lemma prv_gap: "prv L i m \<le> k \<Longrightarrow> k < m \<Longrightarrow> ht (L ! k) \<le> i"
  by (induction m) (auto split: if_splits simp: less_Suc_eq)

lemma prv_cong: "\<forall>k < m. L ! k = L' ! k \<Longrightarrow> prv L i m = prv L' i m"
  by (induction m) auto

lemma prv_level0: "\<forall>k < m. 0 < ht (L ! k) \<Longrightarrow> prv L 0 m = m"
  by (cases m) auto

lemma limp_prv: "i < lvl \<Longrightarrow> i < limp lvl L (prv L i m)"
  using prv_good [of L i m] by (auto simp: limp_def)

section \<open>Memory accessors\<close>

lemma get_set_lv:
  "set_lv H a i v = Some H' \<Longrightarrow> get_lv H' b j = (if a = b \<and> i = j then Some v else get_lv H b j)"
  by (auto simp: set_lv_def get_lv_def nth_list_update split: bind_splits if_splits)

lemma skel_set_lv: "set_lv H a i v = Some H' \<Longrightarrow> map_option skel (H' b) = map_option skel (H b)"
  by (auto simp: set_lv_def skel_def split: bind_splits if_splits)

lemma set_lv_ok: "get_lv H a i = Some w \<Longrightarrow> \<exists>H'. set_lv H a i v = Some H'"
  by (auto simp: set_lv_def get_lv_def split: bind_splits if_splits)

lemma set_lv_gets:
  assumes "get_lv H a i = Some w"
  obtains H' where "set_lv H a i v = Some H'"
    "\<And>b j. get_lv H' b j = (if a = b \<and> i = j then Some v else get_lv H b j)"
    "\<And>b. map_option skel (H' b) = map_option skel (H b)"
  using set_lv_ok [OF assms, of v] get_set_lv [of H a i v] skel_set_lv [of H a i v] by blast

lemma set_back_gets:
  assumes "map_option skel (H a) = Some (o1, s1, b1, l1)"
  obtains H' where "set_back H a b = Some H'"
    "\<And>c j. get_lv H' c j = get_lv H c j"
    "\<And>c. map_option skel (H' c) = (if c = a then Some (o1, s1, b, l1) else map_option skel (H c))"
proof -
  from assms obtain n where n: "H a = Some n" "skel n = (o1, s1, b1, l1)" by auto
  let ?H = "H(a \<mapsto> n\<lparr>n_backward := b\<rparr>)"
  have "set_back H a b = Some ?H" using n by (simp add: set_back_def)
  moreover have "get_lv ?H c j = get_lv H c j" for c j using n by (simp add: get_lv_def)
  moreover have "map_option skel (?H c) = (if c = a then Some (o1, s1, b, l1) else map_option skel (H c))" for c
    using n by (simp add: skel_def)
  ultimately show ?thesis by (rule that)
qed

lemma skelD:
  assumes "map_option skel (H a) = Some (o1, s1, b1, l1)"
  obtains n where "H a = Some n" "n_obj n = o1" "n_score n = s1" "n_backward n = b1"
    "length (n_levels n) = l1"
  using assms by (auto simp: skel_def)

lemma get_lv_bound:
  "map_option skel (H a) = Some (o1, s1, b1, l1) \<Longrightarrow> (\<exists>v. get_lv H a i = Some v) \<longleftrightarrow> i < l1"
  by (auto simp: get_lv_def skel_def split: if_splits)

lemma for_upto_rule:
  assumes "\<And>j s. i \<le> j \<Longrightarrow> j < i + n \<Longrightarrow> P j s \<Longrightarrow> \<exists>s'. f j s = Some s' \<and> P (Suc j) s'"
    and "P i s"
  shows "\<exists>s'. for_upto f i n s = Some s' \<and> P (i + n) s'"
  using assms
proof (induction n arbitrary: i s)
  case (Suc n)
  from Suc.prems(1) [of i s] Suc.prems(2) obtain s1 where 1: "f i s = Some s1" "P (Suc i) s1" by auto
  have "\<exists>s'. for_upto f (Suc i) n s1 = Some s' \<and> P (Suc i + n) s'"
    by (rule Suc.IH) (use Suc.prems(1) 1(2) in auto)
  with 1 show ?case by auto
qed simp

section \<open>The invariant\<close>

definition sl_inv :: "'o skiplist \<Rightarrow> 'o entry list \<Rightarrow> bool" where
  "sl_inv S L \<longleftrightarrow>
     distinct (sl_header S # map ad L) \<and>
     dom (sl_mem S) = insert (sl_header S) (ad ` set L) \<and>
     (\<forall>a \<in> dom (sl_mem S). a < sl_brk S) \<and>
     length L < 4294967296 \<and> sl_length S = of_nat (length L) \<and>
     1 \<le> sl_level S \<and> sl_level S \<le> 32 \<and>
     sl_tail S = backp L (length L) \<and>
     map_option skel (sl_mem S (sl_header S)) = Some (None, Fin 0, None, 32) \<and>
     (\<forall>p < length L. 1 \<le> ht (L ! p) \<and> ht (L ! p) \<le> sl_level S \<and>
        map_option skel (sl_mem S (ad (L ! p))) =
          Some (Some (eob (L ! p)), esc (L ! p), backp L p, ht (L ! p))) \<and>
     (\<forall>p \<le> length L. \<forall>i < limp (sl_level S) L p.
        get_lv (sl_mem S) (atp (sl_header S) L p) i = Some (wlnk i (drop p L))) \<and>
     (\<forall>i. sl_level S \<le> i \<longrightarrow> i < 32 \<longrightarrow> (\<exists>s. get_lv (sl_mem S) (sl_header S) i = Some (None, s)))"

lemma sl_invD:
  assumes "sl_inv S L"
  shows sl_inv_distinct: "distinct (sl_header S # map ad L)"
    and sl_inv_dom: "dom (sl_mem S) = insert (sl_header S) (ad ` set L)"
    and sl_inv_brk: "\<And>a. a \<in> dom (sl_mem S) \<Longrightarrow> a < sl_brk S"
    and sl_inv_len: "length L < 4294967296" "sl_length S = of_nat (length L)"
    and sl_inv_level: "1 \<le> sl_level S" "sl_level S \<le> 32"
    and sl_inv_tail: "sl_tail S = backp L (length L)"
    and sl_inv_header: "map_option skel (sl_mem S (sl_header S)) = Some (None, Fin 0, None, 32)"
    and sl_inv_ht: "\<And>p. p < length L \<Longrightarrow> 1 \<le> ht (L ! p)" "\<And>p. p < length L \<Longrightarrow> ht (L ! p) \<le> sl_level S"
    and sl_inv_node: "\<And>p. p < length L \<Longrightarrow> map_option skel (sl_mem S (ad (L ! p))) =
          Some (Some (eob (L ! p)), esc (L ! p), backp L p, ht (L ! p))"
    and sl_inv_link: "\<And>p i. p \<le> length L \<Longrightarrow> i < limp (sl_level S) L p \<Longrightarrow>
        get_lv (sl_mem S) (atp (sl_header S) L p) i = Some (wlnk i (drop p L))"
    and sl_inv_top: "\<And>i. sl_level S \<le> i \<Longrightarrow> i < 32 \<Longrightarrow> \<exists>s. get_lv (sl_mem S) (sl_header S) i = Some (None, s)"
  using assms unfolding sl_inv_def by blast+

section \<open>Walking\<close>

text \<open>
  A condition has the threshold \<open>m\<close> when, at any position before it, it goes on exactly to the
  entries with an index below \<open>m\<close>.
\<close>

definition threshold :: "'o skiplist \<Rightarrow> 'o entry list \<Rightarrow> ('o, 'a::len) cond \<Rightarrow> nat \<Rightarrow> bool" where
  "threshold S L c m \<longleftrightarrow> m \<le> length L \<and>
     (\<forall>k < length L. \<forall>q \<le> k. \<forall>n. sl_mem S (ad (L ! k)) = Some n \<longrightarrow>
        c (of_nat q) (of_nat (Suc k - q)) n = Some (k < m))"

lemma ucast_of_nat_u32: "n < 4294967296 \<Longrightarrow> (ucast (of_nat n :: u32) :: 'a::len word) = of_nat n"
proof -
  assume a: "n < 4294967296"
  have "unat (of_nat n :: u32) = n" using a by (simp add: unat_of_nat)
  then show ?thesis by (metis of_nat_unat)
qed

lemma advance_walk:
  fixes c :: "('o, 'a::len) cond"
  assumes inv: "sl_inv S L" and c: "threshold S L c m"
  shows "p \<le> m \<Longrightarrow> i < limp (sl_level S) L p \<Longrightarrow>
    advance (sl_mem S) c i (atp (sl_header S) L p) (of_nat p) =
      Some (atp (sl_header S) L (prv L i m), of_nat (prv L i m))"
proof (induction "m - p" arbitrary: p rule: less_induct)
  case less
  have m: "m \<le> length L" using c by (simp add: threshold_def)
  have link: "get_lv (sl_mem S) (atp (sl_header S) L p) i = Some (wlnk i (drop p L))"
    using sl_inv_link [OF inv] less.prems m by auto
  have good: "p = 0 \<or> i < ht (L ! (p - 1))" using less.prems(2) by (simp add: limp_def split: if_splits)
  show ?case
  proof (cases rule: lnk_cases [of "drop p L" i])
    case none
    have "\<forall>k. p \<le> k \<longrightarrow> k < m \<longrightarrow> ht (L ! k) \<le> i"
    proof (intro allI impI)
      fix k assume "p \<le> k" "k < m"
      then have "L ! k = drop p L ! (k - p)" "k - p < length (drop p L)" using m by auto
      then have "L ! k \<in> set (drop p L)" by (metis nth_mem)
      with none(1) show "ht (L ! k) \<le> i" by blast
    qed
    with prv_eq [OF less.prems(1) good] have "prv L i m = p" by blast
    then show ?thesis by (subst advance.simps) (simp add: link wlnk_def none)
  next
    case (some g)
    define k where "k = p + g"
    have k: "k < length L" "ad (drop p L ! g) = ad (L ! k)" "i < ht (L ! k)" "Suc g = Suc k - p" "p \<le> k"
      using some less.prems m by (auto simp: k_def)
    have gap: "\<forall>j. p \<le> j \<longrightarrow> j < k \<longrightarrow> ht (L ! j) \<le> i"
    proof (intro allI impI)
      fix j assume "p \<le> j" "j < k"
      then have "j - p < g" "drop p L ! (j - p) = L ! j" using k(1) by (auto simp: k_def)
      with some(3) show "ht (L ! j) \<le> i" by metis
    qed
    from sl_inv_node [OF inv k(1)] obtain n where n: "sl_mem S (ad (L ! k)) = Some n" by auto
    from c k(1,5) n have cn: "c (of_nat p) (of_nat (Suc k - p)) n = Some (k < m)"
      by (auto simp: threshold_def)
    have len: "Suc k - p < 4294967296" using sl_inv_len(1) [OF inv] k(1) by simp
    show ?thesis
    proof (cases "k < m")
      case True
      have acc: "of_nat p + ucast (of_nat (Suc k - p) :: u32) = (of_nat (Suc k) :: 'a word)"
        using k(5) len unfolding ucast_of_nat_u32 [OF len] of_nat_add [symmetric] by simp
      have "advance (sl_mem S) c i (atp (sl_header S) L (Suc k)) (of_nat (Suc k)) =
          Some (atp (sl_header S) L (prv L i m), of_nat (prv L i m))"
        using less.hyps [of "Suc k"] True k(5) k(3) by (simp add: limp_def)
      moreover have "atp (sl_header S) L (Suc k) = ad (L ! k)" by (simp add: atp_def)
      ultimately show ?thesis
        by (subst advance.simps) (simp add: link wlnk_def some k n cn True
              acc del: of_nat_Suc)
    next
      case False
      have "prv L i m = p" by (rule prv_eq) (use less.prems(1) good gap False in auto)
      then show ?thesis
        by (subst advance.simps) (simp add: link wlnk_def some k n cn False del: of_nat_Suc)
    qed
  qed
qed

lemma descend_walk:
  fixes c :: "('o, 'a::len) cond"
  assumes inv: "sl_inv S L" and c: "threshold S L c m"
  shows "p \<le> m \<Longrightarrow> l \<le> limp (sl_level S) L p \<Longrightarrow> l \<le> sl_level S \<Longrightarrow>
    descend (sl_mem S) c l (atp (sl_header S) L p) (of_nat p) =
      Some (map (\<lambda>i. (atp (sl_header S) L (prv L i m), of_nat (prv L i m))) [0..<l])"
proof (induction l arbitrary: p)
  case (Suc l)
  have "descend (sl_mem S) c l (atp (sl_header S) L (prv L l m)) (of_nat (prv L l m)) =
      Some (map (\<lambda>i. (atp (sl_header S) L (prv L i m), of_nat (prv L i m))) [0..<l])"
    by (rule Suc.IH) (use prv_le [of L l m] limp_prv [of l "sl_level S" L m] Suc.prems in auto)
  with advance_walk [OF inv c Suc.prems(1), of l] Suc.prems show ?case by simp
qed simp

lemma descend_header:
  fixes c :: "('o, 'a::len) cond"
  assumes inv: "sl_inv S L" and c: "threshold S L c m"
  shows "descend (sl_mem S) c (sl_level S) (sl_header S) 0 =
      Some (map (\<lambda>i. (atp (sl_header S) L (prv L i m), of_nat (prv L i m))) [0..<sl_level S])"
  using descend_walk [OF inv c, of 0 "sl_level S"] by (simp add: atp_def limp_def)

end
