(* ===== verification/Zset_Insert.thy ===== *)
theory Zset_Insert
  imports Zset_Inv
begin

text \<open>
  Insertion and the invariant: growing the header, the loop that links the new node, the loop
  that counts it in the spans above it, and the backward pointers.  \<open>insert_inv\<close> says that
  \<open>slInsert\<close> succeeds and puts the entry at the place where its search ends.
\<close>

section \<open>Inserting an entry\<close>

definition ins :: "nat \<Rightarrow> 'a \<Rightarrow> 'a list \<Rightarrow> 'a list" where
  "ins m e L = take m L @ e # drop m L"

lemma atp_inj:
  assumes "distinct (h # map ad L)" "p \<le> length L" "q \<le> length L" "atp h L p = atp h L q"
  shows "p = q"
proof -
  have "atp h L p = (h # map ad L) ! p" "atp h L q = (h # map ad L) ! q"
    using assms(2,3) by (auto simp: atp_def nth_Cons' )
  with assms show ?thesis by (metis length_Cons length_map less_Suc_eq_le nth_eq_iff_index_eq)
qed

lemma atp_0 [simp]: "atp h L 0 = h" by (simp add: atp_def)

lemma ins_nth: "m \<le> length L \<Longrightarrow> ins m e L ! p = (if p < m then L ! p else if p = m then e else L ! (p - 1))"
  by (auto simp: ins_def nth_append nth_Cons' min_def)

lemma length_ins [simp]: "length (ins m e L) = Suc (length L)"
  by (simp add: ins_def)

lemma ins_drop:
  assumes "m \<le> length L"
  shows "p \<le> m \<Longrightarrow> drop p (ins m e L) = drop p (take m L) @ e # drop m L"
    and "drop (Suc m) (ins m e L) = drop m L"
    and "m < p \<Longrightarrow> drop (Suc p) (ins m e L) = drop p L"
  using assms by (auto simp: ins_def min_def Suc_diff_le)

lemma drop_split: "p \<le> m \<Longrightarrow> m \<le> length L \<Longrightarrow> drop p L = drop p (take m L) @ drop m L"
  by (metis append_take_drop_id drop_append drop_drop drop_take length_take le_add_diff_inverse min.absorb2 diff_is_0_eq drop_0)

lemma seg_nth: "e \<in> set (drop p (take m L)) \<Longrightarrow> m \<le> length L \<Longrightarrow> \<exists>k. p \<le> k \<and> k < m \<and> e = L ! k"
proof -
  assume a: "e \<in> set (drop p (take m L))" "m \<le> length L"
  then obtain j where "j < length (drop p (take m L))" "e = drop p (take m L) ! j"
    by (metis in_set_conv_nth)
  with a(2) show ?thesis by (intro exI [of _ "p + j"]) auto
qed

lemma seg_mem: "p \<le> k \<Longrightarrow> k < m \<Longrightarrow> m \<le> length L \<Longrightarrow> L ! k \<in> set (drop p (take m L))"
proof -
  assume a: "p \<le> k" "k < m" "m \<le> length L"
  then have "L ! k = drop p (take m L) ! (k - p)" "k - p < length (drop p (take m L))" by auto
  then show ?thesis by (metis nth_mem)
qed

lemma prv_seg:
  assumes "prv L i m = p" "m \<le> length L"
  shows "\<forall>e \<in> set (drop p (take m L)). ht e \<le> i"
  using prv_gap [of L i m] seg_nth [of _ p m L] assms by metis

lemma not_prv_seg:
  assumes "prv L i m \<noteq> p" "p \<le> m" "m \<le> length L" "i < limp lvl L p"
  shows "\<exists>e \<in> set (drop p (take m L)). i < ht e"
proof (rule ccontr)
  assume "\<not> ?thesis"
  then have "\<forall>k. p \<le> k \<longrightarrow> k < m \<longrightarrow> ht (L ! k) \<le> i" using seg_mem [of p _ m L] assms(3) by force
  moreover have "p = 0 \<or> i < ht (L ! (p - 1))" using assms(4) by (simp add: limp_def split: if_splits)
  ultimately have "prv L i m = p" using assms(2) by (intro prv_eq) auto
  with assms(1) show False by simp
qed

lemma wlnk_prv:
  assumes "prv L i m = p" "m \<le> length L"
  shows "wlnk i (drop p L) = (fst (wlnk i (drop m L)), of_nat (m - p) + snd (wlnk i (drop m L)))"
proof -
  have pm: "p \<le> m" using prv_le assms(1) by metis
  show ?thesis unfolding wlnk_def
    by (subst (1 2) drop_split [OF pm assms(2)])
      (simp add: lnk_append_none [OF prv_seg [OF assms]] assms(2))
qed

lemma wlnk_ins_prv:
  assumes "prv L i m = p" "m \<le> length L"
  shows "wlnk i (drop p (ins m e L)) =
    (if i < ht e then (Some (ad e), of_nat (m - p) + 1)
     else (fst (wlnk i (drop p L)), snd (wlnk i (drop p L)) + 1))"
proof -
  have pm: "p \<le> m" using prv_le assms(1) by metis
  show ?thesis
    by (subst (1 2) wlnk_prv [OF assms])
      (simp add: wlnk_def ins_drop(1) [OF assms(2) pm] lnk_append_none [OF prv_seg [OF assms]] assms(2))
qed

lemma wlnk_ins_other:
  assumes "prv L i m \<noteq> p" "p \<le> m" "m \<le> length L" "i < limp lvl L p"
  shows "wlnk i (drop p (ins m e L)) = wlnk i (drop p L)"
  using lnk_append_some [OF not_prv_seg [OF assms]]
  by (simp add: wlnk_def ins_drop(1) [OF assms(3,2)] drop_split [OF assms(2,3)])

lemma atp_ins:
  assumes "m \<le> length L"
  shows "p \<le> m \<Longrightarrow> atp h (ins m e L) p = atp h L p" "atp h (ins m e L) (Suc m) = ad e"
    "m < p \<Longrightarrow> atp h (ins m e L) (Suc p) = atp h L p"
  using assms by (auto simp: atp_def ins_nth)

lemma limp_ins:
  assumes "m \<le> length L"
  shows "p \<le> m \<Longrightarrow> limp l (ins m e L) p = limp l L p" "limp l (ins m e L) (Suc m) = ht e"
    "m < p \<Longrightarrow> limp l (ins m e L) (Suc p) = limp l L p"
  using assms by (auto simp: limp_def ins_nth)

lemma backp_ins:
  assumes "m \<le> length L"
  shows "p \<le> m \<Longrightarrow> backp (ins m e L) p = backp L p" "backp (ins m e L) (Suc m) = Some (ad e)"
    "m < p \<Longrightarrow> backp (ins m e L) (Suc p) = backp L p"
  using assms by (auto simp: backp_def ins_nth)

section \<open>Growing the header\<close>

lemma ucast_down: "(ucast (of_nat n :: u64) :: u32) = of_nat n"
  by (rule word_unat_eq_iff [THEN iffD2]) (simp add: unat_of_nat unsigned_ucast_eq take_bit_eq_mod mod_mod_cancel)

lemma atp_mem:
  assumes "sl_inv S L" "p \<le> length L"
  shows "atp (sl_header S) L p \<in> dom (sl_mem S)"
  using assms sl_inv_dom [OF assms(1)] by (auto simp: atp_def)

lemma grow_inv:
  assumes inv: "sl_inv S L" and n: "sl_level S + n \<le> 32"
  shows "\<exists>H1. for_upto (grow_body (sl_header S) (sl_length S)) (sl_level S) n (sl_mem S) = Some H1 \<and>
    sl_inv (S\<lparr>sl_mem := H1, sl_level := sl_level S + n\<rparr>) L \<and> dom H1 = dom (sl_mem S)"
proof -
  let ?h = "sl_header S" and ?l = "sl_level S"
  define P where "P k H \<longleftrightarrow> (\<forall>a. map_option skel (H a) = map_option skel (sl_mem S a)) \<and>
    (\<forall>a j. a \<noteq> ?h \<or> j < ?l \<longrightarrow> get_lv H a j = get_lv (sl_mem S) a j) \<and>
    (\<forall>j < 32. ?l \<le> j \<longrightarrow> (if j < k then get_lv H ?h j = Some (None, of_nat (length L))
       else \<exists>s. get_lv H ?h j = Some (None, s)))" for k H
  have "\<exists>H1. for_upto (grow_body ?h (sl_length S)) ?l n (sl_mem S) = Some H1 \<and> P (?l + n) H1"
  proof (rule for_upto_rule)
    fix j H assume j: "?l \<le> j" "j < ?l + n" and P: "P j H"
    from P j n have "\<exists>s. get_lv H ?h j = Some (None, s)" unfolding P_def by fastforce
    then obtain s where g: "get_lv H ?h j = Some (None, s)" by blast
    from set_lv_gets [OF g, of "(None, of_nat (length L))"] obtain H' where
      H': "set_lv H ?h j (None, of_nat (length L)) = Some H'"
        "\<And>b k. get_lv H' b k = (if ?h = b \<and> j = k then Some (None, of_nat (length L)) else get_lv H b k)"
        "\<And>b. map_option skel (H' b) = map_option skel (H b)" by metis
    have "grow_body ?h (sl_length S) j H = Some H'"
      by (simp add: grow_body_def g sl_inv_len(2) [OF inv] ucast_down H'(1))
    moreover have "P (Suc j) H'" using P j unfolding P_def by (auto simp: H'(2,3) less_Suc_eq)
    ultimately show "\<exists>H'. grow_body ?h (sl_length S) j H = Some H' \<and> P (Suc j) H'" by blast
  next
    show "P ?l (sl_mem S)" using sl_inv_top [OF inv] unfolding P_def by auto
  qed
  then obtain H1 where 1: "for_upto (grow_body ?h (sl_length S)) ?l n (sl_mem S) = Some H1" "P (?l + n) H1"
    by blast
  have sk: "map_option skel (H1 a) = map_option skel (sl_mem S a)" for a using 1(2) unfolding P_def by blast
  have dom: "dom H1 = dom (sl_mem S)" using sk by (auto simp: dom_def) (metis not_None_eq option.map_disc_iff)+
  have low: "a \<noteq> ?h \<or> j < ?l \<Longrightarrow> get_lv H1 a j = get_lv (sl_mem S) a j" for a j
    using 1(2) unfolding P_def by blast
  have mid: "?l \<le> j \<Longrightarrow> j < ?l + n \<Longrightarrow> get_lv H1 ?h j = Some (None, of_nat (length L))" for j
    using 1(2) n unfolding P_def by auto
  have top: "?l + n \<le> j \<Longrightarrow> j < 32 \<Longrightarrow> \<exists>s. get_lv H1 ?h j = Some (None, s)" for j
    using 1(2) n unfolding P_def by (auto split: if_splits)
  have none: "?l \<le> i \<Longrightarrow> wlnk i L = (None, of_nat (length L))" for i
    using sl_inv_ht(2) [OF inv] unfolding wlnk_def by (subst (1 2) lnk_none) (force simp: in_set_conv_nth)+
  have link: "get_lv H1 (atp ?h L p) i = Some (wlnk i (drop p L))"
    if "p \<le> length L" "i < limp (?l + n) L p" for p i
  proof (cases "p = 0")
    case True
    with that show ?thesis
      using sl_inv_link [OF inv, of 0 i] low [of ?h i] mid [of i] none [of i]
      by (cases "i < ?l") (auto simp: atp_def limp_def)
  next
    case False
    then have "atp ?h L p \<noteq> ?h"
      using atp_inj [OF sl_inv_distinct [OF inv] that(1) le0] by (metis atp_0)
    then have "get_lv H1 (atp ?h L p) i = get_lv (sl_mem S) (atp ?h L p) i" using low by blast
    with False that show ?thesis using sl_inv_link [OF inv that(1), of i] by (simp add: limp_def)
  qed
  have "sl_inv (S\<lparr>sl_mem := H1, sl_level := ?l + n\<rparr>) L"
    unfolding sl_inv_def
    using sl_inv_distinct [OF inv] sl_inv_dom [OF inv] sl_inv_len [OF inv] sl_inv_level [OF inv] n
      sl_inv_tail [OF inv] sl_inv_header [OF inv] sl_inv_ht [OF inv] sl_inv_node [OF inv] link top
      inv [unfolded sl_inv_def]
    by (simp add: sk dom trans_le_add1)
  with 1(1) dom show ?thesis by blast
qed

section \<open>Linking a new node\<close>

definition updl :: "nat \<Rightarrow> 'o entry list \<Rightarrow> nat \<Rightarrow> nat \<Rightarrow> (nat \<times> u32) list" where
  "updl h L m n = map (\<lambda>i. (atp h L (prv L i m), of_nat (prv L i m))) [0..<n]"

lemma link_loop:
  assumes x: "\<And>p. p \<le> length L \<Longrightarrow> atp h L p \<noteq> x"
    and link: "\<And>i. i < n \<Longrightarrow> get_lv H0 (atp h L (prv L i m)) i = Some (wlnk i (drop (prv L i m) L))"
    and new: "\<And>i. i < lvl \<Longrightarrow> \<exists>v. get_lv H0 x i = Some v"
    and m: "m \<le> length L" "lvl \<le> n" "prv L 0 m = m"
  shows "\<exists>H2. for_upto (link_body x (updl h L m n)) 0 lvl H0 = Some H2 \<and>
    (\<forall>a. map_option skel (H2 a) = map_option skel (H0 a)) \<and>
    (\<forall>a j. get_lv H2 a j =
       (if j < lvl \<and> a = x then Some (wlnk j (drop m L))
        else if j < lvl \<and> a = atp h L (prv L j m) then Some (Some x, of_nat (m - prv L j m) + 1)
        else get_lv H0 a j))"
proof -
  let ?u = "\<lambda>j. atp h L (prv L j m)"
  have ux: "?u j \<noteq> x" for j using x prv_le [of L j m] m(1) by auto
  define P where "P k H \<longleftrightarrow> (\<forall>a. map_option skel (H a) = map_option skel (H0 a)) \<and>
    (\<forall>a j. get_lv H a j =
       (if j < k \<and> a = x then Some (wlnk j (drop m L))
        else if j < k \<and> a = ?u j then Some (Some x, of_nat (m - prv L j m) + 1)
        else get_lv H0 a j))" for k H
  have "\<exists>H2. for_upto (link_body x (updl h L m n)) 0 lvl H0 = Some H2 \<and> P (0 + lvl) H2"
  proof (rule for_upto_rule)
    fix j H assume j: "0 \<le> j" "j < 0 + lvl" and P: "P j H"
    define d where "d = (of_nat (m - prv L j m) :: u32)"
    have upd: "updl h L m n ! j = (?u j, of_nat (prv L j m))" "snd (updl h L m n ! 0) = of_nat m"
      using j m(2,3) by (simp_all add: updl_def)
    have d: "of_nat m - of_nat (prv L j m) = d" by (simp add: d_def prv_le of_nat_diff)
    have u: "get_lv H (?u j) j = Some (wlnk j (drop (prv L j m) L))"
      using P ux [of j] link [of j] j m(2) unfolding P_def by simp
    obtain v where xv: "get_lv H x j = Some v" using P new [of j] j unfolding P_def by auto
    obtain H1 where H1: "set_lv H x j (wlnk j (drop m L)) = Some H1"
        "\<And>b k. get_lv H1 b k = (if x = b \<and> j = k then Some (wlnk j (drop m L)) else get_lv H b k)"
        "\<And>b. map_option skel (H1 b) = map_option skel (H b)" using set_lv_gets [OF xv] by metis
    have u1: "get_lv H1 (?u j) j = Some (wlnk j (drop (prv L j m) L))" using u H1(2) ux [of j] by (metis (full_types))
    obtain H' where H': "set_lv H1 (?u j) j (Some x, d + 1) = Some H'"
        "\<And>b k. get_lv H' b k = (if ?u j = b \<and> j = k then Some (Some x, d + 1) else get_lv H1 b k)"
        "\<And>b. map_option skel (H' b) = map_option skel (H1 b)" using set_lv_gets [OF u1] by metis
    have "link_body x (updl h L m n) j H = Some H'"
      using u wlnk_prv [OF refl m(1), of j] H1(1) H'(1)
      by (simp add: link_body_def upd Let_def d) (simp add: d_def)
    moreover have "P (Suc j) H'" using P unfolding P_def
      by (auto simp: H'(2,3) H1(2,3) less_Suc_eq d_def ux ux [symmetric])
    ultimately show "\<exists>H'. link_body x (updl h L m n) j H = Some H' \<and> P (Suc j) H'" by blast
  qed (simp add: P_def)
  then show ?thesis by (simp add: P_def)
qed

lemma bump_loop:
  assumes link: "\<And>i. lvl \<le> i \<Longrightarrow> i < n \<Longrightarrow>
      get_lv H0 (atp h L (prv L i m)) i = Some (wlnk i (drop (prv L i m) L))"
  shows "\<exists>H2. for_upto (bump_body (updl h L m n)) lvl (n - lvl) H0 = Some H2 \<and>
    (\<forall>a. map_option skel (H2 a) = map_option skel (H0 a)) \<and>
    (\<forall>a j. get_lv H2 a j =
       (if lvl \<le> j \<and> j < n \<and> a = atp h L (prv L j m)
        then Some (fst (wlnk j (drop (prv L j m) L)), snd (wlnk j (drop (prv L j m) L)) + 1)
        else get_lv H0 a j))"
proof (cases "lvl \<le> n")
  case True
  let ?u = "\<lambda>j. atp h L (prv L j m)" and ?w = "\<lambda>j. wlnk j (drop (prv L j m) L)"
  define P where "P k H \<longleftrightarrow> (\<forall>a. map_option skel (H a) = map_option skel (H0 a)) \<and>
    (\<forall>a j. get_lv H a j = (if lvl \<le> j \<and> j < k \<and> a = ?u j then Some (fst (?w j), snd (?w j) + 1)
       else get_lv H0 a j))" for k H
  have "\<exists>H2. for_upto (bump_body (updl h L m n)) lvl (n - lvl) H0 = Some H2 \<and> P (lvl + (n - lvl)) H2"
  proof (rule for_upto_rule)
    fix j H assume j: "lvl \<le> j" "j < lvl + (n - lvl)" and P: "P j H"
    have "j < n" using j by simp
    then have upd: "fst (updl h L m n ! j) = ?u j" by (simp add: updl_def)
    have u: "get_lv H (?u j) j = Some (?w j)" using P link [of j] j unfolding P_def by simp
    obtain H' where H': "set_lv H (?u j) j (fst (?w j), snd (?w j) + 1) = Some H'"
        "\<And>b k. get_lv H' b k = (if ?u j = b \<and> j = k then Some (fst (?w j), snd (?w j) + 1) else get_lv H b k)"
        "\<And>b. map_option skel (H' b) = map_option skel (H b)" using set_lv_gets [OF u] by metis
    have "bump_body (updl h L m n) j H = Some H'"
      using u H'(1) by (cases "?w j") (simp add: bump_body_def upd)
    moreover have "P (Suc j) H'" using P j unfolding P_def by (auto simp: H'(2,3) less_Suc_eq)
    ultimately show "\<exists>H'. bump_body (updl h L m n) j H = Some H' \<and> P (Suc j) H'" by blast
  qed (auto simp: P_def)
  then show ?thesis using True by (simp add: P_def)
qed (auto simp: not_le)

lemma updl_append:
  assumes "sl_inv S L" "m \<le> length L"
  shows "map (\<lambda>i. (atp (sl_header S) L (prv L i m), of_nat (prv L i m))) [0..<sl_level S] @
    replicate k (sl_header S, 0) = updl (sl_header S) L m (sl_level S + k)"
proof -
  have "prv L i m = 0" if "sl_level S \<le> i" for i
  proof (rule prv_eq)
    show "\<forall>k\<ge>0. k < m \<longrightarrow> ht (L ! k) \<le> i" using sl_inv_ht(2) [OF assms(1)] assms(2) that by (meson less_le_trans order_trans)
  qed auto
  then show ?thesis
    by (intro nth_equalityI) (simp_all add: updl_def nth_append)
qed

section \<open>Insertion at the place where the search ends\<close>

lemma random_hits_ge: "random_hits rs l = Some (l', rs') \<Longrightarrow> l \<le> l'"
  by (induction rs arbitrary: l) (auto split: if_splits dest: Suc_leD)

lemma slRandomLevel_range: "slRandomLevel rs = Some (lvl, rs') \<Longrightarrow> 1 \<le> lvl \<and> lvl \<le> 32"
  by (auto simp: slRandomLevel_def dest: random_hits_ge split: if_splits)

lemma sl_invI:
  assumes "distinct (sl_header S # map ad L)"
    and "dom (sl_mem S) = insert (sl_header S) (ad ` set L)"
    and "\<And>a. a \<in> dom (sl_mem S) \<Longrightarrow> a < sl_brk S"
    and "length L < 4294967296" "sl_length S = of_nat (length L)"
    and "1 \<le> sl_level S" "sl_level S \<le> 32"
    and "sl_tail S = backp L (length L)"
    and "map_option skel (sl_mem S (sl_header S)) = Some (None, Fin 0, None, 32)"
    and "\<And>p. p < length L \<Longrightarrow> 1 \<le> ht (L ! p) \<and> ht (L ! p) \<le> sl_level S"
    and "\<And>p. p < length L \<Longrightarrow> map_option skel (sl_mem S (ad (L ! p))) =
          Some (Some (eob (L ! p)), esc (L ! p), backp L p, ht (L ! p))"
    and "\<And>p i. p \<le> length L \<Longrightarrow> i < limp (sl_level S) L p \<Longrightarrow>
        get_lv (sl_mem S) (atp (sl_header S) L p) i = Some (wlnk i (drop p L))"
    and "\<And>i. sl_level S \<le> i \<Longrightarrow> i < 32 \<Longrightarrow> \<exists>s. get_lv (sl_mem S) (sl_header S) i = Some (None, s)"
  shows "sl_inv S L"
  unfolding sl_inv_def using assms by blast

lemma wlnk0_nth: "m < length L \<Longrightarrow> 1 \<le> ht (L ! m) \<Longrightarrow> fst (wlnk 0 (drop m L)) = Some (ad (L ! m))"
  by (simp add: wlnk_def Cons_nth_drop_Suc [symmetric])

text \<open>The links after both loops are those of the longer list.\<close>

lemma links_after_insert:
  assumes dist: "distinct (h # map ad L)" and m: "m \<le> length L"
    and lv: "\<And>a j. get_lv H a j =
       (if j < ht e \<and> a = ad e then Some (wlnk j (drop m L))
        else if j < ht e \<and> a = atp h L (prv L j m) then Some (Some (ad e), of_nat (m - prv L j m) + 1)
        else if ht e \<le> j \<and> j < l \<and> a = atp h L (prv L j m)
          then Some (fst (wlnk j (drop (prv L j m) L)), snd (wlnk j (drop (prv L j m) L)) + 1)
        else get_lv H0 a j)"
    and old: "\<And>p i. p \<le> length L \<Longrightarrow> i < limp l L p \<Longrightarrow> get_lv H0 (atp h L p) i = Some (wlnk i (drop p L))"
    and x: "\<And>p. p \<le> length L \<Longrightarrow> atp h L p \<noteq> ad e"
    and hts: "\<And>p. p < length L \<Longrightarrow> ht (L ! p) \<le> l"
    and p: "p \<le> Suc (length L)" "i < limp l (ins m e L) p"
  shows "get_lv H (atp h (ins m e L) p) i = Some (wlnk i (drop p (ins m e L)))"
proof -
  consider "p \<le> m" | "p = Suc m" | q where "p = Suc q" "m < q" by (cases p) (auto, linarith)
  then show ?thesis
  proof cases
    case 1
    then have pl: "p \<le> length L" using m by simp
    have i: "i < limp l L p" using p(2) 1 m by (simp add: limp_ins)
    have il: "i < l" using i hts [of "p - 1"] pl by (cases p) (auto simp: limp_def)
    show ?thesis
    proof (cases "prv L i m = p")
      case True
      then show ?thesis using 1 m x [OF pl] il
        by (simp add: atp_ins lv wlnk_ins_prv)
    next
      case False
      then have "atp h L p \<noteq> atp h L (prv L i m)"
        using atp_inj [OF dist pl, of "prv L i m"] prv_le [of L i m] m by auto
      then show ?thesis using False 1 m x [OF pl] i old [OF pl i]
        by (simp add: atp_ins lv wlnk_ins_other)
    qed
  next
    case 2
    then show ?thesis using p(2) m by (simp add: atp_ins limp_ins lv ins_drop)
  next
    case (3 q)
    then have q: "q \<le> length L" "i < limp l L q" using p m by (simp_all add: limp_ins)
    have "atp h L q \<noteq> atp h L (prv L i m)"
      using atp_inj [OF dist q(1), of "prv L i m"] prv_le [of L i m] m 3(2) by auto
    then show ?thesis using 3 m x [OF q(1)] old [OF q] by (simp add: atp_ins lv ins_drop)
  qed
qed

lemma insert_inv:
  assumes inv: "sl_inv S L" and c: "threshold S L (before cmp s v :: ('o, 32) cond) m"
    and len: "Suc (length L) < 4294967296"
    and rnd: "slRandomLevel rnd = Some (lvl, rnd')"
  shows "\<exists>S'. slInsert cmp S s v rnd = Some (S', rnd') \<and> sl_header S' = sl_header S \<and>
    sl_inv S' (ins m ((sl_brk S, lvl), s, v) L)"
proof -
  define h where "h = sl_header S"
  define x where "x = sl_brk S"
  define e where "e = ((x, lvl), s, v)"
  define more where "more = lvl - sl_level S"
  define n where "n = sl_level S + more"
  have lvl: "1 \<le> lvl" "lvl \<le> 32" using slRandomLevel_range [OF rnd] by auto
  have m: "m \<le> length L" using c by (simp add: threshold_def)
  have n: "n \<le> 32" "lvl \<le> n" "1 \<le> n" using lvl sl_inv_level [OF inv] by (auto simp: n_def more_def)
  have e [simp]: "ad e = x" "ht e = lvl" "esc e = s" "eob e = v" by (simp_all add: e_def)
  text \<open>The header grows.\<close>
  from grow_inv [OF inv, of more] n(1) obtain H1 where
    H1: "for_upto (grow_body h (sl_length S)) (sl_level S) more (sl_mem S) = Some H1"
      "sl_inv (S\<lparr>sl_mem := H1, sl_level := n\<rparr>) L" "dom H1 = dom (sl_mem S)"
    by (auto simp: n_def h_def)
  note inv1 = H1(2)
  have xH: "a \<in> dom H1 \<Longrightarrow> a \<noteq> x" for a using sl_inv_brk [OF inv, of a] H1(3) by (auto simp: x_def)
  have dist: "distinct (h # map ad L)" using sl_inv_distinct [OF inv] by (simp add: h_def)
  have xp: "p \<le> length L \<Longrightarrow> atp h L p \<noteq> x" for p
    using atp_mem [OF inv] xH H1(3) by (simp add: h_def)
  have ht1: "1 \<le> ht e'" if "e' \<in> set L" for e'
    using sl_inv_ht(1) [OF inv] that by (metis in_set_conv_nth)
  have p0: "prv L 0 m = m"
    by (rule prv_level0) (use ht1 m in \<open>auto simp: Suc_le_eq\<close>)
  text \<open>The new node.\<close>
  define N where "N = \<lparr>n_obj = Some v, n_score = s, n_backward = None, n_levels = replicate lvl (None, 0 :: u32)\<rparr>"
  define H0 where "H0 = H1(x \<mapsto> N)"
  have H0: "a \<noteq> x \<Longrightarrow> H0 a = H1 a" "a \<noteq> x \<Longrightarrow> get_lv H0 a i = get_lv H1 a i"
    "i < lvl \<Longrightarrow> get_lv H0 x i = Some (None, 0)" "map_option skel (H0 x) = Some (Some v, s, None, lvl)" for a i
    by (simp_all add: H0_def get_lv_def N_def skel_def)
  have link: "p \<le> length L \<Longrightarrow> i < limp n L p \<Longrightarrow> get_lv H0 (atp h L p) i = Some (wlnk i (drop p L))" for p i
    using sl_inv_link [OF inv1, of p i] xp [of p] by (simp add: H0 h_def)
  have plink: "i < n \<Longrightarrow> get_lv H0 (atp h L (prv L i m)) i = Some (wlnk i (drop (prv L i m) L))" for i
    by (rule link) (use prv_le [of L i m] m limp_prv in auto)
  have new: "i < lvl \<Longrightarrow> \<exists>w. get_lv H0 x i = Some w" for i using H0(3) by blast
  text \<open>The two loops.\<close>
  obtain H2 where H2: "for_upto (link_body x (updl h L m n)) 0 lvl H0 = Some H2"
    "\<And>a. map_option skel (H2 a) = map_option skel (H0 a)"
    "\<And>a j. get_lv H2 a j = (if j < lvl \<and> a = x then Some (wlnk j (drop m L))
        else if j < lvl \<and> a = atp h L (prv L j m) then Some (Some x, of_nat (m - prv L j m) + 1)
        else get_lv H0 a j)"
    using link_loop [OF xp plink new m n(2) p0] by blast
  have "\<And>i. lvl \<le> i \<Longrightarrow> i < n \<Longrightarrow> get_lv H2 (atp h L (prv L i m)) i = Some (wlnk i (drop (prv L i m) L))"
    by (simp add: H2(3) plink)
  from bump_loop [of lvl n H2 h L m, OF this] obtain H3 where H3: "for_upto (bump_body (updl h L m n)) lvl (n - lvl) H2 = Some H3"
    "\<And>a. map_option skel (H3 a) = map_option skel (H2 a)"
    "\<And>a j. get_lv H3 a j = (if lvl \<le> j \<and> j < n \<and> a = atp h L (prv L j m)
        then Some (fst (wlnk j (drop (prv L j m) L)), snd (wlnk j (drop (prv L j m) L)) + 1)
        else get_lv H2 a j)" by metis
  have sk3: "map_option skel (H3 a) = map_option skel (H0 a)" for a by (simp add: H2 H3)
  have lv3: "get_lv H3 a j =
       (if j < ht e \<and> a = ad e then Some (wlnk j (drop m L))
        else if j < ht e \<and> a = atp h L (prv L j m) then Some (Some (ad e), of_nat (m - prv L j m) + 1)
        else if ht e \<le> j \<and> j < n \<and> a = atp h L (prv L j m)
          then Some (fst (wlnk j (drop (prv L j m) L)), snd (wlnk j (drop (prv L j m) L)) + 1)
        else get_lv H0 a j)" for a j by (auto simp: H2 H3)
  have x3: "map_option skel (H3 x) = Some (Some v, s, None, lvl)" by (simp add: sk3 H0)
  text \<open>The backward pointers.\<close>
  obtain H4 where H4: "set_back H3 x (backp L m) = Some H4" "\<And>a j. get_lv H4 a j = get_lv H3 a j"
    "\<And>a. map_option skel (H4 a) = (if a = x then Some (Some v, s, backp L m, lvl) else map_option skel (H3 a))"
    using set_back_gets [of H3 x, OF x3, of "backp L m"] by metis
  have x0: "get_lv H4 x 0 = Some (wlnk 0 (drop m L))" using lvl by (simp add: H4 lv3)
  have bk: "(if fst (updl h L m n ! 0) = h then None else Some (fst (updl h L m n ! 0))) = backp L m"
  proof -
    have "fst (updl h L m n ! 0) = atp h L m" using n(3) p0 by (simp add: updl_def)
    moreover have "atp h L m = h \<longleftrightarrow> m = 0" using atp_inj [OF dist m, of 0] by auto
    ultimately show ?thesis by (simp add: backp_def) (simp add: atp_def)
  qed
  define S2 where "S2 = S\<lparr>sl_mem := H0, sl_level := n, sl_brk := Suc x\<rparr>"
  have "slCreateNode lvl s (Some v) (S\<lparr>sl_mem := H1, sl_level := n\<rparr>) = (x, S2)"
    by (simp add: slCreateNode_def S2_def H0_def N_def x_def)
  then have run: "slInsert cmp S s v rnd = do {
      (f, _) \<leftarrow> get_lv H4 x 0;
      (case f of
        Some y \<Rightarrow> do {
          H5 \<leftarrow> set_back H4 y (Some x);
          Some (S2\<lparr>sl_mem := H5, sl_length := sl_length S + 1\<rparr>, rnd') }
      | None \<Rightarrow> Some (S2\<lparr>sl_mem := H4, sl_tail := Some x, sl_length := sl_length S + 1\<rparr>, rnd')) }"
    using H1(1) H2(1) H3(1) H4(1) unfolding S2_def
    by (simp add: slInsert_def descend_header [OF inv c, folded h_def] rnd Let_def more_def [symmetric] n_def [symmetric]
        updl_append [OF inv m, unfolded h_def [symmetric]] h_def [symmetric] bk cong: if_cong split del: if_split)
  have y: "ad (L ! m) \<noteq> x" if "m < length L" using xp [of "Suc m"] that by (simp add: atp_def)
  have "\<exists>S'. slInsert cmp S s v rnd = Some (S', rnd') \<and> sl_header S' = h \<and> sl_brk S' = Suc x \<and>
      sl_tail S' = (if m = length L then Some x else sl_tail S) \<and> sl_length S' = sl_length S + 1 \<and>
      sl_level S' = n \<and> (\<forall>a j. get_lv (sl_mem S') a j = get_lv H3 a j) \<and>
      (\<forall>a. map_option skel (sl_mem S' a) = (if a = x then Some (Some v, s, backp L m, lvl)
         else if m < length L \<and> a = ad (L ! m) then Some (Some (eob (L ! m)), esc (L ! m), Some x, ht (L ! m))
         else map_option skel (H1 a)))"
  proof (cases "m < length L")
    case True
    have "map_option skel (H4 (ad (L ! m))) = Some (Some (eob (L ! m)), esc (L ! m), backp L m, ht (L ! m))"
      using sl_inv_node [OF inv1, of m] True y by (simp add: H4 sk3 H0)
    from set_back_gets [of H4 "ad (L ! m)", OF this, of "Some x"] obtain H5 where
      H5: "set_back H4 (ad (L ! m)) (Some x) = Some H5" "\<And>a j. get_lv H5 a j = get_lv H4 a j"
      "\<And>a. map_option skel (H5 a) = (if a = ad (L ! m) then Some (Some (eob (L ! m)), esc (L ! m), Some x, ht (L ! m))
         else map_option skel (H4 a))" by metis
    let ?S = "S\<lparr>sl_mem := H5, sl_level := n, sl_brk := Suc x, sl_length := sl_length S + 1\<rparr>"
    have "fst (wlnk 0 (drop m L)) = Some (ad (L ! m))"
      using wlnk0_nth [OF True] sl_inv_ht(1) [OF inv True] by simp
    then obtain s0 where "wlnk 0 (drop m L) = (Some (ad (L ! m)), s0)" by (metis prod.collapse)
    with x0 have "get_lv H4 x 0 = Some (Some (ad (L ! m)), s0)" by simp
    with run H5(1) have "slInsert cmp S s v rnd = Some (?S, rnd')" by (simp add: S2_def)
    then show ?thesis using True y by (intro exI [of _ ?S]) (auto simp: S2_def h_def H5 H4 sk3 H0)
  next
    case False
    let ?S = "S\<lparr>sl_mem := H4, sl_level := n, sl_brk := Suc x, sl_tail := Some x, sl_length := sl_length S + 1\<rparr>"
    have "wlnk 0 (drop m L) = (None, 0)" using False by (simp add: wlnk_def)
    with run x0 have "slInsert cmp S s v rnd = Some (?S, rnd')" by (simp add: S2_def)
    then show ?thesis using False m y by (intro exI [of _ ?S]) (auto simp: S2_def h_def H4 sk3 H0)
  qed
  then obtain S' where S': "slInsert cmp S s v rnd = Some (S', rnd')" "sl_header S' = h" "sl_brk S' = Suc x"
      "sl_tail S' = (if m = length L then Some x else sl_tail S)" "sl_length S' = sl_length S + 1"
      "sl_level S' = n" "\<And>a j. get_lv (sl_mem S') a j = get_lv H3 a j"
      "\<And>a. map_option skel (sl_mem S' a) = (if a = x then Some (Some v, s, backp L m, lvl)
         else if m < length L \<and> a = ad (L ! m) then Some (Some (eob (L ! m)), esc (L ! m), Some x, ht (L ! m))
         else map_option skel (H1 a))" by blast
  have adn: "ad (L ! p) = ad (L ! q) \<longleftrightarrow> p = q" if "p < length L" "q < length L" for p q
    using atp_inj [OF dist, of "Suc p" "Suc q"] that by (auto simp: atp_def)
  have adx: "ad (L ! p) \<noteq> x" if "p < length L" for p using xp [of "Suc p"] that by (simp add: atp_def)
  have set_ins: "set (ins m e L) = insert e (set L)"
    using set_append [of "take m L" "drop m L"] by (simp add: ins_def)
  have domS: "dom (sl_mem S') = insert x (dom H1)"
  proof -
    have "sl_mem S' a \<noteq> None \<longleftrightarrow> a = x \<or> H1 a \<noteq> None" for a
      using S'(8) [of a] sl_inv_node [OF inv1, of m]
      by (cases "H1 a"; cases "sl_mem S' a") (auto split: if_splits)
    then show ?thesis by auto
  qed
  have "sl_inv S' (ins m e L)"
  proof (rule sl_invI)
    define A B where "A = map ad (take m L)" and "B = map ad (drop m L)"
    then have AB: "map ad (take m L) = A" "map ad (drop m L) = B" "map ad L = A @ B"
      by (simp_all flip: map_append)
    have "x \<notin> set (map ad L)" using adx by (force simp: in_set_conv_nth)
    then show "distinct (sl_header S' # map ad (ins m e L))"
      using dist xp [of 0] unfolding S'(2) ins_def map_append list.map AB by auto
    show "dom (sl_mem S') = insert (sl_header S') (ad ` set (ins m e L))"
      using sl_inv_dom [OF inv1] by (auto simp: domS set_ins S'(2) h_def)
    show "a < sl_brk S'" if "a \<in> dom (sl_mem S')" for a
    proof -
      from that have "a = x \<or> a \<in> dom (sl_mem S)" unfolding domS H1(3) by blast
      then show ?thesis using sl_inv_brk [OF inv, of a] unfolding S'(3) x_def by fastforce
    qed
    show "length (ins m e L) < 4294967296" "sl_length S' = of_nat (length (ins m e L))"
      using len sl_inv_len(2) [OF inv] by (simp_all add: S'(5))
    show "1 \<le> sl_level S'" "sl_level S' \<le> 32" using n by (simp_all add: S'(6))
    show "sl_tail S' = backp (ins m e L) (length (ins m e L))"
      using m sl_inv_tail [OF inv] by (auto simp: S'(4) backp_ins)
    show "map_option skel (sl_mem S' (sl_header S')) = Some (None, Fin 0, None, 32)"
      using sl_inv_header [OF inv1] atp_inj [OF dist, of 0 "Suc m"] xp [of 0]
      by (auto simp: S'(2,8) h_def atp_def)
    show "1 \<le> ht (ins m e L ! p) \<and> ht (ins m e L ! p) \<le> sl_level S'" if "p < length (ins m e L)" for p
      using sl_inv_ht [OF inv1, of p] sl_inv_ht [OF inv1, of "p - 1"] that m n lvl
      by (auto simp: ins_nth S'(6))
    show "map_option skel (sl_mem S' (ad (ins m e L ! p))) =
        Some (Some (eob (ins m e L ! p)), esc (ins m e L ! p), backp (ins m e L) p, ht (ins m e L ! p))"
      if p: "p < length (ins m e L)" for p
    proof -
      consider "p < m" | "p = m" | "p = Suc m" "m < length L" | q where "p = Suc q" "m < q" "q < length L"
        using p by (cases p) (auto, linarith)
      then show ?thesis
      proof cases
        case 1
        then show ?thesis using m adn [of p m] adx [of p] sl_inv_node [OF inv1, of p]
          by (auto simp: S'(8) ins_nth backp_ins)
      next
        case 2
        then show ?thesis using m by (auto simp: S'(8) ins_nth backp_ins)
      next
        case 3
        then show ?thesis using m y by (auto simp: S'(8) ins_nth backp_ins)
      next
        case (4 q)
        then show ?thesis using m adn [of q m] adx [of q] sl_inv_node [OF inv1, of q]
          by (auto simp: S'(8) ins_nth backp_ins)
      qed
    qed
    show "get_lv (sl_mem S') (atp (sl_header S') (ins m e L) p) i = Some (wlnk i (drop p (ins m e L)))"
      if "p \<le> length (ins m e L)" "i < limp (sl_level S') (ins m e L) p" for p i
      unfolding S'(2,7)
      by (rule links_after_insert [where l = n and ?H0.0 = H0, OF dist m lv3 link xp [folded e(1)]])
        (use that sl_inv_ht(2) [OF inv1] in \<open>simp_all add: S'(6)\<close>)
    show "\<exists>s. get_lv (sl_mem S') (sl_header S') i = Some (None, s)" if "sl_level S' \<le> i" "i < 32" for i
    proof -
      have "get_lv H3 h i = get_lv H1 h i" using that n(2) xp [of 0] by (auto simp: lv3 S'(6) H0)
      then show ?thesis using sl_inv_top [OF inv1, of i] that by (simp add: S'(2,6,7) h_def)
    qed
  qed
  with S'(1,2) show ?thesis by (auto simp: h_def e_def x_def)
qed

end
