(* ===== verification/Zset_Delete.thy ===== *)
theory Zset_Delete
  imports Zset_Insert
begin

text \<open>
  Deletion and the invariant: the loop that unlinks a node from every level, the backward pointer
  of its successor, and the levels that become empty.  \<open>delete_node_inv\<close> says that
  \<open>slDeleteNode\<close> followed by freeing the node removes exactly its entry.
\<close>

section \<open>Removing an entry\<close>

definition del :: "nat \<Rightarrow> 'a list \<Rightarrow> 'a list" where
  "del m L = take m L @ drop (Suc m) L"

lemma length_del: "m < length L \<Longrightarrow> length (del m L) = length L - 1"
  by (simp add: del_def)

lemma ins_del: "m < length L \<Longrightarrow> ins m (L ! m) (del m L) = L"
  by (simp add: ins_def del_def id_take_nth_drop [symmetric])

lemma del_nth: "m < length L \<Longrightarrow> del m L ! p = (if p < m then L ! p else L ! Suc p)"
  by (simp add: del_def nth_append)

lemma set_del: "set (del m L) \<subseteq> set L"
  using set_take_subset [of m L] set_drop_subset [of "Suc m" L] by (auto simp: del_def)

lemma lnk_in: "fst (lnk i es) = Some a \<Longrightarrow> a \<in> ad ` set es"
  by (induction es) (auto split: if_splits)

lemma del_fresh:
  assumes "distinct (h # map ad L)" "m < length L"
  shows "ad (L ! m) \<notin> ad ` set (del m L)" "h \<notin> ad ` set (del m L)" "distinct (map ad (del m L))"
proof -
  have "map ad L = map ad (take m L) @ ad (L ! m) # map ad (drop (Suc m) L)"
    using id_take_nth_drop [OF assms(2)] by (metis list.map(2) map_append)
  then show "ad (L ! m) \<notin> ad ` set (del m L)" "h \<notin> ad ` set (del m L)" "distinct (map ad (del m L))"
    using assms(1) by (auto simp: del_def image_Un simp flip: set_map)
qed

lemma shrink_level_ok:
  assumes "\<And>i. i < l \<Longrightarrow> get_lv H h i = Some (wlnk i D)" "1 \<le> l" "\<And>e. e \<in> set D \<Longrightarrow> ht e \<le> l"
  shows "\<exists>l'. shrink_level H h l = Some l' \<and> 1 \<le> l' \<and> l' \<le> l \<and> (\<forall>e \<in> set D. ht e \<le> l') \<and>
    (\<forall>i. l' \<le> i \<longrightarrow> i < l \<longrightarrow> fst (wlnk i D) = None)"
  using assms
proof (induction l)
  case (Suc l)
  show ?case
  proof (cases l)
    case 0
    with Suc.prems show ?thesis by auto
  next
    case (Suc k)
    obtain f s where g: "get_lv H h l = Some (f, s)" "f = fst (wlnk l D)" using Suc.prems(1) [of l] by (metis lessI prod.collapse)
    show ?thesis
    proof (cases "f = None")
      case True
      have "ht e \<le> l" if "e \<in> set D" for e
        using True that unfolding g(2) wlnk_def by (cases rule: lnk_cases [of D l]) auto
      with Suc.IH Suc.prems Suc obtain l' where l': "shrink_level H h l = Some l'" "1 \<le> l'" "l' \<le> l"
        "\<forall>e \<in> set D. ht e \<le> l'" "\<forall>i. l' \<le> i \<longrightarrow> i < l \<longrightarrow> fst (wlnk i D) = None" by auto
      have "shrink_level H h (Suc l) = Some l'" using l'(1) g(1) True Suc by simp
      with l' True g(2) show ?thesis by (auto simp: less_Suc_eq)
    next
      case False
      then have "shrink_level H h (Suc l) = Some (Suc l)" using g(1) Suc by (auto simp: \<open>f \<noteq> None\<close>)
      with Suc.prems show ?thesis by auto
    qed
  qed
qed simp

lemma unlink_loop:
  assumes dist: "distinct (h # map ad L)" and m: "m < length L" and D: "D = del m L" and e: "e = L ! m"
    and link: "\<And>p i. p \<le> length L \<Longrightarrow> i < limp l L p \<Longrightarrow> get_lv H0 (atp h L p) i = Some (wlnk i (drop p L))"
    and upd: "\<And>i. i < l \<Longrightarrow> upd ! i = atp h D (prv D i m)"
  shows "\<exists>H1. for_upto (unlink_body (ad e) upd) 0 l H0 = Some H1 \<and>
    (\<forall>a. map_option skel (H1 a) = map_option skel (H0 a)) \<and>
    (\<forall>a j. get_lv H1 a j = (if j < l \<and> a = atp h D (prv D j m)
       then Some (wlnk j (drop (prv D j m) D)) else get_lv H0 a j))"
proof -
  have L: "L = ins m e D" using ins_del [OF m] by (simp add: D e)
  have mD: "m \<le> length D" using m by (simp add: D length_del)
  let ?u = "\<lambda>j. atp h D (prv D j m)" and ?w = "\<lambda>j. wlnk j (drop (prv D j m) D)"
  have pm: "prv D j m \<le> m" for j by (rule prv_le)
  have lp: "j < l \<Longrightarrow> j < limp l L (prv D j m)" for j
    using limp_prv [of j l D m] pm mD by (simp add: L limp_ins)
  have up: "?u j = atp h L (prv D j m)" for j using pm mD by (simp add: L atp_ins)
  have u: "j < l \<Longrightarrow> get_lv H0 (?u j) j = Some (if j < ht e then (Some (ad e), of_nat (m - prv D j m) + 1)
      else (fst (?w j), snd (?w j) + 1))" for j
    using link [OF _ lp, of j] pm [of j] m by (simp add: up) (simp add: L wlnk_ins_prv mD)
  have xe: "j < ht e \<Longrightarrow> get_lv H0 (ad e) j = Some (wlnk j (drop m D))" for j
    using link [of "Suc m" j] m mD by (simp add: e [symmetric] limp_def atp_def) (simp add: L ins_drop)
  have ne: "fst (?w j) \<noteq> Some (ad e)" for j
    using lnk_in [of j "drop (prv D j m) D" "ad e"] del_fresh(1) [OF dist m] set_drop_subset [of _ D]
    by (auto simp: wlnk_def D e)
  have ux: "?u j \<noteq> ad e" for j
    using atp_inj [OF dist, of "prv D j m" "Suc m"] pm [of j] m by (auto simp: up atp_def [of _ _ "Suc m"] e)
  define P where "P k H \<longleftrightarrow> (\<forall>a. map_option skel (H a) = map_option skel (H0 a)) \<and>
    (\<forall>a j. get_lv H a j = (if j < k \<and> a = ?u j then Some (?w j) else get_lv H0 a j))" for k H
  have "\<exists>H1. for_upto (unlink_body (ad e) upd) 0 l H0 = Some H1 \<and> P (0 + l) H1"
  proof (rule for_upto_rule)
    fix j H assume j: "0 \<le> j" "j < 0 + l" and P: "P j H"
    have uj: "upd ! j = ?u j" "get_lv H (?u j) j = get_lv H0 (?u j) j" using P upd j unfolding P_def by auto
    have "get_lv H (ad e) j = get_lv H0 (ad e) j" using P ux unfolding P_def by (metis (full_types))
    then have xj: "j < ht e \<Longrightarrow> get_lv H (ad e) j = Some (wlnk j (drop m D))" using xe by simp
    have "\<exists>w0. get_lv H (?u j) j = Some w0" using uj(2) u j by simp
    then obtain w0 where w0: "get_lv H (?u j) j = Some w0" by blast
    from set_lv_gets [OF w0, of "?w j"] obtain H' where H': "set_lv H (?u j) j (?w j) = Some H'"
        "\<And>b k. get_lv H' b k = (if ?u j = b \<and> j = k then Some (?w j) else get_lv H b k)"
        "\<And>b. map_option skel (H' b) = map_option skel (H b)" by metis
    have "unlink_body (ad e) upd j H = Some H'"
    proof (cases "j < ht e")
      case True
      have w: "(fst (wlnk j (drop m D)), of_nat (m - prv D j m) + 1 + (snd (wlnk j (drop m D)) - 1)) = ?w j"
        using wlnk_prv [OF refl mD, of j] by simp
      show ?thesis using True uj u [of j] j xj [OF True] H'(1)
        by (cases "wlnk j (drop m D)") (simp add: unlink_body_def w [symmetric])
    next
      case False
      show ?thesis using False uj u [of j] j ne [of j] H'(1)
        by (cases "?w j") (simp add: unlink_body_def)
    qed
    moreover have "P (Suc j) H'" using P unfolding P_def by (auto simp: H'(2,3) less_Suc_eq)
    ultimately show "\<exists>H'. unlink_body (ad e) upd j H = Some H' \<and> P (Suc j) H'" by blast
  qed (simp add: P_def)
  then show ?thesis by (simp add: P_def)
qed

lemma links_after_delete:
  assumes dist: "distinct (h # map ad L)" "distinct (h # map ad D)" and m: "m \<le> length D" and L: "L = ins m e D"
    and link: "\<And>p i. p \<le> length L \<Longrightarrow> i < limp l L p \<Longrightarrow> get_lv H0 (atp h L p) i = Some (wlnk i (drop p L))"
    and lv: "\<And>a j. get_lv H a j = (if j < l \<and> a = atp h D (prv D j m)
       then Some (wlnk j (drop (prv D j m) D)) else get_lv H0 a j)"
    and hts: "\<And>e. e \<in> set D \<Longrightarrow> ht e \<le> l"
    and p: "p \<le> length D" "i < limp l D p"
  shows "get_lv H (atp h D p) i = Some (wlnk i (drop p D))"
proof -
  have il: "i < l" using p hts [of "D ! (p - 1)"] by (cases p) (auto simp: limp_def)
  show ?thesis
  proof (cases "prv D i m = p")
    case True
    with il show ?thesis by (simp add: lv)
  next
    case False
    then have "atp h D p \<noteq> atp h D (prv D i m)"
      using atp_inj [OF dist(2) p(1), of "prv D i m"] prv_le [of D i m] m by auto
    then have g: "get_lv H (atp h D p) i = get_lv H0 (atp h D p) i" by (simp add: lv)
    show ?thesis
    proof (cases "p \<le> m")
      case le: True
      then have "get_lv H0 (atp h D p) i = Some (wlnk i (drop p L))"
        using link [of p i] p m by (simp add: L atp_ins limp_ins)
      with g show ?thesis using wlnk_ins_other [OF False le m p(2)] by (simp add: L)
    next
      case gt: False
      then show ?thesis using g link [of "Suc p" i] p m by (simp add: L atp_ins limp_ins ins_drop)
    qed
  qed
qed

lemma delete_node_run:
  assumes inv: "sl_inv S L" and m: "m < length L" and D: "D = del m L" and e: "e = L ! m"
    and upd: "\<And>i. i < sl_level S \<Longrightarrow> upd ! i = atp (sl_header S) L (prv L i m)"
  shows "\<exists>S1. slDeleteNode S (ad e) upd = Some S1 \<and> sl_header S1 = sl_header S \<and> sl_brk S1 = sl_brk S \<and>
    sl_length S1 = sl_length S - 1 \<and> sl_tail S1 = (if m < length D then sl_tail S else backp L m) \<and>
    1 \<le> sl_level S1 \<and> sl_level S1 \<le> sl_level S \<and> (\<forall>e \<in> set D. ht e \<le> sl_level S1) \<and>
    (\<forall>i. sl_level S1 \<le> i \<longrightarrow> i < 32 \<longrightarrow> (\<exists>s. get_lv (sl_mem S1) (sl_header S) i = Some (None, s))) \<and>
    (\<forall>p i. p \<le> length D \<longrightarrow> i < limp (sl_level S) D p \<longrightarrow>
       get_lv (sl_mem S1) (atp (sl_header S) D p) i = Some (wlnk i (drop p D))) \<and>
    (\<forall>a. map_option skel (sl_mem S1 a) = (if m < length D \<and> a = ad (D ! m)
       then Some (Some (eob (D ! m)), esc (D ! m), backp L m, ht (D ! m)) else map_option skel (sl_mem S a)))"
proof -
  let ?h = "sl_header S" and ?l = "sl_level S"
  have L: "L = ins m e D" using ins_del [OF m] by (simp add: D e)
  have mD: "m \<le> length D" using m by (simp add: D length_del)
  have dist: "distinct (?h # map ad L)" by (rule sl_inv_distinct [OF inv])
  have distD: "distinct (?h # map ad D)" using del_fresh [OF dist m] by (simp add: D)
  have prv: "prv L i m = prv D i m" for i by (rule prv_cong) (simp add: L ins_nth mD)
  have htD: "ht e' \<le> ?l" if "e' \<in> set D" for e'
    using sl_inv_ht(2) [OF inv] set_del [of m L] that by (metis D in_set_conv_nth subsetD)
  have up: "i < ?l \<Longrightarrow> upd ! i = atp ?h D (prv D i m)" for i
    using upd [of i] prv_le [of D i m] mD by (simp add: prv) (simp add: L atp_ins)
  obtain H1 where H1: "for_upto (unlink_body (ad e) upd) 0 ?l (sl_mem S) = Some H1"
    "\<And>a. map_option skel (H1 a) = map_option skel (sl_mem S a)"
    "\<And>a j. get_lv H1 a j = (if j < ?l \<and> a = atp ?h D (prv D j m)
       then Some (wlnk j (drop (prv D j m) D)) else get_lv (sl_mem S) a j)"
    using unlink_loop [OF dist m D e sl_inv_link [OF inv] up] by blast
  have links: "p \<le> length D \<Longrightarrow> i < limp ?l D p \<Longrightarrow> get_lv H1 (atp ?h D p) i = Some (wlnk i (drop p D))" for p i
    by (rule links_after_delete [OF dist distD mD L sl_inv_link [OF inv] H1(3) htD])
  have xn: "map_option skel (H1 (ad e)) = Some (Some (eob e), esc e, backp L m, ht e)"
    using sl_inv_node [OF inv m] by (simp add: H1(2) e)
  then obtain n where n: "H1 (ad e) = Some n" "n_backward n = backp L m" by (auto simp: skel_def)
  have "ad e = atp ?h L (Suc m)" by (simp add: atp_def e)
  moreover have "atp ?h D (prv D 0 m) = atp ?h L (prv D 0 m)"
    using prv_le [of D 0 m] mD by (simp add: L atp_ins)
  ultimately have "ad e \<noteq> atp ?h D (prv D 0 m)"
    using atp_inj [OF dist, of "Suc m" "prv D 0 m"] prv_le [of D 0 m] m by auto
  then have x0: "get_lv H1 (ad e) 0 = Some (wlnk 0 (drop m D))"
    using sl_inv_link [OF inv, of "Suc m" 0] sl_inv_ht(1) [OF inv m] m mD
    by (simp add: H1(3) limp_def atp_def e [symmetric]) (simp add: L ins_drop)
  have hts: "1 \<le> ht (D ! m)" if "m < length D" for m
    using that sl_inv_ht(1) [OF inv] set_del [of m L] by (metis D in_set_conv_nth nth_mem set_del subsetD)
  have "\<exists>S2. (case fst (wlnk 0 (drop m D)) of
        Some y \<Rightarrow> do {
          H2 \<leftarrow> set_back H1 y (n_backward n);
          Some (S\<lparr>sl_mem := H2\<rparr>) }
      | None \<Rightarrow> Some (S\<lparr>sl_mem := H1, sl_tail := n_backward n\<rparr>)) = Some S2 \<and>
      sl_header S2 = ?h \<and> sl_brk S2 = sl_brk S \<and> sl_level S2 = ?l \<and> sl_length S2 = sl_length S \<and>
      sl_tail S2 = (if m < length D then sl_tail S else backp L m) \<and>
      (\<forall>a j. get_lv (sl_mem S2) a j = get_lv H1 a j) \<and>
      (\<forall>a. map_option skel (sl_mem S2 a) = (if m < length D \<and> a = ad (D ! m)
       then Some (Some (eob (D ! m)), esc (D ! m), backp L m, ht (D ! m)) else map_option skel (sl_mem S a)))"
  proof (cases "m < length D")
    case True
    have "map_option skel (H1 (ad (D ! m))) = Some (Some (eob (D ! m)), esc (D ! m), backp L (Suc m), ht (D ! m))"
      using sl_inv_node [OF inv, of "Suc m"] True by (simp add: H1(2) L ins_nth)
    from set_back_gets [of H1 "ad (D ! m)", OF this, of "backp L m"] obtain H2 where
      "set_back H1 (ad (D ! m)) (backp L m) = Some H2" "\<And>a j. get_lv H2 a j = get_lv H1 a j"
      "\<And>a. map_option skel (H2 a) = (if a = ad (D ! m) then Some (Some (eob (D ! m)), esc (D ! m), backp L m, ht (D ! m))
         else map_option skel (H1 a))" by metis
    with True n wlnk0_nth [OF True hts [OF True]] show ?thesis by (simp add: H1(2))
  next
    case False
    then have "fst (wlnk 0 (drop m D)) = None" by (simp add: wlnk_def)
    with False n show ?thesis by (simp add: H1(2))
  qed
  then obtain S2 where S2: "(case fst (wlnk 0 (drop m D)) of
        Some y \<Rightarrow> do {
          H2 \<leftarrow> set_back H1 y (n_backward n);
          Some (S\<lparr>sl_mem := H2\<rparr>) }
      | None \<Rightarrow> Some (S\<lparr>sl_mem := H1, sl_tail := n_backward n\<rparr>)) = Some S2"
      "sl_header S2 = ?h" "sl_brk S2 = sl_brk S" "sl_level S2 = ?l" "sl_length S2 = sl_length S"
      "sl_tail S2 = (if m < length D then sl_tail S else backp L m)"
      "\<And>a j. get_lv (sl_mem S2) a j = get_lv H1 a j"
      "\<And>a. map_option skel (sl_mem S2 a) = (if m < length D \<and> a = ad (D ! m)
       then Some (Some (eob (D ! m)), esc (D ! m), backp L m, ht (D ! m)) else map_option skel (sl_mem S a))" by blast
  have "get_lv (sl_mem S2) ?h i = Some (wlnk i D)" if "i < ?l" for i
    using links [of 0 i] that by (simp add: S2(7) limp_def)
  from shrink_level_ok [OF this sl_inv_level(1) [OF inv] htD] obtain l' where
    l': "shrink_level (sl_mem S2) ?h ?l = Some l'" "1 \<le> l'" "l' \<le> ?l" "\<forall>e \<in> set D. ht e \<le> l'"
      "\<forall>i. l' \<le> i \<longrightarrow> i < ?l \<longrightarrow> fst (wlnk i D) = None" by blast
  have run: "slDeleteNode S (ad e) upd = Some (S2\<lparr>sl_level := l', sl_length := sl_length S - 1\<rparr>)"
    using H1(1) x0 n(1) S2(1) l'(1)
    by (cases "wlnk 0 (drop m D)") (simp add: slDeleteNode_def)
  have top: "\<exists>s. get_lv (sl_mem S2) ?h i = Some (None, s)" if "l' \<le> i" "i < 32" for i
  proof (cases "i < ?l")
    case True
    then have "get_lv (sl_mem S2) ?h i = Some (wlnk i D)" using links [of 0 i] by (simp add: S2(7) limp_def)
    with l'(5) that(1) True show ?thesis by (metis prod.collapse)
  next
    case False
    then show ?thesis using sl_inv_top [OF inv, of i] that by (simp add: S2(7) H1(3))
  qed
  show ?thesis
    by (rule exI [of _ "S2\<lparr>sl_level := l', sl_length := sl_length S - 1\<rparr>"])
      (use run l' top links S2 in simp)
qed

lemma get_lv_free: "get_lv (H(x := None)) a i = (if a = x then None else get_lv H a i)"
  by (simp add: get_lv_def)

lemma backp_del:
  assumes "m < length L"
  shows "p \<le> m \<Longrightarrow> backp (del m L) p = backp L p" "m < p \<Longrightarrow> backp (del m L) p = backp L (Suc p)"
  using assms by (auto simp: backp_def del_nth)

lemma delete_node_inv:
  assumes inv: "sl_inv S L" and m: "m < length L"
    and upd: "\<And>i. i < sl_level S \<Longrightarrow> upd ! i = atp (sl_header S) L (prv L i m)"
  shows "\<exists>S1 n. slDeleteNode S (ad (L ! m)) upd = Some S1 \<and> sl_mem S1 (ad (L ! m)) = Some n \<and>
    n_obj n = Some (eob (L ! m)) \<and> sl_header S1 = sl_header S \<and> sl_level S1 \<le> sl_level S \<and>
    sl_inv (slFreeNode (ad (L ! m)) S1) (del m L)"
proof -
  define D where "D = del m L"
  define e where "e = L ! m"
  let ?h = "sl_header S"
  have mD: "m \<le> length D" "length L = Suc (length D)" using m by (simp_all add: D_def length_del)
  note dist = sl_inv_distinct [OF inv]
  note fresh = del_fresh [OF dist m, folded D_def e_def]
  from delete_node_run [OF inv m D_def e_def upd] obtain S1 where
    S1: "slDeleteNode S (ad e) upd = Some S1" "sl_header S1 = ?h" "sl_brk S1 = sl_brk S"
    "sl_length S1 = sl_length S - 1" "sl_tail S1 = (if m < length D then sl_tail S else backp L m)"
    "1 \<le> sl_level S1" "sl_level S1 \<le> sl_level S" "\<And>e. e \<in> set D \<Longrightarrow> ht e \<le> sl_level S1"
    "\<And>i. sl_level S1 \<le> i \<Longrightarrow> i < 32 \<Longrightarrow> \<exists>s. get_lv (sl_mem S1) ?h i = Some (None, s)"
    "\<And>p i. p \<le> length D \<Longrightarrow> i < limp (sl_level S) D p \<Longrightarrow>
       get_lv (sl_mem S1) (atp ?h D p) i = Some (wlnk i (drop p D))"
    "\<And>a. map_option skel (sl_mem S1 a) = (if m < length D \<and> a = ad (D ! m)
       then Some (Some (eob (D ! m)), esc (D ! m), backp L m, ht (D ! m)) else map_option skel (sl_mem S a))"
    by blast
  have he: "?h \<noteq> ad e" using dist m by (auto simp: e_def)
  have adD: "ad (D ! p) \<noteq> ad e" if "p < length D" for p using fresh(1) nth_mem [OF that] by (metis image_eqI)
  have adh: "ad (D ! p) \<noteq> ?h" if "p < length D" for p using fresh(2) nth_mem [OF that] by (metis image_eqI)
  have adDD: "ad (D ! p) = ad (D ! q) \<longleftrightarrow> p = q" if "p < length D" "q < length D" for p q
    using fresh(3) that nth_eq_iff_index_eq [OF fresh(3), of p q] by simp
  have Dn: "D ! p = (if p < m then L ! p else L ! Suc p)" for p using m by (simp add: D_def del_nth)
  have "\<exists>n. sl_mem S1 (ad e) = Some n \<and> n_obj n = Some (eob e)"
    using S1(11) [of "ad e"] sl_inv_node [OF inv m] adD [of m] by (auto simp: e_def skel_def split: if_splits)
  then obtain n where n: "sl_mem S1 (ad e) = Some n" "n_obj n = Some (eob e)" by blast
  have "sl_inv (slFreeNode (ad e) S1) D"
  proof (rule sl_invI)
    let ?S = "slFreeNode (ad e) S1"
    have S: "sl_mem ?S = (sl_mem S1)(ad e := None)" "sl_header ?S = ?h" "sl_brk ?S = sl_brk S"
      "sl_length ?S = sl_length S1" "sl_level ?S = sl_level S1" "sl_tail ?S = sl_tail S1"
      by (simp_all add: slFreeNode_def S1)
    have dom: "dom (sl_mem S1) = dom (sl_mem S)"
    proof -
      have "sl_mem S1 a \<noteq> None \<longleftrightarrow> sl_mem S a \<noteq> None" for a
        using S1(11) [of a] sl_inv_node [OF inv, of "Suc m"] mD
        by (cases "sl_mem S a"; cases "sl_mem S1 a") (auto simp: Dn split: if_splits)
      then show ?thesis by auto
    qed
    have setL: "set L = insert e (set D)"
      using ins_del [OF m] set_append [of "take m D" "drop m D"]
      by (metis D_def e_def append_take_drop_id ins_def list.simps(15) set_append Un_insert_right)
    show "distinct (sl_header ?S # map ad D)" using fresh by (simp add: S)
    show "dom (sl_mem ?S) = insert (sl_header ?S) (ad ` set D)"
    proof -
      have "dom (sl_mem ?S) = insert ?h (insert (ad e) (ad ` set D)) - {ad e}"
        using sl_inv_dom [OF inv] by (simp add: S dom setL)
      then show ?thesis using fresh(1) he by (simp add: insert_Diff_if S)
    qed
    show "a < sl_brk ?S" if "a \<in> dom (sl_mem ?S)" for a
      using that dom sl_inv_brk [OF inv, of a] by (auto simp: S split: if_splits)
    show "length D < 4294967296" using sl_inv_len(1) [OF inv] mD by simp
    show "sl_length ?S = of_nat (length D)" using sl_inv_len(2) [OF inv] mD by (simp add: S S1)
    show "1 \<le> sl_level ?S" "sl_level ?S \<le> 32" using S1(6,7) sl_inv_level(2) [OF inv] by (simp_all add: S)
    show "sl_tail ?S = backp D (length D)"
      using sl_inv_tail [OF inv] mD m by (auto simp: S S1(5) D_def backp_del)
    show "map_option skel (sl_mem ?S (sl_header ?S)) = Some (None, Fin 0, None, 32)"
      using sl_inv_header [OF inv] he adh [of m] by (auto simp: S S1(11))
    show "1 \<le> ht (D ! p) \<and> ht (D ! p) \<le> sl_level ?S" if p: "p < length D" for p
    proof
      show "1 \<le> ht (D ! p)"
        using p sl_inv_ht(1) [OF inv, of p] sl_inv_ht(1) [OF inv, of "Suc p"] mD by (simp add: Dn)
      show "ht (D ! p) \<le> sl_level ?S" using S1(8) [OF nth_mem [OF p]] by (simp add: S)
    qed
    show "map_option skel (sl_mem ?S (ad (D ! p))) =
          Some (Some (eob (D ! p)), esc (D ! p), backp D p, ht (D ! p))" if p: "p < length D" for p
    proof -
      consider "p < m" | "p = m" | "m < p" by linarith
      then show ?thesis
      proof cases
        case 1
        then show ?thesis using p adD [OF p] adDD [of p m] sl_inv_node [OF inv, of p] mD
          by (auto simp: S S1(11) D_def backp_del m) (simp_all add: del_nth m)
      next
        case 2
        then show ?thesis using p adD [OF p] by (simp add: S S1(11)) (simp add: D_def backp_del m)
      next
        case 3
        then show ?thesis using p adD [OF p] adDD [of p m] sl_inv_node [OF inv, of "Suc p"] mD
          by (auto simp: S S1(11) D_def backp_del m) (simp_all add: del_nth m)
      qed
    qed
    show "get_lv (sl_mem ?S) (atp (sl_header ?S) D p) i = Some (wlnk i (drop p D))"
      if "p \<le> length D" "i < limp (sl_level ?S) D p" for p i
    proof -
      have "atp ?h D p \<noteq> ad e" using adD [of "p - 1"] he that(1) by (auto simp: atp_def)
      moreover have "i < limp (sl_level S) D p" using that S1(7) by (auto simp: S limp_def split: if_splits)
      ultimately show ?thesis using S1(10) [OF that(1)] by (simp add: S get_lv_free)
    qed
    show "\<exists>s. get_lv (sl_mem ?S) (sl_header ?S) i = Some (None, s)" if "sl_level ?S \<le> i" "i < 32" for i
      using S1(9) [of i] that he by (simp add: S get_lv_free)
  qed
  with S1 n show ?thesis unfolding e_def D_def by blast
qed

end
