(* ===== verification/Zset_Order.thy ===== *)
theory Zset_Order
  imports Zset_Delete
begin

text \<open>
  The abstract sorted set of a skip list: its scores and objects in ascending order.  The locale
  \<open>obj_order\<close> is what the skip list needs of the comparison of objects; inside it the conditions
  of the searches are shown to have the expected threshold.
\<close>

section \<open>The sorted set\<close>

type_synonym 'o elt = "dbl \<times> 'o"

definition elt_ok :: "('o \<Rightarrow> bool) \<Rightarrow> 'o elt \<Rightarrow> bool" where
  "elt_ok ok e \<longleftrightarrow> fst e \<noteq> NaN \<and> ok (snd e)"

definition elt_lt :: "'o cmp \<Rightarrow> 'o elt \<Rightarrow> 'o elt \<Rightarrow> bool" where
  "elt_lt cmp a b \<longleftrightarrow> fst a < fst b \<or> fst a = fst b \<and> cmp (snd a) (snd b) < 0"

definition zset_ok :: "'o cmp \<Rightarrow> ('o \<Rightarrow> bool) \<Rightarrow> 'o elt list \<Rightarrow> bool" where
  "zset_ok cmp ok E \<longleftrightarrow> (\<forall>e \<in> set E. elt_ok ok e) \<and> sorted_wrt (\<lambda>a b. \<not> elt_lt cmp b a) E"

definition zset_rel :: "'o cmp \<Rightarrow> ('o \<Rightarrow> bool) \<Rightarrow> 'o skiplist \<Rightarrow> 'o elt list \<Rightarrow> bool" where
  "zset_rel cmp ok S E \<longleftrightarrow> zset_ok cmp ok E \<and> (\<exists>L. sl_inv S L \<and> map snd L = E)"

definition zset_insert :: "'o cmp \<Rightarrow> 'o elt \<Rightarrow> 'o elt list \<Rightarrow> 'o elt list" where
  "zset_insert cmp e E = takeWhile (\<lambda>d. elt_lt cmp d e) E @ e # dropWhile (\<lambda>d. elt_lt cmp d e) E"

lemma threshold_take:
  assumes "\<And>k q n. k < length L \<Longrightarrow> q \<le> k \<Longrightarrow> sl_mem S (ad (L ! k)) = Some n \<Longrightarrow>
      c (of_nat q) (of_nat (Suc k - q)) n = Some (P (snd (L ! k)))"
    and "\<And>j k. j \<le> k \<Longrightarrow> k < length L \<Longrightarrow> P (snd (L ! k)) \<Longrightarrow> P (snd (L ! j))"
  shows "threshold S L c (length (takeWhile P (map snd L)))"
  unfolding threshold_def
proof (intro conjI allI impI)
  let ?m = "length (takeWhile P (map snd L))"
  show m: "?m \<le> length L" by (metis length_map length_takeWhile_le)
  fix k q n assume k: "k < length L" "q \<le> k" "sl_mem S (ad (L ! k)) = Some n"
  have "P (snd (L ! k)) \<longleftrightarrow> k < ?m"
  proof
    assume "k < ?m"
    then have "P (takeWhile P (map snd L) ! k)" by (metis nth_mem set_takeWhileD)
    with k(1) \<open>k < ?m\<close> show "P (snd (L ! k))" by (simp add: takeWhile_nth)
  next
    assume P: "P (snd (L ! k))"
    show "k < ?m"
    proof (rule ccontr)
      assume "\<not> k < ?m"
      then have "\<not> P (map snd L ! ?m)" using k(1) by (intro nth_length_takeWhile) simp
      moreover have "P (snd (L ! ?m))" using assms(2) [OF _ k(1) P] \<open>\<not> k < ?m\<close> by simp
      ultimately show False using \<open>\<not> k < ?m\<close> k(1) by simp
    qed
  qed
  with assms(1) [OF k] show "c (of_nat q) (of_nat (Suc k - q)) n = Some (k < ?m)" by simp
qed

lemma node_fields:
  assumes "sl_inv S L" "k < length L" "sl_mem S (ad (L ! k)) = Some n"
  shows "n_obj n = Some (eob (L ! k))" "n_score n = esc (L ! k)" "n_backward n = backp L k"
  using sl_inv_node [OF assms(1,2)] assms(3) by (auto simp: skel_def)

lemma node_at:
  assumes "sl_inv S L" "k < length L"
  obtains n where "sl_mem S (ad (L ! k)) = Some n" "n_obj n = Some (eob (L ! k))"
    "n_score n = esc (L ! k)" "n_backward n = backp L k"
  using sl_inv_node [OF assms] node_fields [OF assms] by auto

lemma prv0: "sl_inv S L \<Longrightarrow> m \<le> length L \<Longrightarrow> prv L 0 m = m"
  using sl_inv_ht(1) [of S L] by (intro prv_level0) (auto simp: Suc_le_eq)

definition fwdp :: "'o entry list \<Rightarrow> nat \<Rightarrow> nat option" where
  "fwdp L p = (if p < length L then Some (ad (L ! p)) else None)"

lemma link0:
  assumes "sl_inv S L" "p \<le> length L"
  shows "\<exists>s. get_lv (sl_mem S) (atp (sl_header S) L p) 0 = Some (fwdp L p, s)"
proof -
  have "0 < limp (sl_level S) L p"
    using sl_inv_level(1) [OF assms(1)] sl_inv_ht(1) [OF assms(1), of "p - 1"] assms(2)
    by (cases p) (auto simp: limp_def)
  from sl_inv_link [OF assms this]
  have g: "get_lv (sl_mem S) (atp (sl_header S) L p) 0 = Some (wlnk 0 (drop p L))" .
  have "fst (wlnk 0 (drop p L)) = fwdp L p"
  proof (cases "p < length L")
    case True
    from wlnk0_nth [OF this sl_inv_ht(1) [OF assms(1) this]] True show ?thesis by (simp add: fwdp_def)
  qed (simp add: wlnk_def fwdp_def)
  with g show ?thesis by (metis prod.collapse)
qed

text \<open>What the searches of the code deliver: the walk down to the last entry below the threshold.\<close>

lemma search_first:
  fixes c :: "('o, 'a::len) cond"
  assumes inv: "sl_inv S L" and c: "threshold S L c m"
  obtains upd s where "descend (sl_mem S) c (sl_level S) (sl_header S) 0 = Some upd"
    "fst (upd ! 0) = atp (sl_header S) L m" "snd (upd ! 0) = of_nat m"
    "\<And>i. i < sl_level S \<Longrightarrow> map fst upd ! i = atp (sl_header S) L (prv L i m)"
    "get_lv (sl_mem S) (atp (sl_header S) L m) 0 = Some (fwdp L m, s)"
proof -
  have m: "m \<le> length L" using c by (simp add: threshold_def)
  obtain s where s: "get_lv (sl_mem S) (atp (sl_header S) L m) 0 = Some (fwdp L m, s)"
    using link0 [OF inv m] by blast
  show ?thesis
    by (rule that [OF descend_header [OF inv c] _ _ _ s])
      (use prv0 [OF inv m] sl_inv_level(1) [OF inv] in \<open>simp_all add: nth_append\<close>)
qed

lemma sorted_sub: "sorted_wrt P E \<Longrightarrow> sorted_wrt P (take a E @ drop b E)" if "a \<le> b"
proof -
  assume s: "sorted_wrt P E"
  have "take a E @ drop b E = take a E @ drop (b - a) (drop a E)" using that by simp
  moreover have "sorted_wrt P (take a E @ drop a E)" using s by simp
  ultimately show ?thesis using set_drop_subset [of "b - a" "drop a E"]
    by (simp only: sorted_wrt_append) (blast intro: sorted_wrt_drop)
qed

locale obj_order =
  fixes cmp :: "'o cmp" and ok :: "'o \<Rightarrow> bool"
  assumes cmp_zero: "ok a \<Longrightarrow> ok b \<Longrightarrow> cmp a b = 0 \<longleftrightarrow> a = b"
    and cmp_flip: "ok a \<Longrightarrow> ok b \<Longrightarrow> cmp a b < 0 \<longleftrightarrow> 0 < cmp b a"
    and cmp_trans: "ok a \<Longrightarrow> ok b \<Longrightarrow> ok c \<Longrightarrow> cmp a b < 0 \<Longrightarrow> cmp b c < 0 \<Longrightarrow> cmp a c < 0"
begin

lemma lt_irrefl: "elt_ok ok a \<Longrightarrow> \<not> elt_lt cmp a a"
  using cmp_zero [of "snd a" "snd a"] by (auto simp: elt_lt_def elt_ok_def)

lemma lt_trans: "elt_ok ok a \<Longrightarrow> elt_ok ok b \<Longrightarrow> elt_ok ok c \<Longrightarrow> elt_lt cmp a b \<Longrightarrow> elt_lt cmp b c \<Longrightarrow> elt_lt cmp a c"
  using cmp_trans [of "snd a" "snd b" "snd c"] by (auto simp: elt_lt_def elt_ok_def)

lemma lt_total: "elt_ok ok a \<Longrightarrow> elt_ok ok b \<Longrightarrow> elt_lt cmp a b \<or> a = b \<or> elt_lt cmp b a"
  using cmp_zero [of "snd a" "snd b"] cmp_flip [of "snd b" "snd a"]
  by (cases a; cases b) (auto simp: elt_lt_def elt_ok_def not_less le_less)

lemma lt_down: "zset_ok cmp ok E \<Longrightarrow> elt_ok ok e \<Longrightarrow> j \<le> k \<Longrightarrow> k < length E \<Longrightarrow> elt_lt cmp (E ! k) e \<Longrightarrow> elt_lt cmp (E ! j) e"
proof -
  assume a: "zset_ok cmp ok E" "elt_ok ok e" "j \<le> k" "k < length E" "elt_lt cmp (E ! k) e"
  have ok: "elt_ok ok (E ! j)" "elt_ok ok (E ! k)" using a by (auto simp: zset_ok_def)
  have "j = k \<or> \<not> elt_lt cmp (E ! k) (E ! j)"
    using a unfolding zset_ok_def by (metis le_neq_implies_less sorted_wrt_iff_nth_less)
  then show ?thesis using a(2,5) ok lt_total [of "E ! j" "E ! k"] lt_trans by metis
qed

lemma le_down: "zset_ok cmp ok E \<Longrightarrow> elt_ok ok e \<Longrightarrow> j \<le> k \<Longrightarrow> k < length E \<Longrightarrow> \<not> elt_lt cmp e (E ! k) \<Longrightarrow> \<not> elt_lt cmp e (E ! j)"
proof -
  assume a: "zset_ok cmp ok E" "elt_ok ok e" "j \<le> k" "k < length E" "\<not> elt_lt cmp e (E ! k)"
  have ok: "elt_ok ok (E ! j)" "elt_ok ok (E ! k)" using a by (auto simp: zset_ok_def)
  have "j = k \<or> \<not> elt_lt cmp (E ! k) (E ! j)"
    using a unfolding zset_ok_def by (metis le_neq_implies_less sorted_wrt_iff_nth_less)
  then show ?thesis using a(2,5) ok lt_total [of "E ! j" "E ! k"] lt_trans by metis
qed

lemma before_threshold:
  assumes inv: "sl_inv S L" and E: "zset_ok cmp ok (map snd L)" and e: "elt_ok ok (s, v)"
  shows "threshold S L (before cmp s v) (length (takeWhile (\<lambda>d. elt_lt cmp d (s, v)) (map snd L)))"
proof (rule threshold_take)
  fix k q n assume k: "k < length L" "sl_mem S (ad (L ! k)) = Some n"
  have "snd (L ! k) \<in> set (map snd L)" using k(1) by simp
  then have "elt_ok ok (snd (L ! k))" using E unfolding zset_ok_def by blast
  with e show "before cmp s v (of_nat q) (of_nat (Suc k - q)) n = Some (elt_lt cmp (snd (L ! k)) (s, v))"
    using node_fields [OF inv k] by (auto simp: before_def elt_lt_def elt_ok_def dlt_def deq_def)
next
  fix j k assume "j \<le> k" "k < length L" "elt_lt cmp (snd (L ! k)) (s, v)"
  with lt_down [OF E e, of j k] show "elt_lt cmp (snd (L ! j)) (s, v)" by simp
qed

lemma upto_threshold:
  assumes inv: "sl_inv S L" and E: "zset_ok cmp ok (map snd L)" and e: "elt_ok ok (s, v)"
  shows "threshold S L (up_to cmp s v) (length (takeWhile (\<lambda>d. \<not> elt_lt cmp (s, v) d) (map snd L)))"
proof (rule threshold_take)
  fix k q n assume k: "k < length L" "sl_mem S (ad (L ! k)) = Some n"
  have "snd (L ! k) \<in> set (map snd L)" using k(1) by simp
  then have "elt_ok ok (snd (L ! k))" using E unfolding zset_ok_def by blast
  with e show "up_to cmp s v (of_nat q) (of_nat (Suc k - q)) n = Some (\<not> elt_lt cmp (s, v) (snd (L ! k)))"
    using node_fields [OF inv k] cmp_flip [of v "eob (L ! k)"]
    by (auto simp: up_to_def elt_lt_def elt_ok_def dlt_def deq_def)
next
  fix j k assume "j \<le> k" "k < length L" "\<not> elt_lt cmp (s, v) (snd (L ! k))"
  with le_down [OF E e, of j k] show "\<not> elt_lt cmp (s, v) (snd (L ! j))" by simp
qed

end

end
