(* ===== verification/Zset_Walks.thy ===== *)
theory Zset_Walks
  imports Zset_Order
begin

text \<open>
  The operations that depend on positions only: deletion and lookup by rank, and the loops of the
  Lua interface that follow the forward or the backward pointers.
\<close>

section \<open>Operations that need no order\<close>

lemma prv_del: "m < length L \<Longrightarrow> prv (del m L) i m = prv L i m"
  by (rule prv_cong) (simp add: del_nth)

lemma fwdp_del: "m < length L \<Longrightarrow> fwdp L (Suc m) = fwdp (del m L) m"
  by (auto simp: fwdp_def length_del del_nth)

lemma atp_del: "m < length L \<Longrightarrow> p \<le> m \<Longrightarrow> atp h (del m L) p = atp h L p"
  by (auto simp: atp_def del_nth)

lemma del_take_drop: "m < length L \<Longrightarrow> take m (del m L) @ drop (m + n) (del m L) = take m L @ drop (Suc (m + n)) L"
  by (simp add: del_def min_def add.commute)

lemma del_run: "m < length L \<Longrightarrow> L ! m # take n (drop m (del m L)) = take (Suc n) (drop m L)"
  by (simp add: del_def Cons_nth_drop_Suc [symmetric])

lemma delete_run_ok:
  assumes "sl_inv S L" "m \<le> length L"
    and "\<And>i. i < sl_level S \<Longrightarrow> upd ! i = atp (sl_header S) L (prv L i m)"
    and "n = min (length L - m) (Suc (unat stop) - t)" "unat stop < 4294967296" "t \<le> 4294967296"
  shows "\<exists>S'. delete_run S (fwdp L m) upd (of_nat t) removed stop out =
      Some (S', removed + of_nat n, out @ map eob (take n (drop m L))) \<and>
    sl_header S' = sl_header S \<and> sl_inv S' (take m L @ drop (m + n) L)"
  using assms
proof (induction n arbitrary: S L t removed out)
  case 0
  have "fwdp L m = None \<or> \<not> (of_nat t :: u64) \<le> stop"
  proof (cases "m < length L")
    case True
    with 0 have "unat stop < t" "unat (of_nat t :: u64) = t" by (simp_all add: unat_of_nat min_def split: if_splits)
    then show ?thesis by (simp add: word_le_nat_alt)
  qed (simp add: fwdp_def)
  then show ?case using 0 by (subst delete_run.simps) (auto split: option.splits)
next
  case (Suc n)
  then have m: "m < length L" by simp
  have t: "unat (of_nat t :: u64) = t" using Suc.prems(6) by (simp add: unat_of_nat)
  have le: "(of_nat t :: u64) \<le> stop" using Suc.prems(4) t by (auto simp: word_le_nat_alt min_def split: if_splits)
  obtain s where nx: "get_lv (sl_mem S) (ad (L ! m)) 0 = Some (fwdp L (Suc m), s)"
    using link0 [OF Suc.prems(1), of "Suc m"] m by (auto simp: atp_def)
  from delete_node_inv [OF Suc.prems(1) m Suc.prems(3)] obtain S1 nd where
    S1: "slDeleteNode S (ad (L ! m)) upd = Some S1" "sl_mem S1 (ad (L ! m)) = Some nd"
      "n_obj nd = Some (eob (L ! m))" "sl_header S1 = sl_header S" "sl_level S1 \<le> sl_level S"
      "sl_inv (slFreeNode (ad (L ! m)) S1) (del m L)" by blast
  have "\<exists>S'. delete_run (slFreeNode (ad (L ! m)) S1) (fwdp (del m L) m) upd (of_nat (Suc t)) (removed + 1) stop
        (out @ [eob (L ! m)]) =
      Some (S', removed + 1 + of_nat n, (out @ [eob (L ! m)]) @ map eob (take n (drop m (del m L)))) \<and>
    sl_header S' = sl_header (slFreeNode (ad (L ! m)) S1) \<and> sl_inv S' (take m (del m L) @ drop (m + n) (del m L))"
  proof (rule Suc.IH)
    show "sl_inv (slFreeNode (ad (L ! m)) S1) (del m L)" by (rule S1(6))
  qed (use m Suc.prems prv_le [of L _ m] S1(4,5) in \<open>auto simp: length_del prv_del atp_del slFreeNode_def\<close>)
  then obtain S' where S': "delete_run (slFreeNode (ad (L ! m)) S1) (fwdp (del m L) m) upd (of_nat (Suc t)) (removed + 1) stop
        (out @ [eob (L ! m)]) =
      Some (S', removed + 1 + of_nat n, (out @ [eob (L ! m)]) @ map eob (take n (drop m (del m L))))"
    "sl_header S' = sl_header S" "sl_inv S' (take m L @ drop (Suc (m + n)) L)"
    using m S1(4) by (auto simp: slFreeNode_def del_take_drop)
  have "fwdp L m = Some (ad (L ! m))" using m by (simp add: fwdp_def)
  then show ?case using S' nx S1(1-3) le m
    by (subst delete_run.simps)
      (simp add: fwdp_del del_run [symmetric] algebra_simps)
qed

lemma threshold_pos:
  assumes "m \<le> length L" "\<And>k q n. k < length L \<Longrightarrow> q \<le> k \<Longrightarrow> c (of_nat q) (of_nat (Suc k - q)) n = Some (k < m)"
  shows "threshold S L c m"
  using assms by (simp add: threshold_def)

lemma span_sum:
  assumes "q \<le> k" "Suc k < 4294967296"
  shows "(of_nat q :: u64) + ucast (of_nat (Suc k - q) :: u32) = of_nat (Suc k)"
proof -
  have "Suc k - q < 4294967296" using assms by simp
  then show ?thesis using assms(1) unfolding ucast_of_nat_u32 [OF \<open>Suc k - q < 4294967296\<close>] of_nat_add [symmetric]
    by simp
qed

lemma unat_u64: "n < 18446744073709551616 \<Longrightarrow> unat (of_nat n :: u64) = n"
  by (simp add: unat_of_nat)

lemma unat_ucast_u32: "unat (ucast (w :: u32) :: u64) = unat w"
proof -
  have "unat w < 2 ^ 64" by (rule less_trans [OF unat_less_2p32]) simp
  then show ?thesis by (simp only: unsigned_ucast_eq take_bit_eq_mod) simp
qed

text \<open>Deleting the ranks \<open>start\<close> to \<open>stop\<close>; ranks count from one, and zero means one.\<close>

lemma delete_by_rank_inv:
  fixes start stop :: u32
  assumes inv: "sl_inv S L"
  defines "a \<equiv> min (unat start - 1) (length L)" and "b \<equiv> unat stop"
  shows "\<exists>S'. slDeleteByRank S start stop =
      Some (S', of_nat (min (length L - a) (b - a)), map eob (take (b - a) (drop a L))) \<and>
    sl_header S' = sl_header S \<and> sl_inv S' (take a L @ drop (max a b) L)"
proof -
  let ?c = "\<lambda>traversed spn n. Some ((traversed :: u64) + ucast (spn :: u32) < ucast start)"
  note len = sl_inv_len(1) [OF inv]
  have c: "threshold S L ?c a"
  proof (rule threshold_pos)
    fix k q n assume k: "k < length L" "q \<le> k"
    have "unat (of_nat (Suc k) :: u64) = Suc k" using len k by (intro unat_u64) simp
    then show "Some ((of_nat q :: u64) + ucast (of_nat (Suc k - q) :: u32) < ucast start) = Some (k < a)"
      using k len by (subst span_sum) (auto simp: word_less_nat_alt unat_ucast_u32 a_def simp del: of_nat_Suc)
  qed (simp add: a_def)
  obtain upd s where u: "descend (sl_mem S) ?c (sl_level S) (sl_header S) 0 = Some upd"
    "fst (upd ! 0) = atp (sl_header S) L a" "snd (upd ! 0) = of_nat a"
    "\<And>i. i < sl_level S \<Longrightarrow> map fst upd ! i = atp (sl_header S) L (prv L i a)"
    "get_lv (sl_mem S) (atp (sl_header S) L a) 0 = Some (fwdp L a, s)"
    by (rule search_first [OF inv c]) blast
  define n where "n = min (length L - a) (b - a)"
  have "\<exists>S'. delete_run S (fwdp L a) (map fst upd) (of_nat (Suc a)) 0 (ucast stop) [] =
      Some (S', 0 + of_nat n, [] @ map eob (take n (drop a L))) \<and>
    sl_header S' = sl_header S \<and> sl_inv S' (take a L @ drop (a + n) L)"
  proof (rule delete_run_ok [OF inv _ u(4)])
    show "a \<le> length L" by (simp add: a_def)
    show "n = min (length L - a) (Suc (unat (ucast stop :: u64)) - Suc a)"
      by (simp add: n_def b_def unat_ucast_u32)
    show "unat (ucast stop :: u64) < 4294967296" by (simp add: unat_ucast_u32)
    show "Suc a \<le> 4294967296" using len by (simp add: a_def)
  qed
  moreover have "take n (drop a L) = take (b - a) (drop a L)" by (simp add: n_def min_def)
  moreover have "drop (a + n) L = drop (max a b) L" by (auto simp: n_def min_def max_def)
  ultimately show ?thesis using u by (simp add: slDeleteByRank_def n_def add.commute)
qed

lemma node_loop_ok:
  assumes inv: "sl_inv S L" and c: "threshold S L (\<lambda>t spn n. Some (t + ucast spn \<le> rank)) m"
    and r: "rank = of_nat m"
  shows "p \<le> m \<Longrightarrow> l \<le> limp (sl_level S) L p \<Longrightarrow> l \<le> sl_level S \<Longrightarrow> 1 \<le> l \<Longrightarrow>
    node_loop (sl_mem S) rank l (atp (sl_header S) L p) (of_nat p) = Some (Some (atp (sl_header S) L m))"
proof (induction l arbitrary: p)
  case (Suc l)
  have m: "m \<le> length L" using c by (simp add: threshold_def)
  have walk: "advance (sl_mem S) (\<lambda>t spn n. Some (t + ucast spn \<le> rank)) l (atp (sl_header S) L p) (of_nat p) =
      Some (atp (sl_header S) L (prv L l m), of_nat (prv L l m))"
    using advance_walk [OF inv c Suc.prems(1)] Suc.prems(2) by simp
  have "of_nat (prv L l m) = rank \<longleftrightarrow> prv L l m = m"
    using prv_le [of L l m] m sl_inv_len(1) [OF inv] unat_u64 [of m] unat_u64 [of "prv L l m"] by (auto simp: r)
  moreover have "l \<noteq> 0 \<Longrightarrow> node_loop (sl_mem S) rank l (atp (sl_header S) L (prv L l m)) (of_nat (prv L l m)) =
      Some (Some (atp (sl_header S) L m))"
    by (rule Suc.IH) (use prv_le limp_prv [of l "sl_level S" L m] Suc.prems in auto)
  ultimately show ?case using prv0 [OF inv m] walk by (cases "l = 0") auto
qed simp

lemma get_node_by_rank_ok:
  assumes inv: "sl_inv S L"
  shows "slGetNodeByRank S rank =
    Some (if 1 \<le> unat rank \<and> unat rank \<le> length L then Some (ad (L ! (unat rank - 1))) else None)"
proof -
  note len = sl_inv_len [OF inv]
  have lu: "unat (sl_length S) = length L" using len by (simp add: unat_of_nat)
  have z: "rank = 0 \<longleftrightarrow> unat rank = 0" by (simp add: unat_eq_0)
  show ?thesis
  proof (cases "1 \<le> unat rank \<and> unat rank \<le> length L")
    case False
    then show ?thesis using z lu by (auto simp: slGetNodeByRank_def word_less_nat_alt)
  next
    case True
    have c: "threshold S L (\<lambda>t spn n. Some (t + ucast spn \<le> rank)) (unat rank)"
    proof (rule threshold_pos)
      fix k q n assume k: "k < length L" "q \<le> k"
      have "unat (of_nat (Suc k) :: u64) = Suc k" using len k by (intro unat_u64) simp
      then show "Some ((of_nat q :: u64) + ucast (of_nat (Suc k - q) :: u32) \<le> rank) = Some (k < unat rank)"
        using k len by (subst span_sum) (auto simp: word_le_nat_alt simp del: of_nat_Suc)
    qed (use True in simp)
    from node_loop_ok [OF inv c _ le0, of "sl_level S"] sl_inv_level(1) [OF inv]
    have "node_loop (sl_mem S) rank (sl_level S) (sl_header S) 0 = Some (Some (atp (sl_header S) L (unat rank)))"
      by (simp add: limp_def)
    with True z lu show ?thesis by (auto simp: slGetNodeByRank_def word_less_nat_alt atp_def)
  qed
qed

lemma rank_range_fwd:
  "sl_inv S L \<Longrightarrow> p \<le> length L \<Longrightarrow>
    rank_range_loop (sl_mem S) False len n (fwdp L p) out =
      Some (out @ map eob (take (nat (len - n)) (drop p L)))"
proof (induction "length L - p" arbitrary: p n out)
  case 0
  then show ?case by (subst rank_range_loop.simps) (simp add: fwdp_def)
next
  case (Suc k)
  then have p: "p < length L" by simp
  obtain nd where nd: "sl_mem S (ad (L ! p)) = Some nd" "n_obj nd = Some (eob (L ! p))"
    using node_at [OF Suc.prems(1) p] by metis
  obtain s where s: "get_lv (sl_mem S) (ad (L ! p)) 0 = Some (fwdp L (Suc p), s)"
    using link0 [OF Suc.prems(1), of "Suc p"] p by (auto simp: atp_def)
  have "fwdp L p = Some (ad (L ! p))" using p by (simp add: fwdp_def)
  moreover have "take (nat (len - n)) (drop p L) = L ! p # take (nat (len - (n + 1))) (drop (Suc p) L)" if "n < len"
  proof -
    have "nat (len - n) = Suc (nat (len - (n + 1)))" using that by linarith
    then show ?thesis using p by (simp add: Cons_nth_drop_Suc [symmetric])
  qed
  moreover have "rank_range_loop (sl_mem S) False len (n + 1) (fwdp L (Suc p)) (out @ [eob (L ! p)]) =
      Some ((out @ [eob (L ! p)]) @ map eob (take (nat (len - (n + 1))) (drop (Suc p) L)))"
    by (rule Suc.hyps(1)) (use Suc p in auto)
  ultimately show ?case using nd s by (subst rank_range_loop.simps) auto
qed

lemma backp_Suc: "backp L (Suc p) = Some (ad (L ! p))" by (simp add: backp_def)

lemma rank_range_back:
  "sl_inv S L \<Longrightarrow> p \<le> length L \<Longrightarrow>
    rank_range_loop (sl_mem S) True len n (backp L p) out =
      Some (out @ map eob (take (nat (len - n)) (rev (take p L))))"
proof (induction p arbitrary: n out)
  case 0
  then show ?case by (subst rank_range_loop.simps) (simp add: backp_def)
next
  case (Suc p)
  then have p: "p < length L" by simp
  obtain nd where nd: "sl_mem S (ad (L ! p)) = Some nd" "n_obj nd = Some (eob (L ! p))" "n_backward nd = backp L p"
    using node_at [OF Suc.prems(1) p] by metis
  have "take (nat (len - n)) (rev (take (Suc p) L)) = L ! p # take (nat (len - (n + 1))) (rev (take p L))" if "n < len"
  proof -
    have "nat (len - n) = Suc (nat (len - (n + 1)))" using that by linarith
    then show ?thesis using p by (simp add: take_Suc_conv_app_nth)
  qed
  with nd Suc p show ?case by (subst rank_range_loop.simps) (auto simp: backp_Suc)
qed

lemma score_range_fwd:
  "sl_inv S L \<Longrightarrow> p \<le> length L \<Longrightarrow>
    score_range_loop (sl_mem S) False s2 (fwdp L p) out =
      Some (out @ map eob (takeWhile (\<lambda>e. \<not> dlt s2 (esc e)) (drop p L)))"
proof (induction "length L - p" arbitrary: p out)
  case 0
  then show ?case by (subst score_range_loop.simps) (simp add: fwdp_def)
next
  case (Suc k)
  then have p: "p < length L" by simp
  obtain nd where nd: "sl_mem S (ad (L ! p)) = Some nd" "n_obj nd = Some (eob (L ! p))" "n_score nd = esc (L ! p)"
    using node_at [OF Suc.prems(1) p] by metis
  obtain s where s: "get_lv (sl_mem S) (ad (L ! p)) 0 = Some (fwdp L (Suc p), s)"
    using link0 [OF Suc.prems(1), of "Suc p"] p by (auto simp: atp_def)
  have "fwdp L p = Some (ad (L ! p))" using p by (simp add: fwdp_def)
  moreover have "drop p L = L ! p # drop (Suc p) L" using p by (simp add: Cons_nth_drop_Suc)
  moreover have "score_range_loop (sl_mem S) False s2 (fwdp L (Suc p)) (out @ [eob (L ! p)]) =
      Some ((out @ [eob (L ! p)]) @ map eob (takeWhile (\<lambda>e. \<not> dlt s2 (esc e)) (drop (Suc p) L)))"
    by (rule Suc.hyps(1)) (use Suc p in auto)
  ultimately show ?case using nd s by (subst score_range_loop.simps) auto
qed

lemma score_range_back:
  "sl_inv S L \<Longrightarrow> p \<le> length L \<Longrightarrow>
    score_range_loop (sl_mem S) True s2 (backp L p) out =
      Some (out @ map eob (takeWhile (\<lambda>e. \<not> dlt (esc e) s2) (rev (take p L))))"
proof (induction p arbitrary: out)
  case 0
  then show ?case by (subst score_range_loop.simps) (simp add: backp_def)
next
  case (Suc p)
  then have p: "p < length L" by simp
  obtain nd where nd: "sl_mem S (ad (L ! p)) = Some nd" "n_obj nd = Some (eob (L ! p))" "n_score nd = esc (L ! p)"
    "n_backward nd = backp L p"
    using node_at [OF Suc.prems(1) p] by metis
  have "rev (take (Suc p) L) = L ! p # rev (take p L)" using p by (simp add: take_Suc_conv_app_nth)
  with nd Suc p show ?case by (subst score_range_loop.simps) (auto simp: backp_Suc)
qed

lemma dump_loop_ok:
  "sl_inv S L \<Longrightarrow> p \<le> length L \<Longrightarrow>
    dump_loop (sl_mem S) (atp (sl_header S) L p) p out =
      Some (out @ map (\<lambda>k. (Suc k, snd (L ! k))) [p..<length L])"
proof (induction "length L - p" arbitrary: p out)
  case 0
  then obtain s where "get_lv (sl_mem S) (atp (sl_header S) L p) 0 = Some (fwdp L p, s)" using link0 by metis
  with 0 show ?case by (subst dump_loop.simps) (simp add: fwdp_def)
next
  case (Suc k)
  then have p: "p < length L" by simp
  obtain s where s: "get_lv (sl_mem S) (atp (sl_header S) L p) 0 = Some (fwdp L p, s)"
    using link0 [OF Suc.prems] by blast
  obtain nd where nd: "sl_mem S (ad (L ! p)) = Some nd" "n_obj nd = Some (eob (L ! p))" "n_score nd = esc (L ! p)"
    using node_at [OF Suc.prems(1) p] by metis
  have "dump_loop (sl_mem S) (atp (sl_header S) L (Suc p)) (Suc p) (out @ [(Suc p, snd (L ! p))]) =
      Some ((out @ [(Suc p, snd (L ! p))]) @ map (\<lambda>k. (Suc k, snd (L ! k))) [Suc p..<length L])"
    by (rule Suc.hyps(1)) (use Suc p in auto)
  with s nd p show ?case
    by (subst dump_loop.simps) (simp add: fwdp_def atp_def upt_conv_Cons)
qed

end
