(* ===== verification/Zset_Ops.thy ===== *)
theory Zset_Ops
  imports Zset_Walks
begin

text \<open>
  Every operation of the skip list against the sorted set: creation, range queries by rank and by
  score, and, for any comparison of objects that is an order, insertion, deletion and ranks.
\<close>

section \<open>Creation\<close>

lemma slCreate_rel: "\<exists>S. slCreate = Some S \<and> sl_inv (S :: 'o skiplist) []"
proof -
  define n0 where "n0 = \<lparr>n_obj = (None :: 'o option), n_score = Fin 0, n_backward = None, n_levels = replicate 32 (None, 0 :: u32)\<rparr>"
  have u: "n0\<lparr>n_levels := (replicate 32 (None, 0))[j := (None, 0)]\<rparr> = n0" for j
    by (simp add: n0_def list_update_same_conv nth_replicate) (metis list_update_id length_replicate linorder_not_le list_update_beyond nth_replicate)
  define H0 where "H0 = [(0 :: nat) \<mapsto> n0]"
  have "j < 32 \<Longrightarrow> set_lv H0 0 j (None, 0) = Some H0" for j
    using u [of j] by (simp add: set_lv_def n0_def H0_def)
  then have "\<exists>H. for_upto (\<lambda>j H. set_lv H 0 j (None, 0)) 0 32 H0 = Some H \<and> H = H0"
    by (intro for_upto_rule) auto
  moreover have "set_back [0 \<mapsto> n0] 0 None = Some [0 \<mapsto> n0]" by (simp add: set_back_def n0_def)
  ultimately have "slCreate = Some \<lparr>sl_mem = [0 \<mapsto> n0], sl_brk = 1, sl_header = 0, sl_tail = None,
      sl_length = 0, sl_level = 1\<rparr>"
    by (simp add: slCreate_def slCreateNode_def n0_def [symmetric] H0_def)
  moreover have "sl_inv \<lparr>sl_mem = [0 \<mapsto> n0], sl_brk = 1, sl_header = 0, sl_tail = None,
      sl_length = 0, sl_level = 1\<rparr> ([] :: 'o entry list)"
    by (rule sl_invI) (auto simp: n0_def skel_def backp_def get_lv_def limp_def wlnk_def atp_def split: if_splits)
  ultimately show ?thesis by blast
qed

lemma slRandomLevel_returns:
  assumes "\<exists>r \<in> set rs. 0xffff \<le> 4 * unat (r AND 0xffff)"
  shows "\<exists>lvl rs'. slRandomLevel rs = Some (lvl, rs')"
proof -
  have "\<exists>l' rs'. random_hits rs l = Some (l', rs')" for l
    using assms by (induction rs arbitrary: l) auto
  then show ?thesis by (fastforce simp: slRandomLevel_def)
qed

section \<open>Operations on the sorted set\<close>

lemma map_ins: "map f (ins m e L) = ins m (f e) (map f L)"
  by (simp add: ins_def take_map drop_map)

lemma ins_place: "ins (length (takeWhile P E)) e E = takeWhile P E @ e # dropWhile P E"
  by (simp add: ins_def takeWhile_eq_take [symmetric] dropWhile_eq_drop [symmetric])

lemma slIsInRange_ok:
  assumes inv: "sl_inv S L"
  shows "slIsInRange S lo hi =
    Some (\<not> dlt hi lo \<and> L \<noteq> [] \<and> \<not> dlt (esc (last L)) lo \<and> \<not> dlt hi (esc (hd L)))"
proof (cases "L = []")
  case True
  then show ?thesis using sl_inv_tail [OF inv] by (simp add: slIsInRange_def backp_def)
next
  case False
  then have l: "length L - 1 < length L" "0 < length L" by auto
  obtain nt where nt: "sl_mem S (ad (L ! (length L - 1))) = Some nt" "n_score nt = esc (L ! (length L - 1))"
    using node_at [OF inv l(1)] by metis
  obtain nf where nf: "sl_mem S (ad (L ! 0)) = Some nf" "n_score nf = esc (L ! 0)"
    using node_at [OF inv l(2)] by metis
  obtain s where "get_lv (sl_mem S) (sl_header S) 0 = Some (fwdp L 0, s)"
    using link0 [OF inv le0] by auto
  with False nt nf sl_inv_tail [OF inv] show ?thesis
    by (auto simp: slIsInRange_def backp_def fwdp_def last_conv_nth hd_conv_nth)
qed

lemma zset_ok_sorted:
  assumes "zset_ok cmp ok E"
  shows "sorted (map fst E)" "\<And>e. e \<in> set E \<Longrightarrow> fst e \<noteq> NaN"
proof -
  have "sorted_wrt (\<lambda>a b. fst a \<le> fst b) E"
    using assms unfolding zset_ok_def by (auto simp: elt_lt_def intro: sorted_wrt_mono_rel [rotated])
  then show "sorted (map fst E)" by (simp add: sorted_wrt_map)
  show "e \<in> set E \<Longrightarrow> fst e \<noteq> NaN" for e using assms by (auto simp: zset_ok_def elt_ok_def)
qed

lemma takeWhile_down:
  assumes "\<And>j k. j \<le> k \<Longrightarrow> k < length L \<Longrightarrow> P (L ! k) \<Longrightarrow> P (L ! j)"
  shows "takeWhile P L = filter P L"
  using assms
proof (induction L)
  case (Cons a L)
  have "takeWhile P L = filter P L" by (rule Cons.IH) (use Cons.prems [of "Suc _" "Suc _"] in auto)
  moreover have "filter P L = []" if "\<not> P a"
    using that Cons.prems [of 0 "Suc _"] by (fastforce simp: filter_empty_conv in_set_conv_nth)
  ultimately show ?case by auto
qed simp

lemma sorted_nth_fst: "sorted (map fst E) \<Longrightarrow> j \<le> k \<Longrightarrow> k < length E \<Longrightarrow> fst (E ! j) \<le> fst (E ! k)"
  using sorted_nth_mono [of "map fst E" j k] by simp

lemma dropWhile_down:
  assumes "\<And>j k. j \<le> k \<Longrightarrow> k < length L \<Longrightarrow> P (L ! k) \<Longrightarrow> P (L ! j)"
  shows "dropWhile P L = filter (\<lambda>x. \<not> P x) L"
  using assms
proof (induction L)
  case (Cons a L)
  have "dropWhile P L = filter (\<lambda>x. \<not> P x) L" by (rule Cons.IH) (use Cons.prems [of "Suc _" "Suc _"] in auto)
  moreover have "filter (\<lambda>x. \<not> P x) L = L" if "\<not> P a"
    using that Cons.prems [of 0 "Suc _"] by (fastforce simp: filter_id_conv in_set_conv_nth)
  ultimately show ?case by auto
qed simp

text \<open>The Lua function \<open>get_score_range\<close> gives the objects between its two scores, both included.\<close>

lemma score_range_ok:
  assumes inv: "sl_inv S L" and E: "zset_ok cmp ok (map snd L)" and nan: "s1 \<noteq> NaN" "s2 \<noteq> NaN"
  shows "lua_get_score_range S s1 s2 = Some (if s1 \<le> s2
    then map snd (filter (\<lambda>e. s1 \<le> fst e \<and> fst e \<le> s2) (map snd L))
    else rev (map snd (filter (\<lambda>e. s2 \<le> fst e \<and> fst e \<le> s1) (map snd L))))"
proof -
  have srt: "esc (L ! j) \<le> esc (L ! k)" if "j \<le> k" "k < length L" for j k
    using sorted_nth_fst [OF zset_ok_sorted(1) [OF E], of j k] that by simp
  have nn: "esc e \<noteq> NaN" if "e \<in> set L" for e using zset_ok_sorted(2) [OF E, of "snd e"] that by simp
  have le: "dle s1 s2 \<longleftrightarrow> s1 \<le> s2" using nan by (auto simp: dle_def dlt_def deq_def)
  note range = slIsInRange_ok [OF inv]
  have hd: "esc (hd L) \<le> esc e" "esc e \<le> esc (last L)" if "e \<in> set L" for e
  proof -
    from that obtain k where k: "k < length L" "e = L ! k" by (auto simp: in_set_conv_nth)
    then show "esc (hd L) \<le> esc e" "esc e \<le> esc (last L)"
      using srt [of 0 k] srt [of k "length L - 1"] that
      by (cases "L = []"; simp add: hd_conv_nth last_conv_nth)+
  qed
  show ?thesis
  proof (cases "s1 \<le> s2")
    case True
    let ?P = "\<lambda>d. fst d < s1"
    let ?m = "length (takeWhile ?P (map snd L))"
    have down: "esc (L ! k) < s1 \<Longrightarrow> esc (L ! j) < s1" if "j \<le> k" "k < length L" for j k
      using srt [OF that] by simp
    have c: "threshold S L (\<lambda>_ (_ :: u32) n. Some (dlt (n_score n) s1)) ?m"
    proof (rule threshold_take)
      fix k n assume k: "k < length L" "sl_mem S (ad (L ! k)) = Some n"
      then show "Some (dlt (n_score n) s1) = Some (?P (snd (L ! k)))"
        using node_fields [OF inv k] nn [of "L ! k"] nan by (auto simp: dlt_def)
    qed (use down in auto)
    have m: "?m = length (takeWhile (\<lambda>e. esc e < s1) L)" by (simp add: takeWhile_map comp_def)
    obtain upd s where u: "descend (sl_mem S) (\<lambda>_ (_ :: u32) n. Some (dlt (n_score n) s1)) (sl_level S) (sl_header S) (0 :: u32) = Some upd"
      "fst (upd ! 0) = atp (sl_header S) L ?m" "get_lv (sl_mem S) (atp (sl_header S) L ?m) 0 = Some (fwdp L ?m, s)"
      by (rule search_first [OF inv c]) blast
    have tw: "takeWhile (\<lambda>e. \<not> dlt s2 (esc e)) (drop ?m L) = filter (\<lambda>e. s1 \<le> esc e \<and> esc e \<le> s2) L"
    proof -
      have "drop ?m L = filter (\<lambda>e. \<not> esc e < s1) L"
        unfolding m dropWhile_eq_drop [symmetric] by (rule dropWhile_down) (use down in auto)
      then have "takeWhile (\<lambda>e. \<not> dlt s2 (esc e)) (drop ?m L) =
          takeWhile (\<lambda>e. esc e \<le> s2) (filter (\<lambda>e. \<not> esc e < s1) L)"
        using nn nan by (auto simp: dlt_def intro!: takeWhile_cong)
      also have "\<dots> = filter (\<lambda>e. esc e \<le> s2) (filter (\<lambda>e. \<not> esc e < s1) L)"
      proof (rule takeWhile_down)
        let ?F = "filter (\<lambda>e. \<not> esc e < s1) L"
        have "sorted (map esc L)" using zset_ok_sorted(1) [OF E] by (simp add: comp_def)
        then have "sorted (map esc ?F)" by (rule sorted_filter)
        then show "esc (?F ! j) \<le> s2" if "j \<le> k" "k < length ?F" "esc (?F ! k) \<le> s2" for j k
          using sorted_nth_mono [of "map esc ?F" j k] that by simp
      qed
      finally show ?thesis by (simp add: not_less conj_commute)
    qed
    show ?thesis
    proof (cases "slIsInRange S s1 s2 = Some True")
      case in_range: True
      then show ?thesis
        using True u score_range_fwd [OF inv, of ?m s2 "[]"] tw m
        by (simp add: lua_get_score_range_def le slFirstInRange_def filter_map comp_def length_takeWhile_le)
    next
      case False
      then have "L = [] \<or> esc (last L) < s1 \<or> s2 < esc (hd L)" using True unfolding range dlt_def by auto
      then have "\<not> (s1 \<le> esc e \<and> esc e \<le> s2)" if "e \<in> set L" for e
        using hd [OF that] that by force
      then have "filter (\<lambda>e. s1 \<le> esc e \<and> esc e \<le> s2) L = []" by (simp add: filter_empty_conv)
      moreover have "slIsInRange S s1 s2 = Some False" using False range by simp
      ultimately show ?thesis using True
        by (simp add: lua_get_score_range_def le slFirstInRange_def filter_map comp_def score_range_loop.simps)
    qed
  next
    case False
    then have lt: "s2 < s1" by simp
    let ?P = "\<lambda>d. fst d \<le> s1"
    let ?m = "length (takeWhile ?P (map snd L))"
    have down: "esc (L ! k) \<le> s1 \<Longrightarrow> esc (L ! j) \<le> s1" if "j \<le> k" "k < length L" for j k
      using srt [OF that] by simp
    have c: "threshold S L (\<lambda>_ (_ :: u32) n. Some (dle (n_score n) s1)) ?m"
    proof (rule threshold_take)
      fix k n assume k: "k < length L" "sl_mem S (ad (L ! k)) = Some n"
      then show "Some (dle (n_score n) s1) = Some (?P (snd (L ! k)))"
        using node_fields [OF inv k] nn [of "L ! k"] nan by (auto simp: dle_def dlt_def deq_def)
    qed (use down in auto)
    have m: "?m = length (takeWhile (\<lambda>e. esc e \<le> s1) L)" by (simp add: takeWhile_map comp_def)
    obtain upd s where u: "descend (sl_mem S) (\<lambda>_ (_ :: u32) n. Some (dle (n_score n) s1)) (sl_level S) (sl_header S) (0 :: u32) = Some upd"
      "fst (upd ! 0) = atp (sl_header S) L ?m"
      by (rule search_first [OF inv c]) blast
    have tw: "takeWhile (\<lambda>e. \<not> dlt (esc e) s2) (rev (take ?m L)) = rev (filter (\<lambda>e. s2 \<le> esc e \<and> esc e \<le> s1) L)"
    proof -
      let ?F = "filter (\<lambda>e. esc e \<le> s1) L"
      have "take ?m L = ?F"
        unfolding m takeWhile_eq_take [symmetric] by (rule takeWhile_down) (use down in auto)
      moreover have "dlt (esc e) s2 = (esc e < s2)" if "e \<in> set L" for e
        using nn [OF that] nan by (auto simp: dlt_def)
      ultimately have "takeWhile (\<lambda>e. \<not> dlt (esc e) s2) (rev (take ?m L)) = takeWhile (\<lambda>e. s2 \<le> esc e) (rev ?F)"
        by (auto intro!: takeWhile_cong)
      also have "\<dots> = filter (\<lambda>e. s2 \<le> esc e) (rev ?F)"
      proof (rule takeWhile_down)
        have "sorted (map esc L)" using zset_ok_sorted(1) [OF E] by (simp add: comp_def)
        then have so: "sorted (map esc ?F)" by (rule sorted_filter)
        show "s2 \<le> esc (rev ?F ! j)" if "j \<le> k" "k < length (rev ?F)" "s2 \<le> esc (rev ?F ! k)" for j k
        proof -
          have "esc (?F ! (length ?F - Suc k)) \<le> esc (?F ! (length ?F - Suc j))"
            using sorted_nth_mono [OF so, of "length ?F - Suc k" "length ?F - Suc j"] that(1,2) by simp
          with that show ?thesis by (simp add: rev_nth)
        qed
      qed
      finally show ?thesis by (simp add: rev_filter [symmetric] conj_commute)
    qed
    show ?thesis
    proof (cases "slIsInRange S s2 s1 = Some True")
      case in_range: True
      then have "L \<noteq> []" by (simp add: range)
      then have ne: "L \<noteq> []" "\<not> s1 < esc (hd L)"
        using in_range nn [OF hd_in_set] nan unfolding range dlt_def by auto
      then have "0 < ?m" unfolding m by (cases L) auto
      then have b: "Some (atp (sl_header S) L ?m) = backp L ?m" by (simp add: atp_def backp_def)
      have "?m \<le> length L" unfolding m by (rule length_takeWhile_le)
      from score_range_back [OF inv this, of s2 "[]"] in_range u False
      show ?thesis
        by (simp add: lua_get_score_range_def le slLastInRange_def b tw filter_map comp_def rev_map)
    next
      case not_in: False
      then have "L = [] \<or> esc (last L) < s2 \<or> s1 < esc (hd L)" using lt unfolding range dlt_def by auto
      then have "\<not> (s2 \<le> esc e \<and> esc e \<le> s1)" if "e \<in> set L" for e
        using hd [OF that] that by force
      then have "filter (\<lambda>e. s2 \<le> esc e \<and> esc e \<le> s1) L = []" by (simp add: filter_empty_conv)
      moreover have "slIsInRange S s2 s1 = Some False" using not_in range by simp
      ultimately show ?thesis using False
        by (simp add: lua_get_score_range_def le slLastInRange_def filter_map comp_def score_range_loop.simps)
    qed
  qed
qed

lemma rank_range_ok:
  fixes r1 r2 :: u64
  assumes inv: "sl_inv S L" and r: "unat r1 < 2147483647" "unat r2 < 2147483647"
  shows "lua_get_rank_range S r1 r2 = Some (map eob
    (if unat r1 = 0 \<or> length L < unat r1 then []
     else if r1 \<le> r2 then take (unat r2 - unat r1 + 1) (drop (unat r1 - 1) L)
     else take (unat r1 - unat r2 + 1) (rev (take (unat r1) L))))"
proof -
  let ?d = "if r1 \<le> r2 then r2 - r1 + 1 else r1 - r2 + 1"
  have d: "sint (ucast ?d :: u32) = int ((if r1 \<le> r2 then unat r2 - unat r1 else unat r1 - unat r2) + 1)"
  proof -
    define n where "n = (if r1 \<le> r2 then unat r2 - unat r1 else unat r1 - unat r2) + 1"
    have n: "n < 2147483648"
      using r unfolding n_def by (cases "r1 \<le> r2"; simp only: if_True if_False; linarith)
    have "?d = of_nat n"
      by (auto simp: n_def word_le_nat_alt of_nat_diff)
    then have "sint (ucast ?d :: u32) = sint (of_nat n :: u32)" by (simp only: ucast_down)
    also have "\<dots> = int n" using n by (rule sint_of_nat_u32)
    finally show ?thesis unfolding n_def .
  qed
  show ?thesis
  proof (cases "1 \<le> unat r1 \<and> unat r1 \<le> length L")
    case False
    then show ?thesis unfolding lua_get_rank_range_def Let_def d get_node_by_rank_ok [OF inv]
      by (subst if_not_P [OF False]) (auto simp: rank_range_loop.simps)
  next
    case True
    then have b: "Some (ad (L ! (unat r1 - 1))) = backp L (unat r1)"
      "Some (ad (L ! (unat r1 - 1))) = fwdp L (unat r1 - 1)" by (auto simp: backp_def fwdp_def)
    have "unat r1 - 1 \<le> length L" using True by linarith
    with b show ?thesis unfolding lua_get_rank_range_def Let_def d get_node_by_rank_ok [OF inv] if_P [OF True]
      using True rank_range_fwd [OF inv, of "unat r1 - 1" "int (unat r2 - unat r1 + 1)" 0 "[]"]
        rank_range_back [OF inv, of "unat r1" "int (unat r1 - unat r2 + 1)" 0 "[]"]
      by (simp add: nat_add_distrib)
  qed
qed

section \<open>Operations that use the order\<close>

context obj_order
begin

lemma place_lt: "d \<in> set (takeWhile (\<lambda>d. elt_lt cmp d e) E) \<Longrightarrow> elt_lt cmp d e"
  by (metis (mono_tags, lifting) set_takeWhileD)

lemma place_ge:
  assumes "zset_ok cmp ok E" "elt_ok ok e" "d \<in> set (dropWhile (\<lambda>d. elt_lt cmp d e) E)"
  shows "\<not> elt_lt cmp d e"
proof -
  have "dropWhile (\<lambda>d. elt_lt cmp d e) E = filter (\<lambda>d. \<not> elt_lt cmp d e) E"
    by (rule dropWhile_down) (use lt_down [OF assms(1,2)] in auto)
  with assms(3) show ?thesis by simp
qed

lemma zset_insert_ok:
  assumes E: "zset_ok cmp ok E" and e: "elt_ok ok e"
  shows "zset_ok cmp ok (zset_insert cmp e E)"
proof -
  let ?A = "takeWhile (\<lambda>d. elt_lt cmp d e) E" and ?B = "dropWhile (\<lambda>d. elt_lt cmp d e) E"
  have AB: "?A @ ?B = E" by simp
  have okE: "\<forall>d \<in> set ?A \<union> set ?B. elt_ok ok d" using E unfolding zset_ok_def by (metis AB set_append)
  have srt: "sorted_wrt (\<lambda>a b. \<not> elt_lt cmp b a) (?A @ ?B)" using E by (simp add: zset_ok_def)
  have lt: "\<not> elt_lt cmp e d" if "d \<in> set ?A" for d
    using place_lt [OF that] okE that e lt_trans [of e d e] lt_irrefl [of e] by blast
  have ge: "\<not> elt_lt cmp d e" if "d \<in> set ?B" for d using place_ge [OF E e that] .
  define A B where "A = ?A" and "B = ?B"
  have "sorted_wrt (\<lambda>a b. \<not> elt_lt cmp b a) (A @ e # B)"
    using srt lt ge unfolding A_def [symmetric] B_def [symmetric] by (simp add: sorted_wrt_append)
  moreover have "\<forall>d \<in> set (A @ e # B). elt_ok ok d"
    using okE e unfolding A_def [symmetric] B_def [symmetric] by simp
  ultimately show ?thesis unfolding zset_ok_def zset_insert_def A_def B_def by blast
qed

lemma insert_refines:
  assumes rel: "zset_rel cmp ok S E" and e: "elt_ok ok (s, v)" and len: "Suc (length E) < 4294967296"
    and rnd: "\<exists>r \<in> set rs. 0xffff \<le> 4 * unat (r AND 0xffff)"
  shows "\<exists>S' rs'. slInsert cmp S s v rs = Some (S', rs') \<and> zset_rel cmp ok S' (zset_insert cmp (s, v) E)"
proof -
  from rel obtain L where L: "sl_inv S L" "map snd L = E" and E: "zset_ok cmp ok E" by (auto simp: zset_rel_def)
  from slRandomLevel_returns [OF rnd] obtain lvl rs' where r: "slRandomLevel rs = Some (lvl, rs')" by blast
  have c: "threshold S L (before cmp s v :: ('o, 32) cond) (length (takeWhile (\<lambda>d. elt_lt cmp d (s, v)) E))"
    using before_threshold [OF L(1) _ e] E L(2) by simp
  have len': "Suc (length L) < 4294967296" using len L(2) by (metis length_map)
  from insert_inv [OF L(1) c len' r] obtain S' where
    S': "slInsert cmp S s v rs = Some (S', rs')"
      "sl_inv S' (ins (length (takeWhile (\<lambda>d. elt_lt cmp d (s, v)) E)) ((sl_brk S, lvl), s, v) L)" by blast
  have "map snd (ins (length (takeWhile (\<lambda>d. elt_lt cmp d (s, v)) E)) ((sl_brk S, lvl), s, v) L) =
      zset_insert cmp (s, v) E"
    by (simp add: map_ins L(2) ins_place zset_insert_def)
  with S' zset_insert_ok [OF E e] show ?thesis unfolding zset_rel_def by blast
qed

lemma remove1_place:
  assumes E: "zset_ok cmp ok E" and e: "elt_ok ok e"
  defines "m \<equiv> length (takeWhile (\<lambda>d. elt_lt cmp d e) E)"
  shows "e \<in> set E \<longleftrightarrow> m < length E \<and> E ! m = e"
    and "e \<in> set E \<Longrightarrow> remove1 e E = del m E"
proof -
  let ?A = "takeWhile (\<lambda>d. elt_lt cmp d e) E" and ?B = "dropWhile (\<lambda>d. elt_lt cmp d e) E"
  have nA: "e \<notin> set ?A" using place_lt [of e e E] lt_irrefl [OF e] by blast
  have fst_B: "E ! m = e" "m < length E" if "e \<in> set E"
  proof -
    have "e \<in> set ?B" using that nA by (metis Un_iff set_append takeWhile_dropWhile_id)
    then obtain b B where B: "?B = b # B" by (cases ?B) auto
    have dm: "drop m E = b # B" using B unfolding m_def dropWhile_eq_drop [symmetric] .
    then have mE: "m < length E" by (cases "m < length E") auto
    then have "E ! m = b" using hd_drop_conv_nth [OF mE] dm by simp
    note mE = mE this
    have ok: "elt_ok ok b" using E mE unfolding zset_ok_def by (metis nth_mem)
    have "\<not> elt_lt cmp b e" using place_ge [OF E e, of b] B by simp
    moreover have "\<not> elt_lt cmp e b"
    proof (cases "e = b")
      case False
      with \<open>e \<in> set ?B\<close> B have "e \<in> set B" by simp
      moreover have "sorted_wrt (\<lambda>a b. \<not> elt_lt cmp b a) (?A @ ?B)" using E by (simp add: zset_ok_def)
      ultimately show ?thesis unfolding sorted_wrt_append B by simp
    qed (use lt_irrefl e in blast)
    ultimately have "b = e" using lt_total [OF ok e] by blast
    with mE show "E ! m = e" "m < length E" by auto
  qed
  then show "e \<in> set E \<longleftrightarrow> m < length E \<and> E ! m = e" by (metis nth_mem)
  show "remove1 e E = del m E" if "e \<in> set E"
  proof -
    have "E = take m E @ e # drop (Suc m) E" using fst_B [OF that] by (metis id_take_nth_drop)
    moreover have "e \<notin> set (take m E)" using nA unfolding m_def takeWhile_eq_take [symmetric] .
    ultimately show ?thesis unfolding del_def by (metis remove1_append remove1.simps(2))
  qed
qed

lemma map_del: "map f (del m L) = del m (map f L)"
  by (simp add: del_def take_map drop_map)

lemma sub_ok: "zset_ok cmp ok E \<Longrightarrow> a \<le> b \<Longrightarrow> zset_ok cmp ok (take a E @ drop b E)"
  unfolding zset_ok_def by (auto simp: sorted_sub dest: in_set_takeD in_set_dropD)

lemma delete_refines:
  assumes rel: "zset_rel cmp ok S E" and e: "elt_ok ok (s, v)"
  shows "\<exists>S'. slDelete cmp S s v = Some (S', (s, v) \<in> set E) \<and> zset_rel cmp ok S' (remove1 (s, v) E)"
proof -
  from rel obtain L where L: "sl_inv S L" "map snd L = E" and E: "zset_ok cmp ok E" by (auto simp: zset_rel_def)
  define m where "m = length (takeWhile (\<lambda>d. elt_lt cmp d (s, v)) E)"
  have lenE: "length E = length L" using L(2) by (metis length_map)
  have c: "threshold S L (before cmp s v :: ('o, 32) cond) m"
    using before_threshold [OF L(1) _ e] E L(2) by (simp add: m_def)
  obtain upd t where u: "descend (sl_mem S) (before cmp s v) (sl_level S) (sl_header S) (0 :: u32) = Some upd"
    "fst (upd ! 0) = atp (sl_header S) L m"
    "\<And>i. i < sl_level S \<Longrightarrow> map fst upd ! i = atp (sl_header S) L (prv L i m)"
    "get_lv (sl_mem S) (atp (sl_header S) L m) 0 = Some (fwdp L m, t)"
    by (rule search_first [OF L(1) c]) blast
  have nthE: "m < length L \<Longrightarrow> E ! m = snd (L ! m)" using L(2) by auto
  show ?thesis
  proof (cases "m < length L")
    case False
    then have "(s, v) \<notin> set E" using remove1_place(1) [OF E e] lenE by (simp add: m_def)
    with False u rel show ?thesis by (simp add: slDelete_def fwdp_def remove1_idem)
  next
    case True
    obtain n where n: "sl_mem S (ad (L ! m)) = Some n" "n_obj n = Some (eob (L ! m))" "n_score n = esc (L ! m)"
      using node_at [OF L(1) True] by metis
    have "elt_ok ok (snd (L ! m))" using E nthE [OF True] True lenE unfolding zset_ok_def by (metis nth_mem)
    then have eq: "(if deq s (n_score n) then map_option (\<lambda>p. cmp p v = 0) (n_obj n) else Some False) =
        Some (snd (L ! m) = (s, v))"
      using e n cmp_zero [of "eob (L ! m)" v] by (cases "L ! m") (auto simp: deq_def elt_ok_def)
    show ?thesis
    proof (cases "snd (L ! m) = (s, v)")
      case False
      then have "(s, v) \<notin> set E" using remove1_place(1) [OF E e] nthE [OF True] by (simp add: m_def)
      with False True u n eq rel show ?thesis by (simp add: slDelete_def fwdp_def remove1_idem)
    next
      case eqm: True
      then have inE: "(s, v) \<in> set E" using remove1_place(1) [OF E e] nthE [OF True] lenE True by (simp add: m_def)
      from delete_node_inv [OF L(1) True u(3)] obtain S1 where
        "slDeleteNode S (ad (L ! m)) (map fst upd) = Some S1" "sl_inv (slFreeNode (ad (L ! m)) S1) (del m L)" by blast
      moreover have "map snd (del m L) = remove1 (s, v) E"
        using remove1_place(2) [OF E e inE] by (simp add: map_del L(2) m_def)
      moreover have "zset_ok cmp ok (remove1 (s, v) E)"
        using sub_ok [OF E, of m "Suc m"] remove1_place(2) [OF E e inE] by (simp add: m_def del_def)
      ultimately show ?thesis using True u n eq eqm inE
        by (auto simp: slDelete_def fwdp_def zset_rel_def)
    qed
  qed
qed

lemma rank_loop_ok:
  assumes inv: "sl_inv S L" and E: "zset_ok cmp ok (map snd L)" and v: "ok v"
    and c: "threshold S L (up_to cmp s v :: ('o, 64) cond) m"
    and k: "\<And>j. j < length L \<Longrightarrow> eob (L ! j) = v \<Longrightarrow> Suc j = r"
    and fin: "if r = 0 then l = 0 \<or> v \<notin> eob ` set L else r = m \<and> 1 \<le> l \<and> eob (L ! (m - 1)) = v"
  shows "p \<le> m \<Longrightarrow> l \<le> limp (sl_level S) L p \<Longrightarrow> l \<le> sl_level S \<Longrightarrow>
    rank_loop (sl_mem S) cmp s v l (atp (sl_header S) L p) (of_nat p) = Some (of_nat r)"
  using fin
proof (induction l arbitrary: p)
  case (Suc l)
  have m: "m \<le> length L" using c by (simp add: threshold_def)
  define q where "q = prv L l m"
  have walk: "advance (sl_mem S) (up_to cmp s v) l (atp (sl_header S) L p) (of_nat p :: u64) =
      Some (atp (sl_header S) L q, of_nat q)"
    using advance_walk [OF inv c Suc.prems(1)] Suc.prems(2) by (simp add: q_def)
  have q: "q \<le> m" "l \<le> limp (sl_level S) L q" "l = 0 \<Longrightarrow> q = m"
    using prv_le [of L l m] limp_prv [of l "sl_level S" L m] Suc.prems(3) prv0 [OF inv m]
    by (auto simp: q_def)
  show ?case
  proof (cases "q \<noteq> 0 \<and> eob (L ! (q - 1)) = v")
    case True
    then have "r = q" using k [of "q - 1"] q(1) m by auto
    moreover have "q - 1 < length L" using True q(1) m by linarith
    then obtain n where "sl_mem S (ad (L ! (q - 1))) = Some n" "n_obj n = Some (eob (L ! (q - 1)))"
      using node_at [OF inv] by metis
    ultimately show ?thesis using True walk cmp_zero [OF v v] by (simp add: atp_def)
  next
    case False
    have next_: "rank_loop (sl_mem S) cmp s v l (atp (sl_header S) L q) (of_nat q) = Some (of_nat r)"
    proof (rule Suc.IH [OF q(1,2)])
      show "if r = 0 then l = 0 \<or> v \<notin> eob ` set L else r = m \<and> 1 \<le> l \<and> eob (L ! (m - 1)) = v"
        using Suc.prems(4) False q(3) by (cases "l = 0") (auto split: if_splits)
    qed (use Suc.prems in simp)
    show ?thesis
    proof (cases "q = 0")
      case True
      obtain n where "sl_mem S (sl_header S) = Some n" "n_obj n = None"
        using sl_inv_header [OF inv] by (auto simp: skel_def)
      with True walk next_ show ?thesis by (simp add: atp_def)
    next
      case q0: False
      then have ql: "q - 1 < length L" using q(1) m by linarith
      obtain n where n: "sl_mem S (ad (L ! (q - 1))) = Some n" "n_obj n = Some (eob (L ! (q - 1)))"
        using node_at [OF inv ql] by metis
      have "ok (eob (L ! (q - 1)))"
        using E nth_mem [OF ql] unfolding zset_ok_def elt_ok_def by (metis image_eqI list.set_map)
      then have "cmp (eob (L ! (q - 1))) v \<noteq> 0" using cmp_zero v False q0 by blast
      with n q0 walk next_ show ?thesis by (simp add: atp_def)
    qed
  qed
qed (auto split: if_splits)

lemma get_rank_refines:
  assumes rel: "zset_rel cmp ok S E" and e: "elt_ok ok (s, v)"
    and one: "distinct (map snd E)" and same: "\<And>d. d \<in> set E \<Longrightarrow> snd d = v \<Longrightarrow> fst d = s"
  shows "slGetRank cmp S s v =
    Some (if (s, v) \<in> set E then of_nat (length (takeWhile (\<lambda>d. d \<noteq> (s, v)) E)) + 1 else 0)"
proof -
  from rel obtain L where L: "sl_inv S L" "map snd L = E" and E: "zset_ok cmp ok E" by (auto simp: zset_rel_def)
  define m where "m = length (takeWhile (\<lambda>d. \<not> elt_lt cmp (s, v) d) E)"
  have lenE: "length E = length L" using L(2) by (metis length_map)
  have c: "threshold S L (up_to cmp s v :: ('o, 64) cond) m"
    using upto_threshold [OF L(1) _ e] E L(2) by (simp add: m_def)
  have nthE: "j < length L \<Longrightarrow> E ! j = snd (L ! j)" for j using L(2) by auto
  have v: "ok v" using e by (simp add: elt_ok_def)
  have lvl: "1 \<le> sl_level S" using sl_inv_level(1) [OF L(1)] .
  show ?thesis
  proof (cases "(s, v) \<in> set E")
    case False
    then have no: "v \<notin> snd ` set E" using same by (metis imageE prod.collapse)
    moreover have "snd ` set E = eob ` set L" by (simp add: L(2) [symmetric] image_image)
    ultimately have no2: "v \<notin> eob ` set L" by simp
    have "rank_loop (sl_mem S) cmp s v (sl_level S) (atp (sl_header S) L 0) (of_nat 0) = Some (of_nat 0)"
      by (rule rank_loop_ok [OF L(1) _ v c])
        (use E L(2) no2 nth_mem in \<open>auto simp: limp_def\<close>)
    then show ?thesis using False by (simp add: slGetRank_def)
  next
    case True
    define k where "k = length (takeWhile (\<lambda>d. d \<noteq> (s, v)) E)"
    from split_list_first [OF True] obtain ys zs where ys: "E = ys @ (s, v) # zs" "(s, v) \<notin> set ys" by blast
    then have "takeWhile (\<lambda>d. d \<noteq> (s, v)) ys = ys" by (auto simp: takeWhile_eq_all_conv)
    then have "takeWhile (\<lambda>d. d \<noteq> (s, v)) E = ys" using ys by (simp add: takeWhile_append)
    then have k: "k < length E" "E ! k = (s, v)" using ys by (simp_all add: k_def)
    let ?Q = "\<lambda>d. \<not> elt_lt cmp (s, v) d"
    have low: "?Q (E ! j)" if "j \<le> k" for j
      using le_down [OF E e that k(1)] lt_irrefl [OF e] k(2) by simp
    have high: "\<not> ?Q (E ! Suc k)" if l: "Suc k < length E"
    proof -
      have "distinct E" using one by (metis distinct_map)
      then have "E ! Suc k \<noteq> (s, v)" using k(2) nth_eq_iff_index_eq [of E "Suc k" k] l by auto
      moreover have "\<not> elt_lt cmp (E ! Suc k) (E ! k)"
        using E l unfolding zset_ok_def sorted_wrt_iff_nth_less by blast
      moreover have "elt_ok ok (E ! Suc k)" using E l unfolding zset_ok_def by (metis nth_mem)
      ultimately show ?thesis using lt_total [OF e] k(2) by metis
    qed
    have km: "m = Suc k"
    proof (rule antisym)
      show "Suc k \<le> m"
      proof (rule ccontr)
        assume "\<not> Suc k \<le> m"
        then have "m \<le> k" "m < length E" using k(1) by auto
        with low [of m] nth_length_takeWhile [of ?Q E] show False by (simp add: m_def)
      qed
      show "m \<le> Suc k"
      proof (rule ccontr)
        assume "\<not> m \<le> Suc k"
        then have l: "Suc k < m" by simp
        then have "?Q (takeWhile ?Q E ! Suc k)" unfolding m_def by (metis (mono_tags, lifting) nth_mem set_takeWhileD)
        moreover have "Suc k < length E" using l length_takeWhile_le [of ?Q E] unfolding m_def by linarith
        ultimately show False using high l by (simp add: m_def takeWhile_nth)
      qed
    qed
    have "rank_loop (sl_mem S) cmp s v (sl_level S) (atp (sl_header S) L 0) (of_nat 0) = Some (of_nat (Suc k))"
    proof (rule rank_loop_ok [OF L(1) _ v c])
      show "Suc j = Suc k" if "j < length L" "eob (L ! j) = v" for j
        using that k one nthE [of j] lenE nth_eq_iff_index_eq [OF one, of j k] by simp
      show "if Suc k = 0 then sl_level S = 0 \<or> v \<notin> eob ` set L
        else Suc k = m \<and> 1 \<le> sl_level S \<and> eob (L ! (m - 1)) = v"
        using k nthE [of k] lenE lvl by (simp add: km)
    qed (use E L(2) in \<open>auto simp: limp_def\<close>)
    then show ?thesis using True by (simp add: slGetRank_def k_def add.commute)
  qed
qed

end

end
