(* ===== verification/Skiplist.thy ===== *)
theory Skiplist
  imports Zset_Ops
begin

text \<open>
  The skip list of \<^verbatim>\<open>src/depends/lua-zset\<close>: byte strings ordered by score, then by
  \<open>compareslObj\<close>.  The comparison is an order on objects whose length fits a C \<open>int\<close>, so the
  development of \<^verbatim>\<open>Zset_Ops\<close> applies.
\<close>

section \<open>Objects\<close>

record slobj =
  ob_ptr :: "u8 list"
  ob_length :: u64

definition slCreateObj :: "u8 list \<Rightarrow> slobj" where
  "slCreateObj bs = \<lparr>ob_ptr = bs @ [0], ob_length = of_nat (length bs)\<rparr>"

text \<open>Of the result of \<open>memcmp\<close> only the sign is specified, and only the sign is used.\<close>

fun memcmp :: "nat \<Rightarrow> u8 list \<Rightarrow> u8 list \<Rightarrow> int" where
  "memcmp (Suc n) (x # xs) (y # ys) = (if x = y then memcmp n xs ys else if x < y then -1 else 1)"
| "memcmp _ _ _ = 0"

definition compareslObj :: "slobj cmp" where
  "compareslObj a b =
     (let c = memcmp (unat (if ob_length a \<le> ob_length b then ob_length a else ob_length b)) (ob_ptr a) (ob_ptr b)
      in if c = 0 then sint (ucast (ob_length a - ob_length b) :: u32) else c)"

definition equalslObj :: "slobj \<Rightarrow> slobj \<Rightarrow> bool" where
  "equalslObj a b \<longleftrightarrow> compareslObj a b = 0"

definition slobj_ok :: "slobj \<Rightarrow> bool" where
  "slobj_ok o1 \<longleftrightarrow> unat (ob_length o1) < 2147483648 \<and> o1 = slCreateObj (take (unat (ob_length o1)) (ob_ptr o1))"

text \<open>The byte string that \<open>lua_pushlstring\<close> gives back to Lua.\<close>

definition lua_str :: "slobj \<Rightarrow> u8 list" where
  "lua_str o1 = take (unat (ob_length o1)) (ob_ptr o1)"

section \<open>The comparison is an order\<close>

definition bytes_cmp :: "u8 list \<Rightarrow> u8 list \<Rightarrow> int" where
  "bytes_cmp a b = (let c = memcmp (min (length a) (length b)) a b
     in if c = 0 then int (length a) - int (length b) else c)"

lemma bytes_cmp_simps [simp]:
  "bytes_cmp [] b = - int (length b)"
  "bytes_cmp (x # xs) [] = int (length (x # xs))"
  "bytes_cmp (x # xs) (y # ys) = (if x = y then bytes_cmp xs ys else if x < y then -1 else 1)"
  by (simp_all add: bytes_cmp_def Let_def)

lemma bytes_cmp_zero: "bytes_cmp a b = 0 \<longleftrightarrow> a = b"
proof (induction a arbitrary: b)
  case (Cons x xs)
  then show ?case by (cases b) auto
qed auto

lemma bytes_cmp_lexord: "bytes_cmp a b < 0 \<longleftrightarrow> ord_class.lexordp a b"
proof (induction a arbitrary: b)
  case Nil
  then show ?case by (cases b) auto
next
  case (Cons x xs)
  then show ?case by (cases b) auto
qed

lemma bytes_cmp_flip: "bytes_cmp a b < 0 \<longleftrightarrow> 0 < bytes_cmp b a"
proof (induction a arbitrary: b)
  case Nil
  then show ?case by (cases b) auto
next
  case (Cons x xs)
  then show ?case by (cases b) auto
qed

lemma memcmp_append: "n \<le> length a \<Longrightarrow> n \<le> length b \<Longrightarrow> memcmp n (a @ c) (b @ d) = memcmp n a b"
proof (induction n arbitrary: a b)
  case (Suc n)
  then show ?case by (cases a; cases b) auto
qed simp

lemma ucast_down_int: "(ucast (word_of_int k :: u64) :: u32) = word_of_int k"
  by (simp add: unsigned_of_int word_of_int_eq_iff take_bit_take_bit)

lemma sint_diff_u32:
  assumes "m < 2147483648" "n < 2147483648"
  shows "sint (ucast ((of_nat m :: u64) - of_nat n) :: u32) = int m - int n"
proof -
  have "(of_nat m :: u64) - of_nat n = word_of_int (int m - int n)" by simp
  then have "(ucast ((of_nat m :: u64) - of_nat n) :: u32) = word_of_int (int m - int n)"
    by (simp only: ucast_down_int)
  moreover have "signed_take_bit 31 (int m - int n) = int m - int n"
    using assms by (intro signed_take_bit_int_eq_self) simp_all
  ultimately show ?thesis by (simp only: signed_of_int) simp
qed

lemma compareslObj_bytes:
  assumes "length a < 2147483648" "length b < 2147483648"
  shows "compareslObj (slCreateObj a) (slCreateObj b) = bytes_cmp a b"
proof -
  have "unat (of_nat (length a) :: u64) = length a" "unat (of_nat (length b) :: u64) = length b"
    using assms by (simp_all add: unat_of_nat)
  then have "unat (if (of_nat (length a) :: u64) \<le> of_nat (length b) then of_nat (length a) else of_nat (length b) :: u64) =
      min (length a) (length b)" by (simp add: word_le_nat_alt min_def)
  moreover have "memcmp (min (length a) (length b)) (a @ [0]) (b @ [0]) = memcmp (min (length a) (length b)) a b"
    by (simp add: memcmp_append)
  ultimately show ?thesis
    by (simp only: compareslObj_def slCreateObj_def slobj.select_convs bytes_cmp_def Let_def sint_diff_u32 [OF assms])
qed

lemma slobj_okE:
  assumes "slobj_ok o1"
  obtains bs where "o1 = slCreateObj bs" "length bs < 2147483648"
proof (rule that)
  show "o1 = slCreateObj (take (unat (ob_length o1)) (ob_ptr o1))" using assms by (simp add: slobj_ok_def)
  show "length (take (unat (ob_length o1)) (ob_ptr o1)) < 2147483648" using assms by (simp add: slobj_ok_def min_less_iff_disj)
qed

lemma slobj_ok_create [simp]: "length bs < 2147483648 \<Longrightarrow> slobj_ok (slCreateObj bs)"
  by (simp add: slobj_ok_def slCreateObj_def unat_of_nat)

lemma slCreateObj_inj: "length a < 2147483648 \<Longrightarrow> length b < 2147483648 \<Longrightarrow> slCreateObj a = slCreateObj b \<longleftrightarrow> a = b"
  by (simp add: slCreateObj_def) auto

interpretation zs: obj_order compareslObj slobj_ok
proof
  fix a b c
  assume "slobj_ok a" "slobj_ok b"
  then obtain x y where x: "a = slCreateObj x" "length x < 2147483648"
    and y: "b = slCreateObj y" "length y < 2147483648" by (metis slobj_okE)
  note cmp = compareslObj_bytes [OF x(2) y(2)] compareslObj_bytes [OF y(2) x(2)]
  show "compareslObj a b = 0 \<longleftrightarrow> a = b"
    unfolding x y cmp slCreateObj_inj [OF x(2) y(2)] by (rule bytes_cmp_zero)
  show "compareslObj a b < 0 \<longleftrightarrow> 0 < compareslObj b a"
    unfolding x y cmp by (rule bytes_cmp_flip)
  assume "slobj_ok c"
  then obtain z where z: "c = slCreateObj z" "length z < 2147483648" by (metis slobj_okE)
  assume "compareslObj a b < 0" "compareslObj b c < 0"
  then show "compareslObj a c < 0"
    unfolding x y z compareslObj_bytes [OF x(2) y(2)] compareslObj_bytes [OF y(2) z(2)]
      compareslObj_bytes [OF x(2) z(2)] bytes_cmp_lexord
    by (rule lexordp_trans)
qed

section \<open>The Lua functions\<close>

definition lua_insert :: "slobj skiplist \<Rightarrow> dbl \<Rightarrow> u8 list \<Rightarrow> u32 list \<Rightarrow> (slobj skiplist \<times> u32 list) option" where
  "lua_insert S sc0 bs rs = slInsert compareslObj S sc0 (slCreateObj bs) rs"

definition lua_delete :: "slobj skiplist \<Rightarrow> dbl \<Rightarrow> u8 list \<Rightarrow> (slobj skiplist \<times> bool) option" where
  "lua_delete S sc0 bs = slDelete compareslObj S sc0 (slCreateObj bs)"

definition lua_rank :: "slobj skiplist \<Rightarrow> dbl \<Rightarrow> u8 list \<Rightarrow> u64 option option" where
  "lua_rank S sc0 bs = lua_get_rank compareslObj S sc0 (slCreateObj bs)"

text \<open>
  A skip list represents an ascending list of scores and byte strings.
\<close>

definition obj_elts :: "(dbl \<times> u8 list) list \<Rightarrow> (dbl \<times> slobj) list" where
  "obj_elts E = map (\<lambda>(s, bs). (s, slCreateObj bs)) E"

definition zrep :: "slobj skiplist \<Rightarrow> (dbl \<times> u8 list) list \<Rightarrow> bool" where
  "zrep S E \<longleftrightarrow> (\<forall>e \<in> set E. length (snd e) < 2147483648) \<and> zset_rel compareslObj slobj_ok S (obj_elts E)"

definition bytes_lt :: "dbl \<times> u8 list \<Rightarrow> dbl \<times> u8 list \<Rightarrow> bool" where
  "bytes_lt a b \<longleftrightarrow> fst a < fst b \<or> fst a = fst b \<and> ord_class.lexordp (snd a) (snd b)"

lemma elt_lt_bytes:
  assumes "length (snd a) < 2147483648" "length (snd b) < 2147483648"
  shows "elt_lt compareslObj (fst a, slCreateObj (snd a)) (fst b, slCreateObj (snd b)) = bytes_lt a b"
  by (simp add: elt_lt_def bytes_lt_def compareslObj_bytes assms bytes_cmp_lexord)

lemma zrep_sorted:
  assumes "zrep S E"
  shows "sorted_wrt (\<lambda>a b. \<not> bytes_lt b a) E"
proof -
  have "sorted_wrt (\<lambda>a b. \<not> elt_lt compareslObj (fst b, slCreateObj (snd b)) (fst a, slCreateObj (snd a))) E"
    using assms by (simp add: zrep_def zset_rel_def zset_ok_def obj_elts_def sorted_wrt_map case_prod_beta)
  then show ?thesis
    by (rule sorted_wrt_mono_rel [rotated]) (use assms in \<open>auto simp: zrep_def elt_lt_bytes\<close>)
qed

lemma lua_str_create: "length bs < 2147483648 \<Longrightarrow> lua_str (slCreateObj bs) = bs"
  by (simp add: lua_str_def slCreateObj_def unat_of_nat)

lemma elts_takeWhile:
  assumes "\<forall>d \<in> set E. length (snd d) < 2147483648" "length bs < 2147483648"
  shows "zset_insert compareslObj (s, slCreateObj bs) (obj_elts E) =
    obj_elts (takeWhile (\<lambda>d. bytes_lt d (s, bs)) E @ (s, bs) # dropWhile (\<lambda>d. bytes_lt d (s, bs)) E)"
  using assms
proof (induction E)
  case (Cons d E)
  have "elt_lt compareslObj (fst d, slCreateObj (snd d)) (s, slCreateObj bs) = bytes_lt d (s, bs)"
    using elt_lt_bytes [of d "(s, bs)"] Cons.prems by simp
  with Cons show ?case by (cases d) (auto simp: zset_insert_def obj_elts_def)
qed (simp add: zset_insert_def obj_elts_def)

lemma length_elts [simp]: "length (obj_elts E) = length E"
  by (simp add: obj_elts_def)

lemma elts_in:
  assumes "\<forall>d \<in> set E. length (snd d) < 2147483648" "length bs < 2147483648"
  shows "(s, slCreateObj bs) \<in> set (obj_elts E) \<longleftrightarrow> (s, bs) \<in> set E"
    "remove1 (s, slCreateObj bs) (obj_elts E) = obj_elts (remove1 (s, bs) E)"
    "length (takeWhile (\<lambda>d. d \<noteq> (s, slCreateObj bs)) (obj_elts E)) = length (takeWhile (\<lambda>d. d \<noteq> (s, bs)) E)"
  using assms by (induction E) (auto simp: obj_elts_def slCreateObj_inj)

section \<open>Properties\<close>

lemma zrep_create: "\<exists>S. slCreate = Some S \<and> zrep S []"
  using slCreate_rel by (auto simp: zrep_def zset_rel_def zset_ok_def obj_elts_def)

lemma insert_zrep:
  assumes "zrep S E" and "s \<noteq> NaN" and "length bs < 2147483648" and "Suc (length E) < 4294967296"
    and "\<exists>r \<in> set rs. 0xffff \<le> 4 * unat (r AND 0xffff)"
  shows "\<exists>S' rs'. lua_insert S s bs rs = Some (S', rs') \<and>
    zrep S' (takeWhile (\<lambda>d. bytes_lt d (s, bs)) E @ (s, bs) # dropWhile (\<lambda>d. bytes_lt d (s, bs)) E)"
proof -
  have E: "\<forall>d \<in> set E. length (snd d) < 2147483648" using assms(1) by (simp add: zrep_def)
  have "\<forall>d \<in> set (takeWhile (\<lambda>d. bytes_lt d (s, bs)) E @ (s, bs) # dropWhile (\<lambda>d. bytes_lt d (s, bs)) E).
      length (snd d) < 2147483648"
    using E assms(3) by (auto dest: set_takeWhileD set_dropWhileD)
  with zs.insert_refines [of S "obj_elts E" s "slCreateObj bs" rs] assms show ?thesis
    by (simp add: zrep_def lua_insert_def elts_takeWhile elt_ok_def)
qed

text \<open>
  C4: Inserting a member keeps the skip list well formed (towers, spans, backward pointers, tail,
  length, no node lost or leaked) and puts the member in front of the first one that is not
  smaller by score and then by bytes; the list represented stays sorted.
\<close>

theorem slInsert_refines:
  assumes "zrep S E" and "s \<noteq> NaN" and "length bs < 2147483648" and "Suc (length E) < 4294967296"
    and "\<exists>r \<in> set rs. 0xffff \<le> 4 * unat (r AND 0xffff)"
  shows "\<exists>S' rs' E'. lua_insert S s bs rs = Some (S', rs') \<and> zrep S' E' \<and>
    E' = takeWhile (\<lambda>d. bytes_lt d (s, bs)) E @ (s, bs) # dropWhile (\<lambda>d. bytes_lt d (s, bs)) E \<and>
    sorted_wrt (\<lambda>a b. \<not> bytes_lt b a) E'"
  using insert_zrep [OF assms] zrep_sorted by blast

lemma zrep_one: "\<exists>S0 S rs. slCreate = Some S0 \<and> lua_insert S0 (Fin 1) [97] [65535] = Some (S, rs) \<and> zrep S [(Fin 1, [97])]"
proof -
  from zrep_create obtain S0 where "slCreate = Some S0" "zrep S0 []" by blast
  with insert_zrep [of S0 "[]" "Fin 1" "[97]" "[65535]"] show ?thesis by auto
qed

lemma slInsert_refines_witness:
  "\<exists>S0 S' rs' E'. slCreate = Some S0 \<and> lua_insert S0 (Fin 1) [97] [65535] = Some (S', rs') \<and>
    zrep S' E' \<and> E' = [(Fin 1, [97])]"
proof -
  from zrep_create obtain S0 where "slCreate = Some S0" "zrep S0 []" by blast
  with slInsert_refines [of S0 "[]" "Fin 1" "[97]" "[65535]"] show ?thesis by auto
qed

text \<open>
  C5: Deleting a member reports whether it is in the list with that score, removes exactly its
  entry when it is, and otherwise leaves the list as it was; the skip list stays well formed.
\<close>

theorem slDelete_refines:
  assumes "zrep S E" and "s \<noteq> NaN" and "length bs < 2147483648"
  shows "\<exists>S'. lua_delete S s bs = Some (S', (s, bs) \<in> set E) \<and> zrep S' (remove1 (s, bs) E)"
proof -
  have E: "\<forall>d \<in> set E. length (snd d) < 2147483648" using assms(1) by (simp add: zrep_def)
  then have "\<forall>d \<in> set (remove1 (s, bs) E). length (snd d) < 2147483648" by (auto dest: in_set_remove1)
  with zs.delete_refines [of S "obj_elts E" s "slCreateObj bs"] assms E show ?thesis
    by (simp add: zrep_def lua_delete_def elts_in elt_ok_def)
qed

lemma slDelete_refines_witness:
  "\<exists>S S'. zrep S [(Fin 1, [97])] \<and> lua_delete S (Fin 1) [97] = Some (S', True) \<and> zrep S' []"
proof -
  from zrep_one obtain S where "zrep S [(Fin 1, [97])]" by blast
  with slDelete_refines [of S "[(Fin 1, [97])]" "Fin 1" "[97]"] show ?thesis by auto
qed

lemma obj_elts_take_drop: "obj_elts (take a E @ drop b E) = take a (obj_elts E) @ drop b (obj_elts E)"
  by (simp add: obj_elts_def take_map drop_map)

lemma map_snd_elts: "map snd (obj_elts E) = map (slCreateObj \<circ> snd) E"
  by (simp add: obj_elts_def case_prod_beta)

lemma strs_elts:
  "\<forall>e \<in> set E. length (snd e) < 2147483648 \<Longrightarrow> map lua_str (map snd (obj_elts E)) = map snd E"
  by (simp add: map_snd_elts lua_str_create)

lemma zrepD:
  assumes "zrep S E"
  obtains L where "sl_inv S L" "map snd L = obj_elts E" "map eob L = map slCreateObj (map snd E)"
    "length L = length E" "zset_ok compareslObj slobj_ok (map snd L)" "\<forall>e \<in> set E. length (snd e) < 2147483648"
proof -
  from assms obtain L where L: "sl_inv S L" "map snd L = obj_elts E" "zset_ok compareslObj slobj_ok (obj_elts E)"
    by (auto simp: zrep_def zset_rel_def)
  have "map eob L = map snd (map snd L)" by simp
  then have "map eob L = map slCreateObj (map snd E)" by (simp add: L(2) map_snd_elts)
  moreover have "length L = length E" using L(2) by (metis length_elts length_map)
  ultimately show ?thesis using that L assms by (simp add: zrep_def)
qed

text \<open>
  C12: Deleting a range of ranks (given in either order, counted from one, zero meaning one) hands
  exactly the members with these ranks to the callback, in order, gives their number, and leaves a
  well-formed skip list of the others.
\<close>

theorem slDeleteByRank_refines:
  fixes a b :: u64
  assumes "zrep S E"
  defines "lo \<equiv> min (min (unat (ucast a :: u32)) (unat (ucast b :: u32)) - 1) (length E)"
    and "hi \<equiv> max (unat (ucast a :: u32)) (unat (ucast b :: u32))"
  shows "\<exists>S' out. lua_delete_by_rank S a b = Some (S', of_nat (length out), out) \<and>
    map lua_str out = map snd (take (hi - lo) (drop lo E)) \<and>
    zrep S' (take lo E @ drop (max lo hi) E)"
proof -
  from zrepD [OF assms(1)] obtain L where L: "sl_inv S L" "map snd L = obj_elts E"
    "map eob L = map slCreateObj (map snd E)" "length L = length E"
    "zset_ok compareslObj slobj_ok (map snd L)" "\<forall>e \<in> set E. length (snd e) < 2147483648" by metis
  define x y where "x = (if (ucast b :: u32) < ucast a then ucast b else ucast a :: u32)"
    and "y = (if (ucast b :: u32) < ucast a then ucast a else ucast b :: u32)"
  have xy: "unat x = min (unat (ucast a :: u32)) (unat (ucast b :: u32))" "unat y = hi"
    by (auto simp: x_def y_def hi_def word_less_nat_alt min_def max_def)
  have run: "lua_delete_by_rank S a b = slDeleteByRank S x y"
    by (simp add: lua_delete_by_rank_def x_def y_def)
  have lo: "min (unat x - 1) (length L) = lo" by (simp add: xy lo_def L(4))
  from delete_by_rank_inv [OF L(1), of x y] obtain S' where
    S': "slDeleteByRank S x y = Some (S', of_nat (min (length L - lo) (hi - lo)), map eob (take (hi - lo) (drop lo L)))"
      "sl_inv S' (take lo L @ drop (max lo hi) L)" unfolding lo xy(2) by blast
  have out: "map eob (take (hi - lo) (drop lo L)) = map slCreateObj (map snd (take (hi - lo) (drop lo E)))"
    using arg_cong [OF L(3), of "\<lambda>l. take (hi - lo) (drop lo l)"] by (simp add: take_map drop_map)
  have strs: "map lua_str (map slCreateObj (map snd (take (hi - lo) (drop lo E)))) = map snd (take (hi - lo) (drop lo E))"
    using L(6) by (auto simp: lua_str_create dest!: in_set_takeD in_set_dropD)
  have elts: "map snd (take lo L @ drop (max lo hi) L) = obj_elts (take lo E @ drop (max lo hi) E)"
    unfolding obj_elts_take_drop L(2) [symmetric] by (simp add: take_map drop_map)
  have "zset_ok compareslObj slobj_ok (obj_elts (take lo E @ drop (max lo hi) E))"
    using zs.sub_ok [OF L(5), of lo "max lo hi"] unfolding obj_elts_take_drop L(2) by simp
  moreover have "\<forall>e \<in> set (take lo E @ drop (max lo hi) E). length (snd e) < 2147483648"
    using L(6) by (auto dest!: in_set_takeD in_set_dropD)
  ultimately have "zrep S' (take lo E @ drop (max lo hi) E)"
    using S'(2) elts unfolding zrep_def zset_rel_def by blast
  with S'(1) strs show ?thesis
    by (simp add: run out L(4) min.commute)
qed

lemma slDeleteByRank_refines_witness:
  "\<exists>S S' out. zrep S [(Fin 1, [97])] \<and> lua_delete_by_rank S 1 1 = Some (S', of_nat (length out), out) \<and>
    map lua_str out = [[97]] \<and> zrep S' []"
proof -
  from zrep_one obtain S where S: "zrep S [(Fin 1, [97])]" by blast
  have u: "unat (ucast (1 :: u64) :: u32) = 1" by simp
  from slDeleteByRank_refines [OF S, of 1 1, unfolded u] S show ?thesis by auto
qed

text \<open>
  C14: When every member occurs once, as its callers keep it, the rank of a member that is in the
  list with that score is its position counted from one, and a member that is not in the list has
  no rank.
\<close>

theorem slGetRank_refines:
  assumes "zrep S E" and "s \<noteq> NaN" and "length bs < 2147483648"
    and "distinct (map snd E)" and "\<forall>e \<in> set E. snd e = bs \<longrightarrow> fst e = s"
  shows "lua_rank S s bs =
    Some (if (s, bs) \<in> set E then Some (of_nat (length (takeWhile (\<lambda>d. d \<noteq> (s, bs)) E)) + 1) else None)"
proof -
  have E: "\<forall>d \<in> set E. length (snd d) < 2147483648" using assms(1) by (simp add: zrep_def)
  have "inj_on slCreateObj (set (map snd E))" by (rule inj_onI) (use E slCreateObj_inj in auto)
  then have dist: "distinct (map snd (obj_elts E))"
    using assms(4) by (simp add: map_snd_elts distinct_map comp_inj_on)
  have same: "d \<in> set (obj_elts E) \<Longrightarrow> snd d = slCreateObj bs \<Longrightarrow> fst d = s" for d
  proof -
    assume d: "d \<in> set (obj_elts E)" "snd d = slCreateObj bs"
    then obtain e where e: "e \<in> set E" "d = (fst e, slCreateObj (snd e))" by (auto simp: obj_elts_def)
    then have "snd e = bs" using d(2) E assms(3) slCreateObj_inj [of "snd e" bs] by simp
    with e assms(5) show "fst d = s" by auto
  qed
  have "zset_rel compareslObj slobj_ok S (obj_elts E)" "elt_ok slobj_ok (s, slCreateObj bs)"
    using assms by (simp_all add: zrep_def elt_ok_def)
  from zs.get_rank_refines [OF this dist same] have
    rank: "slGetRank compareslObj S s (slCreateObj bs) =
      Some (if (s, bs) \<in> set E then of_nat (length (takeWhile (\<lambda>d. d \<noteq> (s, bs)) E)) + 1 else 0)"
    by (simp add: elts_in E assms(3))
  have "length E < 4294967296" using zrepD [OF assms(1)] sl_inv_len(1) by metis
  then have "Suc (length (takeWhile (\<lambda>d. d \<noteq> (s, bs)) E)) < 18446744073709551616"
    using length_takeWhile_le [of "\<lambda>d. d \<noteq> (s, bs)" E] by linarith
  then have "unat (of_nat (Suc (length (takeWhile (\<lambda>d. d \<noteq> (s, bs)) E))) :: u64) \<noteq> 0"
    by (simp only: unat_u64)
  then have "(of_nat (length (takeWhile (\<lambda>d. d \<noteq> (s, bs)) E)) + 1 :: u64) \<noteq> 0"
    by (metis add.commute of_nat_Suc unat_0)
  then show ?thesis by (simp add: lua_rank_def lua_get_rank_def rank)
qed

lemma slGetRank_refines_witness: "\<exists>S. zrep S [(Fin 1, [97])] \<and> lua_rank S (Fin 1) [97] = Some (Some 1)"
proof -
  from zrep_one obtain S where "zrep S [(Fin 1, [97])]" by blast
  with slGetRank_refines [of S "[(Fin 1, [97])]" "Fin 1" "[97]"] show ?thesis by auto
qed

text \<open>
  C16: \<open>get_rank_range\<close> gives the members whose ranks lie between its arguments, both included, in
  the order of the list, or in reverse order when the first argument is the larger one; it gives
  nothing when the first rank is zero or beyond the list.
\<close>

theorem get_rank_range_correct:
  fixes r1 r2 :: u64
  assumes "zrep S E" and "unat r1 < 2147483647" "unat r2 < 2147483647"
  shows "\<exists>out. lua_get_rank_range S r1 r2 = Some out \<and> map lua_str out = map snd
    (if unat r1 = 0 \<or> length E < unat r1 then []
     else if r1 \<le> r2 then take (unat r2 - unat r1 + 1) (drop (unat r1 - 1) E)
     else take (unat r1 - unat r2 + 1) (rev (take (unat r1) E)))"
proof -
  from zrepD [OF assms(1)] obtain L where L: "sl_inv S L" "map eob L = map slCreateObj (map snd E)" "length L = length E"
    "\<forall>e \<in> set E. length (snd e) < 2147483648" by metis
  have strs: "map lua_str (map eob L) = map snd E"
    using L(4) by (simp add: L(2) lua_str_create)
  have fwd: "map lua_str (map eob (take a (drop b L))) = map snd (take a (drop b E))" for a b
    by (simp only: take_map [symmetric] drop_map [symmetric] strs)
  have bwd: "map lua_str (map eob (take a (rev (take b L)))) = map snd (take a (rev (take b E)))" for a b
    by (simp only: take_map [symmetric] rev_map [symmetric] strs)
  show ?thesis
    unfolding rank_range_ok [OF L(1) assms(2,3)] L(3) using fwd bwd by auto
qed

lemma get_rank_range_correct_witness:
  "\<exists>S. zrep S [(Fin 1, [97])] \<and> (\<exists>out. lua_get_rank_range S 1 5 = Some out \<and> map lua_str out = [[97]])"
proof -
  from zrep_one obtain S where "zrep S [(Fin 1, [97])]" by blast
  with get_rank_range_correct [of S "[(Fin 1, [97])]" 1 5] show ?thesis by auto
qed

text \<open>
  C18: \<open>get_score_range\<close> with two numbers gives exactly the members whose scores lie between them,
  both included, ascending, or descending when the first number is the larger one.
\<close>

theorem get_score_range_correct:
  assumes "zrep S E" and "s1 \<noteq> NaN" and "s2 \<noteq> NaN"
  shows "\<exists>out. lua_get_score_range S s1 s2 = Some out \<and> map lua_str out =
    (if s1 \<le> s2 then map snd (filter (\<lambda>e. s1 \<le> fst e \<and> fst e \<le> s2) E)
     else rev (map snd (filter (\<lambda>e. s2 \<le> fst e \<and> fst e \<le> s1) E)))"
proof -
  from zrepD [OF assms(1)] obtain L where L: "sl_inv S L" "map snd L = obj_elts E"
    "zset_ok compareslObj slobj_ok (map snd L)" "\<forall>e \<in> set E. length (snd e) < 2147483648" by metis
  have strs: "map lua_str (map snd (filter (\<lambda>e. P (fst e)) (map snd L))) = map snd (filter (\<lambda>e. P (fst e)) E)" for P
    using L(4) unfolding L(2) by (induction E) (auto simp: obj_elts_def lua_str_create)
  show ?thesis
    using strs [of "\<lambda>s. s1 \<le> s \<and> s \<le> s2"] strs [of "\<lambda>s. s2 \<le> s \<and> s \<le> s1"]
    unfolding score_range_ok [OF L(1,3) assms(2,3)] by (simp add: rev_map [symmetric])
qed

lemma get_score_range_correct_witness:
  "\<exists>S. zrep S [(Fin 1, [97])] \<and>
    (\<exists>out. lua_get_score_range S (Fin 2) NegInf = Some out \<and> map lua_str out = [[97]])"
proof -
  from zrep_one obtain S where "zrep S [(Fin 1, [97])]" by blast
  with get_score_range_correct [of S "[(Fin 1, [97])]" "Fin 2" NegInf] show ?thesis
    by (auto simp: less_eq_dbl_def)
qed

text \<open>
  With the score NaN as first argument and a second argument below zero, \<open>get_score_range\<close> on
  a nonempty list walks to the header node and reads the object of the header, a null pointer.
\<close>

theorem get_score_range_nan_crash:
  assumes "zrep S E" and "E \<noteq> []" and "Fin x = s2" and "x \<le> 0" and "s2 \<le> fst (last E)"
  shows "lua_get_score_range S NaN s2 = None"
proof -
  from zrepD [OF assms(1)] obtain L where L: "sl_inv S L" "map snd L = obj_elts E" "length L = length E" by metis
  have ne: "L \<noteq> []" using L(3) assms(2) by auto
  have "map esc L = map fst E"
    using arg_cong [OF L(2), of "map fst"] by (simp add: obj_elts_def case_prod_beta comp_def)
  then have "esc (last L) = fst (last E)" using ne assms(2) by (metis last_map)
  then have "slIsInRange S s2 NaN = Some True"
    using assms(3,5) ne by (auto simp: slIsInRange_ok [OF L(1)] dlt_def)
  moreover have c: "threshold S L (\<lambda>_ (_ :: u32) n. Some (dle (n_score n) NaN)) 0"
    by (simp add: threshold_def dle_def dlt_def deq_def)
  moreover obtain upd where "descend (sl_mem S) (\<lambda>_ (_ :: u32) n. Some (dle (n_score n) NaN)) (sl_level S) (sl_header S) (0 :: u32) = Some upd"
    "fst (upd ! 0) = sl_header S"
    by (rule search_first [OF L(1) c]) simp
  moreover obtain n where "sl_mem S (sl_header S) = Some n" "n_obj n = None" "n_score n = Fin 0"
    using sl_inv_header [OF L(1)] by (auto simp: skel_def)
  moreover have "\<not> dlt (Fin 0) s2" using assms(3,4) by (auto simp: dlt_def)
  ultimately show ?thesis
    by (simp add: lua_get_score_range_def slLastInRange_def dle_def dlt_def deq_def score_range_loop.simps)
qed

lemma get_score_range_nan_crash_witness:
  "\<exists>S. zrep S [(Fin 1, [97])] \<and> lua_get_score_range S NaN (Fin (- 1)) = None"
proof -
  from zrep_one obtain S where "zrep S [(Fin 1, [97])]" by blast
  with get_score_range_nan_crash [of S "[(Fin 1, [97])]" "- 1"] show ?thesis by (auto simp: less_eq_dbl_def)
qed

end
