(* ===== verification/Timeskiplist.thy ===== *)
theory Timeskiplist
  imports Skiplist
begin

text \<open>
  The skip list of \<^verbatim>\<open>src/depends/lua-timezset\<close>.  Its objects carry a time stamp; its functions are
  those of \<^verbatim>\<open>skiplist.c\<close> line by line over another \<open>compareslObj\<close>, so each is the definition of
  \<^verbatim>\<open>Zset\<close> over that comparison.
\<close>

section \<open>Objects\<close>

record tslobj =
  t_timestamp :: dbl
  t_ptr :: "u8 list"
  t_length :: u64

definition tslCreateObj :: "u8 list \<Rightarrow> dbl \<Rightarrow> tslobj" where
  "tslCreateObj bs t = \<lparr>t_timestamp = t, t_ptr = bs @ [0], t_length = of_nat (length bs)\<rparr>"

definition tcompareslObj :: "tslobj cmp" where
  "tcompareslObj a b =
     (if deq (t_timestamp a) (t_timestamp b) then
        (let c = memcmp (unat (if t_length a \<le> t_length b then t_length a else t_length b)) (t_ptr a) (t_ptr b)
         in if c = 0 then sint (ucast (t_length a - t_length b) :: u32) else c)
      else if dlt (t_timestamp a) (t_timestamp b) then 1 else -1)"

definition tslobj_ok :: "tslobj \<Rightarrow> bool" where
  "tslobj_ok o1 \<longleftrightarrow> t_timestamp o1 \<noteq> NaN \<and> unat (t_length o1) < 2147483648 \<and>
     o1 = tslCreateObj (take (unat (t_length o1)) (t_ptr o1)) (t_timestamp o1)"

definition t_str :: "tslobj \<Rightarrow> u8 list" where
  "t_str o1 = take (unat (t_length o1)) (t_ptr o1)"

section \<open>Functions\<close>

definition tslCreate :: "tslobj skiplist option" where
  "tslCreate = slCreate"

definition tslInsert :: "tslobj skiplist \<Rightarrow> dbl \<Rightarrow> tslobj \<Rightarrow> u32 list \<Rightarrow> (tslobj skiplist \<times> u32 list) option" where
  "tslInsert = slInsert tcompareslObj"

definition tslDeleteNode :: "tslobj skiplist \<Rightarrow> nat \<Rightarrow> nat list \<Rightarrow> tslobj skiplist option" where
  "tslDeleteNode = slDeleteNode"

definition tslDelete :: "tslobj skiplist \<Rightarrow> dbl \<Rightarrow> tslobj \<Rightarrow> (tslobj skiplist \<times> bool) option" where
  "tslDelete = slDelete tcompareslObj"

definition tslDeleteByRank :: "tslobj skiplist \<Rightarrow> u32 \<Rightarrow> u32 \<Rightarrow> (tslobj skiplist \<times> u64 \<times> tslobj list) option" where
  "tslDeleteByRank = slDeleteByRank"

definition tslGetRank :: "tslobj skiplist \<Rightarrow> dbl \<Rightarrow> tslobj \<Rightarrow> u64 option" where
  "tslGetRank = slGetRank tcompareslObj"

definition tslGetNodeByRank :: "tslobj skiplist \<Rightarrow> u64 \<Rightarrow> nat option option" where
  "tslGetNodeByRank = slGetNodeByRank"

definition tslFirstInRange :: "tslobj skiplist \<Rightarrow> dbl \<Rightarrow> dbl \<Rightarrow> nat option option" where
  "tslFirstInRange = slFirstInRange"

definition tslLastInRange :: "tslobj skiplist \<Rightarrow> dbl \<Rightarrow> dbl \<Rightarrow> nat option option" where
  "tslLastInRange = slLastInRange"

definition tslDumpOut :: "tslobj skiplist \<Rightarrow> (nat \<times> dbl \<times> tslobj) list option" where
  "tslDumpOut = slDumpOut"

section \<open>The Lua functions\<close>

definition lua_tinsert ::
    "tslobj skiplist \<Rightarrow> dbl \<Rightarrow> u8 list \<Rightarrow> dbl \<Rightarrow> u32 list \<Rightarrow> (tslobj skiplist \<times> u32 list) option" where
  "lua_tinsert S s bs t rs = tslInsert S s (tslCreateObj bs t) rs"

definition lua_tdelete :: "tslobj skiplist \<Rightarrow> dbl \<Rightarrow> u8 list \<Rightarrow> dbl \<Rightarrow> (tslobj skiplist \<times> bool) option" where
  "lua_tdelete S s bs t = tslDelete S s (tslCreateObj bs t)"

definition lua_trank :: "tslobj skiplist \<Rightarrow> dbl \<Rightarrow> u8 list \<Rightarrow> dbl \<Rightarrow> u64 option option" where
  "lua_trank S s bs t =
     map_option (\<lambda>rank. if rank = 0 then None else Some rank) (tslGetRank S s (tslCreateObj bs t))"

definition lua_tscore_range :: "tslobj skiplist \<Rightarrow> dbl \<Rightarrow> dbl \<Rightarrow> tslobj list option" where
  "lua_tscore_range S s1 s2 = lua_get_score_range S s1 s2"

definition lua_trank_range :: "tslobj skiplist \<Rightarrow> u64 \<Rightarrow> u64 \<Rightarrow> tslobj list option" where
  "lua_trank_range S r1 r2 = lua_get_rank_range S r1 r2"

definition lua_tdelete_by_rank :: "tslobj skiplist \<Rightarrow> u64 \<Rightarrow> u64 \<Rightarrow> (tslobj skiplist \<times> u64 \<times> tslobj list) option" where
  "lua_tdelete_by_rank S a b = lua_delete_by_rank S a b"

text \<open>\<open>_dump_rank_cb\<close> passes the index, the score, the bytes and the time stamp.\<close>

definition lua_dump_out :: "tslobj skiplist \<Rightarrow> (nat \<times> dbl \<times> u8 list \<times> dbl) list option" where
  "lua_dump_out S = map_option (map (\<lambda>(i, s, o1). (i, s, t_str o1, t_timestamp o1))) (tslDumpOut S)"

section \<open>The comparison is an order\<close>

lemma tslobj_okE:
  assumes "tslobj_ok o1"
  obtains bs t where "o1 = tslCreateObj bs t" "length bs < 2147483648" "t \<noteq> NaN"
proof (rule that)
  show "o1 = tslCreateObj (take (unat (t_length o1)) (t_ptr o1)) (t_timestamp o1)" using assms by (simp add: tslobj_ok_def)
  show "length (take (unat (t_length o1)) (t_ptr o1)) < 2147483648"
    using assms by (simp add: tslobj_ok_def min_less_iff_disj)
  show "t_timestamp o1 \<noteq> NaN" using assms by (simp add: tslobj_ok_def)
qed

lemma tslobj_ok_create [simp]: "length bs < 2147483648 \<Longrightarrow> t \<noteq> NaN \<Longrightarrow> tslobj_ok (tslCreateObj bs t)"
  by (simp add: tslobj_ok_def tslCreateObj_def unat_of_nat)

lemma t_str_create: "length bs < 2147483648 \<Longrightarrow> t_str (tslCreateObj bs t) = bs"
  by (simp add: t_str_def tslCreateObj_def unat_of_nat)

lemma tslCreateObj_inj:
  "length a < 2147483648 \<Longrightarrow> length b < 2147483648 \<Longrightarrow> tslCreateObj a s = tslCreateObj b t \<longleftrightarrow> a = b \<and> s = t"
  by (simp add: tslCreateObj_def) auto

lemma tcompareslObj_bytes:
  assumes "length a < 2147483648" "length b < 2147483648" "s \<noteq> NaN" "t \<noteq> NaN"
  shows "tcompareslObj (tslCreateObj a s) (tslCreateObj b t) =
    (if s = t then bytes_cmp a b else if s < t then 1 else -1)"
proof (cases "s = t")
  case True
  then show ?thesis using compareslObj_bytes [OF assms(1,2)] assms(3)
    by (simp add: tcompareslObj_def tslCreateObj_def compareslObj_def slCreateObj_def deq_def
        cong: if_cong)
next
  case False
  then show ?thesis using assms(3,4) by (simp add: tcompareslObj_def tslCreateObj_def deq_def dlt_def)
qed

interpretation tzs: obj_order tcompareslObj tslobj_ok
proof
  fix a b c
  assume "tslobj_ok a" "tslobj_ok b"
  then obtain x s y t where x: "a = tslCreateObj x s" "length x < 2147483648" "s \<noteq> NaN"
    and y: "b = tslCreateObj y t" "length y < 2147483648" "t \<noteq> NaN" by (metis tslobj_okE)
  note cmp = tcompareslObj_bytes [OF x(2) y(2) x(3) y(3)] tcompareslObj_bytes [OF y(2) x(2) y(3) x(3)]
  show "tcompareslObj a b = 0 \<longleftrightarrow> a = b"
    unfolding x(1) y(1) cmp tslCreateObj_inj [OF x(2) y(2)] by (auto simp: bytes_cmp_zero)
  show "tcompareslObj a b < 0 \<longleftrightarrow> 0 < tcompareslObj b a"
    unfolding x(1) y(1) cmp using bytes_cmp_flip [of x y] by auto
  assume "tslobj_ok c"
  then obtain z u where z: "c = tslCreateObj z u" "length z < 2147483648" "u \<noteq> NaN" by (metis tslobj_okE)
  assume "tcompareslObj a b < 0" "tcompareslObj b c < 0"
  then show "tcompareslObj a c < 0"
    unfolding x(1) y(1) z(1) tcompareslObj_bytes [OF x(2) y(2) x(3) y(3)]
      tcompareslObj_bytes [OF y(2) z(2) y(3) z(3)] tcompareslObj_bytes [OF x(2) z(2) x(3) z(3)]
    by (auto simp: bytes_cmp_lexord split: if_splits intro: lexordp_trans)
qed

section \<open>Properties\<close>

abbreviation trep :: "tslobj skiplist \<Rightarrow> (dbl \<times> tslobj) list \<Rightarrow> bool" where
  "trep \<equiv> zset_rel tcompareslObj tslobj_ok"

text \<open>Ascending by score; for equal scores the larger time stamp first; then by bytes.\<close>

definition time_lt :: "dbl \<times> tslobj \<Rightarrow> dbl \<times> tslobj \<Rightarrow> bool" where
  "time_lt a b \<longleftrightarrow> fst a < fst b \<or> fst a = fst b \<and>
     (t_timestamp (snd b) < t_timestamp (snd a) \<or>
      t_timestamp (snd a) = t_timestamp (snd b) \<and> ord_class.lexordp (t_str (snd a)) (t_str (snd b)))"

lemma time_lt_elt: "tslobj_ok (snd a) \<Longrightarrow> tslobj_ok (snd b) \<Longrightarrow> elt_lt tcompareslObj a b = time_lt a b"
proof -
  assume "tslobj_ok (snd a)" "tslobj_ok (snd b)"
  then obtain x s y t where x: "snd a = tslCreateObj x s" "length x < 2147483648" "s \<noteq> NaN"
    and y: "snd b = tslCreateObj y t" "length y < 2147483648" "t \<noteq> NaN" by (metis tslobj_okE)
  have ts: "t_timestamp (tslCreateObj x s) = s" "t_timestamp (tslCreateObj y t) = t" by (simp_all add: tslCreateObj_def)
  show ?thesis
    by (auto simp: elt_lt_def time_lt_def x(1) y(1) tcompareslObj_bytes [OF x(2) y(2) x(3) y(3)] ts
        t_str_create [OF x(2)] t_str_create [OF y(2)] bytes_cmp_lexord)
qed

lemma trep_sorted:
  assumes "trep S E"
  shows "sorted_wrt (\<lambda>a b. \<not> time_lt b a) E"
proof -
  have "sorted_wrt (\<lambda>a b. \<not> elt_lt tcompareslObj b a) E" "\<forall>e \<in> set E. elt_ok tslobj_ok e"
    using assms by (simp_all add: zset_rel_def zset_ok_def)
  then show ?thesis
    by (elim sorted_wrt_mono_rel [rotated]) (auto simp: elt_ok_def time_lt_elt)
qed

lemma trep_create: "\<exists>S. tslCreate = Some S \<and> trep S []"
  using slCreate_rel by (auto simp: zset_rel_def zset_ok_def tslCreate_def)

lemma tinsert_trep:
  assumes "trep S E" and "s \<noteq> NaN" and "t \<noteq> NaN" and "length bs < 2147483648" and "Suc (length E) < 4294967296"
    and "\<exists>r \<in> set rs. 0xffff \<le> 4 * unat (r AND 0xffff)"
  shows "\<exists>S' rs'. lua_tinsert S s bs t rs = Some (S', rs') \<and>
    trep S' (zset_insert tcompareslObj (s, tslCreateObj bs t) E)"
  using tzs.insert_refines [OF assms(1) _ assms(5,6), of s "tslCreateObj bs t"] assms(2-4)
  by (simp add: lua_tinsert_def tslInsert_def elt_ok_def)


lemma trep_one: "\<exists>S0 S rs. tslCreate = Some S0 \<and> lua_tinsert S0 (Fin 1) [97] (Fin 7) [65535] = Some (S, rs) \<and>
    trep S [(Fin 1, tslCreateObj [97] (Fin 7))]"
proof -
  from trep_create obtain S0 where "tslCreate = Some S0" "trep S0 []" by blast
  with tinsert_trep [of S0 "[]" "Fin 1" "Fin 7" "[97]" "[65535]"] show ?thesis by (auto simp: zset_insert_def)
qed


text \<open>
  C22: Deleting a member with score and time stamp reports whether exactly that member is in the
  list and removes it when it is.
\<close>

theorem tslDelete_refines:
  assumes "trep S E" and "s \<noteq> NaN" and "t \<noteq> NaN" and "length bs < 2147483648"
  shows "\<exists>S'. lua_tdelete S s bs t = Some (S', (s, tslCreateObj bs t) \<in> set E) \<and>
    trep S' (remove1 (s, tslCreateObj bs t) E)"
  using tzs.delete_refines [OF assms(1), of s "tslCreateObj bs t"] assms(2-4)
  by (simp add: lua_tdelete_def tslDelete_def elt_ok_def)

lemma tslDelete_refines_witness:
  "\<exists>S S'. trep S [(Fin 1, tslCreateObj [97] (Fin 7))] \<and> lua_tdelete S (Fin 1) [97] (Fin 7) = Some (S', True) \<and> trep S' []"
proof -
  from trep_one obtain S where "trep S [(Fin 1, tslCreateObj [97] (Fin 7))]" by blast
  with tslDelete_refines [of S _ "Fin 1" "Fin 7" "[97]"] show ?thesis by fastforce
qed

text \<open>
  The queries of a time-stamped list: \<open>dump_out\<close> reports every member once with its rank, and
  \<open>get_score_range\<close> gives the members with scores in the range in the order of the list.
\<close>

theorem tsl_queries:
  assumes "trep S E" and "s1 \<noteq> NaN" and "s2 \<noteq> NaN" and "s1 \<le> s2"
  shows "lua_dump_out S = Some (map (\<lambda>k. (Suc k, fst (E ! k), t_str (snd (E ! k)), t_timestamp (snd (E ! k)))) [0..<length E]) \<and>
    lua_tscore_range S s1 s2 = Some (map snd (filter (\<lambda>e. s1 \<le> fst e \<and> fst e \<le> s2) E))"
proof -
  from assms(1) obtain L where L: "sl_inv S L" "map snd L = E" "zset_ok tcompareslObj tslobj_ok (map snd L)"
    by (auto simp: zset_rel_def)
  have "tslDumpOut S = Some (map (\<lambda>k. (Suc k, snd (L ! k))) [0..<length L])"
    using dump_loop_ok [OF L(1) le0, of "[]"] by (simp add: tslDumpOut_def slDumpOut_def)
  then have "lua_dump_out S = Some (map (\<lambda>k. (Suc k, fst (E ! k), t_str (snd (E ! k)), t_timestamp (snd (E ! k)))) [0..<length E])"
    by (auto simp: lua_dump_out_def L(2) [symmetric] case_prod_beta)
  moreover have "lua_tscore_range S s1 s2 = Some (map snd (filter (\<lambda>e. s1 \<le> fst e \<and> fst e \<le> s2) E))"
    unfolding lua_tscore_range_def score_range_ok [OF L(1,3) assms(2,3)] using assms(4) L(2) by simp
  ultimately show ?thesis by blast
qed

lemma tsl_queries_witness:
  "\<exists>S. trep S [(Fin 1, tslCreateObj [97] (Fin 7))] \<and>
    lua_dump_out S = Some [(1, Fin 1, t_str (tslCreateObj [97] (Fin 7)), Fin 7)] \<and>
    lua_tscore_range S (Fin 2) (Fin 3) = Some []"
proof -
  from trep_one obtain S where "trep S [(Fin 1, tslCreateObj [97] (Fin 7))]" by blast
  with tsl_queries [of S _ "Fin 2" "Fin 3"] show ?thesis by (fastforce simp: less_eq_dbl_def tslCreateObj_def)
qed

end
