(* ===== verification/Zset_Free.thy ===== *)
theory Zset_Free
  imports Skiplist
begin

text \<open>
  The end of a skip list: \<open>slFree\<close> of \<^verbatim>\<open>src/depends/lua-zset/skiplist.c\<close>, which the finaliser \<open>_release\<close> of the Lua object calls, gives every
  node back, once, and reads none that it has given back.
\<close>

text \<open>Reading a node that is not in the memory is undefined, so that a node which is freed twice or read too late gives \<open>None\<close>.\<close>

partial_function (option) free_nodes :: "nat option \<Rightarrow> 'o skiplist \<Rightarrow> 'o skiplist option" where
  "free_nodes node S =
     (case node of
        None \<Rightarrow> Some S
      | Some a \<Rightarrow> do { (nxt, spn) \<leftarrow> get_lv (sl_mem S) a 0; free_nodes nxt (slFreeNode a S) })"

definition slFree :: "'o skiplist \<Rightarrow> 'o skiplist option" where
  "slFree S = do {
     (node, spn) \<leftarrow> get_lv (sl_mem S) (sl_header S) 0;
     free_nodes node (S\<lparr>sl_mem := (sl_mem S)(sl_header S := None)\<rparr>)
   }"

lemma lnk_0: "\<forall>e \<in> set es. 1 \<le> ht e \<Longrightarrow> fst (wlnk 0 es) = (case es of [] \<Rightarrow> None | e # _ \<Rightarrow> Some (ad e))"
  by (cases es) (auto simp: wlnk_def)

lemma free_nodes_all:
  assumes "\<And>es1 e es2. es = es1 @ e # es2 \<Longrightarrow> get_lv (sl_mem S) (ad e) 0 = Some (wlnk 0 es2)"
    and "\<forall>e \<in> set es. 1 \<le> ht e" "distinct (map ad es)"
  shows "free_nodes (fst (wlnk 0 es)) S = Some (S\<lparr>sl_mem := (sl_mem S) |` (- ad ` set es)\<rparr>)"
  using assms
proof (induction es arbitrary: S)
  case Nil
  then show ?case by (subst free_nodes.simps) (simp add: wlnk_def restrict_map_def)
next
  case (Cons e es)
  have "get_lv (sl_mem (slFreeNode (ad e) S)) (ad x) 0 = Some (wlnk 0 es2)" if "es = es1 @ x # es2" for es1 x es2
  proof -
    have "ad x \<noteq> ad e" using Cons.prems(3) that by auto
    then show ?thesis using Cons.prems(1) [of "e # es1" x es2] that by (simp add: slFreeNode_def get_lv_def)
  qed
  from Cons.IH [OF this] Cons.prems(2,3)
  have "free_nodes (fst (wlnk 0 es)) (slFreeNode (ad e) S) =
      Some ((slFreeNode (ad e) S)\<lparr>sl_mem := sl_mem (slFreeNode (ad e) S) |` (- ad ` set es)\<rparr>)" by simp
  moreover have "sl_mem (slFreeNode (ad e) S) |` (- ad ` set es) = sl_mem S |` (- ad ` set (e # es))"
    by (rule ext) (simp add: slFreeNode_def restrict_map_def)
  moreover have "get_lv (sl_mem S) (ad e) 0 = Some (wlnk 0 es)" using Cons.prems(1) [of "[]"] by simp
  moreover have "fst (wlnk 0 (e # es)) = Some (ad e)" using lnk_0 [OF Cons.prems(2)] by simp
  ultimately show ?case by (subst free_nodes.simps) (simp add: slFreeNode_def split_def)
qed

lemma sl_inv_free:
  assumes "sl_inv S L"
  shows "slFree S = Some (S\<lparr>sl_mem := Map.empty\<rparr>)"
proof -
  have h: "get_lv (sl_mem S) (sl_header S) 0 = Some (wlnk 0 L)"
    using sl_inv_link [OF assms, of 0 0] sl_inv_level(1) [OF assms] by (simp add: atp_def limp_def)
  have ht: "\<forall>e \<in> set L. 1 \<le> ht e" using sl_inv_ht(1) [OF assms] by (metis in_set_conv_nth)
  let ?S = "S\<lparr>sl_mem := (sl_mem S)(sl_header S := None)\<rparr>"
  have l: "get_lv (sl_mem ?S) (ad e) 0 = Some (wlnk 0 es2)" if "L = es1 @ e # es2" for es1 e es2
  proof -
    have "get_lv (sl_mem S) (ad e) 0 = Some (wlnk 0 es2)"
      using sl_inv_link [OF assms, of "Suc (length es1)" 0] ht that by (auto simp: atp_def limp_def Suc_le_eq)
    moreover have "ad e \<noteq> sl_header S" using sl_inv_distinct [OF assms] that by auto
    ultimately show ?thesis by (simp add: get_lv_def)
  qed
  have "free_nodes (fst (wlnk 0 L)) ?S = Some (?S\<lparr>sl_mem := sl_mem ?S |` (- ad ` set L)\<rparr>)"
    by (rule free_nodes_all [OF l ht]) (use sl_inv_distinct [OF assms] in simp_all)
  moreover have "sl_mem ?S |` (- ad ` set L) = Map.empty"
  proof
    fix a
    have "a \<notin> insert (sl_header S) (ad ` set L) \<Longrightarrow> sl_mem S a = None" using sl_inv_dom [OF assms] by blast
    then show "(sl_mem ?S |` (- ad ` set L)) a = None" by (auto simp: restrict_map_def)
  qed
  ultimately show ?thesis using h by (simp add: slFree_def split_def)
qed



end
