(* ===== verification/Kcp.thy ===== *)
theory Kcp
  imports Prelude
begin

text \<open>
  The reliable datagram protocol of \<^verbatim>\<open>src/depends/lua-kcp/kcp/ikcp.c\<close>: data and operations.  The
  doubly linked queues are lists in order, the byte buffers are lists of bytes.  All counters are
  32-bit words that wrap; the members of type \<open>IINT32\<close> are words read with \<open>sint\<close>.  An outcome
  \<open>None\<close> is a failed assertion or a write outside a buffer.  \<open>malloc\<close> is taken to succeed, and
  logging, which changes nothing, is left out.
\<close>

section \<open>Constants and arithmetic\<close>

abbreviation (input) "IKCP_RTO_NDL \<equiv> 30 :: u32"
abbreviation (input) "IKCP_RTO_MIN \<equiv> 100 :: u32"
abbreviation (input) "IKCP_RTO_DEF \<equiv> 200 :: u32"
abbreviation (input) "IKCP_RTO_MAX \<equiv> 60000 :: u32"
abbreviation (input) "IKCP_CMD_PUSH \<equiv> 81 :: u32"
abbreviation (input) "IKCP_CMD_ACK \<equiv> 82 :: u32"
abbreviation (input) "IKCP_CMD_WASK \<equiv> 83 :: u32"
abbreviation (input) "IKCP_CMD_WINS \<equiv> 84 :: u32"
abbreviation (input) "IKCP_ASK_SEND \<equiv> 1 :: u32"
abbreviation (input) "IKCP_ASK_TELL \<equiv> 2 :: u32"
abbreviation (input) "IKCP_WND_SND \<equiv> 32 :: u32"
abbreviation (input) "IKCP_WND_RCV \<equiv> 128 :: u32"
abbreviation (input) "IKCP_MTU_DEF \<equiv> 1400 :: u32"
abbreviation (input) "IKCP_INTERVAL \<equiv> 100 :: u32"
abbreviation (input) "IKCP_OVERHEAD \<equiv> 24 :: nat"
abbreviation (input) "IKCP_DEADLINK \<equiv> 20 :: u32"
abbreviation (input) "IKCP_THRESH_INIT \<equiv> 2 :: u32"
abbreviation (input) "IKCP_THRESH_MIN \<equiv> 2 :: u32"
abbreviation (input) "IKCP_PROBE_INIT \<equiv> 7000 :: u32"
abbreviation (input) "IKCP_PROBE_LIMIT \<equiv> 120000 :: u32"
abbreviation (input) "IKCP_FASTACK_LIMIT \<equiv> 5 :: int"

definition imin :: "u32 \<Rightarrow> u32 \<Rightarrow> u32" where
  "imin a b = (if a \<le> b then a else b)"

definition imax :: "u32 \<Rightarrow> u32 \<Rightarrow> u32" where
  "imax a b = (if a \<ge> b then a else b)"

definition ibound :: "u32 \<Rightarrow> u32 \<Rightarrow> u32 \<Rightarrow> u32" where
  "ibound lower middle upper = imin (imax lower middle) upper"

definition itimediff :: "u32 \<Rightarrow> u32 \<Rightarrow> int" where
  "itimediff later earlier = sint (later - earlier)"

section \<open>Encoding\<close>

definition encode8u :: "u8 \<Rightarrow> u8 list" where
  "encode8u c = [c]"

definition encode16u :: "u16 \<Rightarrow> u8 list" where
  "encode16u w = [ucast w, ucast (drop_bit 8 w)]"

definition encode32u :: "u32 \<Rightarrow> u8 list" where
  "encode32u l = [ucast l, ucast (drop_bit 8 l), ucast (drop_bit 16 l), ucast (drop_bit 24 l)]"

text \<open>A decoder gives the value and the bytes after it, or \<open>None\<close> when it reads past the end.\<close>

fun decode8u :: "u8 list \<Rightarrow> (u8 \<times> u8 list) option" where
  "decode8u (a # p) = Some (a, p)"
| "decode8u _ = None"

fun decode16u :: "u8 list \<Rightarrow> (u16 \<times> u8 list) option" where
  "decode16u (a # b # p) = Some (ucast a + push_bit 8 (ucast b), p)"
| "decode16u _ = None"

fun decode32u :: "u8 list \<Rightarrow> (u32 \<times> u8 list) option" where
  "decode32u (a # b # c # d # p) =
     Some (ucast a + push_bit 8 (ucast b + push_bit 8 (ucast c + push_bit 8 (ucast d))), p)"
| "decode32u _ = None"

section \<open>Segments and the control block\<close>

record seg =
  s_conv :: u32
  s_cmd :: u32
  s_frg :: u32
  s_wnd :: u32
  s_ts :: u32
  s_sn :: u32
  s_una :: u32
  s_len :: u32
  s_resendts :: u32
  s_rto :: u32
  s_fastack :: u32
  s_xmit :: u32
  s_data :: "u8 list"

record kcp =
  k_conv :: u32
  k_mtu :: u32
  k_mss :: u32
  k_state :: u32
  k_snd_una :: u32
  k_snd_nxt :: u32
  k_rcv_nxt :: u32
  k_ssthresh :: u32
  k_rx_rttval :: u32
  k_rx_srtt :: u32
  k_rx_rto :: u32
  k_rx_minrto :: u32
  k_snd_wnd :: u32
  k_rcv_wnd :: u32
  k_rmt_wnd :: u32
  k_cwnd :: u32
  k_probe :: u32
  k_current :: u32
  k_interval :: u32
  k_ts_flush :: u32
  k_xmit :: u32
  k_nrcv_buf :: u32
  k_nsnd_buf :: u32
  k_nrcv_que :: u32
  k_nsnd_que :: u32
  k_nodelay :: u32
  k_updated :: u32
  k_ts_probe :: u32
  k_probe_wait :: u32
  k_dead_link :: u32
  k_incr :: u32
  k_snd_queue :: "seg list"
  k_rcv_queue :: "seg list"
  k_snd_buf :: "seg list"
  k_rcv_buf :: "seg list"
  k_acklist :: "u32 list"
  k_ackcount :: u32
  k_ackblock :: u32
  k_bufsize :: nat
  k_fastresend :: int
  k_fastlimit :: int
  k_nocwnd :: int
  k_stream :: int

text \<open>The members that a new segment does not set are zero here; they are set before they are read.\<close>

definition segment_new :: seg where
  "segment_new = \<lparr>s_conv = 0, s_cmd = 0, s_frg = 0, s_wnd = 0, s_ts = 0, s_sn = 0, s_una = 0,
     s_len = 0, s_resendts = 0, s_rto = 0, s_fastack = 0, s_xmit = 0, s_data = []\<rparr>"

definition ikcp_create :: "u32 \<Rightarrow> kcp" where
  "ikcp_create conv =
     \<lparr>k_conv = conv, k_mtu = IKCP_MTU_DEF, k_mss = IKCP_MTU_DEF - 24, k_state = 0,
      k_snd_una = 0, k_snd_nxt = 0, k_rcv_nxt = 0, k_ssthresh = IKCP_THRESH_INIT,
      k_rx_rttval = 0, k_rx_srtt = 0, k_rx_rto = IKCP_RTO_DEF, k_rx_minrto = IKCP_RTO_MIN,
      k_snd_wnd = IKCP_WND_SND, k_rcv_wnd = IKCP_WND_RCV, k_rmt_wnd = IKCP_WND_RCV, k_cwnd = 0,
      k_probe = 0, k_current = 0, k_interval = IKCP_INTERVAL, k_ts_flush = IKCP_INTERVAL,
      k_xmit = 0, k_nrcv_buf = 0, k_nsnd_buf = 0, k_nrcv_que = 0, k_nsnd_que = 0, k_nodelay = 0,
      k_updated = 0, k_ts_probe = 0, k_probe_wait = 0, k_dead_link = IKCP_DEADLINK, k_incr = 0,
      k_snd_queue = [], k_rcv_queue = [], k_snd_buf = [], k_rcv_buf = [], k_acklist = [],
      k_ackcount = 0, k_ackblock = 0, k_bufsize = unat ((IKCP_MTU_DEF + 24) * 3),
      k_fastresend = 0, k_fastlimit = IKCP_FASTACK_LIMIT, k_nocwnd = 0, k_stream = 0\<rparr>"

section \<open>Receiving\<close>

definition seg_bytes :: "seg \<Rightarrow> u8 list" where
  "seg_bytes s = take (unat (s_len s)) (s_data s)"

fun peek_loop :: "seg list \<Rightarrow> u32 \<Rightarrow> u32" where
  "peek_loop [] n = n"
| "peek_loop (s # ss) n = (if s_frg s = 0 then n + s_len s else peek_loop ss (n + s_len s))"

definition ikcp_peeksize :: "kcp \<Rightarrow> int" where
  "ikcp_peeksize k =
     (case k_rcv_queue k of
        [] \<Rightarrow> -1
      | s # ss \<Rightarrow>
          if s_frg s = 0 then sint (s_len s)
          else if k_nrcv_que k < s_frg s + 1 then -1
          else sint (peek_loop (s # ss) 0))"

text \<open>
  Merging the fragments of the first message: the bytes, the summed length, the segments used and
  the segments left.
\<close>

fun merge_loop :: "seg list \<Rightarrow> u32 \<Rightarrow> u8 list \<times> u32 \<times> nat \<times> seg list" where
  "merge_loop [] n = ([], n, 0, [])"
| "merge_loop (s # ss) n =
     (if s_frg s = 0 then (seg_bytes s, n + s_len s, 1, ss)
      else case merge_loop ss (n + s_len s) of (bs, m, c, rest) \<Rightarrow> (seg_bytes s @ bs, m, Suc c, rest))"

fun move_loop :: "seg list \<Rightarrow> kcp \<Rightarrow> kcp" where
  "move_loop [] k = k\<lparr>k_rcv_buf := []\<rparr>"
| "move_loop (s # ss) k =
     (if s_sn s = k_rcv_nxt k \<and> k_nrcv_que k < k_rcv_wnd k
      then move_loop ss (k\<lparr>k_nrcv_buf := k_nrcv_buf k - 1, k_rcv_queue := k_rcv_queue k @ [s],
             k_nrcv_que := k_nrcv_que k + 1, k_rcv_nxt := k_rcv_nxt k + 1\<rparr>)
      else k\<lparr>k_rcv_buf := s # ss\<rparr>)"

definition move_ready :: "kcp \<Rightarrow> kcp" where
  "move_ready k = move_loop (k_rcv_buf k) k"

text \<open>\<open>ikcp_recv\<close> gives the new state, its result and the bytes it wrote to the buffer.\<close>

definition ikcp_recv :: "kcp \<Rightarrow> int \<Rightarrow> (kcp \<times> int \<times> u8 list) option" where
  "ikcp_recv k len =
     (if k_rcv_queue k = [] then Some (k, -1, [])
      else let ispeek = len < 0; cap = (if len < 0 then - len else len); peeksize = ikcp_peeksize k in
        if peeksize < 0 then Some (k, -2, [])
        else if peeksize > cap then Some (k, -3, [])
        else let recover = k_nrcv_que k \<ge> k_rcv_wnd k in
          case merge_loop (k_rcv_queue k) 0 of (bs, n, used, rest) \<Rightarrow>
            if sint n \<noteq> peeksize then None
            else
              let k1 = (if ispeek then k
                        else k\<lparr>k_rcv_queue := rest, k_nrcv_que := k_nrcv_que k - of_nat used\<rparr>);
                  k2 = move_ready k1;
                  k3 = (if k_nrcv_que k2 < k_rcv_wnd k2 \<and> recover
                        then k2\<lparr>k_probe := k_probe k2 OR IKCP_ASK_TELL\<rparr> else k2)
              in Some (k3, sint n, bs))"

section \<open>Sending\<close>

text \<open>\<open>send_frags count\<close> appends \<open>count\<close> segments; the last one has fragment number zero.\<close>

fun send_frags :: "nat \<Rightarrow> kcp \<Rightarrow> u8 list \<Rightarrow> kcp" where
  "send_frags 0 k bs = k"
| "send_frags (Suc n) k bs =
     (let size = (if int (length bs) > sint (k_mss k) then unat (k_mss k) else length bs);
          s = segment_new\<lparr>s_len := of_nat size, s_data := take size bs,
                s_frg := (if k_stream k = 0 then of_nat n else 0)\<rparr>
      in send_frags n (k\<lparr>k_snd_queue := k_snd_queue k @ [s], k_nsnd_que := k_nsnd_que k + 1\<rparr>)
           (drop size bs))"

text \<open>In stream mode the last segment that waits is filled up first.\<close>

definition send_stream :: "kcp \<Rightarrow> u8 list \<Rightarrow> kcp \<times> u8 list" where
  "send_stream k bs =
     (if k_snd_queue k = [] then (k, bs)
      else let old = last (k_snd_queue k) in
        if s_len old < k_mss k then
          (let capacity = unat (k_mss k - s_len old);
               extend = (if length bs < capacity then length bs else capacity);
               s = segment_new\<lparr>s_len := s_len old + of_nat extend, s_frg := 0,
                     s_data := take (unat (s_len old)) (s_data old) @ take extend bs\<rparr>
           in (k\<lparr>k_snd_queue := butlast (k_snd_queue k) @ [s]\<rparr>, drop extend bs))
        else (k, bs))"

definition send_count :: "kcp \<Rightarrow> u8 list \<Rightarrow> int" where
  "send_count k bs =
     (if int (length bs) \<le> sint (k_mss k) then 1
      else sint ((of_nat (length bs) + k_mss k - 1) div k_mss k))"

definition ikcp_send :: "kcp \<Rightarrow> u8 list \<Rightarrow> int \<Rightarrow> (kcp \<times> int) option" where
  "ikcp_send k buffer len =
     (if k_mss k = 0 then None
      else if len < 0 then Some (k, -1)
      else let bs = take (nat len) buffer;
               (k1, bs1) = (if k_stream k \<noteq> 0 then send_stream k bs else (k, bs)) in
        if k_stream k \<noteq> 0 \<and> bs1 = [] then Some (k1, 0)
        else let count = send_count k1 bs1 in
          if count \<ge> 128 then Some (k1, -2)
          else Some (send_frags (nat (if count = 0 then 1 else count)) k1 bs1, 0))"

section \<open>Acknowledgements\<close>

text \<open>Signed overflow, undefined in C, wraps here.\<close>

definition ikcp_update_ack :: "kcp \<Rightarrow> u32 \<Rightarrow> kcp" where
  "ikcp_update_ack k rtt =
     (let k1 =
        (if k_rx_srtt k = 0 then k\<lparr>k_rx_srtt := rtt, k_rx_rttval := word_of_int (c_div (sint rtt) 2)\<rparr>
         else
           (let delta = \<bar>sint (rtt - k_rx_srtt k)\<bar>;
                rttval = word_of_int (c_div (sint (3 * k_rx_rttval k) + delta) 4);
                srtt = word_of_int (c_div (sint (7 * k_rx_srtt k + rtt)) 8)
            in k\<lparr>k_rx_rttval := rttval, k_rx_srtt := (if sint (srtt :: u32) < 1 then 1 else srtt)\<rparr>));
        rto = k_rx_srtt k1 + imax (k_interval k1) (4 * k_rx_rttval k1)
      in k1\<lparr>k_rx_rto := ibound (k_rx_minrto k1) rto IKCP_RTO_MAX\<rparr>)"

definition ikcp_shrink_buf :: "kcp \<Rightarrow> kcp" where
  "ikcp_shrink_buf k =
     k\<lparr>k_snd_una := (case k_snd_buf k of [] \<Rightarrow> k_snd_nxt k | s # _ \<Rightarrow> s_sn s)\<rparr>"

fun ack_loop :: "u32 \<Rightarrow> seg list \<Rightarrow> seg list \<times> bool" where
  "ack_loop sn [] = ([], False)"
| "ack_loop sn (s # ss) =
     (if sn = s_sn s then (ss, True)
      else if itimediff sn (s_sn s) < 0 then (s # ss, False)
      else case ack_loop sn ss of (rest, del) \<Rightarrow> (s # rest, del))"

definition ikcp_parse_ack :: "kcp \<Rightarrow> u32 \<Rightarrow> kcp" where
  "ikcp_parse_ack k sn =
     (if itimediff sn (k_snd_una k) < 0 \<or> itimediff sn (k_snd_nxt k) \<ge> 0 then k
      else case ack_loop sn (k_snd_buf k) of (buf, del) \<Rightarrow>
        k\<lparr>k_snd_buf := buf, k_nsnd_buf := (if del then k_nsnd_buf k - 1 else k_nsnd_buf k)\<rparr>)"

fun una_loop :: "u32 \<Rightarrow> seg list \<Rightarrow> u32 \<Rightarrow> seg list \<times> u32" where
  "una_loop una [] n = ([], n)"
| "una_loop una (s # ss) n =
     (if itimediff una (s_sn s) > 0 then una_loop una ss (n - 1) else (s # ss, n))"

definition ikcp_parse_una :: "kcp \<Rightarrow> u32 \<Rightarrow> kcp" where
  "ikcp_parse_una k una =
     (case una_loop una (k_snd_buf k) (k_nsnd_buf k) of (buf, n) \<Rightarrow>
        k\<lparr>k_snd_buf := buf, k_nsnd_buf := n\<rparr>)"

fun fastack_loop :: "u32 \<Rightarrow> seg list \<Rightarrow> seg list" where
  "fastack_loop sn [] = []"
| "fastack_loop sn (s # ss) =
     (if itimediff sn (s_sn s) < 0 then s # ss
      else (if sn \<noteq> s_sn s then s\<lparr>s_fastack := s_fastack s + 1\<rparr> else s) # fastack_loop sn ss)"

definition ikcp_parse_fastack :: "kcp \<Rightarrow> u32 \<Rightarrow> u32 \<Rightarrow> kcp" where
  "ikcp_parse_fastack k sn ts =
     (if itimediff sn (k_snd_una k) < 0 \<or> itimediff sn (k_snd_nxt k) \<ge> 0 then k
      else k\<lparr>k_snd_buf := fastack_loop sn (k_snd_buf k)\<rparr>)"

function grow_block :: "nat \<Rightarrow> nat \<Rightarrow> nat" where
  "grow_block newblock newsize =
     (if 0 < newblock \<and> newblock < newsize then grow_block (2 * newblock) newsize else newblock)"
  by pat_completeness auto
termination
  by (relation "measure (\<lambda>(b, n). n - b)") auto

declare grow_block.simps [simp del]

text \<open>The list of acknowledgements is an array of pairs that is enlarged when it is full.\<close>

definition ikcp_ack_push :: "kcp \<Rightarrow> u32 \<Rightarrow> u32 \<Rightarrow> kcp option" where
  "ikcp_ack_push k sn ts =
     (let newsize = unat (k_ackcount k + 1);
          k1 = (if newsize > unat (k_ackblock k) then
                  (let newblock = grow_block 8 newsize
                   in k\<lparr>k_acklist := take (2 * unat (k_ackcount k)) (k_acklist k) @
                          replicate (2 * newblock - min (2 * unat (k_ackcount k)) (length (k_acklist k))) 0,
                        k_ackblock := of_nat newblock\<rparr>)
                else k);
          at = 2 * unat (k_ackcount k1)
      in if at + 1 < length (k_acklist k1)
         then Some (k1\<lparr>k_acklist := (k_acklist k1)[at := sn, at + 1 := ts], k_ackcount := k_ackcount k1 + 1\<rparr>)
         else None)"

definition ikcp_ack_get :: "kcp \<Rightarrow> nat \<Rightarrow> u32 \<times> u32" where
  "ikcp_ack_get k p = (k_acklist k ! (2 * p), k_acklist k ! (2 * p + 1))"

section \<open>Incoming data\<close>

text \<open>
  The receive buffer is searched from its end; the list given here is reversed.  \<open>None\<close> says that
  the sequence number is already there.
\<close>

fun buf_insert :: "seg \<Rightarrow> seg list \<Rightarrow> seg list option" where
  "buf_insert new [] = Some [new]"
| "buf_insert new (s # ss) =
     (if s_sn s = s_sn new then None
      else if itimediff (s_sn new) (s_sn s) > 0 then Some (new # s # ss)
      else map_option ((#) s) (buf_insert new ss))"

definition ikcp_parse_data :: "kcp \<Rightarrow> seg \<Rightarrow> kcp" where
  "ikcp_parse_data k newseg =
     (let sn = s_sn newseg in
      if itimediff sn (k_rcv_nxt k + k_rcv_wnd k) \<ge> 0 \<or> itimediff sn (k_rcv_nxt k) < 0 then k
      else move_ready (case buf_insert newseg (rev (k_rcv_buf k)) of
             None \<Rightarrow> k
           | Some r \<Rightarrow> k\<lparr>k_rcv_buf := rev r, k_nrcv_buf := k_nrcv_buf k + 1\<rparr>))"

text \<open>The header of a segment as \<open>ikcp_input\<close> decodes it.\<close>

record hdr =
  h_conv :: u32
  h_cmd :: u8
  h_frg :: u8
  h_wnd :: u16
  h_ts :: u32
  h_sn :: u32
  h_una :: u32
  h_len :: u32

definition decode_hdr :: "u8 list \<Rightarrow> (hdr \<times> u8 list) option" where
  "decode_hdr p = do {
     (conv, p) \<leftarrow> decode32u p;
     (cmd, p) \<leftarrow> decode8u p;
     (frg, p) \<leftarrow> decode8u p;
     (wnd, p) \<leftarrow> decode16u p;
     (ts, p) \<leftarrow> decode32u p;
     (sn, p) \<leftarrow> decode32u p;
     (una, p) \<leftarrow> decode32u p;
     (len, p) \<leftarrow> decode32u p;
     Some (\<lparr>h_conv = conv, h_cmd = cmd, h_frg = frg, h_wnd = wnd, h_ts = ts, h_sn = sn,
            h_una = una, h_len = len\<rparr>, p)
   }"

text \<open>The part of the loop of \<open>ikcp_input\<close> that handles a push.\<close>

definition input_push :: "kcp \<Rightarrow> hdr \<Rightarrow> u8 list \<Rightarrow> kcp option" where
  "input_push k h p =
     (if itimediff (h_sn h) (k_rcv_nxt k + k_rcv_wnd k) < 0 then do {
        k1 \<leftarrow> ikcp_ack_push k (h_sn h) (h_ts h);
        if itimediff (h_sn h) (k_rcv_nxt k1) \<ge> 0 then
          Some (ikcp_parse_data k1 (segment_new\<lparr>s_conv := h_conv h, s_cmd := ucast (h_cmd h),
             s_frg := ucast (h_frg h), s_wnd := ucast (h_wnd h), s_ts := h_ts h, s_sn := h_sn h,
             s_una := h_una h, s_len := h_len h, s_data := take (unat (h_len h)) p\<rparr>))
        else Some k1 }
      else Some k)"

text \<open>The part that handles an acknowledgement.\<close>

definition input_ack :: "kcp \<Rightarrow> hdr \<Rightarrow> kcp" where
  "input_ack k h =
     (let k1 = (if itimediff (k_current k) (h_ts h) \<ge> 0
                then ikcp_update_ack k (k_current k - h_ts h) else k)
      in ikcp_shrink_buf (ikcp_parse_ack k1 (h_sn h)))"

text \<open>
  The loop keeps the largest acknowledged number and its time stamp, once there is one.  It gives
  the state, that pair and the result zero, or the state and the error.
\<close>

type_synonym maxack = "(u32 \<times> u32) option"

definition next_maxack :: "maxack \<Rightarrow> u32 \<Rightarrow> u32 \<Rightarrow> maxack" where
  "next_maxack m sn ts =
     (case m of
        None \<Rightarrow> Some (sn, ts)
      | Some (maxack, latest_ts) \<Rightarrow>
          if itimediff sn maxack > 0 then Some (sn, ts) else Some (maxack, latest_ts))"

definition input_seg :: "kcp \<Rightarrow> maxack \<Rightarrow> hdr \<Rightarrow> u8 list \<Rightarrow> (kcp \<times> maxack) option" where
  "input_seg k m h p =
     (let k1 = ikcp_shrink_buf (ikcp_parse_una (k\<lparr>k_rmt_wnd := ucast (h_wnd h)\<rparr>) (h_una h)) in
      if ucast (h_cmd h) = IKCP_CMD_ACK then Some (input_ack k1 h, next_maxack m (h_sn h) (h_ts h))
      else if ucast (h_cmd h) = IKCP_CMD_PUSH then map_option (\<lambda>k2. (k2, m)) (input_push k1 h p)
      else if ucast (h_cmd h) = IKCP_CMD_WASK then Some (k1\<lparr>k_probe := k_probe k1 OR IKCP_ASK_TELL\<rparr>, m)
      else Some (k1, m))"

function input_loop :: "kcp \<Rightarrow> maxack \<Rightarrow> u8 list \<Rightarrow> (kcp \<times> maxack \<times> int) option" where
  "input_loop k m data =
     (if length data < IKCP_OVERHEAD then Some (k, m, 0)
      else case decode_hdr data of
        None \<Rightarrow> None
      | Some (h, p) \<Rightarrow>
          if h_conv h \<noteq> k_conv k then Some (k, m, -1)
          else if length data - IKCP_OVERHEAD < unat (h_len h) \<or> sint (h_len h) < 0 then Some (k, m, -2)
          else if ucast (h_cmd h) \<noteq> IKCP_CMD_PUSH \<and> ucast (h_cmd h) \<noteq> IKCP_CMD_ACK \<and>
                  ucast (h_cmd h) \<noteq> IKCP_CMD_WASK \<and> ucast (h_cmd h) \<noteq> IKCP_CMD_WINS
          then Some (k, m, -3)
          else case input_seg k m h p of
              None \<Rightarrow> None
            | Some (k1, m1) \<Rightarrow> input_loop k1 m1 (drop (IKCP_OVERHEAD + unat (h_len h)) data))"
  by pat_completeness auto
termination
  by (relation "measure (\<lambda>(_, _, data). length data)") auto

declare input_loop.simps [simp del]

text \<open>Opening the congestion window after an acknowledgement of new data.\<close>

definition open_cwnd :: "kcp \<Rightarrow> kcp" where
  "open_cwnd k =
     (if k_cwnd k < k_rmt_wnd k then
        let mss = k_mss k;
            k1 = (if k_cwnd k < k_ssthresh k
                  then k\<lparr>k_cwnd := k_cwnd k + 1, k_incr := k_incr k + mss\<rparr>
                  else
                    let incr0 = (if k_incr k < mss then mss else k_incr k);
                        incr = incr0 + (mss * mss) div incr0 + mss div 16
                    in k\<lparr>k_incr := incr,
                         k_cwnd := (if (k_cwnd k + 1) * mss \<le> incr
                                    then (incr + mss - 1) div (if mss > 0 then mss else 1)
                                    else k_cwnd k)\<rparr>)
        in (if k_cwnd k1 > k_rmt_wnd k1
            then k1\<lparr>k_cwnd := k_rmt_wnd k1, k_incr := k_rmt_wnd k1 * mss\<rparr> else k1)
      else k)"

definition ikcp_input :: "kcp \<Rightarrow> u8 list \<Rightarrow> (kcp \<times> int) option" where
  "ikcp_input k data =
     (let prev_una = k_snd_una k in
      if sint (of_nat (length data) :: u32) < 24 then Some (k, -1)
      else do {
        (k1, m, err) \<leftarrow> input_loop k None data;
        if err \<noteq> 0 then Some (k1, err)
        else
          let k2 = (case m of Some (sn, ts) \<Rightarrow> ikcp_parse_fastack k1 sn ts | None \<Rightarrow> k1)
          in Some (if itimediff (k_snd_una k2) prev_una > 0 then open_cwnd k2 else k2, 0)
      })"

definition ikcp_getconv :: "u8 list \<Rightarrow> u32 option" where
  "ikcp_getconv p = map_option fst (decode32u p)"

end
