(* ===== verification/Kcp_Flush.thy ===== *)
theory Kcp_Flush
  imports Kcp
begin

text \<open>
  The sending side of \<^verbatim>\<open>src/depends/lua-kcp/kcp/ikcp.c\<close>: \<open>ikcp_flush\<close> and what it is made of, the
  timing functions, the settings, and the Lua functions of \<^verbatim>\<open>src/depends/lua-kcp/src/lkcp.c\<close>.
\<close>

section \<open>Writing segments into packets\<close>

definition ikcp_encode_seg :: "seg \<Rightarrow> u8 list" where
  "ikcp_encode_seg s =
     encode32u (s_conv s) @ encode8u (ucast (s_cmd s)) @ encode8u (ucast (s_frg s)) @
     encode16u (ucast (s_wnd s)) @ encode32u (s_ts s) @ encode32u (s_sn s) @
     encode32u (s_una s) @ encode32u (s_len s)"

definition ikcp_wnd_unused :: "kcp \<Rightarrow> u32" where
  "ikcp_wnd_unused k = (if k_nrcv_que k < k_rcv_wnd k then k_rcv_wnd k - k_nrcv_que k else 0)"

text \<open>
  The bytes between \<open>buffer\<close> and \<open>ptr\<close>, and the packets given to the output callback so far.
\<close>

type_synonym outbuf = "u8 list \<times> u8 list list"

definition ikcp_output :: "u8 list \<Rightarrow> u8 list list \<Rightarrow> u8 list list" where
  "ikcp_output data outs = (if data = [] then outs else outs @ [data])"

text \<open>
  Room for \<open>need\<close> bytes is made by sending the packet when they do not fit the MTU; then the bytes
  are written, which must stay inside the buffer.
\<close>

definition put :: "kcp \<Rightarrow> int \<Rightarrow> u8 list \<Rightarrow> outbuf \<Rightarrow> outbuf option" where
  "put k need bytes ob =
     (case ob of (pend, outs) \<Rightarrow>
        let (pend1, outs1) = (if int (length pend) + need > sint (k_mtu k)
                              then ([], ikcp_output pend outs) else (pend, outs))
        in if length pend1 + length bytes \<le> k_bufsize k then Some (pend1 @ bytes, outs1) else None)"

section \<open>Flushing\<close>

fun flush_acks :: "kcp \<Rightarrow> seg \<Rightarrow> nat \<Rightarrow> nat \<Rightarrow> outbuf \<Rightarrow> (seg \<times> outbuf) option" where
  "flush_acks k sg i 0 ob = Some (sg, ob)"
| "flush_acks k sg i (Suc n) ob =
     (case ikcp_ack_get k i of (sn, ts) \<Rightarrow>
        let sg1 = sg\<lparr>s_sn := sn, s_ts := ts\<rparr> in
        do { ob1 \<leftarrow> put k 24 (ikcp_encode_seg sg1) ob; flush_acks k sg1 (Suc i) n ob1 })"

definition flush_probe :: "kcp \<Rightarrow> kcp" where
  "flush_probe k =
     (if k_rmt_wnd k = 0 then
        (if k_probe_wait k = 0
         then k\<lparr>k_probe_wait := IKCP_PROBE_INIT, k_ts_probe := k_current k + IKCP_PROBE_INIT\<rparr>
         else if itimediff (k_current k) (k_ts_probe k) \<ge> 0 then
           (let w0 = (if k_probe_wait k < IKCP_PROBE_INIT then IKCP_PROBE_INIT else k_probe_wait k);
                w1 = w0 + w0 div 2;
                w2 = (if w1 > IKCP_PROBE_LIMIT then IKCP_PROBE_LIMIT else w1)
            in k\<lparr>k_probe_wait := w2, k_ts_probe := k_current k + w2, k_probe := k_probe k OR IKCP_ASK_SEND\<rparr>)
         else k)
      else k\<lparr>k_ts_probe := 0, k_probe_wait := 0\<rparr>)"

definition flush_cmd :: "kcp \<Rightarrow> u32 \<Rightarrow> u32 \<Rightarrow> seg \<times> outbuf \<Rightarrow> (seg \<times> outbuf) option" where
  "flush_cmd k flag cmd so =
     (case so of (sg, ob) \<Rightarrow>
        if k_probe k AND flag \<noteq> 0 then
          (let sg1 = sg\<lparr>s_cmd := cmd\<rparr>
           in map_option (\<lambda>ob1. (sg1, ob1)) (put k 24 (ikcp_encode_seg sg1) ob))
        else Some (sg, ob))"

fun move_snd :: "u32 \<Rightarrow> u32 \<Rightarrow> seg list \<Rightarrow> kcp \<Rightarrow> kcp" where
  "move_snd cwnd wnd [] k = k\<lparr>k_snd_queue := []\<rparr>"
| "move_snd cwnd wnd (s # ss) k =
     (if itimediff (k_snd_nxt k) (k_snd_una k + cwnd) < 0 then
        (let s1 = s\<lparr>s_conv := k_conv k, s_cmd := IKCP_CMD_PUSH, s_wnd := wnd, s_ts := k_current k,
               s_sn := k_snd_nxt k, s_una := k_rcv_nxt k, s_resendts := k_current k,
               s_rto := k_rx_rto k, s_fastack := 0, s_xmit := 0\<rparr>
         in move_snd cwnd wnd ss (k\<lparr>k_snd_buf := k_snd_buf k @ [s1], k_nsnd_que := k_nsnd_que k - 1,
              k_nsnd_buf := k_nsnd_buf k + 1, k_snd_nxt := k_snd_nxt k + 1\<rparr>))
      else k\<lparr>k_snd_queue := s # ss\<rparr>)"

text \<open>
  Whether a segment has to be sent: for the first time, because its timer has run out, or because
  enough later segments were acknowledged.  The result is the segment, whether it is sent, and
  whether it counts as lost or as a fast retransmission.
\<close>

definition flush_seg :: "kcp \<Rightarrow> u32 \<Rightarrow> u32 \<Rightarrow> seg \<Rightarrow> seg \<times> bool \<times> bool \<times> bool" where
  "flush_seg k resent rtomin s =
     (let current = k_current k in
      if s_xmit s = 0 then
        (s\<lparr>s_xmit := s_xmit s + 1, s_rto := k_rx_rto k,
           s_resendts := current + k_rx_rto k + rtomin\<rparr>, True, False, False)
      else if itimediff current (s_resendts s) \<ge> 0 then
        (let rto = (if k_nodelay k = 0 then s_rto s + imax (s_rto s) (k_rx_rto k)
                    else s_rto s + word_of_int (c_div (sint (if k_nodelay k < 2 then s_rto s else k_rx_rto k)) 2))
         in (s\<lparr>s_xmit := s_xmit s + 1, s_rto := rto, s_resendts := current + rto\<rparr>, True, True, False))
      else if s_fastack s \<ge> resent \<and> (sint (s_xmit s) \<le> k_fastlimit k \<or> k_fastlimit k \<le> 0) then
        (s\<lparr>s_xmit := s_xmit s + 1, s_fastack := 0, s_resendts := current + s_rto s\<rparr>, True, False, True)
      else (s, False, False, False))"

fun flush_data ::
    "u32 \<Rightarrow> u32 \<Rightarrow> u32 \<Rightarrow> seg list \<Rightarrow> kcp \<times> bool \<times> bool \<times> outbuf \<Rightarrow>
     (seg list \<times> kcp \<times> bool \<times> bool \<times> outbuf) option" where
  "flush_data wnd resent rtomin [] (k, lost, change, ob) = Some ([], k, lost, change, ob)"
| "flush_data wnd resent rtomin (s # ss) (k, lost, change, ob) =
     (case flush_seg k resent rtomin s of (s1, needsend, l, c) \<Rightarrow>
        let k1 = (if l then k\<lparr>k_xmit := k_xmit k + 1\<rparr> else k) in
        if needsend then
          (let s2 = s1\<lparr>s_ts := k_current k, s_wnd := wnd, s_una := k_rcv_nxt k\<rparr>;
               k2 = (if s_xmit s2 \<ge> k_dead_link k1 then k1\<lparr>k_state := -1\<rparr> else k1)
           in do {
             ob1 \<leftarrow> put k (sint (24 + s_len s2)) (ikcp_encode_seg s2 @ seg_bytes s2) ob;
             (ss1, k3, lost1, change1, ob2) \<leftarrow> flush_data wnd resent rtomin ss (k2, lost \<or> l, change \<or> c, ob1);
             Some (s2 # ss1, k3, lost1, change1, ob2) })
        else do {
          (ss1, k3, lost1, change1, ob2) \<leftarrow> flush_data wnd resent rtomin ss (k1, lost \<or> l, change \<or> c, ob);
          Some (s1 # ss1, k3, lost1, change1, ob2) })"

definition flush_cwnd :: "kcp \<Rightarrow> bool \<Rightarrow> bool \<Rightarrow> u32 \<Rightarrow> u32 \<Rightarrow> kcp" where
  "flush_cwnd k lost change resent cwnd =
     (let k1 = (if change then
            (let th = (k_snd_nxt k - k_snd_una k) div 2;
                 th1 = (if th < IKCP_THRESH_MIN then IKCP_THRESH_MIN else th)
             in k\<lparr>k_ssthresh := th1, k_cwnd := th1 + resent, k_incr := (th1 + resent) * k_mss k\<rparr>)
          else k);
          k2 = (if lost then
            k1\<lparr>k_ssthresh := (if cwnd div 2 < IKCP_THRESH_MIN then IKCP_THRESH_MIN else cwnd div 2),
               k_cwnd := 1, k_incr := k_mss k1\<rparr>
          else k1)
      in if k_cwnd k2 < 1 then k2\<lparr>k_cwnd := 1, k_incr := k_mss k2\<rparr> else k2)"

definition flush_window :: "kcp \<Rightarrow> u32" where
  "flush_window k =
     (let cwnd = imin (k_snd_wnd k) (k_rmt_wnd k)
      in if k_nocwnd k = 0 then imin (k_cwnd k) cwnd else cwnd)"

definition flush_head :: "kcp \<Rightarrow> seg" where
  "flush_head k = segment_new\<lparr>s_conv := k_conv k, s_cmd := IKCP_CMD_ACK, s_wnd := ikcp_wnd_unused k,
     s_una := k_rcv_nxt k\<rparr>"

text \<open>\<open>ikcp_flush\<close> gives the new state and the packets it sent, in order.\<close>

definition ikcp_flush :: "kcp \<Rightarrow> (kcp \<times> u8 list list) option" where
  "ikcp_flush k =
     (if k_updated k = 0 then Some (k, [])
      else do {
        (sg1, ob1) \<leftarrow> flush_acks k (flush_head k) 0 (nat (sint (k_ackcount k))) ([], []);
        let k1 = flush_probe (k\<lparr>k_ackcount := 0\<rparr>);
        so2 \<leftarrow> flush_cmd k1 IKCP_ASK_SEND IKCP_CMD_WASK (sg1, ob1);
        (sg3, ob3) \<leftarrow> flush_cmd k1 IKCP_ASK_TELL IKCP_CMD_WINS so2;
        let k2 = k1\<lparr>k_probe := 0\<rparr>;
        let cwnd = flush_window k2;
        let k3 = move_snd cwnd (s_wnd sg3) (k_snd_queue k2) k2;
        let resent = (if k_fastresend k3 > 0 then word_of_int (k_fastresend k3) else 0xffffffff);
        let rtomin = (if k_nodelay k3 = 0 then word_of_int (sint (k_rx_rto k3) div 8) else 0);
        (ss, k4, lost, change, pend, outs) \<leftarrow>
          flush_data (s_wnd sg3) resent rtomin (k_snd_buf k3) (k3, False, False, ob3);
        Some (flush_cwnd (k4\<lparr>k_snd_buf := ss\<rparr>) lost change resent cwnd, ikcp_output pend outs)
      })"

section \<open>Timing\<close>

definition update_slap :: "kcp \<Rightarrow> u32 \<Rightarrow> kcp \<times> int" where
  "update_slap k current =
     (let k1 = k\<lparr>k_current := current\<rparr>;
          k2 = (if k_updated k1 = 0 then k1\<lparr>k_updated := 1, k_ts_flush := current\<rparr> else k1);
          slap = itimediff current (k_ts_flush k2)
      in if slap \<ge> 10000 \<or> slap < -10000 then (k2\<lparr>k_ts_flush := current\<rparr>, 0) else (k2, slap))"

definition ikcp_update :: "kcp \<Rightarrow> u32 \<Rightarrow> (kcp \<times> u8 list list) option" where
  "ikcp_update k current =
     (case update_slap k current of (k1, slap) \<Rightarrow>
        if slap \<ge> 0 then
          (let t = k_ts_flush k1 + k_interval k1;
               t1 = (if itimediff current t \<ge> 0 then current + k_interval k1 else t)
           in ikcp_flush (k1\<lparr>k_ts_flush := t1\<rparr>))
        else Some (k1, []))"

text \<open>\<open>None\<close> says that a segment is due now.\<close>

fun check_loop :: "u32 \<Rightarrow> seg list \<Rightarrow> int \<Rightarrow> int option" where
  "check_loop current [] tm = Some tm"
| "check_loop current (s # ss) tm =
     (let diff = itimediff (s_resendts s) current in
      if diff \<le> 0 then None else check_loop current ss (if diff < tm then diff else tm))"

definition ikcp_check :: "kcp \<Rightarrow> u32 \<Rightarrow> u32" where
  "ikcp_check k current =
     (if k_updated k = 0 then current
      else let d = itimediff current (k_ts_flush k);
               ts_flush = (if d \<ge> 10000 \<or> d < -10000 then current else k_ts_flush k)
        in if itimediff current ts_flush \<ge> 0 then current
           else let tm_flush = itimediff ts_flush current in
             case check_loop current (k_snd_buf k) 0x7fffffff of
               None \<Rightarrow> current
             | Some tm_packet \<Rightarrow>
                 let minimal = word_of_int (if tm_packet < tm_flush then tm_packet else tm_flush)
                 in current + (if minimal \<ge> k_interval k then k_interval k else minimal))"

section \<open>Settings\<close>

definition ikcp_setmtu :: "kcp \<Rightarrow> int \<Rightarrow> kcp \<times> int" where
  "ikcp_setmtu k mtu =
     (if mtu < 50 \<or> mtu < 24 then (k, -1)
      else (k\<lparr>k_mtu := word_of_int mtu, k_mss := word_of_int mtu - 24,
              k_bufsize := unat ((word_of_int mtu + 24 :: u32) * 3)\<rparr>, 0))"

definition clamp_interval :: "int \<Rightarrow> int" where
  "clamp_interval interval = (if interval > 5000 then 5000 else if interval < 10 then 10 else interval)"

definition ikcp_interval :: "kcp \<Rightarrow> int \<Rightarrow> kcp \<times> int" where
  "ikcp_interval k interval = (k\<lparr>k_interval := word_of_int (clamp_interval interval)\<rparr>, 0)"

definition ikcp_nodelay :: "kcp \<Rightarrow> int \<Rightarrow> int \<Rightarrow> int \<Rightarrow> int \<Rightarrow> kcp \<times> int" where
  "ikcp_nodelay k nodelay interval resend nc =
     (let k1 = (if nodelay \<ge> 0
                then k\<lparr>k_nodelay := word_of_int nodelay,
                       k_rx_minrto := (if nodelay \<noteq> 0 then IKCP_RTO_NDL else IKCP_RTO_MIN)\<rparr>
                else k);
          k2 = (if interval \<ge> 0 then k1\<lparr>k_interval := word_of_int (clamp_interval interval)\<rparr> else k1);
          k3 = (if resend \<ge> 0 then k2\<lparr>k_fastresend := resend\<rparr> else k2);
          k4 = (if nc \<ge> 0 then k3\<lparr>k_nocwnd := nc\<rparr> else k3)
      in (k4, 0))"

definition ikcp_wndsize :: "kcp \<Rightarrow> int \<Rightarrow> int \<Rightarrow> kcp \<times> int" where
  "ikcp_wndsize k sndwnd rcvwnd =
     (let k1 = (if sndwnd > 0 then k\<lparr>k_snd_wnd := word_of_int sndwnd\<rparr> else k);
          k2 = (if rcvwnd > 0 then k1\<lparr>k_rcv_wnd := imax (word_of_int rcvwnd) IKCP_WND_RCV\<rparr> else k1)
      in (k2, 0))"

definition ikcp_waitsnd :: "kcp \<Rightarrow> int" where
  "ikcp_waitsnd k = sint (k_nsnd_buf k + k_nsnd_que k)"

section \<open>Release\<close>

text \<open>The segments that are freed, in order, and the control block with empty queues.\<close>

definition ikcp_release :: "kcp \<Rightarrow> seg list \<times> kcp" where
  "ikcp_release k =
     (k_snd_buf k @ k_rcv_buf k @ k_snd_queue k @ k_rcv_queue k,
      k\<lparr>k_snd_buf := [], k_rcv_buf := [], k_snd_queue := [], k_rcv_queue := [],
        k_nrcv_buf := 0, k_nsnd_buf := 0, k_nrcv_que := 0, k_nsnd_que := 0, k_ackcount := 0,
        k_bufsize := 0, k_acklist := []\<rparr>)"

section \<open>The Lua functions\<close>

text \<open>Lua integers are narrowed to \<open>int32_t\<close>; strings come with their length as \<open>size_t\<close>.\<close>

abbreviation int32 :: "int \<Rightarrow> int" where
  "int32 i \<equiv> sint (word_of_int i :: u32)"

definition lkcp_create :: "int \<Rightarrow> kcp" where
  "lkcp_create conv = ikcp_create (word_of_int (int32 conv))"

definition lkcp_getconv :: "u8 list \<Rightarrow> u32 option" where
  "lkcp_getconv data = map_option fst (decode32u data)"

definition lkcp_recv :: "kcp \<Rightarrow> (kcp \<times> int \<times> u8 list option) option" where
  "lkcp_recv k = map_option (\<lambda>(k1, hr, bs). (k1, hr, if hr \<le> 0 then None else Some (take (nat hr) bs)))
     (ikcp_recv k (4 * 1024 * 1024))"

definition lkcp_send :: "kcp \<Rightarrow> u8 list \<Rightarrow> (kcp \<times> int) option" where
  "lkcp_send k data = ikcp_send k data (sint (of_nat (length data) :: u32))"

definition lkcp_update :: "kcp \<Rightarrow> int \<Rightarrow> (kcp \<times> u8 list list) option" where
  "lkcp_update k current = ikcp_update k (word_of_int (int32 current))"

definition lkcp_check :: "kcp \<Rightarrow> int \<Rightarrow> int" where
  "lkcp_check k current = sint (ikcp_check k (word_of_int (int32 current)))"

definition lkcp_input :: "kcp \<Rightarrow> u8 list \<Rightarrow> (kcp \<times> int) option" where
  "lkcp_input k data = ikcp_input k data"

definition lkcp_flush :: "kcp \<Rightarrow> (kcp \<times> u8 list list) option" where
  "lkcp_flush k = ikcp_flush k"

definition lkcp_wndsize :: "kcp \<Rightarrow> int \<Rightarrow> int \<Rightarrow> kcp" where
  "lkcp_wndsize k sndwnd rcvwnd = fst (ikcp_wndsize k (int32 sndwnd) (int32 rcvwnd))"

definition lkcp_nodelay :: "kcp \<Rightarrow> int \<Rightarrow> int \<Rightarrow> int \<Rightarrow> int \<Rightarrow> kcp \<times> int" where
  "lkcp_nodelay k nodelay interval resend nc =
     ikcp_nodelay k (int32 nodelay) (int32 interval) (int32 resend) (int32 nc)"

end
