(* ===== verification/Kcp_Codec.thy ===== *)
theory Kcp_Codec
  imports Kcp_Flush
begin

text \<open>
  The wire format of \<^verbatim>\<open>src/depends/lua-kcp/kcp/ikcp.c\<close>: the decoders undo the encoders, and the loop of
  \<open>ikcp_input\<close> takes a concatenation of encoded segments apart again.
\<close>

section \<open>Round trips\<close>

lemma byte_plus: "(ucast (a :: u8) :: 'a::len word) + push_bit 8 b = ucast a OR push_bit 8 b"
  by (rule disjunctive_add) (auto simp: bit_simps dest: bit_imp_le_length)

lemma decode8u_encode [simp]: "decode8u (encode8u c @ p) = Some (c, p)"
  by (simp add: encode8u_def)

lemma decode16u_encode [simp]: "decode16u (encode16u w @ p) = Some (w, p)"
proof -
  have "(ucast (ucast w :: u8) :: u16) + push_bit 8 (ucast (ucast (drop_bit 8 w) :: u8)) = w"
    unfolding byte_plus by (rule bit_word_eqI) (auto simp: bit_simps)
  then show ?thesis by (simp add: encode16u_def)
qed

lemma decode32u_encode [simp]: "decode32u (encode32u l @ p) = Some (l, p)"
proof -
  let ?b = "\<lambda>n. ucast (ucast (drop_bit n l) :: u8) :: u32"
  have "(ucast (ucast l :: u8) :: u32) + push_bit 8 (?b 8 + push_bit 8 (?b 16 + push_bit 8 (?b 24))) = l"
    unfolding byte_plus
  proof (rule bit_word_eqI)
    fix n assume "n < LENGTH(32)"
    then consider "n < 8" | "8 \<le> n" "n < 16" | "16 \<le> n" "n < 24" | "24 \<le> n" "n < 32" by fastforce
    then show "bit (ucast (ucast l :: u8) OR push_bit 8 (?b 8 OR push_bit 8 (?b 16 OR push_bit 8 (?b 24)))) n = bit l n"
      by cases (auto simp: bit_simps)
  qed
  then show ?thesis by (simp add: encode32u_def)
qed

lemma length_encode [simp]: "length (encode8u c) = 1" "length (encode16u w) = 2" "length (encode32u l) = 4"
  by (simp_all add: encode8u_def encode16u_def encode32u_def)

definition hdr_of :: "seg \<Rightarrow> hdr" where
  "hdr_of s = \<lparr>h_conv = s_conv s, h_cmd = ucast (s_cmd s), h_frg = ucast (s_frg s), h_wnd = ucast (s_wnd s),
     h_ts = s_ts s, h_sn = s_sn s, h_una = s_una s, h_len = s_len s\<rparr>"

lemma decode_hdr_encode: "decode_hdr (ikcp_encode_seg s @ p) = Some (hdr_of s, p)"
  by (simp add: decode_hdr_def ikcp_encode_seg_def hdr_of_def)

lemma length_encode_seg [simp]: "length (ikcp_encode_seg s) = 24"
  by (simp add: ikcp_encode_seg_def)

text \<open>A segment on the wire: its header and its data.\<close>

definition wire :: "seg \<Rightarrow> u8 list" where
  "wire s = ikcp_encode_seg s @ seg_bytes s"

definition seg_len_ok :: "seg \<Rightarrow> bool" where
  "seg_len_ok s \<longleftrightarrow> length (s_data s) = unat (s_len s) \<and> unat (s_len s) < 2147483648"

definition wire_ok :: "u32 \<Rightarrow> seg \<Rightarrow> bool" where
  "wire_ok conv s \<longleftrightarrow> s_conv s = conv \<and> seg_len_ok s \<and>
     s_cmd s \<in> {IKCP_CMD_PUSH, IKCP_CMD_ACK, IKCP_CMD_WASK, IKCP_CMD_WINS}"

lemma seg_bytes_ok: "seg_len_ok s \<Longrightarrow> seg_bytes s = s_data s"
  by (simp add: seg_len_ok_def seg_bytes_def)

lemma length_wire: "seg_len_ok s \<Longrightarrow> length (wire s) = 24 + unat (s_len s)"
  by (simp add: wire_def seg_bytes_ok) (simp add: seg_len_ok_def)

lemma wire_cmd: "wire_ok c s \<Longrightarrow> ucast (h_cmd (hdr_of s)) = s_cmd s"
  by (auto simp: wire_ok_def hdr_of_def)

lemma sint_nonneg_u32: "unat (w :: u32) < 2147483648 \<Longrightarrow> sint w = int (unat w)"
proof -
  assume "unat w < 2147483648"
  then have "uint w < 2147483648" by (simp only: uint_nat)
  then show ?thesis using uint_nat [of w] by (simp only: sint_u32 if_True)
qed

text \<open>The signed difference of two numbers, on naturals that do not wrap.\<close>

lemma itimediff_near:
  assumes "a < b + 2147483648" "b < a + 2147483648"
  shows "itimediff (of_nat a) (of_nat b) = int a - int b"
proof -
  have "(of_nat a - of_nat b :: u32) = word_of_int (int a - int b)" by simp
  then have "itimediff (of_nat a) (of_nat b) = signed_take_bit 31 (int a - int b)"
    by (simp only: itimediff_def sint_sbintrunc') simp
  also have "\<dots> = int a - int b" by (rule signed_take_bit_int_eq_self) (use assms in simp_all)
  finally show ?thesis .
qed


lemma of_nat_near_eq:
  assumes "a < b + 2147483648" "b < a + 2147483648"
  shows "(of_nat a :: u32) = of_nat b \<longleftrightarrow> a = b"
proof
  assume "(of_nat a :: u32) = of_nat b"
  then have "itimediff (of_nat a) (of_nat b) = 0" by (simp add: itimediff_def)
  then show "a = b" using itimediff_near [OF assms] by simp
qed simp

lemma itimediff_swap:
  assumes "- 2147483648 < itimediff a b"
  shows "itimediff b a = - itimediff a b"
proof -
  have "(b - a :: u32) = - word_of_int (sint (a - b))" by simp
  then have e: "(b - a :: u32) = word_of_int (- sint (a - b))" by (simp only: wi_hom_neg)
  have r: "sint (a - b) < 2147483648" "- 2147483648 < sint (a - b)"
    using assms sint_lt [of "a - b"] by (simp_all add: itimediff_def)
  have "sint (b - a) = signed_take_bit 31 (- sint (a - b))" unfolding e by (simp only: sint_sbintrunc') simp
  also have "\<dots> = - sint (a - b)" by (rule signed_take_bit_int_eq_self) (use r in simp_all)
  finally show ?thesis by (simp add: itimediff_def)
qed

text \<open>The loop of \<open>ikcp_input\<close> takes a segment of its own conversation off the front.\<close>

lemma input_loop_wire:
  assumes "wire_ok (k_conv k) s"
  shows "input_loop k m (wire s @ rest) =
    (case input_seg k m (hdr_of s) (s_data s @ rest) of None \<Rightarrow> None | Some (k1, m1) \<Rightarrow> input_loop k1 m1 rest)"
proof -
  have ok: "seg_len_ok s" "seg_bytes s = s_data s" using assms seg_bytes_ok by (auto simp: wire_ok_def)
  have len: "length (s_data s) = unat (s_len s)" "\<not> sint (s_len s) < 0"
    using ok(1) by (auto simp: seg_len_ok_def sint_nonneg_u32)
  have d: "decode_hdr (wire s @ rest) = Some (hdr_of s, s_data s @ rest)"
    by (simp add: wire_def decode_hdr_encode ok(2))
  have dr: "drop (24 + unat (s_len s)) (wire s @ rest) = rest"
    using len(1) by (simp add: wire_def ok(2))
  have cv: "h_conv (hdr_of s) = k_conv k" "h_len (hdr_of s) = s_len s"
    using assms by (simp_all add: hdr_of_def wire_ok_def)
  have cmd: "ucast (h_cmd (hdr_of s)) \<in> {IKCP_CMD_PUSH, IKCP_CMD_ACK, IKCP_CMD_WASK, IKCP_CMD_WINS}"
    using assms wire_cmd [OF assms] by (simp add: wire_ok_def)
  have lw: "length (wire s @ rest) = 24 + unat (s_len s) + length rest" by (simp add: length_wire ok(1))
  show ?thesis
    using cmd unfolding input_loop.simps [of k m "wire s @ rest"]
    by (simp only: lw d option.case prod.case cv len(2) dr) auto
qed

lemma conv_inputs [simp]:
  "k_conv (ikcp_shrink_buf k) = k_conv k"
  "k_conv (ikcp_parse_una k una) = k_conv k"
  "k_conv (ikcp_parse_ack k sn) = k_conv k"
  "k_conv (ikcp_update_ack k rtt) = k_conv k"
  "k_conv (move_loop ss k) = k_conv k"
  "k_conv (ikcp_parse_data k s) = k_conv k"
proof -
  show mv: "k_conv (move_loop ss k) = k_conv k" for ss k by (induction ss k rule: move_loop.induct) auto
  show "k_conv (ikcp_parse_data k s) = k_conv k"
    by (simp add: ikcp_parse_data_def move_ready_def mv Let_def split: option.splits)
qed (simp_all add: ikcp_shrink_buf_def ikcp_parse_una_def ikcp_parse_ack_def ikcp_update_ack_def Let_def split: prod.splits)

lemma conv_ack_push: "ikcp_ack_push k sn ts = Some k1 \<Longrightarrow> k_conv k1 = k_conv k"
  by (auto simp: ikcp_ack_push_def Let_def split: if_splits)

lemma conv_input_seg: "input_seg k m h p = Some (k1, m1) \<Longrightarrow> k_conv k1 = k_conv k"
  by (auto simp: input_seg_def input_ack_def input_push_def Let_def conv_ack_push split: if_splits bind_splits)

text \<open>Processing a list of segments one after the other.\<close>

fun input_segs :: "kcp \<Rightarrow> maxack \<Rightarrow> seg list \<Rightarrow> u8 list \<Rightarrow> (kcp \<times> maxack) option" where
  "input_segs k m [] rest = Some (k, m)"
| "input_segs k m (s # ss) rest =
     (case input_seg k m (hdr_of s) (s_data s @ concat (map wire ss) @ rest) of
        None \<Rightarrow> None | Some (k1, m1) \<Rightarrow> input_segs k1 m1 ss rest)"

lemma input_loop_wires:
  assumes "\<And>s. s \<in> set ss \<Longrightarrow> wire_ok (k_conv k) s"
  shows "input_loop k m (concat (map wire ss)) =
    map_option (\<lambda>(k1, m1). (k1, m1, 0)) (input_segs k m ss [])"
  using assms
proof (induction ss arbitrary: k m)
  case (Cons s ss)
  have "wire_ok (k_conv k) s" using Cons.prems by simp
  from input_loop_wire [OF this, of m "concat (map wire ss)"] show ?case
    using Cons.prems Cons.IH by (fastforce dest: conv_input_seg split: option.splits)
qed (simp add: input_loop.simps)

end
