(* ===== verification/Kcp_Packets.thy ===== *)
theory Kcp_Packets
  imports Kcp_Codec
begin

text \<open>
  The invariant of the control block of \<^verbatim>\<open>src/depends/lua-kcp/kcp/ikcp.c\<close> and what a flush writes: \<open>flush_segs\<close>
  lists the segments in order, \<open>packets_of\<close> says that they are cut into packets at segment
  boundaries, no packet empty or longer than the MTU.
\<close>

section \<open>The invariant\<close>

definition cfg_ok :: "kcp \<Rightarrow> bool" where
  "cfg_ok k \<longleftrightarrow> 50 \<le> unat (k_mtu k) \<and> unat (k_mtu k) \<le> 1073741824 \<and> k_mss k = k_mtu k - 24 \<and>
     k_bufsize k = 3 * (unat (k_mtu k) + 24)"

text \<open>A segment that fits a packet, and one that waits for its acknowledgement.\<close>

definition seg_fits :: "kcp \<Rightarrow> seg \<Rightarrow> bool" where
  "seg_fits k s \<longleftrightarrow> seg_len_ok s \<and> s_len s \<le> k_mss k"

definition snd_ok :: "kcp \<Rightarrow> bool" where
  "snd_ok k \<longleftrightarrow> (\<forall>s \<in> set (k_snd_queue k). seg_fits k s) \<and>
     (\<forall>s \<in> set (k_snd_buf k). seg_fits k s \<and> s_conv s = k_conv k \<and> s_cmd s = IKCP_CMD_PUSH) \<and>
     k_nsnd_que k = of_nat (length (k_snd_queue k)) \<and> k_nsnd_buf k = of_nat (length (k_snd_buf k))"

definition rcv_ok :: "kcp \<Rightarrow> bool" where
  "rcv_ok k \<longleftrightarrow> (\<forall>s \<in> set (k_rcv_queue k). seg_len_ok s) \<and> (\<forall>s \<in> set (k_rcv_buf k). seg_len_ok s) \<and>
     k_nrcv_que k = of_nat (length (k_rcv_queue k)) \<and> k_nrcv_buf k = of_nat (length (k_rcv_buf k))"

definition ack_ok :: "kcp \<Rightarrow> bool" where
  "ack_ok k \<longleftrightarrow> length (k_acklist k) = 2 * unat (k_ackblock k) \<and> k_ackcount k \<le> k_ackblock k \<and>
     unat (k_ackcount k) \<le> 1073741824"

definition kcp_ok :: "kcp \<Rightarrow> bool" where
  "kcp_ok k \<longleftrightarrow> cfg_ok k \<and> snd_ok k \<and> rcv_ok k \<and> ack_ok k"

lemma kcp_okI: "cfg_ok k \<Longrightarrow> snd_ok k \<Longrightarrow> rcv_ok k \<Longrightarrow> ack_ok k \<Longrightarrow> kcp_ok k"
  by (simp add: kcp_ok_def)

lemma create_ok: "kcp_ok (ikcp_create conv)"
  by (simp add: kcp_ok_def cfg_ok_def snd_ok_def rcv_ok_def ack_ok_def ikcp_create_def)

text \<open>The members an operation leaves alone carry their part of the invariant over.\<close>

definition cfg_of :: "kcp \<Rightarrow> u32 \<times> u32 \<times> nat" where
  "cfg_of k = (k_mtu k, k_mss k, k_bufsize k)"

definition snd_of :: "kcp \<Rightarrow> u32 \<times> u32 \<times> seg list \<times> seg list \<times> u32 \<times> u32" where
  "snd_of k = (k_conv k, k_mss k, k_snd_queue k, k_snd_buf k, k_nsnd_que k, k_nsnd_buf k)"

definition rcv_of :: "kcp \<Rightarrow> seg list \<times> seg list \<times> u32 \<times> u32 \<times> u32" where
  "rcv_of k = (k_rcv_queue k, k_rcv_buf k, k_nrcv_que k, k_nrcv_buf k, k_rcv_nxt k)"

definition ack_of :: "kcp \<Rightarrow> u32 list \<times> u32 \<times> u32" where
  "ack_of k = (k_acklist k, k_ackcount k, k_ackblock k)"

lemmas parts_def = cfg_of_def snd_of_def rcv_of_def ack_of_def

lemma cfg_ok_cong: "cfg_of k1 = cfg_of k \<Longrightarrow> cfg_ok k1 = cfg_ok k"
  by (simp add: cfg_of_def cfg_ok_def)

lemma snd_ok_cong: "snd_of k1 = snd_of k \<Longrightarrow> snd_ok k1 = snd_ok k"
  by (simp add: snd_of_def snd_ok_def seg_fits_def)

lemma rcv_ok_cong: "rcv_of k1 = rcv_of k \<Longrightarrow> rcv_ok k1 = rcv_ok k"
  by (simp add: rcv_of_def rcv_ok_def)

lemma ack_ok_cong: "ack_of k1 = ack_of k \<Longrightarrow> ack_ok k1 = ack_ok k"
  by (simp add: ack_of_def ack_ok_def)

lemma kcp_ok_cong:
  "cfg_of k1 = cfg_of k \<Longrightarrow> snd_of k1 = snd_of k \<Longrightarrow> rcv_of k1 = rcv_of k \<Longrightarrow> ack_of k1 = ack_of k \<Longrightarrow>
     kcp_ok k1 = kcp_ok k"
  by (metis kcp_ok_def cfg_ok_cong snd_ok_cong rcv_ok_cong ack_ok_cong)

text \<open>What the configuration part gives for the arithmetic.\<close>

lemma cfg_mss: "cfg_ok k \<Longrightarrow> unat (k_mss k) + 24 = unat (k_mtu k)"
  by (simp add: cfg_ok_def unat_sub word_le_nat_alt)

lemma cfg_sint_mtu: "cfg_ok k \<Longrightarrow> sint (k_mtu k) = int (unat (k_mtu k))"
  by (simp add: cfg_ok_def sint_nonneg_u32)

lemma cfg_sint_mss: "cfg_ok k \<Longrightarrow> sint (k_mss k) = int (unat (k_mss k))"
  using cfg_mss [of k] by (intro sint_nonneg_u32) (simp add: cfg_ok_def)

lemma cfg_mss_pos: "cfg_ok k \<Longrightarrow> 0 < unat (k_mss k)"
  using cfg_mss [of k] by (simp add: cfg_ok_def)

lemma fits_need:
  assumes "cfg_ok k" "seg_fits k s"
  shows "sint (24 + s_len s) = int (24 + unat (s_len s))" "24 + unat (s_len s) \<le> unat (k_mtu k)"
proof -
  have le: "unat (s_len s) \<le> unat (k_mss k)" using assms(2) by (simp add: seg_fits_def word_le_nat_alt)
  then show b: "24 + unat (s_len s) \<le> unat (k_mtu k)" using cfg_mss [OF assms(1)] by simp
  moreover have "unat (k_mtu k) \<le> 1073741824" using assms(1) by (simp add: cfg_ok_def)
  ultimately have "unat (24 + s_len s) = 24 + unat (s_len s)"
    by (subst unat_word_ariths) simp
  then show "sint (24 + s_len s) = int (24 + unat (s_len s))"
    using b \<open>unat (k_mtu k) \<le> 1073741824\<close> by (subst sint_nonneg_u32) simp_all
qed

section \<open>Packets\<close>

text \<open>
  The output buffer holds the segments \<open>segs\<close>: the packets sent hold whole segments and between
  one and \<open>mtu\<close> bytes, and so does the packet that is being filled.
\<close>

definition packets_of :: "nat \<Rightarrow> seg list \<Rightarrow> u8 list list \<Rightarrow> bool" where
  "packets_of mtu segs outs \<longleftrightarrow>
     (\<exists>gs. segs = concat gs \<and> outs = map (\<lambda>g. concat (map wire g)) gs \<and>
        (\<forall>p \<in> set outs. p \<noteq> [] \<and> length p \<le> mtu))"

definition ob_rep :: "nat \<Rightarrow> seg list \<Rightarrow> outbuf \<Rightarrow> bool" where
  "ob_rep mtu segs ob \<longleftrightarrow>
     (\<exists>segs1 g. segs = segs1 @ g \<and> packets_of mtu segs1 (snd ob) \<and> fst ob = concat (map wire g) \<and>
        length (fst ob) \<le> mtu)"

lemma packets_of_nil [simp]: "packets_of mtu [] []"
  by (simp add: packets_of_def)

lemma ob_rep_nil [simp]: "ob_rep mtu [] ([], [])"
  unfolding ob_rep_def by (rule exI [of _ "[]"], rule exI [of _ "[]"]) simp

lemma wire_nonempty [simp]: "wire s \<noteq> []"
  by (metis length_encode_seg list.size(3) wire_def append_is_Nil_conv numeral_neq_zero)

lemma packets_of_output:
  assumes "ob_rep mtu segs (pend, outs)"
  shows "packets_of mtu segs (ikcp_output pend outs)"
proof -
  from assms obtain gs g where s: "segs = concat gs @ g" "outs = map (\<lambda>g. concat (map wire g)) gs"
      "\<forall>p \<in> set outs. p \<noteq> [] \<and> length p \<le> mtu" "pend = concat (map wire g)" "length pend \<le> mtu"
    by (auto simp: ob_rep_def packets_of_def)
  show ?thesis
  proof (cases "pend = []")
    case True
    then have "g = []" using s(4) by (cases g) auto
    then show ?thesis using s(1-3) True by (auto simp: packets_of_def ikcp_output_def)
  next
    case False
    then show ?thesis using s unfolding packets_of_def ikcp_output_def
      by (intro exI [of _ "gs @ [g]"]) auto
  qed
qed

text \<open>A segment is written by \<open>put\<close> when it fits a packet; the buffer is never overrun.\<close>

lemma put_rep:
  assumes "cfg_ok k" "ob_rep (unat (k_mtu k)) segs ob"
    and "need = int (length (wire s))" "length (wire s) \<le> unat (k_mtu k)" "bytes = wire s"
  shows "\<exists>ob1. put k need bytes ob = Some ob1 \<and> ob_rep (unat (k_mtu k)) (segs @ [s]) ob1"
proof -
  obtain pend outs where ob: "ob = (pend, outs)" by fastforce
  let ?m = "unat (k_mtu k)"
  have buf: "?m \<le> k_bufsize k" using assms(1) by (simp add: cfg_ok_def)
  have mt: "sint (k_mtu k) = int ?m" by (rule cfg_sint_mtu [OF assms(1)])
  show ?thesis
  proof (cases "int (length pend) + need > sint (k_mtu k)")
    case True
    have "ob_rep ?m (segs @ [s]) (wire s, ikcp_output pend outs)"
      unfolding ob_rep_def using packets_of_output assms(2,4) ob
      by (intro exI [of _ segs] exI [of _ "[s]"]) auto
    then show ?thesis using True buf assms(4,5) by (simp add: put_def ob)
  next
    case False
    then have le: "length pend + length (wire s) \<le> ?m" using assms(3) unfolding mt by linarith
    from assms(2) obtain segs1 g where g: "segs = segs1 @ g" "packets_of ?m segs1 outs" "pend = concat (map wire g)"
      by (auto simp: ob_rep_def ob)
    have "ob_rep ?m (segs @ [s]) (pend @ wire s, outs)"
      unfolding ob_rep_def using g le by (intro exI [of _ segs1] exI [of _ "g @ [s]"]) auto
    then show ?thesis using False buf assms(5) le by (simp add: put_def ob)
  qed
qed


section \<open>Flushing\<close>

lemma wire_no_data: "s_len s = 0 \<Longrightarrow> wire s = ikcp_encode_seg s"
  by (simp add: wire_def seg_bytes_def)

lemma put_hdr:
  assumes "cfg_ok k" "ob_rep (unat (k_mtu k)) segs ob" "s_len s = 0"
  shows "\<exists>ob1. put k 24 (ikcp_encode_seg s) ob = Some ob1 \<and> ob_rep (unat (k_mtu k)) (segs @ [s]) ob1"
  using assms by (intro put_rep) (auto simp: wire_no_data cfg_ok_def)

text \<open>The segments a flush writes: acknowledgements, window probes and data that is due.\<close>

definition ack_segs :: "kcp \<Rightarrow> nat \<Rightarrow> nat \<Rightarrow> seg list" where
  "ack_segs k i n = map (\<lambda>j. (flush_head k)\<lparr>s_sn := fst (ikcp_ack_get k j), s_ts := snd (ikcp_ack_get k j)\<rparr>) [i..<i + n]"

lemma flush_acks_rep:
  assumes "cfg_ok k" "ob_rep (unat (k_mtu k)) segs ob"
    and "sg = (flush_head k)\<lparr>s_sn := a, s_ts := b\<rparr>"
  shows "\<exists>ob1. flush_acks k sg i n ob = Some (last (sg # ack_segs k i n), ob1) \<and>
    ob_rep (unat (k_mtu k)) (segs @ ack_segs k i n) ob1"
  using assms(2,3)
proof (induction n arbitrary: i sg segs ob a b)
  case 0
  then show ?case by (auto simp: ack_segs_def)
next
  case (Suc n)
  obtain sn ts where g: "ikcp_ack_get k i = (sn, ts)" by fastforce
  let ?s = "(flush_head k)\<lparr>s_sn := sn, s_ts := ts\<rparr>"
  have sg: "sg\<lparr>s_sn := sn, s_ts := ts\<rparr> = ?s" using Suc.prems(2) by simp
  have "s_len ?s = 0" by (simp add: flush_head_def segment_new_def)
  from put_hdr [OF assms(1) Suc.prems(1) this] obtain ob1 where
    p: "put k 24 (ikcp_encode_seg ?s) ob = Some ob1" "ob_rep (unat (k_mtu k)) (segs @ [?s]) ob1" by blast
  have "ack_segs k i (Suc n) = ?s # ack_segs k (Suc i) n"
    using g by (simp add: ack_segs_def upt_conv_Cons del: upt_Suc)
  then show ?case
    using Suc.IH [OF p(2) refl, where i = "Suc i"] p(1) by (simp add: g sg Let_def)
qed

lemma flush_cmd_rep:
  assumes "cfg_ok k" "ob_rep (unat (k_mtu k)) segs ob" "s_len sg = 0"
  shows "\<exists>sg1 ob1. flush_cmd k flag cmd (sg, ob) = Some (sg1, ob1) \<and>
    sg1 = (if k_probe k AND flag \<noteq> 0 then sg\<lparr>s_cmd := cmd\<rparr> else sg) \<and>
    ob_rep (unat (k_mtu k)) (segs @ (if k_probe k AND flag \<noteq> 0 then [sg1] else [])) ob1"
proof (cases "k_probe k AND flag \<noteq> 0")
  case True
  from put_hdr [OF assms(1,2), of "sg\<lparr>s_cmd := cmd\<rparr>"] assms(3) obtain ob1 where
    "put k 24 (ikcp_encode_seg (sg\<lparr>s_cmd := cmd\<rparr>)) ob = Some ob1"
    "ob_rep (unat (k_mtu k)) (segs @ [sg\<lparr>s_cmd := cmd\<rparr>]) ob1" by auto
  then show ?thesis using True by (simp add: flush_cmd_def Let_def)
qed (use assms(2) in \<open>simp add: flush_cmd_def\<close>)


definition is_due :: "kcp \<Rightarrow> u32 \<Rightarrow> u32 \<Rightarrow> seg \<Rightarrow> bool" where
  "is_due k resent rtomin s = fst (snd (flush_seg k resent rtomin s))"

definition flushed_seg :: "kcp \<Rightarrow> u32 \<Rightarrow> u32 \<Rightarrow> u32 \<Rightarrow> seg \<Rightarrow> seg" where
  "flushed_seg k wnd resent rtomin s =
     (let s1 = fst (flush_seg k resent rtomin s)
      in if is_due k resent rtomin s then s1\<lparr>s_ts := k_current k, s_wnd := wnd, s_una := k_rcv_nxt k\<rparr> else s1)"

lemma flush_seg_keeps:
  "s_conv (fst (flush_seg k resent rtomin s)) = s_conv s" "s_cmd (fst (flush_seg k resent rtomin s)) = s_cmd s"
  "s_frg (fst (flush_seg k resent rtomin s)) = s_frg s" "s_sn (fst (flush_seg k resent rtomin s)) = s_sn s"
  "s_len (fst (flush_seg k resent rtomin s)) = s_len s" "s_data (fst (flush_seg k resent rtomin s)) = s_data s"
  unfolding flush_seg_def Let_def
  by (simp_all add: if_distrib [of fst] if_distrib [of s_conv] if_distrib [of s_cmd] if_distrib [of s_frg]
    if_distrib [of s_sn] if_distrib [of s_len] if_distrib [of s_data] split del: if_split cong: if_cong)

lemma flushed_seg_keeps [simp]:
  "s_conv (flushed_seg k wnd resent rtomin s) = s_conv s"
  "s_cmd (flushed_seg k wnd resent rtomin s) = s_cmd s"
  "s_frg (flushed_seg k wnd resent rtomin s) = s_frg s"
  "s_sn (flushed_seg k wnd resent rtomin s) = s_sn s"
  "s_len (flushed_seg k wnd resent rtomin s) = s_len s"
  "s_data (flushed_seg k wnd resent rtomin s) = s_data s"
  by (simp_all add: flushed_seg_def Let_def flush_seg_keeps)

lemma flush_seg_cong:
  assumes "k_current k1 = k_current k" "k_rx_rto k1 = k_rx_rto k" "k_nodelay k1 = k_nodelay k"
    "k_fastlimit k1 = k_fastlimit k"
  shows "flush_seg k1 resent rtomin s = flush_seg k resent rtomin s"
  unfolding flush_seg_def assms by (rule refl)

lemma flush_seg_frame: "flush_seg (k\<lparr>k_xmit := x, k_state := y\<rparr>) resent rtomin s = flush_seg k resent rtomin s"
  by (rule flush_seg_cong) simp_all

text \<open>A pass over the send buffer changes only the counters \<open>xmit\<close> and \<open>state\<close> of the control block.\<close>

lemma flush_data_rep:
  assumes "cfg_ok k" "ob_rep (unat (k_mtu k)) segs ob" "\<forall>s \<in> set ss. seg_fits k s"
  shows "\<exists>x y l c ob1. flush_data wnd resent rtomin ss (k\<lparr>k_xmit := x0, k_state := y0\<rparr>, lost, change, ob) =
      Some (map (flushed_seg k wnd resent rtomin) ss, k\<lparr>k_xmit := x, k_state := y\<rparr>, l, c, ob1) \<and>
    ob_rep (unat (k_mtu k)) (segs @ map (flushed_seg k wnd resent rtomin) (filter (is_due k resent rtomin) ss)) ob1"
  using assms(2,3)
proof (induction ss arbitrary: segs ob x0 y0 lost change)
  case Nil
  then show ?case by auto
next
  case (Cons s ss)
  let ?k = "k\<lparr>k_xmit := x0, k_state := y0\<rparr>" and ?f = "flushed_seg k wnd resent rtomin"
  obtain s1 send l c where f: "flush_seg k resent rtomin s = (s1, send, l, c)" by (metis surj_pair)
  define x1 where "x1 = (if l then x0 + 1 else x0)"
  have rest: "\<forall>s \<in> set ss. seg_fits k s" using Cons.prems(2) by simp
  have k1: "(if l then ?k\<lparr>k_xmit := k_xmit ?k + 1\<rparr> else ?k) = k\<lparr>k_xmit := x1, k_state := y0\<rparr>"
    by (simp add: x1_def)
  show ?case
  proof (cases send)
    case False
    then have d: "?f s = s1" "\<not> is_due k resent rtomin s" by (simp_all add: flushed_seg_def is_due_def f)
    from Cons.IH [OF Cons.prems(1) rest, where ?x0.0 = x1 and ?y0.0 = y0 and lost = "lost \<or> l" and change = "change \<or> c"]
    obtain x y la ca ob1 where "flush_data wnd resent rtomin ss (k\<lparr>k_xmit := x1, k_state := y0\<rparr>, lost \<or> l, change \<or> c, ob) =
        Some (map ?f ss, k\<lparr>k_xmit := x, k_state := y\<rparr>, la, ca, ob1)"
      "ob_rep (unat (k_mtu k)) (segs @ map ?f (filter (is_due k resent rtomin) ss)) ob1" by blast
    then show ?thesis using False by (auto simp: flush_seg_frame f k1 d Let_def)
  next
    case True
    define s2 where "s2 = s1\<lparr>s_ts := k_current k, s_wnd := wnd, s_una := k_rcv_nxt k\<rparr>"
    have d: "?f s = s2" "is_due k resent rtomin s"
      using True by (simp_all add: flushed_seg_def is_due_def f s2_def)
    define y1 where "y1 = (if s_xmit s2 \<ge> k_dead_link k then -1 else y0)"
    have kk: "(if s_xmit s2 \<ge> k_dead_link (k\<lparr>k_xmit := x1, k_state := y0\<rparr>)
        then k\<lparr>k_xmit := x1, k_state := y0\<rparr>\<lparr>k_state := -1\<rparr> else k\<lparr>k_xmit := x1, k_state := y0\<rparr>)
        = k\<lparr>k_xmit := x1, k_state := y1\<rparr>" by (simp add: y1_def)
    have fit: "seg_fits k s2"
      using Cons.prems(2) d(1) flushed_seg_keeps(5,6) [of k wnd resent rtomin s]
      by (simp add: seg_fits_def seg_len_ok_def)
    then have len: "length (wire s2) = 24 + unat (s_len s2)" by (simp add: seg_fits_def length_wire)
    let ?k1 = "k\<lparr>k_xmit := x1, k_state := y0\<rparr>"
    have "cfg_ok ?k" using assms(1) by (simp add: cfg_ok_def)
    moreover have "ob_rep (unat (k_mtu ?k)) segs ob" using Cons.prems(1) by simp
    moreover have "sint (24 + s_len s2) = int (length (wire s2))" "length (wire s2) \<le> unat (k_mtu ?k)"
      using fits_need [OF assms(1) fit] len by simp_all
    ultimately have "\<exists>ob1. put ?k (sint (24 + s_len s2)) (ikcp_encode_seg s2 @ seg_bytes s2) ob = Some ob1 \<and>
        ob_rep (unat (k_mtu ?k)) (segs @ [s2]) ob1" by (rule put_rep) (rule wire_def [symmetric])
    then obtain ob1 where p:
      "put ?k (sint (24 + s_len s2)) (ikcp_encode_seg s2 @ seg_bytes s2) ob = Some ob1"
      "ob_rep (unat (k_mtu k)) (segs @ [s2]) ob1"
      by auto
    from Cons.IH [OF p(2) rest, where ?x0.0 = x1 and ?y0.0 = y1 and lost = "lost \<or> l" and change = "change \<or> c"]
    obtain x y la ca ob2 where "flush_data wnd resent rtomin ss (k\<lparr>k_xmit := x1, k_state := y1\<rparr>, lost \<or> l, change \<or> c, ob1) =
        Some (map ?f ss, k\<lparr>k_xmit := x, k_state := y\<rparr>, la, ca, ob2)"
      "ob_rep (unat (k_mtu k)) ((segs @ [s2]) @ map ?f (filter (is_due k resent rtomin) ss)) ob2" by blast
    moreover from this(1) True p(1) have "flush_data wnd resent rtomin (s # ss) (?k, lost, change, ob) =
        Some (map ?f (s # ss), k\<lparr>k_xmit := x, k_state := y\<rparr>, la, ca, ob2)"
      by (simp add: flush_seg_frame f k1 d Let_def flip: s2_def) (simp add: y1_def x1_def split: if_splits)
    moreover have "map ?f (filter (is_due k resent rtomin) (s # ss)) = s2 # map ?f (filter (is_due k resent rtomin) ss)"
      by (simp add: d)
    ultimately show ?thesis by auto
  qed
qed


section \<open>Taking segments from the queue\<close>

definition stamp :: "kcp \<Rightarrow> u32 \<Rightarrow> nat \<Rightarrow> seg \<Rightarrow> seg" where
  "stamp k wnd i s = s\<lparr>s_conv := k_conv k, s_cmd := IKCP_CMD_PUSH, s_wnd := wnd, s_ts := k_current k,
     s_sn := k_snd_nxt k + of_nat i, s_una := k_rcv_nxt k, s_resendts := k_current k,
     s_rto := k_rx_rto k, s_fastack := 0, s_xmit := 0\<rparr>"

fun stamps :: "kcp \<Rightarrow> u32 \<Rightarrow> nat \<Rightarrow> seg list \<Rightarrow> seg list" where
  "stamps k wnd i [] = []"
| "stamps k wnd i (s # ss) = stamp k wnd i s # stamps k wnd (Suc i) ss"

lemma length_stamps [simp]: "length (stamps k wnd i ss) = length ss"
  by (induction ss arbitrary: i) auto

lemma set_stamps: "x \<in> set (stamps k wnd i ss) \<Longrightarrow> \<exists>j s. s \<in> set ss \<and> x = stamp k wnd j s"
  by (induction ss arbitrary: i) (auto, blast)

definition moved :: "u32 \<Rightarrow> nat \<Rightarrow> kcp \<Rightarrow> kcp" where
  "moved wnd n k = k\<lparr>k_snd_buf := k_snd_buf k @ stamps k wnd 0 (take n (k_snd_queue k)),
     k_snd_queue := drop n (k_snd_queue k), k_nsnd_que := k_nsnd_que k - of_nat n,
     k_nsnd_buf := k_nsnd_buf k + of_nat n, k_snd_nxt := k_snd_nxt k + of_nat n\<rparr>"

lemma stamps_shift:
  assumes "k_conv k1 = k_conv k" "k_current k1 = k_current k" "k_rcv_nxt k1 = k_rcv_nxt k"
    "k_rx_rto k1 = k_rx_rto k" "k_snd_nxt k1 = k_snd_nxt k + 1"
  shows "stamps k1 wnd i ss = stamps k wnd (Suc i) ss"
  by (induction ss arbitrary: i) (simp_all add: stamp_def assms algebra_simps)

lemma move_snd_moved:
  "\<exists>n \<le> length ss. move_snd cwnd wnd ss k = moved wnd n (k\<lparr>k_snd_queue := ss\<rparr>) \<and>
     (n < length ss \<longrightarrow> itimediff (k_snd_nxt k + of_nat n) (k_snd_una k + cwnd) \<ge> 0) \<and>
     (\<forall>i < n. itimediff (k_snd_nxt k + of_nat i) (k_snd_una k + cwnd) < 0)"
proof (induction ss arbitrary: k)
  case Nil
  show ?case by (intro exI [of _ 0]) (simp add: moved_def)
next
  case (Cons s ss)
  show ?case
  proof (cases "itimediff (k_snd_nxt k) (k_snd_una k + cwnd) < 0")
    case False
    then show ?thesis by (intro exI [of _ 0]) (simp add: moved_def)
  next
    case True
    let ?s = "stamp k wnd 0 s"
    let ?k = "k\<lparr>k_snd_buf := k_snd_buf k @ [?s], k_nsnd_que := k_nsnd_que k - 1,
        k_nsnd_buf := k_nsnd_buf k + 1, k_snd_nxt := k_snd_nxt k + 1\<rparr>"
    from Cons.IH [of ?k] obtain n where n: "n \<le> length ss"
      "move_snd cwnd wnd ss ?k = moved wnd n (?k\<lparr>k_snd_queue := ss\<rparr>)"
      "n < length ss \<longrightarrow> itimediff (k_snd_nxt ?k + of_nat n) (k_snd_una k + cwnd) \<ge> 0"
      "\<forall>i < n. itimediff (k_snd_nxt ?k + of_nat i) (k_snd_una k + cwnd) < 0" by auto
    have "move_snd cwnd wnd (s # ss) k = move_snd cwnd wnd ss ?k"
      using True by (simp add: stamp_def)
    also have "\<dots> = moved wnd (Suc n) (k\<lparr>k_snd_queue := s # ss\<rparr>)"
    proof -
      have "stamps (?k\<lparr>k_snd_queue := ss\<rparr>) wnd 0 (take n ss) = stamps (k\<lparr>k_snd_queue := s # ss\<rparr>) wnd (Suc 0) (take n ss)"
        by (rule stamps_shift) simp_all
      then show ?thesis unfolding n(2) moved_def by (simp add: stamp_def algebra_simps)
    qed
    finally have m: "move_snd cwnd wnd (s # ss) k = moved wnd (Suc n) (k\<lparr>k_snd_queue := s # ss\<rparr>)" .
    have "\<forall>i < Suc n. itimediff (k_snd_nxt k + of_nat i) (k_snd_una k + cwnd) < 0"
      using n(4) True by (auto simp: less_Suc_eq_0_disj algebra_simps)
    with m n(1,3) show ?thesis by (intro exI [of _ "Suc n"]) (auto simp: algebra_simps)
  qed
qed


section \<open>The whole flush\<close>

definition flush_sg :: "kcp \<Rightarrow> seg" where
  "flush_sg k = last (flush_head k # ack_segs k 0 (unat (k_ackcount k)))"

definition probe_segs :: "kcp \<Rightarrow> seg list" where
  "probe_segs k = (let p = k_probe (flush_probe (k\<lparr>k_ackcount := 0\<rparr>)) in
     (if p AND IKCP_ASK_SEND \<noteq> 0 then [(flush_sg k)\<lparr>s_cmd := IKCP_CMD_WASK\<rparr>] else []) @
     (if p AND IKCP_ASK_TELL \<noteq> 0 then [(flush_sg k)\<lparr>s_cmd := IKCP_CMD_WINS\<rparr>] else []))"

definition flush_moved :: "kcp \<Rightarrow> kcp" where
  "flush_moved k = (let k2 = (flush_probe (k\<lparr>k_ackcount := 0\<rparr>))\<lparr>k_probe := 0\<rparr> in
     move_snd (flush_window k2) (ikcp_wnd_unused k) (k_snd_queue k2) k2)"

definition resent_of :: "kcp \<Rightarrow> u32" where
  "resent_of k = (if k_fastresend k > 0 then word_of_int (k_fastresend k) else 0xffffffff)"

definition rtomin_of :: "kcp \<Rightarrow> u32" where
  "rtomin_of k = (if k_nodelay k = 0 then word_of_int (sint (k_rx_rto k) div 8) else 0)"

abbreviation flushed_of :: "kcp \<Rightarrow> kcp \<Rightarrow> seg \<Rightarrow> seg" where
  "flushed_of k k3 \<equiv> flushed_seg k3 (ikcp_wnd_unused k) (resent_of k3) (rtomin_of k3)"

definition data_segs :: "kcp \<Rightarrow> seg list" where
  "data_segs k = (let k3 = flush_moved k in
     map (flushed_of k k3) (filter (is_due k3 (resent_of k3) (rtomin_of k3)) (k_snd_buf k3)))"

definition flush_segs :: "kcp \<Rightarrow> seg list" where
  "flush_segs k = ack_segs k 0 (unat (k_ackcount k)) @ probe_segs k @ data_segs k"

lemma cfg_ok_upd [simp]:
  "cfg_ok (k\<lparr>k_ackcount := a\<rparr>) = cfg_ok k" "cfg_ok (k\<lparr>k_probe := b\<rparr>) = cfg_ok k"
  "cfg_ok (k\<lparr>k_xmit := c\<rparr>) = cfg_ok k" "cfg_ok (k\<lparr>k_state := c\<rparr>) = cfg_ok k"
  by (simp_all add: cfg_ok_def)

lemma flush_probe_keeps:
  "k_mtu (flush_probe k) = k_mtu k" "cfg_of (flush_probe k) = cfg_of k" "snd_of (flush_probe k) = snd_of k"
  "rcv_of (flush_probe k) = rcv_of k" "ack_of (flush_probe k) = ack_of k"
  "k_snd_nxt (flush_probe k) = k_snd_nxt k" "k_stream (flush_probe k) = k_stream k"
  by (simp_all add: flush_probe_def parts_def Let_def)

lemma flush_sg_head:
  "\<exists>a b. flush_sg k = (flush_head k)\<lparr>s_sn := a, s_ts := b\<rparr>"
proof (cases "unat (k_ackcount k)")
  case 0
  then have "flush_sg k = (flush_head k)\<lparr>s_sn := 0, s_ts := 0\<rparr>"
    by (simp add: flush_sg_def ack_segs_def flush_head_def segment_new_def)
  then show ?thesis by blast
next
  case (Suc n)
  then show ?thesis by (auto simp: flush_sg_def ack_segs_def last_map)
qed

lemma moved_fits:
  assumes "snd_ok k"
  shows "\<forall>s \<in> set (k_snd_buf (moved wnd n k)). seg_fits k s \<and> s_conv s = k_conv k \<and> s_cmd s = IKCP_CMD_PUSH"
  using assms by (auto simp: moved_def snd_ok_def stamp_def seg_fits_def seg_len_ok_def dest!: set_stamps in_set_takeD)

definition flush_start :: "kcp \<Rightarrow> kcp" where
  "flush_start k = (flush_probe (k\<lparr>k_ackcount := 0\<rparr>))\<lparr>k_probe := 0\<rparr>"

lemma flush_start_keeps:
  "k_mtu (flush_start k) = k_mtu k" "cfg_of (flush_start k) = cfg_of k" "snd_of (flush_start k) = snd_of k"
  "rcv_of (flush_start k) = rcv_of k" "k_acklist (flush_start k) = k_acklist k"
  "k_ackblock (flush_start k) = k_ackblock k" "k_ackcount (flush_start k) = 0"
  "k_snd_nxt (flush_start k) = k_snd_nxt k" "k_stream (flush_start k) = k_stream k"
  using flush_probe_keeps [of "k\<lparr>k_ackcount := 0\<rparr>"] by (simp_all add: flush_start_def parts_def)

lemma queue_idem: "k\<lparr>k_snd_queue := k_snd_queue k\<rparr> = k"
  by simp

lemma flush_moved_eq:
  obtains n where "n \<le> length (k_snd_queue k)" "flush_moved k = moved (ikcp_wnd_unused k) n (flush_start k)"
proof -
  have q: "k_snd_queue (flush_start k) = k_snd_queue k"
    using flush_start_keeps(3) [of k] by (simp add: snd_of_def)
  from move_snd_moved [of "k_snd_queue (flush_start k)" "flush_window (flush_start k)" "ikcp_wnd_unused k" "flush_start k"]
  obtain n where "n \<le> length (k_snd_queue k)"
    "move_snd (flush_window (flush_start k)) (ikcp_wnd_unused k) (k_snd_queue (flush_start k)) (flush_start k) =
       moved (ikcp_wnd_unused k) n (flush_start k)"
    unfolding q queue_idem [of "flush_start k", unfolded q] by blast
  with that show thesis by (simp add: flush_moved_def Let_def flip: flush_start_def)
qed

lemma flush_moved_keeps:
  "cfg_of (flush_moved k) = cfg_of k" "rcv_of (flush_moved k) = rcv_of k" "k_conv (flush_moved k) = k_conv k"
  "k_acklist (flush_moved k) = k_acklist k" "k_ackblock (flush_moved k) = k_ackblock k"
  "k_ackcount (flush_moved k) = 0" "k_stream (flush_moved k) = k_stream k"
proof -
  from flush_moved_eq [of k] obtain n where m: "flush_moved k = moved (ikcp_wnd_unused k) n (flush_start k)" by blast
  show "cfg_of (flush_moved k) = cfg_of k" "rcv_of (flush_moved k) = rcv_of k" "k_conv (flush_moved k) = k_conv k"
    "k_acklist (flush_moved k) = k_acklist k" "k_ackblock (flush_moved k) = k_ackblock k"
    "k_ackcount (flush_moved k) = 0" "k_stream (flush_moved k) = k_stream k"
    unfolding m using flush_start_keeps [of k] by (simp_all add: moved_def parts_def)
qed

lemma flush_moved_fits:
  assumes "snd_ok k" "cfg_ok k"
  shows "\<forall>s \<in> set (k_snd_buf (flush_moved k)).
    seg_fits (flush_moved k) s \<and> s_conv s = k_conv k \<and> s_cmd s = IKCP_CMD_PUSH"
proof -
  from flush_moved_eq [of k] obtain n where m: "flush_moved k = moved (ikcp_wnd_unused k) n (flush_start k)" by blast
  have "snd_ok (flush_start k)" using assms(1) snd_ok_cong flush_start_keeps(3) by blast
  from moved_fits [OF this, of "ikcp_wnd_unused k" n] show ?thesis
    unfolding m using flush_start_keeps(3) [of k] by (simp add: moved_def seg_fits_def snd_of_def)
qed

text \<open>The first three steps of a flush write the acknowledgements and the probes.\<close>

lemma flush_control_rep:
  assumes "kcp_ok k"
  defines "k1 \<equiv> flush_probe (k\<lparr>k_ackcount := 0\<rparr>)"
  obtains ob1 so2 sg3 ob3 where
    "flush_acks k (flush_head k) 0 (nat (sint (k_ackcount k))) ([], []) = Some (flush_sg k, ob1)"
    "flush_cmd k1 IKCP_ASK_SEND IKCP_CMD_WASK (flush_sg k, ob1) = Some so2"
    "flush_cmd k1 IKCP_ASK_TELL IKCP_CMD_WINS so2 = Some (sg3, ob3)"
    "s_wnd sg3 = ikcp_wnd_unused k"
    "ob_rep (unat (k_mtu k)) (ack_segs k 0 (unat (k_ackcount k)) @ probe_segs k) ob3"
proof -
  let ?m = "unat (k_mtu k)" and ?w = "ikcp_wnd_unused k"
  have cfg: "cfg_ok k" using assms(1) by (simp add: kcp_ok_def)
  have mtu: "k_mtu k1 = k_mtu k" and c1: "cfg_ok k1"
    using flush_probe_keeps(1,2) [of "k\<lparr>k_ackcount := 0\<rparr>"] cfg cfg_ok_cong [of k1 "k\<lparr>k_ackcount := 0\<rparr>"]
    by (simp_all add: k1_def)
  have cnt: "nat (sint (k_ackcount k)) = unat (k_ackcount k)"
    using assms(1) by (subst sint_nonneg_u32) (auto simp: kcp_ok_def ack_ok_def)
  have len0: "s_len (flush_sg k) = 0" and wnd: "s_wnd (flush_sg k) = ?w"
    using flush_sg_head [of k] by (auto simp: flush_head_def segment_new_def)
  have h: "flush_head k = (flush_head k)\<lparr>s_sn := 0, s_ts := 0\<rparr>" by (simp add: flush_head_def segment_new_def)
  obtain ob1 where a: "flush_acks k (flush_head k) 0 (unat (k_ackcount k)) ([], []) = Some (flush_sg k, ob1)"
    "ob_rep ?m (ack_segs k 0 (unat (k_ackcount k))) ob1"
    using flush_acks_rep [OF cfg ob_rep_nil h, of 0 "unat (k_ackcount k)"] by (auto simp: flush_sg_def)
  let ?p = "\<lambda>flag. k_probe k1 AND flag \<noteq> 0"
  from flush_cmd_rep [OF c1, unfolded mtu, OF a(2) len0, of IKCP_ASK_SEND IKCP_CMD_WASK] obtain sg2 ob2 where
    b: "flush_cmd k1 IKCP_ASK_SEND IKCP_CMD_WASK (flush_sg k, ob1) = Some (sg2, ob2)"
    "sg2 = (if ?p IKCP_ASK_SEND then (flush_sg k)\<lparr>s_cmd := IKCP_CMD_WASK\<rparr> else flush_sg k)"
    "ob_rep ?m (ack_segs k 0 (unat (k_ackcount k)) @ (if ?p IKCP_ASK_SEND then [sg2] else [])) ob2"
    by blast
  have len2: "s_len sg2 = 0" using len0 b(2) by simp
  from flush_cmd_rep [OF c1, unfolded mtu, OF b(3) len2, of IKCP_ASK_TELL IKCP_CMD_WINS] obtain sg3 ob3 where
    c: "flush_cmd k1 IKCP_ASK_TELL IKCP_CMD_WINS (sg2, ob2) = Some (sg3, ob3)"
    "sg3 = (if ?p IKCP_ASK_TELL then sg2\<lparr>s_cmd := IKCP_CMD_WINS\<rparr> else sg2)"
    "ob_rep ?m ((ack_segs k 0 (unat (k_ackcount k)) @ (if ?p IKCP_ASK_SEND then [sg2] else [])) @
       (if ?p IKCP_ASK_TELL then [sg3] else [])) ob3"
    by blast
  have "(if ?p IKCP_ASK_SEND then [sg2] else []) @ (if ?p IKCP_ASK_TELL then [sg3] else []) = probe_segs k"
    by (auto simp: probe_segs_def b(2) c(2) Let_def simp flip: k1_def)
  then have ob: "ob_rep ?m (ack_segs k 0 (unat (k_ackcount k)) @ probe_segs k) ob3" using c(3) by simp
  have "s_wnd sg3 = ?w" using wnd b(2) c(2) by simp
  from that [OF a(1) [folded cnt] b(1) c(1) this ob] show thesis .
qed

text \<open>
  \<open>ikcp_flush\<close> succeeds; its packets hold exactly the segments \<open>flush_segs\<close>, and the state differs
  from the one after the move only by the stamps of the sent segments and the congestion window.
\<close>

lemma flush_rep:
  assumes "kcp_ok k" "k_updated k \<noteq> 0"
  shows "\<exists>outs x y l c. ikcp_flush k = Some (flush_cwnd ((flush_moved k)\<lparr>k_xmit := x, k_state := y,
      k_snd_buf := map (flushed_of k (flush_moved k)) (k_snd_buf (flush_moved k))\<rparr>)
      l c (resent_of (flush_moved k)) (flush_window (flush_start k)), outs) \<and>
    packets_of (unat (k_mtu k)) (flush_segs k) outs"
proof -
  let ?m = "unat (k_mtu k)" and ?k3 = "flush_moved k" and ?w = "ikcp_wnd_unused k"
  have cfg: "cfg_ok k" "snd_ok k" using assms(1) by (simp_all add: kcp_ok_def)
  define k1 where "k1 = flush_probe (k\<lparr>k_ackcount := 0\<rparr>)"
  from flush_control_rep [OF assms(1), folded k1_def] obtain ob1 so2 sg3 ob3 where
    ctl: "flush_acks k (flush_head k) 0 (nat (sint (k_ackcount k))) ([], []) = Some (flush_sg k, ob1)"
    "flush_cmd k1 IKCP_ASK_SEND IKCP_CMD_WASK (flush_sg k, ob1) = Some so2"
    "flush_cmd k1 IKCP_ASK_TELL IKCP_CMD_WINS so2 = Some (sg3, ob3)" "s_wnd sg3 = ?w"
    and ob3: "ob_rep ?m (ack_segs k 0 (unat (k_ackcount k)) @ probe_segs k) ob3" by blast
  have k3: "move_snd (flush_window (k1\<lparr>k_probe := 0\<rparr>)) ?w (k_snd_queue k1) (k1\<lparr>k_probe := 0\<rparr>) = ?k3"
    by (simp add: flush_moved_def Let_def k1_def)
  have m3: "unat (k_mtu ?k3) = ?m" and c3: "cfg_ok ?k3"
    using flush_moved_keeps(1) [of k] cfg(1) cfg_ok_cong [of ?k3 k] by (simp_all add: cfg_of_def)
  have fits: "\<forall>s \<in> set (k_snd_buf ?k3). seg_fits ?k3 s" using flush_moved_fits [OF cfg(2,1)] by blast
  from flush_data_rep [OF c3, unfolded m3, OF ob3 fits, where ?x0.0 = "k_xmit ?k3" and ?y0.0 = "k_state ?k3" and wnd = ?w
    and resent = "resent_of ?k3" and rtomin = "rtomin_of ?k3" and lost = False and change = False]
  obtain x y l c pend outs where
    d: "flush_data ?w (resent_of ?k3) (rtomin_of ?k3) (k_snd_buf ?k3) (?k3, False, False, ob3) =
       Some (map (flushed_of k ?k3) (k_snd_buf ?k3), ?k3\<lparr>k_xmit := x, k_state := y\<rparr>, l, c, pend, outs)"
    "ob_rep ?m (flush_segs k) (pend, outs)"
    by (auto simp: flush_segs_def data_segs_def Let_def)
  from packets_of_output [OF d(2)] show ?thesis
    using assms(2) by (simp add: ikcp_flush_def ctl k3 Let_def d(1) resent_of_def [symmetric]
      rtomin_of_def [symmetric] flush_start_def flip: k1_def) blast
qed

end
