(* ===== verification/Kcp_Sender.thy ===== *)
theory Kcp_Sender
  imports Kcp_Packets
begin

text \<open>
  The sending side keeps the invariant: \<open>ikcp_flush\<close>, \<open>ikcp_update\<close> and \<open>ikcp_send\<close> of
  \<^verbatim>\<open>src/depends/lua-kcp/kcp/ikcp.c\<close>, with the cutting of a message into fragments.
\<close>

section \<open>Flushing and timing\<close>

lemma flush_cwnd_keeps:
  "cfg_of (flush_cwnd k l c r w) = cfg_of k" "snd_of (flush_cwnd k l c r w) = snd_of k"
  "rcv_of (flush_cwnd k l c r w) = rcv_of k" "ack_of (flush_cwnd k l c r w) = ack_of k"
  "k_snd_nxt (flush_cwnd k l c r w) = k_snd_nxt k" "k_stream (flush_cwnd k l c r w) = k_stream k"
  "k_updated (flush_cwnd k l c r w) = k_updated k" "k_rcv_wnd (flush_cwnd k l c r w) = k_rcv_wnd k"
  by (simp_all add: flush_cwnd_def parts_def Let_def)

lemma moved_ok:
  assumes "snd_ok k" "n \<le> length (k_snd_queue k)"
  shows "snd_ok (moved wnd n k)"
proof -
  let ?k = "moved wnd n k"
  have "\<forall>s \<in> set (k_snd_queue ?k). seg_fits ?k s"
    using assms(1) by (auto simp: snd_ok_def moved_def seg_fits_def dest: in_set_dropD)
  moreover have "seg_fits ?k = seg_fits k" "k_conv ?k = k_conv k" by (simp_all add: fun_eq_iff seg_fits_def moved_def)
  moreover have "k_nsnd_que ?k = of_nat (length (k_snd_queue ?k))" "k_nsnd_buf ?k = of_nat (length (k_snd_buf ?k))"
    using assms by (simp_all add: snd_ok_def moved_def of_nat_diff)
  ultimately show ?thesis using moved_fits [OF assms(1), of wnd n] by (simp add: snd_ok_def)
qed

lemma flushed_ok:
  assumes "snd_ok k"
  shows "snd_ok (k\<lparr>k_xmit := x, k_state := y, k_snd_buf := map (flushed_seg k3 w r m) (k_snd_buf k)\<rparr>)"
  using assms by (auto simp: snd_ok_def seg_fits_def seg_len_ok_def)

text \<open>The parts of the state after a flush.\<close>

lemma flush_parts:
  assumes "kcp_ok k" "ikcp_flush k = Some (k1, outs)" "k_updated k \<noteq> 0"
  shows "cfg_of k1 = cfg_of k" "rcv_of k1 = rcv_of k" "k_conv k1 = k_conv k" "k_stream k1 = k_stream k"
    "k_snd_queue k1 = k_snd_queue (flush_moved k)"
    "k_snd_buf k1 = map (flushed_of k (flush_moved k)) (k_snd_buf (flush_moved k))"
    "k_snd_nxt k1 = k_snd_nxt (flush_moved k)" "k_ackcount k1 = 0" "kcp_ok k1"
    "packets_of (unat (k_mtu k)) (flush_segs k) outs"
proof -
  let ?k3 = "flush_moved k"
  from flush_rep [OF assms(1,3)] assms(2) obtain x y l c where
    k1: "k1 = flush_cwnd (?k3\<lparr>k_xmit := x, k_state := y, k_snd_buf := map (flushed_of k ?k3) (k_snd_buf ?k3)\<rparr>)
      l c (resent_of ?k3) (flush_window (flush_start k))" (is "_ = flush_cwnd ?k4 _ _ _ _")
    and p: "packets_of (unat (k_mtu k)) (flush_segs k) outs" by auto
  note fc = flush_cwnd_keeps [of ?k4 l c "resent_of ?k3" "flush_window (flush_start k)", folded k1]
  note keeps = flush_moved_keeps [of k]
  show "cfg_of k1 = cfg_of k" using fc(1) keeps(1) by (simp add: cfg_of_def)
  show "rcv_of k1 = rcv_of k" using fc(3) keeps(2) by (simp add: rcv_of_def)
  show "k_conv k1 = k_conv k" using fc(2) keeps(3) by (simp add: snd_of_def)
  show "k_stream k1 = k_stream k" using fc(6) keeps(7) by simp
  show "k_snd_queue k1 = k_snd_queue ?k3" "k_snd_buf k1 = map (flushed_of k ?k3) (k_snd_buf ?k3)"
    using fc(2) by (simp_all add: snd_of_def)
  show "k_snd_nxt k1 = k_snd_nxt ?k3" using fc(5) by simp
  show "packets_of (unat (k_mtu k)) (flush_segs k) outs" by (fact p)
  have a: "k_ackcount k1 = 0" "k_acklist k1 = k_acklist k" "k_ackblock k1 = k_ackblock k"
    using fc(4) keeps(4-6) by (simp_all add: ack_of_def)
  show "k_ackcount k1 = 0" by (fact a(1))
  have k: "cfg_ok k" "snd_ok k" "rcv_ok k" "ack_ok k" using assms(1) by (simp_all add: kcp_ok_def)
  from flush_moved_eq [of k] obtain n where n: "n \<le> length (k_snd_queue k)"
    "?k3 = moved (ikcp_wnd_unused k) n (flush_start k)" by blast
  have "snd_ok (flush_start k)" using k(2) snd_ok_cong flush_start_keeps(3) by blast
  moreover have "k_snd_queue (flush_start k) = k_snd_queue k"
    using flush_start_keeps(3) [of k] by (simp add: snd_of_def)
  ultimately have "snd_ok ?k3" using n moved_ok by metis
  then have "snd_ok ?k4" by (rule flushed_ok)
  then have s: "snd_ok k1" using snd_ok_cong [OF fc(2)] by simp
  have "ack_ok k1" using k(4) by (simp add: ack_ok_def a)
  then show "kcp_ok k1"
    using s k cfg_ok_cong [OF \<open>cfg_of k1 = cfg_of k\<close>] rcv_ok_cong [OF \<open>rcv_of k1 = rcv_of k\<close>]
    by (simp add: kcp_ok_def)
qed

lemma flush_total:
  assumes "kcp_ok k"
  obtains k1 outs where "ikcp_flush k = Some (k1, outs)" "kcp_ok k1"
proof (cases "k_updated k = 0")
  case True
  then show thesis using that assms by (simp add: ikcp_flush_def)
next
  case False
  then show thesis using flush_rep [OF assms False] flush_parts(9) [OF assms _ False] that by blast
qed

lemma update_slap_keeps:
  assumes "update_slap k t = (k1, d)"
  shows "cfg_of k1 = cfg_of k" "snd_of k1 = snd_of k" "rcv_of k1 = rcv_of k" "ack_of k1 = ack_of k"
    "k_snd_nxt k1 = k_snd_nxt k" "k_stream k1 = k_stream k" "k_updated k1 \<noteq> 0" "k_rcv_wnd k1 = k_rcv_wnd k"
proof -
  have k1: "k1 = fst (update_slap k t)" by (simp add: assms)
  show "cfg_of k1 = cfg_of k" "snd_of k1 = snd_of k" "rcv_of k1 = rcv_of k" "ack_of k1 = ack_of k"
    "k_snd_nxt k1 = k_snd_nxt k" "k_stream k1 = k_stream k" "k_updated k1 \<noteq> 0" "k_rcv_wnd k1 = k_rcv_wnd k"
    unfolding k1 by (simp_all add: update_slap_def parts_def Let_def)
qed

lemma update_slap_ok: "update_slap k t = (k1, d) \<Longrightarrow> kcp_ok k \<Longrightarrow> kcp_ok k1"
  using update_slap_keeps [of k t k1 d] kcp_ok_cong by blast

lemma ts_flush_ok [simp]: "kcp_ok (k\<lparr>k_ts_flush := t\<rparr>) = kcp_ok k"
  by (rule kcp_ok_cong) (simp_all add: parts_def)

lemma update_total:
  assumes "kcp_ok k"
  obtains k1 outs where "ikcp_update k t = Some (k1, outs)" "kcp_ok k1"
proof -
  obtain k2 d where s: "update_slap k t = (k2, d)" by fastforce
  have ok: "kcp_ok k2" using update_slap_ok [OF s assms] .
  show thesis
  proof (cases "0 \<le> d")
    case False
    then show thesis using that s ok by (simp add: ikcp_update_def)
  next
    case True
    define t1 where "t1 = (if 0 \<le> itimediff t (k_ts_flush k2 + k_interval k2) then t + k_interval k2
      else k_ts_flush k2 + k_interval k2)"
    from flush_total [of "k2\<lparr>k_ts_flush := t1\<rparr>"] ok obtain k1 outs where
      "ikcp_flush (k2\<lparr>k_ts_flush := t1\<rparr>) = Some (k1, outs)" "kcp_ok k1" by auto
    then show thesis using that True s by (simp add: ikcp_update_def t1_def Let_def)
  qed
qed

section \<open>Sending\<close>

text \<open>The fragments of a message: numbers that count down, and the pieces of at most \<open>mss\<close> bytes.\<close>

fun frag_list :: "nat \<Rightarrow> nat \<Rightarrow> u8 list \<Rightarrow> (u32 \<times> u8 list) list" where
  "frag_list mss 0 bs = []"
| "frag_list mss (Suc n) bs = (of_nat n, take mss bs) # frag_list mss n (drop mss bs)"

definition frag_seg :: "int \<Rightarrow> u32 \<times> u8 list \<Rightarrow> seg" where
  "frag_seg stream f = segment_new\<lparr>s_len := of_nat (length (snd f)), s_data := snd f,
     s_frg := (if stream = 0 then fst f else 0)\<rparr>"

lemma concat_frag_list: "concat (map snd (frag_list mss n bs)) = take (n * mss) bs"
  by (induction n arbitrary: bs) (simp_all add: take_add)

lemma length_frag_list [simp]: "length (frag_list mss n bs) = n"
  by (induction n arbitrary: bs) simp_all

lemma send_frags_eq:
  assumes "cfg_ok k"
  shows "send_frags n k bs = k\<lparr>k_snd_queue := k_snd_queue k @ map (frag_seg (k_stream k)) (frag_list (unat (k_mss k)) n bs),
     k_nsnd_que := k_nsnd_que k + of_nat n\<rparr>"
  using assms
proof (induction n arbitrary: k bs)
  case (Suc n)
  let ?m = "unat (k_mss k)" and ?s = "frag_seg (k_stream k) (of_nat n, take (unat (k_mss k)) bs)"
  have size: "(if int (length bs) > sint (k_mss k) then ?m else length bs) = min (length bs) ?m"
    by (simp only: cfg_sint_mss [OF Suc.prems] of_nat_less_iff) auto
  have tk: "take (min (length bs) ?m) bs = take ?m bs" by (metis take_all_iff min.commute min_def nle_le)
  have dr: "drop (min (length bs) ?m) bs = drop ?m bs" by (simp add: min_def)
  have "send_frags (Suc n) k bs =
      send_frags n (k\<lparr>k_snd_queue := k_snd_queue k @ [?s], k_nsnd_que := k_nsnd_que k + 1\<rparr>) (drop ?m bs)"
    by (simp only: send_frags.simps Let_def size tk dr) (simp add: frag_seg_def)
  also have "cfg_ok (k\<lparr>k_snd_queue := k_snd_queue k @ [?s], k_nsnd_que := k_nsnd_que k + 1\<rparr>)"
    using Suc.prems by (simp add: cfg_ok_def)
  note Suc.IH [OF this]
  finally show ?case by (simp add: algebra_simps)
qed simp

lemma frag_seg_fits:
  assumes "cfg_ok k" "f \<in> set (frag_list (unat (k_mss k)) n bs)"
  shows "seg_fits k (frag_seg st f)"
proof -
  have "length (snd f) \<le> unat (k_mss k)" using assms(2)
    by (induction n arbitrary: bs) auto
  moreover have "unat (k_mss k) \<le> 1073741824" using cfg_mss [OF assms(1)] assms(1) by (simp add: cfg_ok_def)
  ultimately show ?thesis
    by (simp add: seg_fits_def seg_len_ok_def frag_seg_def word_le_nat_alt unat_of_nat take_bit_nat_eq_self)
qed


text \<open>How many fragments a message takes.\<close>

definition frag_count :: "nat \<Rightarrow> nat \<Rightarrow> nat" where
  "frag_count mss n = (if n = 0 then 1 else (n + mss - 1) div mss)"

lemma frag_count_enough: "0 < mss \<Longrightarrow> n \<le> frag_count mss n * mss"
proof -
  assume m: "0 < mss"
  have "n + mss - 1 < (n + mss - 1) div mss * mss + mss"
    using m by (metis dividend_less_div_times add.commute)
  then show ?thesis using m by (auto simp: frag_count_def)
qed

lemma send_count_eq:
  assumes "cfg_ok k" "length bs < 2147483648"
  shows "(if send_count k bs = 0 then 1 else send_count k bs) = int (frag_count (unat (k_mss k)) (length bs))"
proof -
  let ?m = "unat (k_mss k)"
  have m: "0 < ?m" "?m \<le> 1073741824"
    using cfg_mss_pos [OF assms(1)] cfg_mss [OF assms(1)] assms(1) unfolding cfg_ok_def by linarith+
  have cond: "int (length bs) \<le> sint (k_mss k) \<longleftrightarrow> length bs \<le> ?m"
    by (simp only: cfg_sint_mss [OF assms(1)] of_nat_le_iff)
  show ?thesis
  proof (cases "length bs \<le> ?m")
    case True
    moreover have "(length bs + ?m - 1) div ?m = 1" if "length bs \<noteq> 0"
    proof (rule div_nat_eqI)
      show "?m * 1 \<le> length bs + ?m - 1" using that by linarith
      show "length bs + ?m - 1 < ?m * Suc 1" using True m(1) by simp
    qed
    ultimately have "frag_count ?m (length bs) = 1" by (auto simp: frag_count_def)
    then show ?thesis using True cond by (simp add: send_count_def)
  next
    case False
    have s: "unat (of_nat (length bs) + k_mss k :: u32) = length bs + ?m"
      using assms(2) m by (subst unat_word_ariths) (simp add: unat_of_nat take_bit_nat_eq_self)
    have u: "unat (of_nat (length bs) + k_mss k - 1 :: u32) = length bs + ?m - 1"
      using m by (subst unat_sub) (simp_all add: word_le_nat_alt s)
    have d: "unat ((of_nat (length bs) + k_mss k - 1 :: u32) div k_mss k) = (length bs + ?m - 1) div ?m"
      by (simp only: unat_div u)
    have le: "(length bs + ?m - 1) div ?m \<le> length bs + ?m - 1" by (rule div_le_dividend)
    have big: "(length bs + ?m - 1) div ?m < 2147483648"
    proof -
      have "2 \<le> ?m" using cfg_mss [OF assms(1)] assms(1) by (simp add: cfg_ok_def)
      then have "(length bs + ?m - 1) div ?m \<le> (length bs + ?m - 1) div 2" by (rule div_le_mono2 [rotated]) simp
      also have "\<dots> < 2147483648" using assms(2) m(2) by simp
      finally show ?thesis .
    qed
    have "send_count k bs = int ((length bs + ?m - 1) div ?m)"
      using False cond d big by (simp only: send_count_def if_False sint_nonneg_u32)
    moreover have "0 < (length bs + ?m - 1) div ?m" using False m(1) by (simp add: div_greater_zero_iff)
    moreover have "frag_count ?m (length bs) = (length bs + ?m - 1) div ?m" using False by (auto simp: frag_count_def)
    ultimately show ?thesis by simp
  qed
qed

text \<open>A whole message is queued, or none of it.\<close>

lemma send_message:
  assumes "cfg_ok k" "k_stream k = 0" "length bs < 2147483648"
  defines "n \<equiv> frag_count (unat (k_mss k)) (length bs)"
  shows "ikcp_send k bs (int (length bs)) =
    (if n \<ge> 128 then Some (k, -2)
     else Some (k\<lparr>k_snd_queue := k_snd_queue k @ map (frag_seg 0) (frag_list (unat (k_mss k)) n bs),
            k_nsnd_que := k_nsnd_que k + of_nat n\<rparr>, 0))"
proof -
  have nz: "k_mss k \<noteq> 0" using cfg_mss_pos [OF assms(1)] by auto
  note c = send_count_eq [OF assms(1,3), folded n_def]
  then have ge: "send_count k bs \<ge> 128 \<longleftrightarrow> n \<ge> 128" by (auto split: if_splits)
  have cnt: "nat (if send_count k bs = 0 then 1 else send_count k bs) = n" by (simp only: c nat_int)
  show ?thesis
    using nz by (simp only: ikcp_send_def assms(2) Let_def if_False if_True prod.case nat_int take_all
      simp_thms send_frags_eq [OF assms(1)] cnt ge le_refl) simp
qed

lemma send_frags_ok:
  assumes "kcp_ok k"
  shows "kcp_ok (send_frags n k bs)"
proof -
  have c: "cfg_ok k" "snd_ok k" "rcv_ok k" "ack_ok k" using assms by (simp_all add: kcp_ok_def)
  let ?k = "send_frags n k bs"
  have "snd_ok ?k"
    using c(2) frag_seg_fits [OF c(1), of _ n bs] unfolding send_frags_eq [OF c(1)]
    by (auto simp: snd_ok_def seg_fits_def)
  moreover have "cfg_of ?k = cfg_of k" "rcv_of ?k = rcv_of k" "ack_of ?k = ack_of k"
    unfolding send_frags_eq [OF c(1)] by (simp_all add: parts_def)
  ultimately show ?thesis using c cfg_ok_cong rcv_ok_cong ack_ok_cong by (metis kcp_ok_def)
qed

lemma send_stream_ok:
  assumes "kcp_ok k" "send_stream k bs = (k1, bs1)"
  shows "kcp_ok k1"
proof (cases "k_snd_queue k = [] \<or> \<not> s_len (last (k_snd_queue k)) < k_mss k")
  case True
  then have "k1 = k" using assms(2) unfolding send_stream_def Let_def by (metis fst_conv)
  then show ?thesis using assms(1) by simp
next
  case False
  let ?old = "last (k_snd_queue k)"
  let ?cap = "unat (k_mss k - s_len ?old)"
  define e where "e = min (length bs) ?cap"
  define s where "s = segment_new\<lparr>s_len := s_len ?old + of_nat e, s_frg := 0,
    s_data := take (unat (s_len ?old)) (s_data ?old) @ take e bs\<rparr>"
  have k1: "k1 = k\<lparr>k_snd_queue := butlast (k_snd_queue k) @ [s]\<rparr>"
    using assms(2) False by (auto simp: send_stream_def Let_def s_def e_def min_def split: if_splits)
  have c: "cfg_ok k" "snd_ok k" "rcv_ok k" "ack_ok k" using assms(1) by (simp_all add: kcp_ok_def)
  have old: "seg_len_ok ?old" using c(2) False last_in_set by (auto simp: snd_ok_def seg_fits_def)
  have cap: "unat (s_len ?old) + ?cap = unat (k_mss k)"
    using False by (simp add: unat_sub less_imp_le word_less_nat_alt)
  have mss: "unat (k_mss k) \<le> 1073741824" using cfg_mss [OF c(1)] c(1) by (simp add: cfg_ok_def)
  have el: "e \<le> ?cap" "e \<le> length bs" by (simp_all add: e_def)
  have len: "unat (s_len s) = unat (s_len ?old) + e"
    unfolding s_def using el cap mss
    by (simp, subst unat_word_ariths) (simp add: unat_of_nat take_bit_nat_eq_self)
  have "seg_fits k s"
    using len el cap mss old by (simp add: seg_fits_def seg_len_ok_def word_le_nat_alt) (simp add: s_def)
  then have "snd_ok k1"
    using c(2) False unfolding k1 by (auto simp: snd_ok_def seg_fits_def dest: in_set_butlastD)
  moreover have "cfg_of k1 = cfg_of k" "rcv_of k1 = rcv_of k" "ack_of k1 = ack_of k"
    unfolding k1 by (simp_all add: parts_def)
  ultimately show ?thesis using c cfg_ok_cong rcv_ok_cong ack_ok_cong by (metis kcp_ok_def)
qed

lemma send_total:
  assumes "kcp_ok k"
  obtains k1 r where "ikcp_send k buffer len = Some (k1, r)" "kcp_ok k1"
proof -
  have nz: "k_mss k \<noteq> 0" using assms cfg_mss_pos [of k] by (auto simp: kcp_ok_def)
  obtain k2 bs2 where s: "(if k_stream k \<noteq> 0 then send_stream k (take (nat len) buffer) else (k, take (nat len) buffer)) = (k2, bs2)"
    by fastforce
  have "kcp_ok k2" using s assms send_stream_ok by (auto split: if_splits)
  then have "\<exists>k1 r. ikcp_send k buffer len = Some (k1, r) \<and> kcp_ok k1"
    unfolding ikcp_send_def Let_def s prod.case using nz assms send_frags_ok
    by (simp split del: if_split cong: if_cong) (metis (full_types))
  then show thesis using that by blast
qed

end
