(* ===== verification/Kcp_Receiver.thy ===== *)
theory Kcp_Receiver
  imports Kcp_Sender
begin

text \<open>
  The receiving side keeps the invariant: \<open>ikcp_recv\<close> and \<open>ikcp_input\<close> of
  \<^verbatim>\<open>src/depends/lua-kcp/kcp/ikcp.c\<close>, the handling of acknowledgements and the settings.
\<close>

section \<open>Receiving\<close>

lemma merge_loop_rest:
  "merge_loop ss n = (bs, m, used, rest) \<Longrightarrow> rest = drop used ss \<and> used \<le> length ss \<and> m = peek_loop ss n"
proof (induction ss arbitrary: n bs m used rest)
  case (Cons s ss)
  obtain bs1 m1 used1 rest1 where r: "merge_loop ss (n + s_len s) = (bs1, m1, used1, rest1)" by (metis surj_pair)
  from Cons.IH [OF r] Cons.prems show ?case by (cases "s_frg s = 0") (auto simp: r)
qed simp

text \<open>\<open>move_ready\<close> takes the segments with the next numbers from the buffer to the queue.\<close>

definition taken :: "nat \<Rightarrow> kcp \<Rightarrow> kcp" where
  "taken n k = k\<lparr>k_rcv_queue := k_rcv_queue k @ take n (k_rcv_buf k), k_rcv_buf := drop n (k_rcv_buf k),
     k_nrcv_que := k_nrcv_que k + of_nat n, k_nrcv_buf := k_nrcv_buf k - of_nat n,
     k_rcv_nxt := k_rcv_nxt k + of_nat n\<rparr>"

lemma move_loop_taken:
  "\<exists>n \<le> length ss. move_loop ss k = taken n (k\<lparr>k_rcv_buf := ss\<rparr>) \<and>
     (\<forall>i < n. s_sn (ss ! i) = k_rcv_nxt k + of_nat i \<and> k_nrcv_que k + of_nat i < k_rcv_wnd k) \<and>
     (n < length ss \<longrightarrow> s_sn (ss ! n) \<noteq> k_rcv_nxt k + of_nat n \<or> \<not> k_nrcv_que k + of_nat n < k_rcv_wnd k)"
proof (induction ss k rule: move_loop.induct)
  case (1 k)
  show ?case by (intro exI [of _ 0]) (simp add: taken_def)
next
  case (2 s ss k)
  show ?case
  proof (cases "s_sn s = k_rcv_nxt k \<and> k_nrcv_que k < k_rcv_wnd k")
    case False
    then show ?thesis by (intro exI [of _ 0]) (auto simp: taken_def)
  next
    case True
    let ?k = "k\<lparr>k_nrcv_buf := k_nrcv_buf k - 1, k_rcv_queue := k_rcv_queue k @ [s],
      k_nrcv_que := k_nrcv_que k + 1, k_rcv_nxt := k_rcv_nxt k + 1\<rparr>"
    from 2 True obtain n where n: "n \<le> length ss" "move_loop ss ?k = taken n (?k\<lparr>k_rcv_buf := ss\<rparr>)"
      "\<forall>i < n. s_sn (ss ! i) = k_rcv_nxt ?k + of_nat i \<and> k_nrcv_que ?k + of_nat i < k_rcv_wnd ?k"
      "n < length ss \<longrightarrow> s_sn (ss ! n) \<noteq> k_rcv_nxt ?k + of_nat n \<or> \<not> k_nrcv_que ?k + of_nat n < k_rcv_wnd ?k"
      by blast
    have "move_loop (s # ss) k = taken (Suc n) (k\<lparr>k_rcv_buf := s # ss\<rparr>)"
      using True n(2) by (simp add: taken_def algebra_simps)
    moreover have "\<forall>i < Suc n. s_sn ((s # ss) ! i) = k_rcv_nxt k + of_nat i \<and> k_nrcv_que k + of_nat i < k_rcv_wnd k"
      using n(3) True by (auto simp: less_Suc_eq_0_disj algebra_simps)
    moreover have "Suc n < length (s # ss) \<longrightarrow> s_sn ((s # ss) ! Suc n) \<noteq> k_rcv_nxt k + of_nat (Suc n) \<or>
        \<not> k_nrcv_que k + of_nat (Suc n) < k_rcv_wnd k"
      using n(4) by (simp add: algebra_simps)
    ultimately show ?thesis using n(1) by (intro exI [of _ "Suc n"]) auto
  qed
qed

lemma move_ready_seq:
  "\<exists>n. n \<le> length (k_rcv_buf k) \<and> move_ready k = taken n k \<and> (\<forall>i < n. s_sn (k_rcv_buf k ! i) = k_rcv_nxt k + of_nat i)"
  using move_loop_taken [of "k_rcv_buf k" k] by (auto simp: move_ready_def)

lemma taken_keeps [simp]:
  "cfg_of (taken n k) = cfg_of k" "snd_of (taken n k) = snd_of k" "ack_of (taken n k) = ack_of k"
  "k_snd_nxt (taken n k) = k_snd_nxt k" "k_stream (taken n k) = k_stream k" "k_rcv_wnd (taken n k) = k_rcv_wnd k"
  by (simp_all add: taken_def parts_def)

lemma taken_ok:
  assumes "rcv_ok k" "n \<le> length (k_rcv_buf k)"
  shows "rcv_ok (taken n k)"
proof -
  have "set (k_rcv_queue (taken n k)) \<subseteq> set (k_rcv_queue k) \<union> set (k_rcv_buf k)"
    "set (k_rcv_buf (taken n k)) \<subseteq> set (k_rcv_buf k)"
    by (auto simp: taken_def dest: in_set_takeD in_set_dropD)
  moreover have "k_nrcv_que (taken n k) = of_nat (length (k_rcv_queue (taken n k)))"
    "k_nrcv_buf (taken n k) = of_nat (length (k_rcv_buf (taken n k)))"
    using assms by (simp_all add: rcv_ok_def taken_def of_nat_diff)
  ultimately show ?thesis using assms(1) by (auto simp: rcv_ok_def)
qed

lemma rcv_part_ok:
  assumes "kcp_ok k" "rcv_ok k1" "cfg_of k1 = cfg_of k" "snd_of k1 = snd_of k" "ack_of k1 = ack_of k"
  shows "kcp_ok k1"
  using assms cfg_ok_cong [OF assms(3)] snd_ok_cong [OF assms(4)] ack_ok_cong [OF assms(5)]
  by (simp add: kcp_ok_def)

text \<open>The two lengths that \<open>ikcp_recv\<close> computes always agree.\<close>

lemma peeksize_merge:
  assumes "merge_loop (k_rcv_queue k) 0 = (bs, m, used, rest)" "\<not> ikcp_peeksize k < 0" "k_rcv_queue k \<noteq> []"
  shows "sint m = ikcp_peeksize k"
proof -
  have m: "m = peek_loop (k_rcv_queue k) 0" using merge_loop_rest [OF assms(1)] by blast
  obtain s ss where q: "k_rcv_queue k = s # ss" using assms(3) by (cases "k_rcv_queue k") auto
  show ?thesis using assms(2) unfolding ikcp_peeksize_def m q
    by (cases "s_frg s = 0"; cases "k_nrcv_que k < s_frg s + 1") simp_all
qed

lemma recv_cases:
  assumes "kcp_ok k" "k_rcv_queue k \<noteq> []" "\<not> ikcp_peeksize k < 0" "ikcp_peeksize k \<le> (if len < 0 then - len else len)"
    "merge_loop (k_rcv_queue k) 0 = (bs, m, used, rest)"
  obtains k1 n p where "ikcp_recv k len = Some ((taken n k1)\<lparr>k_probe := p\<rparr>, ikcp_peeksize k, bs)"
    "k1 = (if len < 0 then k else k\<lparr>k_rcv_queue := drop used (k_rcv_queue k), k_nrcv_que := k_nrcv_que k - of_nat used\<rparr>)"
    "n \<le> length (k_rcv_buf k1)" "\<forall>i < n. s_sn (k_rcv_buf k1 ! i) = k_rcv_nxt k1 + of_nat i" "rcv_ok k1"
proof -
  define k1 where "k1 = (if len < 0 then k else k\<lparr>k_rcv_queue := rest, k_nrcv_que := k_nrcv_que k - of_nat used\<rparr>)"
  from move_ready_seq [of k1] obtain n where n: "n \<le> length (k_rcv_buf k1)" "move_ready k1 = taken n k1"
    "\<forall>i < n. s_sn (k_rcv_buf k1 ! i) = k_rcv_nxt k1 + of_nat i" by blast
  have r: "rest = drop used (k_rcv_queue k)" "used \<le> length (k_rcv_queue k)" using merge_loop_rest [OF assms(5)] by simp_all
  have m: "sint m = ikcp_peeksize k" by (rule peeksize_merge [OF assms(5,3,2)])
  have rk: "rcv_ok k" using assms(1) by (simp add: kcp_ok_def)
  have "\<forall>s \<in> set rest. seg_len_ok s" using rk r(1) set_drop_subset [of used "k_rcv_queue k"] by (auto simp: rcv_ok_def)
  moreover have "k_nrcv_que k - of_nat used = of_nat (length rest)" using rk r by (simp add: rcv_ok_def of_nat_diff)
  ultimately have ok: "rcv_ok k1" using rk by (cases "len < 0") (simp_all add: k1_def rcv_ok_def)
  obtain p where "ikcp_recv k len = Some ((taken n k1)\<lparr>k_probe := p\<rparr>, ikcp_peeksize k, bs)"
  proof (cases "k_nrcv_que (taken n k1) < k_rcv_wnd (taken n k1) \<and> k_nrcv_que k \<ge> k_rcv_wnd k")
    case True
    then show ?thesis using assms(2-5) m
      by (intro that [of "k_probe (taken n k1) OR IKCP_ASK_TELL"]) (simp add: ikcp_recv_def Let_def n(2) flip: k1_def)
  next
    case False
    then show ?thesis using assms(2-5) m
      by (intro that [of "k_probe (taken n k1)"]) (auto simp: ikcp_recv_def Let_def n(2) simp flip: k1_def)
  qed
  from that [OF this _ n(1,3) ok] show thesis unfolding k1_def r(1) by blast
qed


lemma probe_ok [simp]: "kcp_ok (k\<lparr>k_probe := p\<rparr>) = kcp_ok k"
  by (rule kcp_ok_cong) (simp_all add: parts_def)

lemma recv_error:
  assumes "k_rcv_queue k = [] \<or> ikcp_peeksize k < 0 \<or> \<not> ikcp_peeksize k \<le> (if len < 0 then - len else len)"
  shows "ikcp_recv k len = Some (k, if k_rcv_queue k = [] then -1 else if ikcp_peeksize k < 0 then -2 else -3, [])"
  unfolding ikcp_recv_def Let_def using assms
  by (cases "k_rcv_queue k = []"; cases "ikcp_peeksize k < 0"; simp)

lemma recv_total:
  assumes "kcp_ok k"
  obtains k1 r bs where "ikcp_recv k len = Some (k1, r, bs)" "kcp_ok k1"
proof (cases "k_rcv_queue k = [] \<or> ikcp_peeksize k < 0 \<or> \<not> ikcp_peeksize k \<le> (if len < 0 then - len else len)")
  case True
  then show thesis using that assms recv_error by blast
next
  case False
  obtain bs m used rest where ml: "merge_loop (k_rcv_queue k) 0 = (bs, m, used, rest)" by (metis surj_pair)
  from False have f: "k_rcv_queue k \<noteq> []" "\<not> ikcp_peeksize k < 0" "ikcp_peeksize k \<le> (if len < 0 then - len else len)" by auto
  from recv_cases [OF assms f ml] obtain k1 n p where r: "ikcp_recv k len = Some ((taken n k1)\<lparr>k_probe := p\<rparr>, ikcp_peeksize k, bs)"
    "k1 = (if len < 0 then k else k\<lparr>k_rcv_queue := drop used (k_rcv_queue k), k_nrcv_que := k_nrcv_que k - of_nat used\<rparr>)"
    "n \<le> length (k_rcv_buf k1)" "rcv_ok k1" by metis
  have "cfg_of k1 = cfg_of k" "snd_of k1 = snd_of k" "ack_of k1 = ack_of k" by (simp_all add: r(2) parts_def)
  then have "kcp_ok (taken n k1)" using rcv_part_ok [OF assms taken_ok [OF r(4,3)]] by simp
  then show thesis using that r(1) by simp
qed

section \<open>Input\<close>

lemma sint_neg_u32: "sint (w :: u32) < 0 \<longleftrightarrow> 2147483648 \<le> unat w"
proof -
  have "uint w = int (unat w)" "unat w < 4294967296" by simp_all
  then show ?thesis by (cases "uint w < 2147483648"; simp only: sint_u32 if_True if_False; linarith)
qed

lemma ack_loop_set: "set (fst (ack_loop sn ss)) \<subseteq> set ss"
  by (induction ss) (auto split: prod.splits)

lemma ack_loop_length:
  "ack_loop sn ss = (rest, del) \<Longrightarrow> (if del then length ss = Suc (length rest) else rest = ss)"
  by (induction ss arbitrary: rest del) (auto split: if_splits prod.splits)

lemma una_loop_drop:
  "\<exists>n \<le> length ss. una_loop una ss c = (drop n ss, c - of_nat n) \<and> (\<forall>i < n. itimediff una (s_sn (ss ! i)) > 0)"
proof (induction ss arbitrary: c)
  case (Cons s ss)
  show ?case
  proof (cases "itimediff una (s_sn s) > 0")
    case True
    from Cons.IH [of "c - 1"] obtain n where n: "n \<le> length ss" "una_loop una ss (c - 1) = (drop n ss, c - 1 - of_nat n)"
      "\<forall>i < n. itimediff una (s_sn (ss ! i)) > 0" by blast
    then have "\<forall>i < Suc n. itimediff una (s_sn ((s # ss) ! i)) > 0" using True by (auto simp: less_Suc_eq_0_disj)
    then show ?thesis using n True by (intro exI [of _ "Suc n"]) (simp add: algebra_simps)
  next
    case False
    then show ?thesis by (intro exI [of _ 0]) simp
  qed
qed simp

lemma fastack_loop_set:
  "s \<in> set (fastack_loop sn ss) \<Longrightarrow> \<exists>s0 \<in> set ss. \<exists>f. s = s0\<lparr>s_fastack := f\<rparr>"
proof (induction ss)
  case (Cons x ss)
  have self: "\<exists>f. y = y\<lparr>s_fastack := f\<rparr>" for y :: seg by (rule exI [of _ "s_fastack y"]) simp
  from Cons show ?case using self by (auto split: if_splits)
qed simp

lemma fastack_loop_length [simp]: "length (fastack_loop sn ss) = length ss"
  by (induction ss) auto

text \<open>The sender's part after the three kinds of removal.\<close>

lemma snd_okI:
  assumes "snd_ok k" "k_mss k1 = k_mss k" "k_conv k1 = k_conv k" "k_snd_queue k1 = k_snd_queue k" "k_nsnd_que k1 = k_nsnd_que k"
    and "\<And>s. s \<in> set (k_snd_buf k1) \<Longrightarrow> \<exists>s0 \<in> set (k_snd_buf k). \<exists>f. s = s0\<lparr>s_fastack := f\<rparr>"
    and "k_nsnd_buf k1 = of_nat (length (k_snd_buf k1))"
  shows "snd_ok k1"
proof -
  have "seg_fits k1 s \<and> s_conv s = k_conv k1 \<and> s_cmd s = IKCP_CMD_PUSH" if "s \<in> set (k_snd_buf k1)" for s
    using assms(6) [OF that] assms(1-3) by (auto simp: snd_ok_def seg_fits_def seg_len_ok_def)
  then show ?thesis using assms by (simp add: snd_ok_def seg_fits_def)
qed

lemma seg_self: "\<exists>f. (s :: seg) = s\<lparr>s_fastack := f\<rparr>"
  by (rule exI [of _ "s_fastack s"]) simp

text \<open>What the acknowledgement handling keeps: everything but the send buffer and the estimates.\<close>

definition ack_keeps :: "kcp \<Rightarrow> kcp \<Rightarrow> bool" where
  "ack_keeps k k1 \<longleftrightarrow> cfg_of k1 = cfg_of k \<and> rcv_of k1 = rcv_of k \<and> ack_of k1 = ack_of k \<and> k_conv k1 = k_conv k \<and>
     k_snd_queue k1 = k_snd_queue k \<and> k_nsnd_que k1 = k_nsnd_que k \<and> k_snd_nxt k1 = k_snd_nxt k \<and>
     k_stream k1 = k_stream k \<and> k_rcv_wnd k1 = k_rcv_wnd k \<and> k_updated k1 = k_updated k \<and>
     (\<forall>s \<in> set (k_snd_buf k1). \<exists>s0 \<in> set (k_snd_buf k). \<exists>f. s = s0\<lparr>s_fastack := f\<rparr>) \<and>
     (k_nsnd_buf k = of_nat (length (k_snd_buf k)) \<longrightarrow> k_nsnd_buf k1 = of_nat (length (k_snd_buf k1)))"

lemma ack_keeps_refl: "ack_keeps k k"
proof -
  have "\<forall>s \<in> set (k_snd_buf k). \<exists>s0 \<in> set (k_snd_buf k). \<exists>f. s = s0\<lparr>s_fastack := f\<rparr>"
    using seg_self by blast
  then show ?thesis by (simp add: ack_keeps_def)
qed

lemma ack_keeps_subset:
  assumes "set b \<subseteq> set (k_snd_buf k)" "k_nsnd_buf k = of_nat (length (k_snd_buf k)) \<longrightarrow> n = of_nat (length b)"
  shows "ack_keeps k (k\<lparr>k_snd_buf := b, k_nsnd_buf := n\<rparr>)"
proof -
  have "\<exists>s0 \<in> set (k_snd_buf k). \<exists>f. s = s0\<lparr>s_fastack := f\<rparr>" if "s \<in> set b" for s
    using seg_self [of s] assms(1) that by blast
  then show ?thesis using assms(2) by (simp add: ack_keeps_def parts_def)
qed

lemma ack_keeps_trans:
  assumes "ack_keeps a b" "ack_keeps b c"
  shows "ack_keeps a c"
proof -
  have "\<exists>s0 \<in> set (k_snd_buf a). \<exists>f. s = s0\<lparr>s_fastack := f\<rparr>" if s: "s \<in> set (k_snd_buf c)" for s
  proof -
    from assms(2) s obtain s1 f where 1: "s1 \<in> set (k_snd_buf b)" "s = s1\<lparr>s_fastack := f\<rparr>"
      by (auto simp: ack_keeps_def)
    from assms(1) 1(1) obtain s0 g where "s0 \<in> set (k_snd_buf a)" "s1 = s0\<lparr>s_fastack := g\<rparr>"
      by (auto simp: ack_keeps_def)
    then show ?thesis using 1(2) by auto
  qed
  then show ?thesis using assms by (simp add: ack_keeps_def)
qed

lemma ack_keeps_ok:
  assumes "ack_keeps k k1" "kcp_ok k"
  shows "kcp_ok k1"
proof -
  have m: "k_mss k1 = k_mss k" using assms(1) by (simp add: ack_keeps_def cfg_of_def)
  have "snd_ok k1"
    using assms m by (intro snd_okI [of k k1]) (auto simp: ack_keeps_def kcp_ok_def snd_ok_def)
  then show ?thesis using assms cfg_ok_cong [of k1 k] rcv_ok_cong [of k1 k] ack_ok_cong [of k1 k]
    by (simp add: kcp_ok_def ack_keeps_def)
qed


lemma ack_keeps_upd:
  "ack_keeps k (k\<lparr>k_snd_una := u\<rparr>)" "ack_keeps k (k\<lparr>k_rmt_wnd := u\<rparr>)" "ack_keeps k (k\<lparr>k_probe := u\<rparr>)"
  "ack_keeps k (k\<lparr>k_rx_srtt := u, k_rx_rttval := v\<rparr>)" "ack_keeps k (k\<lparr>k_rx_rto := u\<rparr>)"
  "ack_keeps k (k\<lparr>k_cwnd := u, k_incr := v\<rparr>)" "ack_keeps k (k\<lparr>k_incr := v, k_cwnd := u\<rparr>)"
  "ack_keeps k (k\<lparr>k_rx_rttval := v, k_rx_srtt := u\<rparr>)"
  using ack_keeps_refl [of k] by (simp_all add: ack_keeps_def parts_def)

lemma ack_keeps_if: "ack_keeps k a \<Longrightarrow> ack_keeps k b \<Longrightarrow> ack_keeps k (if c then a else b)"
  by simp

lemma ack_keeps_shrink: "ack_keeps k (ikcp_shrink_buf k)"
  by (simp add: ikcp_shrink_buf_def ack_keeps_upd)

lemma ack_keeps_una: "ack_keeps k (ikcp_parse_una k una)"
proof -
  from una_loop_drop [of "k_snd_buf k" una "k_nsnd_buf k"] obtain n where n: "n \<le> length (k_snd_buf k)"
    "una_loop una (k_snd_buf k) (k_nsnd_buf k) = (drop n (k_snd_buf k), k_nsnd_buf k - of_nat n)" by blast
  have "ack_keeps k (k\<lparr>k_snd_buf := drop n (k_snd_buf k), k_nsnd_buf := k_nsnd_buf k - of_nat n\<rparr>)"
    by (rule ack_keeps_subset) (use n(1) in \<open>simp_all add: set_drop_subset of_nat_diff\<close>)
  then show ?thesis by (simp add: ikcp_parse_una_def n(2))
qed

lemma ack_keeps_parse_ack: "ack_keeps k (ikcp_parse_ack k sn)"
proof (cases "itimediff sn (k_snd_una k) < 0 \<or> itimediff sn (k_snd_nxt k) \<ge> 0")
  case True
  then show ?thesis by (simp add: ikcp_parse_ack_def ack_keeps_refl)
next
  case False
  obtain buf del where a: "ack_loop sn (k_snd_buf k) = (buf, del)" by fastforce
  have "ack_keeps k (k\<lparr>k_snd_buf := buf, k_nsnd_buf := (if del then k_nsnd_buf k - 1 else k_nsnd_buf k)\<rparr>)"
    by (rule ack_keeps_subset)
      (use ack_loop_set [of sn "k_snd_buf k"] ack_loop_length [OF a] a in \<open>auto split: if_splits\<close>)
  then show ?thesis using False by (simp add: ikcp_parse_ack_def a)
qed

lemma ack_keeps_update_ack: "ack_keeps k (ikcp_update_ack k rtt)"
proof -
  define k1 where "k1 = (if k_rx_srtt k = 0 then k\<lparr>k_rx_srtt := rtt, k_rx_rttval := word_of_int (c_div (sint rtt) 2)\<rparr>
    else (let delta = \<bar>sint (rtt - k_rx_srtt k)\<bar>;
              rttval = word_of_int (c_div (sint (3 * k_rx_rttval k) + delta) 4);
              srtt = word_of_int (c_div (sint (7 * k_rx_srtt k + rtt)) 8)
          in k\<lparr>k_rx_rttval := rttval, k_rx_srtt := (if sint (srtt :: u32) < 1 then 1 else srtt)\<rparr>))"
  have "ack_keeps k k1" unfolding k1_def Let_def by (intro ack_keeps_if ack_keeps_upd)
  moreover have "ikcp_update_ack k rtt = k1\<lparr>k_rx_rto := ibound (k_rx_minrto k1)
      (k_rx_srtt k1 + imax (k_interval k1) (4 * k_rx_rttval k1)) IKCP_RTO_MAX\<rparr>"
    unfolding ikcp_update_ack_def k1_def by (simp only: Let_def)
  ultimately show ?thesis using ack_keeps_trans [OF _ ack_keeps_upd(5)] by simp
qed

lemma ack_keeps_fastack: "ack_keeps k (ikcp_parse_fastack k sn ts)"
proof (cases "itimediff sn (k_snd_una k) < 0 \<or> itimediff sn (k_snd_nxt k) \<ge> 0")
  case False
  then show ?thesis using fastack_loop_set [of _ sn "k_snd_buf k"]
    by (auto simp: ikcp_parse_fastack_def ack_keeps_def parts_def)
qed (simp add: ikcp_parse_fastack_def ack_keeps_refl)

lemma ack_keeps_input_ack: "ack_keeps k (input_ack k h)"
proof -
  have "ack_keeps k (if itimediff (k_current k) (h_ts h) \<ge> 0 then ikcp_update_ack k (k_current k - h_ts h) else k)"
    using ack_keeps_update_ack ack_keeps_refl by simp
  then show ?thesis unfolding input_ack_def Let_def
    by (rule ack_keeps_trans [OF ack_keeps_trans [OF _ ack_keeps_parse_ack] ack_keeps_shrink])
qed

lemma ack_keeps_open_cwnd: "ack_keeps k (open_cwnd k)"
proof (cases "k_cwnd k < k_rmt_wnd k")
  case True
  define incr where "incr = (let incr0 = (if k_incr k < k_mss k then k_mss k else k_incr k)
    in incr0 + (k_mss k * k_mss k) div incr0 + k_mss k div 16)"
  define k1 where "k1 = (if k_cwnd k < k_ssthresh k then k\<lparr>k_cwnd := k_cwnd k + 1, k_incr := k_incr k + k_mss k\<rparr>
    else k\<lparr>k_incr := incr, k_cwnd := (if (k_cwnd k + 1) * k_mss k \<le> incr
       then (incr + k_mss k - 1) div (if k_mss k > 0 then k_mss k else 1) else k_cwnd k)\<rparr>)"
  have a: "ack_keeps k k1" unfolding k1_def by (intro ack_keeps_if ack_keeps_upd)
  have "open_cwnd k = (if k_cwnd k1 > k_rmt_wnd k1
      then k1\<lparr>k_cwnd := k_rmt_wnd k1, k_incr := k_rmt_wnd k1 * k_mss k\<rparr> else k1)"
    using True unfolding open_cwnd_def k1_def incr_def by (simp only: Let_def if_True)
  then show ?thesis by (simp only:) (rule ack_keeps_trans [OF a], intro ack_keeps_if ack_keeps_upd ack_keeps_refl)
qed (simp add: open_cwnd_def ack_keeps_refl)

lemma ack_keeps_head: "ack_keeps k (ikcp_shrink_buf (ikcp_parse_una (k\<lparr>k_rmt_wnd := w\<rparr>) una))"
  by (rule ack_keeps_trans [OF ack_keeps_trans [OF ack_keeps_upd(2) ack_keeps_una] ack_keeps_shrink])

section \<open>The list of acknowledgements\<close>

lemma grow_block_bounds:
  "0 < b \<Longrightarrow> n \<le> grow_block b n \<and> (b < n \<longrightarrow> grow_block b n < 2 * n) \<and> (\<not> b < n \<longrightarrow> grow_block b n = b)"
proof (induction b n rule: grow_block.induct)
  case (1 b n)
  show ?case
  proof (cases "b < n")
    case True
    have g: "grow_block b n = grow_block (2 * b) n" using 1(2) True by (subst grow_block.simps) simp
    from 1(1) 1(2) True have "n \<le> grow_block (2 * b) n \<and> (2 * b < n \<longrightarrow> grow_block (2 * b) n < 2 * n) \<and>
        (\<not> 2 * b < n \<longrightarrow> grow_block (2 * b) n = 2 * b)" by simp
    then show ?thesis using True by (cases "2 * b < n") (simp_all add: g)
  next
    case False
    then show ?thesis by (subst grow_block.simps) (simp add: grow_block.simps [of b n])
  qed
qed

text \<open>An acknowledgement is always stored inside the list, which is enlarged when it is full.\<close>

lemma ack_push_ok:
  assumes "ack_ok k" "unat (k_ackcount k) < 1073741824"
  obtains l b where "ikcp_ack_push k sn ts = Some (k\<lparr>k_acklist := l, k_ackblock := b, k_ackcount := k_ackcount k + 1\<rparr>)"
    "ack_ok (k\<lparr>k_acklist := l, k_ackblock := b, k_ackcount := k_ackcount k + 1\<rparr>)"
    "take (2 * unat (k_ackcount k) + 2) l = take (2 * unat (k_ackcount k)) (k_acklist k) @ [sn, ts]"
proof -
  let ?c = "unat (k_ackcount k)" and ?b = "unat (k_ackblock k)"
  have c1: "unat (k_ackcount k + 1) = ?c + 1" using assms(2) by (subst unat_word_ariths) simp
  have old: "length (k_acklist k) = 2 * ?b" "?c \<le> ?b" using assms(1) by (simp_all add: ack_ok_def word_le_nat_alt)
  define b where "b = (if ?c + 1 > ?b then grow_block 8 (?c + 1) else ?b)"
  define l0 where "l0 = (if ?c + 1 > ?b then take (2 * ?c) (k_acklist k) @
     replicate (2 * grow_block 8 (?c + 1) - min (2 * ?c) (length (k_acklist k))) 0 else k_acklist k)"
  have g: "?c + 1 \<le> grow_block 8 (?c + 1)" "grow_block 8 (?c + 1) < 4294967296"
    using grow_block_bounds [of 8 "?c + 1"] assms(2) by (cases "8 < ?c + 1"; simp)+
  have b: "?c + 1 \<le> b" "b < 4294967296" using g by (simp_all add: b_def not_less)
  have l0: "length l0 = 2 * b" "take (2 * ?c) l0 = take (2 * ?c) (k_acklist k)"
    using old g by (cases "?c = ?b"; simp add: l0_def b_def)+
  have ub: "unat (of_nat b :: u32) = b" using b(2) by (simp add: unat_of_nat take_bit_nat_eq_self)
  have k1: "(if ?c + 1 > ?b then k\<lparr>k_acklist := take (2 * ?c) (k_acklist k) @
      replicate (2 * grow_block 8 (?c + 1) - min (2 * ?c) (length (k_acklist k))) 0,
      k_ackblock := of_nat (grow_block 8 (?c + 1))\<rparr> else k) = k\<lparr>k_acklist := l0, k_ackblock := of_nat b\<rparr>"
    by (simp add: l0_def b_def)
  let ?l = "l0[2 * ?c := sn, 2 * ?c + 1 := ts]"
  let ?k = "k\<lparr>k_acklist := ?l, k_ackblock := of_nat b, k_ackcount := k_ackcount k + 1\<rparr>"
  have "ikcp_ack_push k sn ts = Some ?k"
    using l0(1) b(1) unfolding ikcp_ack_push_def c1 Let_def k1 by simp
  moreover have "ack_ok ?k" using l0(1) b(1) assms(2) by (simp add: ack_ok_def ub word_le_nat_alt c1)
  moreover have "take (2 * ?c + 2) ?l = take (2 * ?c) (k_acklist k) @ [sn, ts]"
    using l0 b(1) by (simp add: take_Suc_conv_app_nth list_update_append nth_list_update)
  ultimately show thesis by (rule that)
qed


section \<open>Incoming segments\<close>

lemma buf_insert_set: "buf_insert s ss = Some r \<Longrightarrow> set r = insert s (set ss) \<and> length r = Suc (length ss)"
  by (induction ss arbitrary: r) (auto split: if_splits)

definition pushed :: "hdr \<Rightarrow> u8 list \<Rightarrow> seg" where
  "pushed h p = segment_new\<lparr>s_conv := h_conv h, s_cmd := ucast (h_cmd h), s_frg := ucast (h_frg h),
     s_wnd := ucast (h_wnd h), s_ts := h_ts h, s_sn := h_sn h, s_una := h_una h, s_len := h_len h,
     s_data := take (unat (h_len h)) p\<rparr>"

definition buffered :: "kcp \<Rightarrow> seg \<Rightarrow> kcp" where
  "buffered k s = (case buf_insert s (rev (k_rcv_buf k)) of
       None \<Rightarrow> k | Some r \<Rightarrow> k\<lparr>k_rcv_buf := rev r, k_nrcv_buf := k_nrcv_buf k + 1\<rparr>)"

definition in_window :: "kcp \<Rightarrow> u32 \<Rightarrow> bool" where
  "in_window k sn \<longleftrightarrow> itimediff sn (k_rcv_nxt k + k_rcv_wnd k) < 0 \<and> itimediff sn (k_rcv_nxt k) \<ge> 0"

lemma parse_data_eq:
  "ikcp_parse_data k s = (if in_window k (s_sn s) then move_ready (buffered k s) else k)"
  by (simp add: ikcp_parse_data_def in_window_def buffered_def not_less not_le Let_def)

lemma buffered_keeps [simp]:
  "cfg_of (buffered k s) = cfg_of k" "snd_of (buffered k s) = snd_of k" "ack_of (buffered k s) = ack_of k"
  "k_snd_nxt (buffered k s) = k_snd_nxt k" "k_stream (buffered k s) = k_stream k" "k_rcv_wnd (buffered k s) = k_rcv_wnd k"
  "k_rcv_nxt (buffered k s) = k_rcv_nxt k" "k_rcv_queue (buffered k s) = k_rcv_queue k"
  "k_nrcv_que (buffered k s) = k_nrcv_que k"
  by (simp_all add: buffered_def parts_def split: option.splits)

lemma buffered_set: "set (k_rcv_buf (buffered k s)) \<subseteq> insert s (set (k_rcv_buf k))"
  using buf_insert_set [of s "rev (k_rcv_buf k)"] by (auto simp: buffered_def split: option.splits)

lemma buffered_ok:
  assumes "rcv_ok k" "seg_len_ok s"
  shows "rcv_ok (buffered k s)"
proof (cases "buf_insert s (rev (k_rcv_buf k))")
  case None
  then show ?thesis using assms(1) by (simp add: buffered_def)
next
  case (Some r)
  from buf_insert_set [OF this] have "set r = insert s (set (k_rcv_buf k))" "length r = Suc (length (k_rcv_buf k))" by simp_all
  then show ?thesis using assms Some by (simp add: buffered_def rcv_ok_def)
qed

text \<open>The outcome of a push: the acknowledgement is noted and the data buffered and moved.\<close>

lemma parse_data_ok:
  assumes "kcp_ok k" "seg_len_ok s"
  shows "kcp_ok (ikcp_parse_data k s)"
proof (cases "in_window k (s_sn s)")
  case True
  have b: "rcv_ok (buffered k s)" using assms buffered_ok by (simp add: kcp_ok_def)
  from move_ready_seq [of "buffered k s"] obtain n where n: "n \<le> length (k_rcv_buf (buffered k s))"
    "move_ready (buffered k s) = taken n (buffered k s)" by blast
  have "kcp_ok (taken n (buffered k s))"
    by (rule rcv_part_ok [OF assms(1) taken_ok [OF b n(1)]]) simp_all
  then show ?thesis using True n(2) by (simp add: parse_data_eq)
qed (simp add: parse_data_eq assms(1))

definition ack_room :: "kcp \<Rightarrow> nat \<Rightarrow> bool" where
  "ack_room k n \<longleftrightarrow> unat (k_ackcount k) + n div 24 < 1073741824"

lemma ack_pushed_ok:
  assumes "kcp_ok k" "unat (k_ackcount k) < 1073741824"
  obtains k1 where "ikcp_ack_push k sn ts = Some k1" "kcp_ok k1" "unat (k_ackcount k1) = unat (k_ackcount k) + 1"
    "cfg_of k1 = cfg_of k" "snd_of k1 = snd_of k" "rcv_of k1 = rcv_of k" "k_snd_nxt k1 = k_snd_nxt k"
    "k_stream k1 = k_stream k" "k_rcv_wnd k1 = k_rcv_wnd k"
proof -
  have a: "ack_ok k" using assms(1) by (simp add: kcp_ok_def)
  from ack_push_ok [OF a assms(2)] obtain l b where p:
    "ikcp_ack_push k sn ts = Some (k\<lparr>k_acklist := l, k_ackblock := b, k_ackcount := k_ackcount k + 1\<rparr>)"
    "ack_ok (k\<lparr>k_acklist := l, k_ackblock := b, k_ackcount := k_ackcount k + 1\<rparr>)" by metis
  let ?k = "k\<lparr>k_acklist := l, k_ackblock := b, k_ackcount := k_ackcount k + 1\<rparr>"
  have parts: "cfg_of ?k = cfg_of k" "snd_of ?k = snd_of k" "rcv_of ?k = rcv_of k" by (simp_all add: parts_def)
  have "kcp_ok ?k" using p(2) assms(1) cfg_ok_cong [OF parts(1)] snd_ok_cong [OF parts(2)] rcv_ok_cong [OF parts(3)]
    by (simp add: kcp_ok_def)
  moreover have "unat (k_ackcount ?k) = unat (k_ackcount k) + 1" using assms(2) by (simp, subst unat_word_ariths) simp
  ultimately show thesis using that [OF p(1)] parts by simp
qed


lemma pushed_len_ok: "unat (h_len h) \<le> length p \<Longrightarrow> unat (h_len h) < 2147483648 \<Longrightarrow> seg_len_ok (pushed h p)"
  by (simp add: seg_len_ok_def pushed_def)

lemma ack_keeps_count: "ack_keeps k k1 \<Longrightarrow> k_ackcount k1 = k_ackcount k"
  by (simp add: ack_keeps_def ack_of_def)

lemma parse_data_count: "k_ackcount (ikcp_parse_data k s) = k_ackcount k"
proof -
  from move_ready_seq [of "buffered k s"] obtain n where n: "move_ready (buffered k s) = taken n (buffered k s)" by blast
  have "ack_of (taken n (buffered k s)) = ack_of k" by simp
  then show ?thesis using n by (simp add: parse_data_eq ack_of_def)
qed

lemma input_push_ok:
  assumes "kcp_ok k" "unat (k_ackcount k) < 1073741824" "unat (h_len h) \<le> length p" "unat (h_len h) < 2147483648"
  obtains k1 where "input_push k h p = Some k1" "kcp_ok k1" "unat (k_ackcount k1) \<le> unat (k_ackcount k) + 1"
proof (cases "itimediff (h_sn h) (k_rcv_nxt k + k_rcv_wnd k) < 0")
  case False
  then show thesis using that assms(1) by (simp add: input_push_def)
next
  case True
  from ack_pushed_ok [OF assms(1,2), of "h_sn h" "h_ts h"] obtain k1 where p:
    "ikcp_ack_push k (h_sn h) (h_ts h) = Some k1" "kcp_ok k1" "unat (k_ackcount k1) = unat (k_ackcount k) + 1" by metis
  have "kcp_ok (ikcp_parse_data k1 (pushed h p))" by (rule parse_data_ok [OF p(2) pushed_len_ok [OF assms(3,4)]])
  then show thesis using that True p
    by (cases "itimediff (h_sn h) (k_rcv_nxt k1) \<ge> 0")
      (simp_all add: input_push_def parse_data_count flip: pushed_def)
qed

abbreviation input_head :: "kcp \<Rightarrow> hdr \<Rightarrow> kcp" where
  "input_head k h \<equiv> ikcp_shrink_buf (ikcp_parse_una (k\<lparr>k_rmt_wnd := ucast (h_wnd h)\<rparr>) (h_una h))"

lemma input_seg_ok:
  assumes "kcp_ok k" "unat (k_ackcount k) < 1073741824" "unat (h_len h) \<le> length p" "unat (h_len h) < 2147483648"
  obtains k1 m1 where "input_seg k m h p = Some (k1, m1)" "kcp_ok k1" "unat (k_ackcount k1) \<le> unat (k_ackcount k) + 1"
proof -
  let ?k = "input_head k h" and ?c = "ucast (h_cmd h) :: u32"
  have h: "ack_keeps k ?k" by (rule ack_keeps_head)
  then have k: "kcp_ok ?k" "k_ackcount ?k = k_ackcount k" using ack_keeps_ok assms(1) ack_keeps_count by blast+
  consider "?c = IKCP_CMD_ACK" | "?c = IKCP_CMD_PUSH" | "?c = IKCP_CMD_WASK" |
    "?c \<noteq> IKCP_CMD_ACK" "?c \<noteq> IKCP_CMD_PUSH" "?c \<noteq> IKCP_CMD_WASK" by blast
  then show thesis
  proof cases
    case 1
    have "kcp_ok (input_ack ?k h)" "k_ackcount (input_ack ?k h) = k_ackcount k"
      using ack_keeps_ok [OF ack_keeps_input_ack k(1)] ack_keeps_count [OF ack_keeps_input_ack] k(2) by auto
    then show thesis using that 1 by (simp add: input_seg_def)
  next
    case 2
    from input_push_ok [OF k(1) _ assms(3,4)] k(2) assms(2) obtain k1 where
      "input_push ?k h p = Some k1" "kcp_ok k1" "unat (k_ackcount k1) \<le> unat (k_ackcount k) + 1" by metis
    then show thesis using that 2 by (simp add: input_seg_def)
  next
    case 3
    then show thesis using that [of "?k\<lparr>k_probe := k_probe ?k OR IKCP_ASK_TELL\<rparr>" m] k
      by (simp add: input_seg_def Let_def)
  next
    case 4
    then show thesis using that k by (simp add: input_seg_def)
  qed
qed

lemma decode_hdr_some: "24 \<le> length data \<Longrightarrow> \<exists>h. decode_hdr data = Some (h, drop 24 data)"
proof -
  assume "24 \<le> length data"
  then obtain b :: "nat \<Rightarrow> u8" and r where "data = map b [0..<24] @ r"
    by (metis append_take_drop_id length_take map_nth min.absorb2)
  then show ?thesis by (simp add: decode_hdr_def upt_rec numeral_eq_Suc)
qed

lemma input_loop_ok:
  assumes "kcp_ok k" "ack_room k (length data)"
  shows "\<exists>k1 m1 r. input_loop k m data = Some (k1, m1, r) \<and> kcp_ok k1"
  using assms
proof (induction k m data rule: input_loop.induct)
  case (1 k m data)
  show ?case
  proof (cases "length data < 24")
    case True
    then show ?thesis using 1(2) by (simp add: input_loop.simps)
  next
    case False
    then obtain h where d: "decode_hdr data = Some (h, drop 24 data)" using decode_hdr_some not_less by blast
    let ?bad = "length data - 24 < unat (h_len h) \<or> sint (h_len h) < 0"
    show ?thesis
    proof (cases "h_conv h \<noteq> k_conv k \<or> ?bad \<or> ucast (h_cmd h) \<notin> {IKCP_CMD_PUSH, IKCP_CMD_ACK, IKCP_CMD_WASK, IKCP_CMD_WINS}")
      case True
      then show ?thesis using False d 1(2) by (subst input_loop.simps) auto
    next
      case ok: False
      have len: "unat (h_len h) \<le> length (drop 24 data)" using ok by auto
      have len31: "unat (h_len h) < 2147483648"
        using ok sint_neg_u32 [of "h_len h"] by (metis not_le)
      have room: "unat (k_ackcount k) < 1073741824" using 1(3) by (simp add: ack_room_def)
      from input_seg_ok [OF 1(2) room len len31] obtain k1 m1 where s:
        "input_seg k m h (drop 24 data) = Some (k1, m1)" "kcp_ok k1" "unat (k_ackcount k1) \<le> unat (k_ackcount k) + 1" by metis
      have "ack_room k1 (length (drop (24 + unat (h_len h)) data))"
      proof -
        have "(length data - (24 + unat (h_len h))) div 24 \<le> (length data - 24) div 24" by (rule div_le_mono) simp
        also have "\<dots> = length data div 24 - 1" using False by (simp add: div_if [of "length data"])
        finally have "(length data - (24 + unat (h_len h))) div 24 + 1 \<le> length data div 24"
          using False div_le_mono [of 24 "length data" 24] by simp
        then show ?thesis using 1(3) s(3) by (simp add: ack_room_def)
      qed
      then show ?thesis using 1(1) False d ok s by (subst input_loop.simps) auto
    qed
  qed
qed

lemma input_total:
  assumes "kcp_ok k" "ack_room k (length data)"
  obtains k1 r where "ikcp_input k data = Some (k1, r)" "kcp_ok k1"
proof (cases "sint (of_nat (length data) :: u32) < 24")
  case True
  then show thesis using that assms(1) by (simp add: ikcp_input_def)
next
  case False
  from input_loop_ok [OF assms] obtain k1 m r where l: "input_loop k None data = Some (k1, m, r)" "kcp_ok k1" by blast
  define k2 where "k2 = (case m of Some (sn, ts) \<Rightarrow> ikcp_parse_fastack k1 sn ts | None \<Rightarrow> k1)"
  have k2: "kcp_ok k2" using ack_keeps_ok [OF ack_keeps_fastack l(2)] l(2) by (simp add: k2_def split: option.splits)
  define k3 where "k3 = (if itimediff (k_snd_una k2) (k_snd_una k) > 0 then open_cwnd k2 else k2)"
  have "kcp_ok k3" using ack_keeps_ok [OF ack_keeps_open_cwnd k2] k2 by (simp add: k3_def)
  moreover have "ikcp_input k data = Some (if r \<noteq> 0 then (k1, r) else (k3, 0))"
    unfolding ikcp_input_def using False l(1) by (simp add: k2_def [symmetric] k3_def Let_def)
  ultimately show thesis using that l(2) by (cases "r \<noteq> 0") auto
qed

lemma settings_ok:
  assumes "kcp_ok k"
  shows "kcp_ok (lkcp_wndsize k sw rw)" "kcp_ok (fst (lkcp_nodelay k nodelay interval resend nc))"
proof -
  show "kcp_ok (lkcp_wndsize k sw rw)"
    using assms kcp_ok_cong [of "lkcp_wndsize k sw rw" k] by (simp add: lkcp_wndsize_def ikcp_wndsize_def parts_def Let_def)
  show "kcp_ok (fst (lkcp_nodelay k nodelay interval resend nc))"
    using assms kcp_ok_cong [of "fst (lkcp_nodelay k nodelay interval resend nc)" k]
    by (simp add: lkcp_nodelay_def ikcp_nodelay_def parts_def Let_def)
qed

end
