(* ===== verification/Kcp_Transfer.thy ===== *)
theory Kcp_Transfer
  imports Kcp_Receiver
begin

text \<open>
  Messages on their way through \<^verbatim>\<open>src/depends/lua-kcp/kcp/ikcp.c\<close>: the list of all fragments, the part of it that the
  sender has numbered and the part that the receiver has taken, and how each operation keeps
  these invariants.
\<close>

section \<open>Fragments by number\<close>

abbreviation (input) seq_limit :: nat where "seq_limit \<equiv> 2147483648"

definition frag_of :: "seg \<Rightarrow> u32 \<times> u8 list" where
  "frag_of s = (s_frg s, s_data s)"

definition frags_of :: "nat \<Rightarrow> u8 list \<Rightarrow> (u32 \<times> u8 list) list" where
  "frags_of mss msg = frag_list mss (frag_count mss (length msg)) msg"

definition all_frags :: "nat \<Rightarrow> u8 list list \<Rightarrow> (u32 \<times> u8 list) list" where
  "all_frags mss msgs = concat (map (frags_of mss) msgs)"

lemma all_frags_simps [simp]:
  "all_frags mss [] = []" "all_frags mss (xs @ ys) = all_frags mss xs @ all_frags mss ys"
  "all_frags mss (x # xs) = frags_of mss x @ all_frags mss xs"
  by (simp_all add: all_frags_def)

lemma of_nat_u32_eq: "of_nat i = (of_nat j :: u32) \<Longrightarrow> i < 4294967296 \<Longrightarrow> j < 4294967296 \<Longrightarrow> i = j"
proof -
  assume e: "of_nat i = (of_nat j :: u32)" and b: "i < 4294967296" "j < 4294967296"
  from e have "unat (of_nat i :: u32) = unat (of_nat j :: u32)" by simp
  with b show "i = j" by (simp add: unat_of_nat take_bit_nat_eq_self)
qed

text \<open>A segment carries fragment \<open>i\<close> of the list \<open>F\<close>.\<close>

definition carries :: "(u32 \<times> u8 list) list \<Rightarrow> nat \<Rightarrow> seg \<Rightarrow> bool" where
  "carries F N s \<longleftrightarrow> (\<exists>i < N. s_sn s = of_nat i \<and> frag_of s = F ! i)"

lemma carries_mono: "carries F N s \<Longrightarrow> N \<le> M \<Longrightarrow> carries F M s"
proof -
  assume c: "carries F N s" and le: "N \<le> M"
  then obtain i where "i < N" "s_sn s = of_nat i" "frag_of s = F ! i" by (auto simp: carries_def)
  then show "carries F M s" unfolding carries_def using le by (intro exI [of _ i]) simp
qed

lemma carries_append: "N \<le> length F \<Longrightarrow> carries (F @ G) N s = carries F N s"
proof -
  assume "N \<le> length F"
  then have "(F @ G) ! i = F ! i" if "i < N" for i using that by (simp add: nth_append)
  then show ?thesis unfolding carries_def by metis
qed

section \<open>The sender\<close>

text \<open>
  \<open>N\<close> of the fragments \<open>F\<close> have a number; the others wait in the queue.
\<close>

definition sender_inv :: "(u32 \<times> u8 list) list \<Rightarrow> nat \<Rightarrow> kcp \<Rightarrow> bool" where
  "sender_inv F N k \<longleftrightarrow> kcp_ok k \<and> k_stream k = 0 \<and> k_snd_nxt k = of_nat N \<and> N \<le> length F \<and>
     map frag_of (k_snd_queue k) = drop N F \<and> (\<forall>s \<in> set (k_snd_buf k). carries F N s)"

lemma sender_create: "sender_inv [] 0 (ikcp_create conv)"
  by (simp add: sender_inv_def create_ok) (simp add: ikcp_create_def)

lemma frag_of_frag_seg: "frag_of (frag_seg 0 f) = f"
  by (simp add: frag_of_def frag_seg_def)

lemma sender_send:
  assumes "sender_inv F N k" "ikcp_send k msg (int (length msg)) = Some (k1, 0)" "length msg < seq_limit"
  shows "sender_inv (F @ frags_of (unat (k_mss k)) msg) N k1" "cfg_of k1 = cfg_of k" "k_conv k1 = k_conv k"
    "frag_count (unat (k_mss k)) (length msg) < 128"
proof -
  let ?n = "frag_count (unat (k_mss k)) (length msg)"
  have ok: "kcp_ok k" "cfg_ok k" "k_stream k = 0" using assms(1) by (auto simp: sender_inv_def kcp_ok_def)
  from send_message [OF ok(2,3) assms(3)] assms(2) have n: "?n < 128"
    and k1: "k1 = k\<lparr>k_snd_queue := k_snd_queue k @ map (frag_seg 0) (frags_of (unat (k_mss k)) msg),
      k_nsnd_que := k_nsnd_que k + of_nat ?n\<rparr>"
    by (auto simp: frags_of_def split: if_splits)
  have "kcp_ok k1" using send_total [OF ok(1)] assms(2) by (metis Pair_inject option.inject)
  moreover have "map (frag_of \<circ> frag_seg 0) xs = xs" for xs by (induction xs) (simp_all add: frag_of_frag_seg)
  ultimately show "sender_inv (F @ frags_of (unat (k_mss k)) msg) N k1"
    using assms(1) unfolding sender_inv_def by (simp add: k1 carries_append)
  show "cfg_of k1 = cfg_of k" "k_conv k1 = k_conv k" by (simp_all add: k1 parts_def)
  show "?n < 128" by (fact n)
qed

lemma set_stamps_nth: "x \<in> set (stamps k wnd i ss) \<Longrightarrow> \<exists>j < length ss. x = stamp k wnd (i + j) (ss ! j)"
proof (induction ss arbitrary: i)
  case (Cons s ss)
  then show ?case
  proof (cases "x = stamp k wnd i s")
    case False
    with Cons obtain j where "j < length ss" "x = stamp k wnd (Suc i + j) (ss ! j)" by fastforce
    then show ?thesis by (intro exI [of _ "Suc j"]) simp
  qed auto
qed simp

lemma sender_moved:
  assumes "sender_inv F N k" "n \<le> length (k_snd_queue k)"
  shows "\<forall>s \<in> set (k_snd_buf (moved wnd n k)). carries F (N + n) s" "N + n \<le> length F"
    "map frag_of (k_snd_queue (moved wnd n k)) = drop (N + n) F" "k_snd_nxt (moved wnd n k) = of_nat (N + n)"
proof -
  have q: "map frag_of (k_snd_queue k) = drop N F" "k_snd_nxt k = of_nat N" "N \<le> length F"
    using assms(1) by (simp_all add: sender_inv_def)
  have lq: "length (k_snd_queue k) = length F - N" using arg_cong [OF q(1), of length] by simp
  show NF: "N + n \<le> length F" using lq assms(2) q(3) by simp
  show "map frag_of (k_snd_queue (moved wnd n k)) = drop (N + n) F"
    using q(1) by (simp add: moved_def flip: drop_map) (simp add: add.commute)
  show "k_snd_nxt (moved wnd n k) = of_nat (N + n)" by (simp add: moved_def q(2))
  show "\<forall>s \<in> set (k_snd_buf (moved wnd n k)). carries F (N + n) s"
  proof
    fix s assume "s \<in> set (k_snd_buf (moved wnd n k))"
    then consider "s \<in> set (k_snd_buf k)" | "s \<in> set (stamps k wnd 0 (take n (k_snd_queue k)))"
      by (auto simp: moved_def)
    then show "carries F (N + n) s"
    proof cases
      case 1
      then show ?thesis using assms(1) carries_mono [of F N s "N + n"] by (simp add: sender_inv_def)
    next
      case 2
      from set_stamps_nth [OF this] assms(2) obtain j where
        j: "j < n" "s = stamp k wnd j (k_snd_queue k ! j)" by auto
      have "frag_of (k_snd_queue k ! j) = map frag_of (k_snd_queue k) ! j" using j(1) assms(2) by simp
      also have "\<dots> = F ! (N + j)" using q(1) j(1) NF by simp
      finally show ?thesis using j q(2) by (auto simp: carries_def stamp_def frag_of_def intro!: exI [of _ "N + j"])
    qed
  qed
qed

lemma sender_cong:
  assumes "sender_inv F N k" "kcp_ok k1" "k_stream k1 = k_stream k" "k_snd_nxt k1 = k_snd_nxt k"
    "k_snd_queue k1 = k_snd_queue k"
    "\<And>s. s \<in> set (k_snd_buf k1) \<Longrightarrow> \<exists>s0 \<in> set (k_snd_buf k). s_sn s = s_sn s0 \<and> frag_of s = frag_of s0"
  shows "sender_inv F N k1"
proof -
  have "carries F N s" if "s \<in> set (k_snd_buf k1)" for s
  proof -
    from assms(6) [OF that] obtain s0 where "s0 \<in> set (k_snd_buf k)" "s_sn s = s_sn s0" "frag_of s = frag_of s0" by blast
    then show ?thesis using assms(1) by (auto simp: sender_inv_def carries_def)
  qed
  then show ?thesis using assms(1-5) by (simp add: sender_inv_def)
qed

text \<open>What a flush of the sender puts on the wire.\<close>

definition good_seg :: "(u32 \<times> u8 list) list \<Rightarrow> nat \<Rightarrow> u32 \<Rightarrow> seg \<Rightarrow> bool" where
  "good_seg F N conv s \<longleftrightarrow> wire_ok conv s \<and> (s_cmd s = IKCP_CMD_PUSH \<longrightarrow> carries F N s)"

definition good_packet :: "(u32 \<times> u8 list) list \<Rightarrow> nat \<Rightarrow> u32 \<Rightarrow> u8 list \<Rightarrow> bool" where
  "good_packet F N conv p \<longleftrightarrow> (\<exists>ss. p = concat (map wire ss) \<and> (\<forall>s \<in> set ss. good_seg F N conv s))"

lemma good_packets:
  assumes "packets_of mtu segs outs" "\<forall>s \<in> set segs. good_seg F N conv s" "p \<in> set outs"
  shows "good_packet F N conv p"
proof -
  from assms(1,3) obtain gs g where "segs = concat gs" "g \<in> set gs" "p = concat (map wire g)"
    by (auto simp: packets_of_def)
  moreover from this assms(2) have "\<forall>s \<in> set g. good_seg F N conv s" by auto
  ultimately show ?thesis by (auto simp: good_packet_def)
qed

lemma control_good:
  assumes "s \<in> set (ack_segs k i n @ probe_segs k)"
  shows "good_seg F N (k_conv k) s"
proof -
  have "\<exists>a b c. s = (flush_head k)\<lparr>s_sn := a, s_ts := b, s_cmd := c\<rparr> \<and> c \<in> {IKCP_CMD_ACK, IKCP_CMD_WASK, IKCP_CMD_WINS}"
  proof (cases "s \<in> set (ack_segs k i n)")
    case True
    then obtain j where "s = (flush_head k)\<lparr>s_sn := fst (ikcp_ack_get k j), s_ts := snd (ikcp_ack_get k j)\<rparr>"
      by (auto simp: ack_segs_def)
    moreover have "(flush_head k)\<lparr>s_sn := a, s_ts := b\<rparr> = (flush_head k)\<lparr>s_sn := a, s_ts := b, s_cmd := IKCP_CMD_ACK\<rparr>" for a b
      by (simp add: flush_head_def)
    ultimately have "s = (flush_head k)\<lparr>s_sn := fst (ikcp_ack_get k j), s_ts := snd (ikcp_ack_get k j), s_cmd := IKCP_CMD_ACK\<rparr>"
      by metis
    then show ?thesis by blast
  next
    case False
    then have "s \<in> set (probe_segs k)" using assms by simp
    then obtain c where "s = (flush_sg k)\<lparr>s_cmd := c\<rparr>" "c \<in> {IKCP_CMD_WASK, IKCP_CMD_WINS}"
      by (auto simp: probe_segs_def Let_def split: if_splits)
    moreover from flush_sg_head [of k] obtain a b where "flush_sg k = (flush_head k)\<lparr>s_sn := a, s_ts := b\<rparr>" by blast
    ultimately show ?thesis by (intro exI [of _ a] exI [of _ b] exI [of _ c]) simp
  qed
  then show ?thesis
    by (auto simp: good_seg_def wire_ok_def seg_len_ok_def flush_head_def segment_new_def)
qed

lemma sender_flush:
  assumes "sender_inv F N k" "ikcp_flush k = Some (k1, outs)" "length F < seq_limit"
  obtains M where "N \<le> M" "sender_inv F M k1" "\<And>p. p \<in> set outs \<Longrightarrow> good_packet F M (k_conv k) p"
    "cfg_of k1 = cfg_of k" "k_conv k1 = k_conv k" "rcv_of k1 = rcv_of k"
proof (cases "k_updated k = 0")
  case True
  then have "k1 = k" "outs = []" using assms(2) by (simp_all add: ikcp_flush_def)
  then show thesis using assms(1) by (intro that [of N]) simp_all
next
  case False
  have ok: "kcp_ok k" using assms(1) by (simp add: sender_inv_def)
  note fp = flush_parts [OF ok assms(2) False]
  from flush_moved_eq [of k] obtain n where n: "n \<le> length (k_snd_queue k)"
    "flush_moved k = moved (ikcp_wnd_unused k) n (flush_start k)" by blast
  have st: "k_snd_queue (flush_start k) = k_snd_queue k" "k_snd_buf (flush_start k) = k_snd_buf k"
    using flush_start_keeps(3) [of k] by (simp_all add: snd_of_def)
  have "kcp_ok (flush_start k)"
    using ok flush_start_keeps(5-7) [of k] cfg_ok_cong [OF flush_start_keeps(2)] snd_ok_cong [OF flush_start_keeps(3)]
      rcv_ok_cong [OF flush_start_keeps(4)] by (simp add: kcp_ok_def ack_ok_def)
  then have "sender_inv F N (flush_start k)"
    using assms(1) flush_start_keeps(8,9) [of k] st by (simp add: sender_inv_def)
  note mv = sender_moved [OF this n(1) [folded st(1)]]
  have "\<forall>s \<in> set (k_snd_buf k1). carries F (N + n) s"
    using mv(1) [of "ikcp_wnd_unused k"] unfolding fp(6) n(2) by (auto simp: carries_def frag_of_def)
  then have inv: "sender_inv F (N + n) k1"
    using fp(4,5,7,9) mv(2) mv(3,4) [of "ikcp_wnd_unused k", folded n(2)] assms(1) by (simp add: sender_inv_def)
  have "set (data_segs k) \<subseteq> set (k_snd_buf k1)"
    by (auto simp: data_segs_def fp(6) Let_def)
  moreover have "good_seg F (N + n) (k_conv k) s" if "s \<in> set (k_snd_buf k1)" for s
    using inv that fp(3) by (auto simp: sender_inv_def kcp_ok_def snd_ok_def good_seg_def wire_ok_def seg_fits_def)
  moreover have "good_seg F (N + n) (k_conv k) s" if "s \<in> set (ack_segs k 0 (unat (k_ackcount k))) \<union> set (probe_segs k)" for s
    by (rule control_good [of s k 0 "unat (k_ackcount k)"]) (use that in simp)
  ultimately have "\<forall>s \<in> set (flush_segs k). good_seg F (N + n) (k_conv k) s"
    unfolding flush_segs_def by auto
  then have "good_packet F (N + n) (k_conv k) p" if "p \<in> set outs" for p
    using good_packets [OF fp(10)] that by blast
  with inv fp(1-3) show thesis by (intro that [of "N + n"]) simp_all
qed


section \<open>The receiver\<close>

text \<open>
  \<open>R\<close> fragments were taken in order: first those of the messages given out, \<open>G\<close>, then the queue.
\<close>

definition receiver_inv :: "(u32 \<times> u8 list) list \<Rightarrow> nat \<Rightarrow> (u32 \<times> u8 list) list \<Rightarrow> kcp \<Rightarrow> bool" where
  "receiver_inv F N G k \<longleftrightarrow> kcp_ok k \<and> (\<forall>s \<in> set (k_rcv_buf k). carries F N s) \<and>
     (\<exists>R \<le> N. k_rcv_nxt k = of_nat R \<and> G @ map frag_of (k_rcv_queue k) = take R F)"

lemma receiver_create: "receiver_inv [] 0 [] (ikcp_create conv)"
  by (simp add: receiver_inv_def create_ok) (simp add: ikcp_create_def)

lemma receiver_taken:
  assumes "receiver_inv F N G k" "N \<le> length F" "length F < seq_limit" "kcp_ok (taken n k)"
    and "n \<le> length (k_rcv_buf k)" "\<forall>i < n. s_sn (k_rcv_buf k ! i) = k_rcv_nxt k + of_nat i"
  shows "receiver_inv F N G (taken n k)"
proof -
  from assms(1) obtain R where R: "R \<le> N" "k_rcv_nxt k = of_nat R" "G @ map frag_of (k_rcv_queue k) = take R F"
    and buf: "\<forall>s \<in> set (k_rcv_buf k). carries F N s" by (auto simp: receiver_inv_def)
  have step: "R + j < N \<and> frag_of (k_rcv_buf k ! j) = F ! (R + j)" if "R + j \<le> N" "j < n" for j
  proof -
    have "carries F N (k_rcv_buf k ! j)" using buf assms(5) that(2) by simp
    then obtain i where i: "i < N" "s_sn (k_rcv_buf k ! j) = of_nat i" "frag_of (k_rcv_buf k ! j) = F ! i"
      by (auto simp: carries_def)
    have "of_nat i = (of_nat (R + j) :: u32)" using assms(6) that(2) i(2) R(2) by auto
    then have "i = R + j" by (rule of_nat_u32_eq) (use i(1) that(1) assms(2,3) in linarith)+
    then show ?thesis using i by simp
  qed
  have RN: "R + j \<le> N" if "j \<le> n" for j
    using that by (induction j) (use R(1) step in \<open>auto simp: Suc_le_eq\<close>)
  have "map frag_of (take n (k_rcv_buf k)) = take n (drop R F)"
  proof (rule nth_equalityI)
    show "length (map frag_of (take n (k_rcv_buf k))) = length (take n (drop R F))"
      using assms(2,5) RN [of n] by simp
    fix j assume "j < length (map frag_of (take n (k_rcv_buf k)))"
    then have j: "j < n" "j < length (k_rcv_buf k)" by simp_all
    then show "map frag_of (take n (k_rcv_buf k)) ! j = take n (drop R F) ! j"
      using step [of j] RN [of j] assms(2) by simp
  qed
  then have "G @ map frag_of (k_rcv_queue (taken n k)) = take (R + n) F"
    using R(3) by (simp add: taken_def take_add flip: append_assoc)
  moreover have "k_rcv_nxt (taken n k) = of_nat (R + n)" by (simp add: taken_def R(2))
  moreover have "set (k_rcv_buf (taken n k)) \<subseteq> set (k_rcv_buf k)" by (simp add: taken_def set_drop_subset)
  ultimately show ?thesis using assms(4) buf RN [of n] unfolding receiver_inv_def
    by (intro conjI exI [of _ "R + n"]) auto
qed

lemma receiver_cong:
  assumes "receiver_inv F N G k" "kcp_ok k1" "rcv_of k1 = rcv_of k"
  shows "receiver_inv F N G k1"
  using assms by (simp add: receiver_inv_def rcv_of_def)

lemma receiver_mono:
  assumes "receiver_inv F N G k" "N \<le> M"
  shows "receiver_inv F M G k"
  using assms carries_mono [OF _ assms(2)] unfolding receiver_inv_def by (meson order_trans)

lemma receiver_append:
  assumes "receiver_inv F N G k" "N \<le> length F"
  shows "receiver_inv (F @ F1) N G k"
  using assms carries_append [OF assms(2)] unfolding receiver_inv_def by auto

lemma receiver_data:
  assumes "receiver_inv F N G k" "N \<le> length F" "length F < seq_limit" "seg_len_ok s" "carries F N s"
  shows "receiver_inv F N G (ikcp_parse_data k s)"
proof (cases "in_window k (s_sn s)")
  case False
  then show ?thesis using assms(1) by (simp add: parse_data_eq)
next
  case True
  have ok: "kcp_ok k" using assms(1) by (simp add: receiver_inv_def)
  from move_ready_seq [of "buffered k s"] obtain n where n: "n \<le> length (k_rcv_buf (buffered k s))"
    "move_ready (buffered k s) = taken n (buffered k s)"
    "\<forall>i < n. s_sn (k_rcv_buf (buffered k s) ! i) = k_rcv_nxt (buffered k s) + of_nat i" by blast
  have "kcp_ok (buffered k s)"
    by (rule rcv_part_ok [OF ok]) (use ok assms(4) buffered_ok in \<open>simp_all add: kcp_ok_def\<close>)
  moreover have "\<forall>x \<in> set (k_rcv_buf (buffered k s)). carries F N x"
    using buffered_set [of k s] assms(1,5) by (auto simp: receiver_inv_def)
  ultimately have "receiver_inv F N G (buffered k s)" using assms(1) by (simp add: receiver_inv_def)
  from receiver_taken [OF this assms(2,3) _ n(1,3)] show ?thesis
    using True n(2) parse_data_ok [OF ok assms(4)] by (simp add: parse_data_eq)
qed

text \<open>A segment of a good packet, as the receiver sees it.\<close>

lemma receiver_seg:
  assumes "receiver_inv F N G k" "N \<le> length F" "length F < seq_limit" "\<forall>f \<in> set F. fst f < 256"
    and "good_seg F N (k_conv k) s" "input_seg k m (hdr_of s) (s_data s @ rest) = Some (k1, m1)"
    and "unat (k_ackcount k) < 1073741824"
  shows "receiver_inv F N G k1"
proof -
  have ok: "kcp_ok k" using assms(1) by (simp add: receiver_inv_def)
  have w: "wire_ok (k_conv k) s" "seg_len_ok s" using assms(5) by (auto simp: good_seg_def wire_ok_def)
  have len: "unat (h_len (hdr_of s)) \<le> length (s_data s @ rest)" "unat (h_len (hdr_of s)) < 2147483648"
    using w(2) by (simp_all add: hdr_of_def seg_len_ok_def)
  from input_seg_ok [OF ok assms(7) len] assms(6) have ok1: "kcp_ok k1" by (metis Pair_inject option.inject)
  let ?k = "input_head k (hdr_of s)"
  have h: "ack_keeps k ?k" by (rule ack_keeps_head)
  have r: "receiver_inv F N G ?k"
    using receiver_cong [OF assms(1) ack_keeps_ok [OF h ok]] h by (simp add: ack_keeps_def)
  show ?thesis
  proof (cases "s_cmd s = IKCP_CMD_PUSH")
    case False
    then have "rcv_of k1 = rcv_of ?k"
      using assms(6) wire_cmd [OF w(1)] ack_keeps_input_ack [of ?k "hdr_of s"]
      by (auto simp: input_seg_def Let_def ack_keeps_def parts_def split: if_splits)
    then show ?thesis using receiver_cong [OF r ok1] by simp
  next
    case True
    have c: "carries F N s" using True assms(5) by (simp add: good_seg_def)
    let ?s = "pushed (hdr_of s) (s_data s @ rest)"
    from c obtain i where "i < N" "frag_of s = F ! i" by (auto simp: carries_def)
    then have "frag_of s \<in> set F" using assms(2) by simp
    then have "s_frg s < 256" using assms(4) by (force simp: frag_of_def)
    then have "ucast (ucast (s_frg s) :: u8) = s_frg s"
      by (simp add: word_less_nat_alt word_unat_eq_iff unsigned_ucast_eq unsigned_take_bit_eq take_bit_nat_eq_self)
    then have "carries F N ?s"
      using c w(2) by (auto simp: carries_def frag_of_def pushed_def hdr_of_def seg_len_ok_def)
    then have data: "receiver_inv F N G (ikcp_parse_data k2 ?s)" if "receiver_inv F N G k2" for k2
      using receiver_data [OF that assms(2,3) pushed_len_ok [OF len]] by blast
    have kk: "kcp_ok ?k" "unat (k_ackcount ?k) < 1073741824"
      using ack_keeps_ok [OF h ok] ack_keeps_count [OF h] assms(7) by simp_all
    from ack_pushed_ok [OF kk, of "h_sn (hdr_of s)" "h_ts (hdr_of s)"] obtain k2 where
      k2: "ikcp_ack_push ?k (h_sn (hdr_of s)) (h_ts (hdr_of s)) = Some k2" "kcp_ok k2" "rcv_of k2 = rcv_of ?k" by metis
    have "input_push ?k (hdr_of s) (s_data s @ rest) = Some k1"
      using assms(6) True wire_cmd [OF w(1)] by (simp add: input_seg_def)
    then have "k1 = ?k \<or> k1 = k2 \<or> k1 = ikcp_parse_data k2 ?s"
      using k2(1) by (auto simp: input_push_def pushed_def split: if_splits)
    then show ?thesis using r receiver_cong [OF r k2(2,3)] data by blast
  qed
qed


lemma receiver_segs:
  assumes "receiver_inv F N G k" "N \<le> length F" "length F < seq_limit" "\<forall>f \<in> set F. fst f < 256"
    and "\<forall>s \<in> set ss. good_seg F N (k_conv k) s" "input_segs k m ss [] = Some (k1, m1)"
    and "unat (k_ackcount k) + length ss < 1073741824"
  shows "receiver_inv F N G k1"
  using assms(1,5-7)
proof (induction ss arbitrary: k m)
  case (Cons s ss)
  let ?h = "hdr_of s" and ?p = "s_data s @ concat (map wire ss) @ []"
  from Cons.prems(3) obtain k2 m2 where s: "input_seg k m ?h ?p = Some (k2, m2)" "input_segs k2 m2 ss [] = Some (k1, m1)"
    by (auto split: option.splits)
  have w: "seg_len_ok s" using Cons.prems(2) by (auto simp: good_seg_def wire_ok_def)
  have ok: "kcp_ok k" using Cons.prems(1) by (simp add: receiver_inv_def)
  have cnt: "unat (k_ackcount k) < 1073741824" using Cons.prems(4) by simp
  have len: "unat (h_len ?h) \<le> length ?p" "unat (h_len ?h) < 2147483648"
    using w by (simp_all add: hdr_of_def seg_len_ok_def)
  have "unat (k_ackcount k2) \<le> unat (k_ackcount k) + 1"
    using input_seg_ok [OF ok cnt len] s(1) by (metis Pair_inject option.inject)
  moreover have "receiver_inv F N G k2"
    using receiver_seg [OF Cons.prems(1) assms(2-4) _ s(1) cnt] Cons.prems(2) by simp
  moreover have "k_conv k2 = k_conv k" by (rule conv_input_seg [OF s(1)])
  ultimately show ?case using Cons.IH [OF _ _ s(2)] Cons.prems(2,4) by simp
qed simp

lemma receiver_input:
  assumes "receiver_inv F N G k" "N \<le> length F" "length F < seq_limit" "\<forall>f \<in> set F. fst f < 256"
    and "good_packet F N (k_conv k) p" "ikcp_input k p = Some (k1, r)" "ack_room k (length p)"
  shows "receiver_inv F N G k1"
proof (cases "sint (of_nat (length p) :: u32) < 24")
  case True
  then show ?thesis using assms(1,6) by (simp add: ikcp_input_def)
next
  case False
  from assms(5) obtain ss where ss: "p = concat (map wire ss)" "\<forall>s \<in> set ss. good_seg F N (k_conv k) s"
    by (auto simp: good_packet_def)
  have ok: "kcp_ok k" using assms(1) by (simp add: receiver_inv_def)
  from input_total [OF ok assms(7)] assms(6) have ok1: "kcp_ok k1" by (metis Pair_inject option.inject)
  have wires: "input_loop k None p = map_option (\<lambda>(k1, m1). (k1, m1, 0)) (input_segs k None ss [])"
    unfolding ss(1) by (rule input_loop_wires) (use ss(2) in \<open>auto simp: good_seg_def\<close>)
  from input_loop_ok [OF ok assms(7), of None] obtain k2 m2 where
    l: "input_loop k None p = Some (k2, m2, 0)" "input_segs k None ss [] = Some (k2, m2)" "kcp_ok k2"
    unfolding wires by auto
  have "24 * length ss \<le> length p"
    using ss(2) unfolding ss(1) by (induction ss) (auto simp: length_wire good_seg_def wire_ok_def)
  then have "length ss \<le> length p div 24" by (simp add: less_eq_div_iff_mult_less_eq mult.commute)
  then have "unat (k_ackcount k) + length ss < 1073741824" using assms(7) by (simp add: ack_room_def)
  from receiver_segs [OF assms(1-4) ss(2) l(2) this] have inv: "receiver_inv F N G k2" .
  define k3 where "k3 = (case m2 of Some (sn, ts) \<Rightarrow> ikcp_parse_fastack k2 sn ts | None \<Rightarrow> k2)"
  have k3: "ack_keeps k2 k3" using ack_keeps_fastack ack_keeps_refl by (simp add: k3_def split: option.splits)
  have "k1 = (if itimediff (k_snd_una k3) (k_snd_una k) > 0 then open_cwnd k3 else k3)"
    using assms(6) False l(1) unfolding ikcp_input_def by (simp add: k3_def [symmetric] Let_def)
  then have "ack_keeps k3 k1" using ack_keeps_open_cwnd ack_keeps_refl by simp
  then have "ack_keeps k2 k1" by (rule ack_keeps_trans [OF k3])
  then have "rcv_of k1 = rcv_of k2" by (simp add: ack_keeps_def)
  then show ?thesis using receiver_cong [OF inv ok1] by simp
qed


text \<open>Merging gives back a whole message.\<close>

lemma merge_frags:
  assumes "map frag_of ss = frag_list mss (Suc n) msg @ tl1" "\<forall>s \<in> set ss. seg_len_ok s" "n < 4294967296"
  shows "\<exists>m. merge_loop ss z = (take (Suc n * mss) msg, m, Suc n, drop (Suc n) ss)"
  using assms
proof (induction n arbitrary: ss msg z)
  case 0
  then obtain s ss1 where "ss = s # ss1" "frag_of s = (0, take mss msg)" by (cases ss) auto
  then show ?case using 0 by (auto simp: frag_of_def seg_bytes_ok)
next
  case (Suc n)
  from Suc.prems(1) obtain s ss1 where ss: "ss = s # ss1" "frag_of s = (of_nat (Suc n), take mss msg)"
    "map frag_of ss1 = frag_list mss (Suc n) (drop mss msg) @ tl1" by (cases ss) auto
  have "(of_nat (Suc n) :: u32) \<noteq> of_nat 0"
    using of_nat_u32_eq [of "Suc n" 0] Suc.prems(3) by auto
  then have nz: "s_frg s \<noteq> 0" using ss(2) by (simp add: frag_of_def)
  from Suc.IH [OF ss(3), of "z + s_len s"] Suc.prems(2,3) ss(1) obtain m where
    "merge_loop ss1 (z + s_len s) = (take (Suc n * mss) (drop mss msg), m, Suc n, drop (Suc n) ss1)" by auto
  moreover have "seg_bytes s = take mss msg"
    using ss Suc.prems(2) by (simp add: seg_bytes_ok frag_of_def)
  ultimately show ?case using nz ss(1) by (simp add: take_add)
qed

lemma queue_prefix:
  assumes "all_frags mss (take m sent) @ q = take R (all_frags mss sent)" "m < length sent"
  shows "q = take (R - length (all_frags mss (take m sent))) (frags_of mss (sent ! m) @ all_frags mss (drop (Suc m) sent))"
    "length (all_frags mss (take m sent)) \<le> R"
proof -
  let ?a = "all_frags mss (take m sent)"
  have split: "all_frags mss sent = ?a @ frags_of mss (sent ! m) @ all_frags mss (drop (Suc m) sent)"
    using assms(2) by (metis all_frags_simps(2,3) append_take_drop_id id_take_nth_drop append_assoc Cons_nth_drop_Suc)
  have "length (?a @ q) \<le> R" unfolding assms(1) by simp
  then show "length ?a \<le> R" by simp
  with assms(1) show "q = take (R - length ?a) (frags_of mss (sent ! m) @ all_frags mss (drop (Suc m) sent))"
    unfolding split by simp
qed


lemma frag_count_pos: "0 < mss \<Longrightarrow> 0 < frag_count mss n"
  by (cases n) (simp_all add: frag_count_def div_greater_zero_iff)

lemma frags_of_Suc:
  assumes "0 < mss"
  obtains c where "frag_count mss (length msg) = Suc c" "frags_of mss msg = frag_list mss (Suc c) msg"
    "take (Suc c * mss) msg = msg"
proof -
  from frag_count_pos [OF assms] obtain c where c: "frag_count mss (length msg) = Suc c"
    by (metis gr0_conv_Suc)
  moreover have "take (Suc c * mss) msg = msg" using frag_count_enough [OF assms, of "length msg"] c by simp
  ultimately show thesis by (intro that [of c]) (simp_all add: frags_of_def)
qed

text \<open>A message is given out only when all of it has arrived.\<close>

lemma whole_message:
  assumes "\<not> ikcp_peeksize k < 0" "k_rcv_queue k \<noteq> []" "rcv_ok k" "length (k_rcv_queue k) < seq_limit" "0 < mss"
    and "map frag_of (k_rcv_queue k) = take R (frags_of mss msg @ tl1)" "frag_count mss (length msg) < 128"
  obtains m where "merge_loop (k_rcv_queue k) 0 = (msg, m, length (frags_of mss msg), drop (length (frags_of mss msg)) (k_rcv_queue k))"
    "length (frags_of mss msg) \<le> length (k_rcv_queue k)"
    "map frag_of (take (length (frags_of mss msg)) (k_rcv_queue k)) = frags_of mss msg"
proof -
  let ?q = "k_rcv_queue k"
  from frags_of_Suc [OF assms(5), of msg] obtain c where c: "frag_count mss (length msg) = Suc c"
    "frags_of mss msg = frag_list mss (Suc c) msg" "take (Suc c * mss) msg = msg" by metis
  have R: "0 < R" using assms(2,6) by (cases R) auto
  obtain s ss where q: "?q = s # ss" using assms(2) by (cases ?q) auto
  have f: "s_frg s = of_nat c" using assms(6) R c(2) by (cases R) (auto simp: q frag_of_def)
  have "Suc c \<le> length ?q"
  proof (cases "c = 0")
    case False
    then have "of_nat c \<noteq> (of_nat 0 :: u32)" using of_nat_u32_eq [of c 0] c(1) assms(7) by auto
    then have "\<not> k_nrcv_que k < s_frg s + 1"
      using assms(1) f by (simp add: ikcp_peeksize_def q split: if_splits)
    then have "(of_nat (Suc c) :: u32) \<le> of_nat (length ?q)"
      using assms(3) f by (simp add: rcv_ok_def not_less add.commute)
    then show ?thesis using c(1) assms(4,7)
      by (simp add: word_le_nat_alt unat_of_nat take_bit_nat_eq_self del: of_nat_Suc)
  qed (simp add: q)
  moreover have lenq: "length ?q = min R (length (frags_of mss msg @ tl1))" using arg_cong [OF assms(6), of length] by simp
  ultimately have mq: "map frag_of ?q = frag_list mss (Suc c) msg @ take (R - Suc c) tl1"
    using assms(6) c(2) by (simp del: frag_list.simps)
  have "map frag_of (take (length (frags_of mss msg)) ?q) = frags_of mss msg"
    unfolding take_map [symmetric] mq by (simp add: c(2))
  moreover from merge_frags [OF mq _ _, of 0] assms(3) c(1) assms(7) obtain m where
    "merge_loop ?q 0 = (take (Suc c * mss) msg, m, Suc c, drop (Suc c) ?q)" by (auto simp: rcv_ok_def)
  ultimately show thesis using that c \<open>Suc c \<le> length ?q\<close> by simp
qed

lemma receiver_recv:
  assumes inv: "receiver_inv (all_frags mss sent) N (all_frags mss (take m sent)) k"
    and N: "N \<le> length (all_frags mss sent)" "length (all_frags mss sent) < seq_limit"
    and msgs: "0 < mss" "\<forall>msg \<in> set sent. frag_count mss (length msg) < 128"
    and m: "m \<le> length sent" and recv: "ikcp_recv k len = Some (k1, r, bs)" "0 \<le> len"
  shows "(r < 0 \<and> k1 = k) \<or> (0 \<le> r \<and> m < length sent \<and> bs = sent ! m \<and>
     receiver_inv (all_frags mss sent) N (all_frags mss (take (Suc m) sent)) k1)"
proof (cases "k_rcv_queue k = [] \<or> ikcp_peeksize k < 0 \<or> \<not> ikcp_peeksize k \<le> (if len < 0 then - len else len)")
  case True
  then show ?thesis using recv_error [OF True] recv(1) by (auto split: if_splits)
next
  case False
  then have nq: "k_rcv_queue k \<noteq> []" "\<not> ikcp_peeksize k < 0" "ikcp_peeksize k \<le> (if len < 0 then - len else len)" by auto
  let ?F = "all_frags mss sent" and ?q = "k_rcv_queue k"
  have ok: "kcp_ok k" "rcv_ok k" using inv by (auto simp: receiver_inv_def kcp_ok_def)
  from inv obtain R where R: "R \<le> N" "k_rcv_nxt k = of_nat R" "all_frags mss (take m sent) @ map frag_of ?q = take R ?F"
    by (auto simp: receiver_inv_def)
  have lm: "m < length sent"
  proof (rule ccontr)
    assume "\<not> m < length sent"
    then have "?F @ map frag_of ?q = take R ?F" using R(3) m by simp
    then have "length ?F + length ?q \<le> length ?F" by (metis length_append length_map length_take min.cobounded1)
    then show False using nq(1) by simp
  qed
  let ?f = "frags_of mss (sent ! m)"
  have cnt: "frag_count mss (length (sent ! m)) < 128" using msgs(2) lm by simp
  have "length ?q < seq_limit"
  proof -
    have "length ?q \<le> length (take R ?F)" unfolding R(3) [symmetric] by simp
    then show ?thesis using N by simp
  qed
  from whole_message [OF nq(2,1) ok(2) this msgs(1) queue_prefix(1) [OF R(3) lm] cnt] obtain z where
    ml: "merge_loop ?q 0 = (sent ! m, z, length ?f, drop (length ?f) ?q)" and lf: "length ?f \<le> length ?q"
    and pre: "map frag_of (take (length ?f) ?q) = ?f" by metis
  from recv_cases [OF ok(1) nq ml] obtain k2 n p where
    rc: "ikcp_recv k len = Some ((taken n k2)\<lparr>k_probe := p\<rparr>, ikcp_peeksize k, sent ! m)"
    and k2: "k2 = (if len < 0 then k else k\<lparr>k_rcv_queue := drop (length ?f) ?q, k_nrcv_que := k_nrcv_que k - of_nat (length ?f)\<rparr>)"
    and n: "n \<le> length (k_rcv_buf k2)" "\<forall>i < n. s_sn (k_rcv_buf k2 ! i) = k_rcv_nxt k2 + of_nat i" "rcv_ok k2" by metis
  then have k2: "k2 = k\<lparr>k_rcv_queue := drop (length ?f) ?q, k_nrcv_que := k_nrcv_que k - of_nat (length ?f)\<rparr>"
    using recv(2) by simp
  have "all_frags mss (take (Suc m) sent) @ map frag_of (drop (length ?f) ?q) = take R ?F"
  proof -
    have "all_frags mss (take (Suc m) sent) = all_frags mss (take m sent) @ ?f"
      using lm by (simp add: take_Suc_conv_app_nth)
    moreover have "?f @ map frag_of (drop (length ?f) ?q) = map frag_of ?q"
      using pre by (metis append_take_drop_id map_append)
    ultimately show ?thesis using R(3) by simp
  qed
  moreover have "kcp_ok k2" by (rule rcv_part_ok [OF ok(1) n(3)]) (simp_all add: k2 parts_def)
  ultimately have inv2: "receiver_inv ?F N (all_frags mss (take (Suc m) sent)) k2"
    using inv R(1,2) by (auto simp: receiver_inv_def k2)
  have "kcp_ok (taken n k2)" by (rule rcv_part_ok [OF \<open>kcp_ok k2\<close> taken_ok [OF n(3,1)]]) simp_all
  from receiver_taken [OF inv2 N this n(1,2)] have "receiver_inv ?F N (all_frags mss (take (Suc m) sent)) (taken n k2)" .
  then have "receiver_inv ?F N (all_frags mss (take (Suc m) sent)) ((taken n k2)\<lparr>k_probe := p\<rparr>)"
    by (simp add: receiver_inv_def)
  then show ?thesis using rc recv(1) nq(2) lm by auto
qed

end
