(* ===== verification/Kcp_Link.thy ===== *)
theory Kcp_Link
  imports Kcp_Transfer
begin

text \<open>
  Two ends of a conversation of \<^verbatim>\<open>src/depends/lua-kcp/kcp/ikcp.c\<close> over a network that loses, duplicates and
  reorders packets: the step relation, its invariant, and that every step keeps it.
\<close>

text \<open>
  Two control blocks \<open>a\<close> and \<open>b\<close> of one conversation.  Messages given to \<open>a\<close> are listed in \<open>sent\<close>,
  messages that \<open>b\<close> gave out in \<open>got\<close>.  Every packet that \<open>a\<close> wrote stays in \<open>net\<close>: it may arrive
  at \<open>b\<close> never, once or many times, in any order.  What arrives at \<open>a\<close> is arbitrary.
\<close>

record link =
  l_a :: kcp
  l_b :: kcp
  l_net :: "u8 list set"
  l_sent :: "u8 list list"
  l_got :: "u8 list list"

definition link_init :: "u32 \<Rightarrow> link" where
  "link_init conv = \<lparr>l_a = ikcp_create conv, l_b = ikcp_create conv, l_net = {}, l_sent = [], l_got = []\<rparr>"

inductive link_step :: "link \<Rightarrow> link \<Rightarrow> bool" where
  a_send: "length msg < seq_limit \<Longrightarrow> ikcp_send (l_a st) msg (int (length msg)) = Some (a1, r) \<Longrightarrow>
     link_step st (st\<lparr>l_a := a1, l_sent := (if r = 0 then l_sent st @ [msg] else l_sent st)\<rparr>)"
| a_flush: "ikcp_flush (l_a st) = Some (a1, outs) \<Longrightarrow>
     link_step st (st\<lparr>l_a := a1, l_net := l_net st \<union> set outs\<rparr>)"
| a_update: "ikcp_update (l_a st) t = Some (a1, outs) \<Longrightarrow>
     link_step st (st\<lparr>l_a := a1, l_net := l_net st \<union> set outs\<rparr>)"
| a_input: "ack_room (l_a st) (length data) \<Longrightarrow> ikcp_input (l_a st) data = Some (a1, r) \<Longrightarrow>
     link_step st (st\<lparr>l_a := a1\<rparr>)"
| a_recv: "ikcp_recv (l_a st) len = Some (a1, r, bs) \<Longrightarrow> link_step st (st\<lparr>l_a := a1\<rparr>)"
| a_wndsize: "link_step st (st\<lparr>l_a := lkcp_wndsize (l_a st) sw rw\<rparr>)"
| a_nodelay: "link_step st (st\<lparr>l_a := fst (lkcp_nodelay (l_a st) nd iv rs nc)\<rparr>)"
| b_input: "p \<in> l_net st \<Longrightarrow> ack_room (l_b st) (length p) \<Longrightarrow> ikcp_input (l_b st) p = Some (b1, r) \<Longrightarrow>
     link_step st (st\<lparr>l_b := b1\<rparr>)"
| b_recv: "0 \<le> len \<Longrightarrow> ikcp_recv (l_b st) len = Some (b1, r, bs) \<Longrightarrow>
     link_step st (st\<lparr>l_b := b1, l_got := (if r \<ge> 0 then l_got st @ [bs] else l_got st)\<rparr>)"
| b_send: "ikcp_send (l_b st) buffer len = Some (b1, r) \<Longrightarrow> link_step st (st\<lparr>l_b := b1\<rparr>)"
| b_flush: "ikcp_flush (l_b st) = Some (b1, outs) \<Longrightarrow> link_step st (st\<lparr>l_b := b1\<rparr>)"
| b_update: "ikcp_update (l_b st) t = Some (b1, outs) \<Longrightarrow> link_step st (st\<lparr>l_b := b1\<rparr>)"
| b_wndsize: "link_step st (st\<lparr>l_b := lkcp_wndsize (l_b st) sw rw\<rparr>)"
| b_nodelay: "link_step st (st\<lparr>l_b := fst (lkcp_nodelay (l_b st) nd iv rs nc)\<rparr>)"

inductive link_reach :: "u32 \<Rightarrow> link \<Rightarrow> bool" for conv where
  init: "link_reach conv (link_init conv)"
| step: "link_reach conv st \<Longrightarrow> link_step st st1 \<Longrightarrow> link_reach conv st1"

inductive_cases link_stepE: "link_step st st1"

text \<open>The default fragment size: no function of the Lua library changes it.\<close>

abbreviation mss0 :: nat where "mss0 \<equiv> 1376"

abbreviation link_frags :: "link \<Rightarrow> (u32 \<times> u8 list) list" where
  "link_frags st \<equiv> all_frags mss0 (l_sent st)"

definition link_inv :: "u32 \<Rightarrow> link \<Rightarrow> bool" where
  "link_inv conv st \<longleftrightarrow> (\<exists>N m. sender_inv (link_frags st) N (l_a st) \<and> k_mss (l_a st) = of_nat mss0 \<and>
     k_conv (l_a st) = conv \<and> k_conv (l_b st) = conv \<and> (\<forall>p \<in> l_net st. good_packet (link_frags st) N conv p) \<and>
     m \<le> length (l_sent st) \<and> l_got st = take m (l_sent st) \<and>
     receiver_inv (link_frags st) N (all_frags mss0 (take m (l_sent st))) (l_b st) \<and>
     (\<forall>msg \<in> set (l_sent st). frag_count mss0 (length msg) < 128))"

lemma link_init_inv: "link_inv conv (link_init conv)"
  unfolding link_inv_def
  by (intro exI [of _ 0]) (simp add: link_init_def sender_create receiver_create, simp add: ikcp_create_def)

lemma frag_list_small: "f \<in> set (frag_list mss n bs) \<Longrightarrow> n \<le> 128 \<Longrightarrow> fst f < 256"
proof (induction n arbitrary: bs)
  case (Suc n)
  have "(of_nat n :: u32) < 256" using Suc.prems(2) by (simp add: word_less_nat_alt unat_of_nat take_bit_nat_eq_self)
  then show ?case using Suc by auto
qed simp

lemma all_frags_small:
  assumes "\<forall>msg \<in> set sent. frag_count mss (length msg) < 128"
  shows "\<forall>f \<in> set (all_frags mss sent). fst f < 256"
  using assms frag_list_small by (fastforce simp: all_frags_def frags_of_def)

lemma good_packet_mono:
  assumes "good_packet F N conv p" "N \<le> M" "N \<le> length F"
  shows "good_packet (F @ G) M conv p"
  using assms carries_mono [of "F @ G" N _ M] carries_append [OF assms(3)]
  unfolding good_packet_def good_seg_def by metis

text \<open>Steps of one side leave the other side's part of the invariant alone.\<close>

lemma link_inv_a:
  assumes "link_inv conv st" "\<And>F N. sender_inv F N (l_a st) \<Longrightarrow> sender_inv F N a1"
    "k_mss a1 = k_mss (l_a st)" "k_conv a1 = k_conv (l_a st)"
  shows "link_inv conv (st\<lparr>l_a := a1\<rparr>)"
proof -
  from assms(1) obtain N m where "sender_inv (link_frags st) N (l_a st)" "k_mss (l_a st) = of_nat mss0"
    "k_conv (l_a st) = conv" "k_conv (l_b st) = conv" "\<forall>p \<in> l_net st. good_packet (link_frags st) N conv p"
    "m \<le> length (l_sent st)" "l_got st = take m (l_sent st)"
    "receiver_inv (link_frags st) N (all_frags mss0 (take m (l_sent st))) (l_b st)"
    "\<forall>msg \<in> set (l_sent st). frag_count mss0 (length msg) < 128" unfolding link_inv_def by blast
  with assms(2-4) show ?thesis unfolding link_inv_def by (intro exI [of _ N] exI [of _ m]) simp
qed

lemma link_inv_b:
  assumes "link_inv conv st" "\<And>F N G. receiver_inv F N G (l_b st) \<Longrightarrow> receiver_inv F N G b1" "k_conv b1 = k_conv (l_b st)"
  shows "link_inv conv (st\<lparr>l_b := b1\<rparr>)"
proof -
  from assms(1) obtain N m where "sender_inv (link_frags st) N (l_a st)" "k_mss (l_a st) = of_nat mss0"
    "k_conv (l_a st) = conv" "k_conv (l_b st) = conv" "\<forall>p \<in> l_net st. good_packet (link_frags st) N conv p"
    "m \<le> length (l_sent st)" "l_got st = take m (l_sent st)"
    "receiver_inv (link_frags st) N (all_frags mss0 (take m (l_sent st))) (l_b st)"
    "\<forall>msg \<in> set (l_sent st). frag_count mss0 (length msg) < 128" unfolding link_inv_def by blast
  with assms(2,3) show ?thesis unfolding link_inv_def by (intro exI [of _ N] exI [of _ m]) simp
qed


section \<open>What the operations leave alone\<close>

definition snd_keeps :: "kcp \<Rightarrow> kcp \<Rightarrow> bool" where
  "snd_keeps k k1 \<longleftrightarrow> cfg_of k1 = cfg_of k \<and> k_conv k1 = k_conv k \<and> k_snd_queue k1 = k_snd_queue k \<and>
     k_snd_nxt k1 = k_snd_nxt k \<and> k_stream k1 = k_stream k \<and>
     (\<forall>s \<in> set (k_snd_buf k1). \<exists>s0 \<in> set (k_snd_buf k). \<exists>f. s = s0\<lparr>s_fastack := f\<rparr>)"

lemma snd_keeps_ack: "ack_keeps k k1 \<Longrightarrow> snd_keeps k k1"
  by (simp add: ack_keeps_def snd_keeps_def)

lemma snd_keepsI:
  assumes "cfg_of k1 = cfg_of k" "snd_of k1 = snd_of k" "k_snd_nxt k1 = k_snd_nxt k" "k_stream k1 = k_stream k"
  shows "snd_keeps k k1"
proof -
  have "\<exists>s0 \<in> set (k_snd_buf k). \<exists>f. s = s0\<lparr>s_fastack := f\<rparr>" if "s \<in> set (k_snd_buf k)" for s
    using seg_self [of s] that by blast
  then show ?thesis using assms by (simp add: snd_keeps_def snd_of_def)
qed

lemma snd_keeps_refl: "snd_keeps k k"
  by (rule snd_keepsI) simp_all

lemma snd_keeps_trans:
  assumes "snd_keeps a b" "snd_keeps b c"
  shows "snd_keeps a c"
proof -
  have "\<exists>s0 \<in> set (k_snd_buf a). \<exists>f. s = s0\<lparr>s_fastack := f\<rparr>" if s: "s \<in> set (k_snd_buf c)" for s
  proof -
    from assms(2) s obtain s1 f where 1: "s1 \<in> set (k_snd_buf b)" "s = s1\<lparr>s_fastack := f\<rparr>"
      by (auto simp: snd_keeps_def)
    from assms(1) 1(1) obtain s0 g where "s0 \<in> set (k_snd_buf a)" "s1 = s0\<lparr>s_fastack := g\<rparr>"
      by (auto simp: snd_keeps_def)
    then show ?thesis using 1(2) by auto
  qed
  then show ?thesis using assms by (simp add: snd_keeps_def)
qed

lemma snd_keeps_sender:
  assumes "snd_keeps k k1" "kcp_ok k1" "sender_inv F N k"
  shows "sender_inv F N k1"
proof (rule sender_cong [OF assms(3,2)])
  fix s assume "s \<in> set (k_snd_buf k1)"
  then obtain s0 f where "s0 \<in> set (k_snd_buf k)" "s = s0\<lparr>s_fastack := f\<rparr>" using assms(1) by (auto simp: snd_keeps_def)
  then show "\<exists>s0 \<in> set (k_snd_buf k). s_sn s = s_sn s0 \<and> frag_of s = frag_of s0"
    by (intro bexI [of _ s0]) (simp_all add: frag_of_def)
qed (use assms(1) in \<open>simp_all add: snd_keeps_def\<close>)

lemma snd_keeps_parse_data: "snd_keeps k (ikcp_parse_data k s)"
proof -
  from move_ready_seq [of "buffered k s"] obtain n where "move_ready (buffered k s) = taken n (buffered k s)" by blast
  then show ?thesis by (auto simp: parse_data_eq snd_keeps_refl intro!: snd_keepsI)
qed

lemma snd_keeps_ack_push: "ikcp_ack_push k sn ts = Some k1 \<Longrightarrow> snd_keeps k k1"
  by (rule snd_keepsI) (auto simp: ikcp_ack_push_def Let_def parts_def split: if_splits)

lemma snd_keeps_push: "input_push k h p = Some k1 \<Longrightarrow> snd_keeps k k1"
  using snd_keeps_refl snd_keeps_ack_push snd_keeps_trans [OF snd_keeps_ack_push snd_keeps_parse_data]
  by (auto simp: input_push_def split: if_splits bind_splits)

lemma snd_keeps_input_seg:
  assumes "input_seg k m h p = Some (k1, m1)"
  shows "snd_keeps k k1"
proof -
  have h: "snd_keeps k (input_head k h)" by (rule snd_keeps_ack [OF ack_keeps_head])
  have "snd_keeps (input_head k h) k1"
    using assms snd_keeps_ack [OF ack_keeps_input_ack] snd_keeps_push snd_keeps_ack [OF ack_keeps_upd(3)] snd_keeps_refl
    by (auto simp: input_seg_def Let_def split: if_splits)
  then show ?thesis by (rule snd_keeps_trans [OF h])
qed

lemma input_loop_cases:
  assumes "input_loop k m data = Some (k1, m1, r)"
  obtains "k1 = k" "m1 = m" "length data < 24 \<longrightarrow> r = 0"
  | h p k2 m2 where "24 \<le> length data" "decode_hdr data = Some (h, p)" "input_seg k m h p = Some (k2, m2)"
      "input_loop k2 m2 (drop (24 + unat (h_len h)) data) = Some (k1, m1, r)"
  using assms unfolding input_loop.simps [of k m data]
  by (simp split: if_split_asm option.split_asm prod.split_asm)

lemma snd_keeps_loop: "input_loop k m data = Some (k1, m1, r) \<Longrightarrow> snd_keeps k k1"
proof (induction "length data" arbitrary: k m data rule: less_induct)
  case less
  from less.prems show ?case
  proof (cases rule: input_loop_cases)
    case (2 h p k2 m2)
    then have "length (drop (24 + unat (h_len h)) data) < length data" by simp
    from less.hyps [OF this 2(4)] show ?thesis by (rule snd_keeps_trans [OF snd_keeps_input_seg [OF 2(3)]])
  qed (simp add: snd_keeps_refl)
qed

lemma snd_keeps_input:
  assumes "ikcp_input k data = Some (k1, r)"
  shows "snd_keeps k k1"
proof (cases "sint (of_nat (length data) :: u32) < 24")
  case True
  then show ?thesis using assms snd_keeps_refl by (simp add: ikcp_input_def)
next
  case False
  with assms obtain k2 m2 e where l: "input_loop k None data = Some (k2, m2, e)" by (auto simp: ikcp_input_def bind_eq_Some_conv)
  define k3 where "k3 = (case m2 of Some (sn, ts) \<Rightarrow> ikcp_parse_fastack k2 sn ts | None \<Rightarrow> k2)"
  have a: "snd_keeps k k2" by (rule snd_keeps_loop [OF l])
  have b: "snd_keeps k2 k3" using snd_keeps_ack [OF ack_keeps_fastack] snd_keeps_refl by (simp add: k3_def split: option.splits)
  have c: "snd_keeps k3 (if itimediff (k_snd_una k3) (k_snd_una k) > 0 then open_cwnd k3 else k3)"
    using snd_keeps_ack [OF ack_keeps_open_cwnd] snd_keeps_refl by simp
  have "k1 = k2 \<or> k1 = (if itimediff (k_snd_una k3) (k_snd_una k) > 0 then open_cwnd k3 else k3)"
    using assms False l unfolding ikcp_input_def by (auto simp: k3_def [symmetric] Let_def split: if_splits)
  then show ?thesis using a snd_keeps_trans [OF snd_keeps_trans [OF a b] c] by blast
qed


lemma snd_keeps_recv:
  assumes "kcp_ok k" "ikcp_recv k len = Some (k1, r, bs)"
  shows "snd_keeps k k1"
proof (cases "k_rcv_queue k = [] \<or> ikcp_peeksize k < 0 \<or> \<not> ikcp_peeksize k \<le> (if len < 0 then - len else len)")
  case True
  then show ?thesis using recv_error [OF True] assms(2) snd_keeps_refl by simp
next
  case False
  obtain bs1 m used rest where ml: "merge_loop (k_rcv_queue k) 0 = (bs1, m, used, rest)" by (metis surj_pair)
  from False have f: "k_rcv_queue k \<noteq> []" "\<not> ikcp_peeksize k < 0" "ikcp_peeksize k \<le> (if len < 0 then - len else len)" by auto
  from recv_cases [OF assms(1) f ml] obtain k2 n p where
    "ikcp_recv k len = Some ((taken n k2)\<lparr>k_probe := p\<rparr>, ikcp_peeksize k, bs1)"
    "k2 = (if len < 0 then k else k\<lparr>k_rcv_queue := drop used (k_rcv_queue k), k_nrcv_que := k_nrcv_que k - of_nat used\<rparr>)" by metis
  then show ?thesis using assms(2) by (intro snd_keepsI) (auto simp: taken_def parts_def)
qed

lemma snd_keeps_settings:
  "snd_keeps k (lkcp_wndsize k sw rw)" "snd_keeps k (fst (lkcp_nodelay k nd iv rs nc))"
  by (rule snd_keepsI; simp add: lkcp_wndsize_def ikcp_wndsize_def lkcp_nodelay_def ikcp_nodelay_def parts_def Let_def)+

lemma rcv_settings:
  "rcv_of (lkcp_wndsize k sw rw) = rcv_of k" "rcv_of (fst (lkcp_nodelay k nd iv rs nc)) = rcv_of k"
  by (simp_all add: lkcp_wndsize_def ikcp_wndsize_def lkcp_nodelay_def ikcp_nodelay_def parts_def Let_def)

lemma send_keeps:
  assumes "kcp_ok k" "ikcp_send k buffer len = Some (k1, r)"
  shows "rcv_of k1 = rcv_of k" "k_conv k1 = k_conv k"
proof -
  have fr: "rcv_of (send_frags n k2 bs) = rcv_of k2" "k_conv (send_frags n k2 bs) = k_conv k2" for n k2 bs
    by (induction n arbitrary: k2 bs) (simp_all add: Let_def, simp_all add: parts_def)
  have st: "rcv_of (fst (send_stream k2 bs)) = rcv_of k2" "k_conv (fst (send_stream k2 bs)) = k_conv k2" for k2 bs
    by (simp_all add: send_stream_def parts_def Let_def)
  obtain k2 bs2 where s: "(if k_stream k \<noteq> 0 then send_stream k (take (nat len) buffer) else (k, take (nat len) buffer)) = (k2, bs2)"
    by fastforce
  then have k2: "rcv_of k2 = rcv_of k" "k_conv k2 = k_conv k"
    using st [of k "take (nat len) buffer"] by (auto split: if_splits)
  have "k1 = k \<or> k1 = k2 \<or> (\<exists>n. k1 = send_frags n k2 bs2)"
    using assms(2) unfolding ikcp_send_def Let_def s prod.case
    by (auto split: if_splits simp del: send_frags.simps)
  then show "rcv_of k1 = rcv_of k" "k_conv k1 = k_conv k" using k2 fr by auto
qed

lemma flush_keeps:
  assumes "kcp_ok k" "ikcp_flush k = Some (k1, outs)"
  shows "rcv_of k1 = rcv_of k" "k_conv k1 = k_conv k" "kcp_ok k1"
proof -
  have "rcv_of k1 = rcv_of k \<and> k_conv k1 = k_conv k \<and> kcp_ok k1"
  proof (cases "k_updated k = 0")
    case True
    then show ?thesis using assms by (simp add: ikcp_flush_def)
  next
    case False
    show ?thesis using flush_parts(2,3,9) [OF assms False] by blast
  qed
  then show "rcv_of k1 = rcv_of k" "k_conv k1 = k_conv k" "kcp_ok k1" by blast+
qed

text \<open>An update is a flush of a state that differs only in its times, or nothing.\<close>

lemma update_as_flush:
  assumes "ikcp_update k t = Some (k1, outs)"
  obtains k2 where "cfg_of k2 = cfg_of k" "snd_of k2 = snd_of k" "rcv_of k2 = rcv_of k" "ack_of k2 = ack_of k"
    "k_snd_nxt k2 = k_snd_nxt k" "k_stream k2 = k_stream k"
    "ikcp_flush k2 = Some (k1, outs) \<or> (k1 = k2 \<and> outs = [])"
proof -
  obtain k2 d where s: "update_slap k t = (k2, d)" by fastforce
  note u = update_slap_keeps [OF s]
  show thesis
  proof (cases "0 \<le> d")
    case True
    then obtain t1 where "ikcp_flush (k2\<lparr>k_ts_flush := t1\<rparr>) = Some (k1, outs)"
      using assms by (auto simp: ikcp_update_def s Let_def split: if_splits)
    then show thesis using u by (intro that [of "k2\<lparr>k_ts_flush := t1\<rparr>"]) (simp_all add: parts_def)
  next
    case False
    then show thesis using assms u by (intro that [of k2]) (simp_all add: ikcp_update_def s)
  qed
qed

lemma update_keeps:
  assumes "kcp_ok k" "ikcp_update k t = Some (k1, outs)"
  shows "rcv_of k1 = rcv_of k" "k_conv k1 = k_conv k" "kcp_ok k1"
proof -
  from update_as_flush [OF assms(2)] obtain k2 where u: "cfg_of k2 = cfg_of k" "snd_of k2 = snd_of k" "rcv_of k2 = rcv_of k"
    "ack_of k2 = ack_of k" "ikcp_flush k2 = Some (k1, outs) \<or> (k1 = k2 \<and> outs = [])" by metis
  have ok: "kcp_ok k2" using kcp_ok_cong [OF u(1-4)] assms(1) by simp
  have "k_conv k2 = k_conv k" using u(2) by (simp add: snd_of_def)
  moreover have "(rcv_of k1 = rcv_of k2 \<and> k_conv k1 = k_conv k2 \<and> kcp_ok k1)"
    using u(5) ok flush_keeps [OF ok, of k1 outs] by blast
  ultimately show "rcv_of k1 = rcv_of k" "k_conv k1 = k_conv k" "kcp_ok k1" using u(3) by simp_all
qed

lemma sender_update:
  assumes "sender_inv F N k" "ikcp_update k t = Some (k1, outs)" "length F < seq_limit"
  obtains M where "N \<le> M" "sender_inv F M k1" "\<And>p. p \<in> set outs \<Longrightarrow> good_packet F M (k_conv k) p"
    "cfg_of k1 = cfg_of k" "k_conv k1 = k_conv k" "rcv_of k1 = rcv_of k"
proof -
  from update_as_flush [OF assms(2)] obtain k2 where u: "cfg_of k2 = cfg_of k" "snd_of k2 = snd_of k" "rcv_of k2 = rcv_of k"
    "ack_of k2 = ack_of k" "k_snd_nxt k2 = k_snd_nxt k" "k_stream k2 = k_stream k"
    "ikcp_flush k2 = Some (k1, outs) \<or> (k1 = k2 \<and> outs = [])" by metis
  have c: "k_conv k2 = k_conv k" using u(2) by (simp add: snd_of_def)
  have "kcp_ok k2" using kcp_ok_cong [OF u(1-4)] assms(1) by (simp add: sender_inv_def)
  then have inv: "sender_inv F N k2"
    by (rule snd_keeps_sender [OF snd_keepsI [OF u(1,2,5,6)] _ assms(1)])
  from u(7) show thesis
  proof
    assume "ikcp_flush k2 = Some (k1, outs)"
    from sender_flush [OF inv this assms(3)] show thesis using that u(1,3) c by metis
  next
    assume "k1 = k2 \<and> outs = []"
    then show thesis using inv u(1,3) c by (intro that [of N]) simp_all
  qed
qed


section \<open>Every step keeps the invariant\<close>

lemma link_inv_output:
  assumes inv: "link_inv conv st" and lim: "length (link_frags st) < seq_limit"
    and out: "\<And>F N thesis. sender_inv F N (l_a st) \<Longrightarrow> length F < seq_limit \<Longrightarrow>
      (\<And>M. N \<le> M \<Longrightarrow> sender_inv F M a1 \<Longrightarrow> (\<And>p. p \<in> set outs \<Longrightarrow> good_packet F M (k_conv (l_a st)) p) \<Longrightarrow>
         cfg_of a1 = cfg_of (l_a st) \<Longrightarrow> k_conv a1 = k_conv (l_a st) \<Longrightarrow> rcv_of a1 = rcv_of (l_a st) \<Longrightarrow> thesis) \<Longrightarrow> thesis"
  shows "link_inv conv (st\<lparr>l_a := a1, l_net := l_net st \<union> set outs\<rparr>)"
proof -
  from inv obtain N m where i: "sender_inv (link_frags st) N (l_a st)" "k_mss (l_a st) = of_nat mss0"
    "k_conv (l_a st) = conv" "k_conv (l_b st) = conv" "\<forall>p \<in> l_net st. good_packet (link_frags st) N conv p"
    "m \<le> length (l_sent st)" "l_got st = take m (l_sent st)"
    "receiver_inv (link_frags st) N (all_frags mss0 (take m (l_sent st))) (l_b st)"
    "\<forall>msg \<in> set (l_sent st). frag_count mss0 (length msg) < 128" unfolding link_inv_def by blast
  have N: "N \<le> length (link_frags st)" using i(1) by (simp add: sender_inv_def)
  from out [OF i(1) lim] obtain M where M: "N \<le> M" "sender_inv (link_frags st) M a1"
    "\<And>p. p \<in> set outs \<Longrightarrow> good_packet (link_frags st) M (k_conv (l_a st)) p"
    "cfg_of a1 = cfg_of (l_a st)" "k_conv a1 = k_conv (l_a st)" by metis
  have "good_packet (link_frags st) M conv p" if "p \<in> l_net st \<union> set outs" for p
    using that M(3) i(3,5) good_packet_mono [OF _ M(1) N, of conv p "[]"] by auto
  then show ?thesis unfolding link_inv_def using i M(2,4,5) receiver_mono [OF i(8) M(1)]
    by (intro exI [of _ M] exI [of _ m]) (simp add: cfg_of_def)
qed

lemma link_inv_send:
  assumes inv: "link_inv conv st" and send: "ikcp_send (l_a st) msg (int (length msg)) = Some (a1, 0)" "length msg < seq_limit"
  shows "link_inv conv (st\<lparr>l_a := a1, l_sent := l_sent st @ [msg]\<rparr>)"
proof -
  from inv obtain N m where i: "sender_inv (link_frags st) N (l_a st)" "k_mss (l_a st) = of_nat mss0"
    "k_conv (l_a st) = conv" "k_conv (l_b st) = conv" "\<forall>p \<in> l_net st. good_packet (link_frags st) N conv p"
    "m \<le> length (l_sent st)" "l_got st = take m (l_sent st)"
    "receiver_inv (link_frags st) N (all_frags mss0 (take m (l_sent st))) (l_b st)"
    "\<forall>msg \<in> set (l_sent st). frag_count mss0 (length msg) < 128" unfolding link_inv_def by blast
  have N: "N \<le> length (link_frags st)" using i(1) by (simp add: sender_inv_def)
  have mss: "unat (k_mss (l_a st)) = mss0" by (simp add: i(2))
  note s = sender_send [OF i(1) send, unfolded mss]
  have "\<forall>p \<in> l_net st. good_packet (link_frags st @ frags_of mss0 msg) N conv p"
    using i(5) good_packet_mono [OF _ order_refl N] by blast
  then show ?thesis unfolding link_inv_def using i s receiver_append [OF i(8) N]
    by (intro exI [of _ N] exI [of _ m]) (simp add: cfg_of_def)
qed

lemma link_inv_recv:
  assumes inv: "link_inv conv st" and lim: "length (link_frags st) < seq_limit"
    and recv: "ikcp_recv (l_b st) len = Some (b1, r, bs)" "0 \<le> len"
  shows "link_inv conv (st\<lparr>l_b := b1, l_got := (if r \<ge> 0 then l_got st @ [bs] else l_got st)\<rparr>)"
proof -
  from inv obtain N m where i: "sender_inv (link_frags st) N (l_a st)" "k_mss (l_a st) = of_nat mss0"
    "k_conv (l_a st) = conv" "k_conv (l_b st) = conv" "\<forall>p \<in> l_net st. good_packet (link_frags st) N conv p"
    "m \<le> length (l_sent st)" "l_got st = take m (l_sent st)"
    "receiver_inv (link_frags st) N (all_frags mss0 (take m (l_sent st))) (l_b st)"
    "\<forall>msg \<in> set (l_sent st). frag_count mss0 (length msg) < 128" unfolding link_inv_def by blast
  have N: "N \<le> length (link_frags st)" using i(1) by (simp add: sender_inv_def)
  have "kcp_ok (l_b st)" using i(8) by (simp add: receiver_inv_def)
  then have c: "k_conv b1 = conv" using snd_keeps_recv [OF _ recv(1)] i(4) by (simp add: snd_keeps_def)
  have "0 < mss0" by simp
  from receiver_recv [OF i(8) N lim this i(9,6) recv] show ?thesis
  proof (elim disjE conjE)
    assume "r < 0" "b1 = l_b st"
    then show ?thesis using inv by simp
  next
    assume r: "0 \<le> r" "m < length (l_sent st)" "bs = l_sent st ! m"
      "receiver_inv (link_frags st) N (all_frags mss0 (take (Suc m) (l_sent st))) b1"
    have "l_got st @ [bs] = take (Suc m) (l_sent st)" using r(2,3) i(7) by (simp add: take_Suc_conv_app_nth)
    then show ?thesis unfolding link_inv_def using i c r
      by (intro exI [of _ N] exI [of _ "Suc m"]) simp
  qed
qed

lemma link_inv_input:
  assumes inv: "link_inv conv st" and lim: "length (link_frags st) < seq_limit"
    and inp: "p \<in> l_net st" "ack_room (l_b st) (length p)" "ikcp_input (l_b st) p = Some (b1, r)"
  shows "link_inv conv (st\<lparr>l_b := b1\<rparr>)"
proof -
  from inv obtain N m where i: "sender_inv (link_frags st) N (l_a st)" "k_mss (l_a st) = of_nat mss0"
    "k_conv (l_a st) = conv" "k_conv (l_b st) = conv" "\<forall>p \<in> l_net st. good_packet (link_frags st) N conv p"
    "m \<le> length (l_sent st)" "l_got st = take m (l_sent st)"
    "receiver_inv (link_frags st) N (all_frags mss0 (take m (l_sent st))) (l_b st)"
    "\<forall>msg \<in> set (l_sent st). frag_count mss0 (length msg) < 128" unfolding link_inv_def by blast
  have N: "N \<le> length (link_frags st)" using i(1) by (simp add: sender_inv_def)
  have g: "good_packet (link_frags st) N (k_conv (l_b st)) p" using i(4,5) inp(1) by simp
  from receiver_input [OF i(8) N lim all_frags_small [OF i(9)] g inp(3,2)]
  have "receiver_inv (link_frags st) N (all_frags mss0 (take m (l_sent st))) b1" .
  moreover have "k_conv b1 = conv" using snd_keeps_input [OF inp(3)] i(4) by (simp add: snd_keeps_def)
  ultimately show ?thesis unfolding link_inv_def using i by (intro exI [of _ N] exI [of _ m]) simp
qed

lemma link_ok: "link_inv conv st \<Longrightarrow> kcp_ok (l_a st) \<and> kcp_ok (l_b st)"
  by (auto simp: link_inv_def sender_inv_def receiver_inv_def)

lemma snd_keeps_link:
  assumes "link_inv conv st" "snd_keeps (l_a st) a1" "kcp_ok a1"
  shows "link_inv conv (st\<lparr>l_a := a1\<rparr>)"
  by (rule link_inv_a [OF assms(1) snd_keeps_sender [OF assms(2,3)]]) (use assms(2) in \<open>auto simp: snd_keeps_def cfg_of_def\<close>)

lemma rcv_keeps_link:
  assumes "link_inv conv st" "rcv_of b1 = rcv_of (l_b st)" "k_conv b1 = k_conv (l_b st)" "kcp_ok b1"
  shows "link_inv conv (st\<lparr>l_b := b1\<rparr>)"
  by (rule link_inv_b [OF assms(1) receiver_cong [OF _ assms(4,2)] assms(3)])

lemma link_step_inv:
  assumes "link_step st st1" "link_inv conv st" "length (link_frags st1) < seq_limit"
  shows "link_inv conv st1"
proof -
  have ok: "kcp_ok (l_a st)" "kcp_ok (l_b st)" using link_ok [OF assms(2)] by simp_all
  have step: "length (link_frags st) \<le> length (link_frags st1)" using assms(1) by cases auto
  then have lim: "length (link_frags st) < seq_limit" using assms(3) by simp
  from assms(1) show ?thesis
  proof cases
    case (a_send msg a1 r)
    have cfg: "cfg_ok (l_a st)" "k_stream (l_a st) = 0"
      using assms(2) by (auto simp: link_inv_def sender_inv_def kcp_ok_def)
    show ?thesis
    proof (cases "r = 0")
      case True
      then show ?thesis using link_inv_send [OF assms(2)] a_send by simp
    next
      case False
      then have "a1 = l_a st" using send_message [OF cfg a_send(2)] a_send(3) by (auto split: if_splits)
      then show ?thesis using False assms(2) a_send(1) by simp
    qed
  next
    case (a_flush a1 outs)
    then show ?thesis using link_inv_output [OF assms(2) lim] sender_flush [of _ _ "l_a st" a1 outs] by metis
  next
    case (a_update t a1 outs)
    then show ?thesis using link_inv_output [OF assms(2) lim] sender_update [of _ _ "l_a st" t a1 outs] by metis
  next
    case (a_input data a1 r)
    have "kcp_ok a1" using input_total [OF ok(1) a_input(2)] a_input(3) by (metis Pair_inject option.inject)
    then show ?thesis using snd_keeps_link [OF assms(2) snd_keeps_input [OF a_input(3)]] a_input(1) by simp
  next
    case (a_recv len a1 r bs)
    have "kcp_ok a1" using recv_total [OF ok(1), of len] a_recv(2) by (metis Pair_inject option.inject)
    then show ?thesis using snd_keeps_link [OF assms(2) snd_keeps_recv [OF ok(1) a_recv(2)]] a_recv(1) by simp
  next
    case (a_wndsize sw rw)
    then show ?thesis using snd_keeps_link [OF assms(2) snd_keeps_settings(1) settings_ok(1) [OF ok(1)]] by simp
  next
    case (a_nodelay nd iv rs nc)
    then show ?thesis using snd_keeps_link [OF assms(2) snd_keeps_settings(2) settings_ok(2) [OF ok(1)]] by simp
  next
    case (b_input p b1 r)
    then show ?thesis using link_inv_input [OF assms(2) lim] by simp
  next
    case (b_recv len b1 r bs)
    then show ?thesis using link_inv_recv [OF assms(2) lim] by simp
  next
    case (b_send buffer len b1 r)
    have "kcp_ok b1" using send_total [OF ok(2), of buffer len] b_send(2) by (metis Pair_inject option.inject)
    then show ?thesis using rcv_keeps_link [OF assms(2) send_keeps [OF ok(2) b_send(2)]] b_send(1) by simp
  next
    case (b_flush b1 outs)
    then show ?thesis using rcv_keeps_link [OF assms(2) flush_keeps [OF ok(2)]] by simp
  next
    case (b_update t b1 outs)
    then show ?thesis using rcv_keeps_link [OF assms(2) update_keeps [OF ok(2)]] by simp
  next
    case (b_wndsize sw rw)
    have "k_conv (lkcp_wndsize (l_b st) sw rw) = k_conv (l_b st)" using snd_keeps_settings(1) by (simp add: snd_keeps_def)
    then show ?thesis using rcv_keeps_link [OF assms(2) rcv_settings(1) _ settings_ok(1) [OF ok(2)]] b_wndsize by simp
  next
    case (b_nodelay nd iv rs nc)
    have "k_conv (fst (lkcp_nodelay (l_b st) nd iv rs nc)) = k_conv (l_b st)" using snd_keeps_settings(2) by (simp add: snd_keeps_def)
    then show ?thesis using rcv_keeps_link [OF assms(2) rcv_settings(2) _ settings_ok(2) [OF ok(2)]] b_nodelay by simp
  qed
qed

lemma link_reach_inv:
  assumes "link_reach conv st" "length (link_frags st) < seq_limit"
  shows "link_inv conv st"
  using assms
proof (induction rule: link_reach.induct)
  case init
  show ?case by (rule link_init_inv)
next
  case (step st st1)
  have "length (link_frags st) \<le> length (link_frags st1)" using step.hyps(2) by cases auto
  then show ?case using link_step_inv [OF step.hyps(2) step.IH step.prems] step.prems by simp
qed

end
