(* ===== verification/Kcp_Props.thy ===== *)
theory Kcp_Props
  imports Kcp_Link
begin

text \<open>
  The properties of the protocol of \<^verbatim>\<open>src/depends/lua-kcp/kcp/ikcp.c\<close> and \<^verbatim>\<open>src/depends/lua-kcp/src/lkcp.c\<close>.
\<close>

section \<open>The wire format\<close>

lemma ucast_down_up:
  fixes x :: u32
  shows "x < 256 \<Longrightarrow> ucast (ucast x :: u8) = x" "x < 65536 \<Longrightarrow> ucast (ucast x :: u16) = x"
  by (simp_all add: word_less_nat_alt word_unat_eq_iff unsigned_ucast_eq unsigned_take_bit_eq take_bit_nat_eq_self)

text \<open>
  A header that was encoded is decoded to the same members, and the bytes after it are left; members
  that the format stores in one or two bytes come back when they fit.
\<close>

theorem header_roundtrip:
  assumes "s_cmd s < 256" "s_frg s < 256" "s_wnd s < 65536"
  shows "\<exists>h. decode_hdr (ikcp_encode_seg s @ p) = Some (h, p) \<and> h_conv h = s_conv s \<and> ucast (h_cmd h) = s_cmd s \<and>
    ucast (h_frg h) = s_frg s \<and> ucast (h_wnd h) = s_wnd s \<and> h_ts h = s_ts s \<and> h_sn h = s_sn s \<and>
    h_una h = s_una s \<and> h_len h = s_len s"
  unfolding decode_hdr_encode using assms by (intro exI [of _ "hdr_of s"]) (simp add: hdr_of_def ucast_down_up)

theorem header_roundtrip_witness:
  "\<exists>h. decode_hdr (ikcp_encode_seg (segment_new\<lparr>s_cmd := 81, s_sn := 0x12345678\<rparr>) @ [1, 2]) = Some (h, [1, 2]) \<and>
     h_sn h = 0x12345678"
proof -
  let ?s = "segment_new\<lparr>s_cmd := 81, s_sn := 0x12345678\<rparr>"
  have "s_cmd ?s < 256" "s_frg ?s < 256" "s_wnd ?s < 65536" "s_sn ?s = 0x12345678" by (simp_all add: segment_new_def)
  with header_roundtrip [of ?s "[1, 2]"] show ?thesis by auto
qed

section \<open>Using one end\<close>

text \<open>The states of a control block that a program reaches with the functions of the Lua library.\<close>

inductive kcp_reach :: "kcp \<Rightarrow> bool" where
  create: "kcp_reach (ikcp_create conv)"
| send: "kcp_reach k \<Longrightarrow> ikcp_send k buffer len = Some (k1, r) \<Longrightarrow> kcp_reach k1"
| recv: "kcp_reach k \<Longrightarrow> ikcp_recv k len = Some (k1, r, bs) \<Longrightarrow> kcp_reach k1"
| input: "kcp_reach k \<Longrightarrow> ack_room k (length data) \<Longrightarrow> ikcp_input k data = Some (k1, r) \<Longrightarrow> kcp_reach k1"
| update: "kcp_reach k \<Longrightarrow> ikcp_update k t = Some (k1, outs) \<Longrightarrow> kcp_reach k1"
| flush: "kcp_reach k \<Longrightarrow> ikcp_flush k = Some (k1, outs) \<Longrightarrow> kcp_reach k1"
| wndsize: "kcp_reach k \<Longrightarrow> kcp_reach (lkcp_wndsize k sw rw)"
| nodelay: "kcp_reach k \<Longrightarrow> kcp_reach (fst (lkcp_nodelay k nd iv rs nc))"

lemma kcp_reach_ok: "kcp_reach k \<Longrightarrow> kcp_ok k"
proof (induction rule: kcp_reach.induct)
  case (send k buffer len k1 r)
  then show ?case using send_total [of k buffer len] by (metis Pair_inject option.inject)
next
  case (recv k len k1 r bs)
  then show ?case using recv_total [of k len] by (metis Pair_inject option.inject)
next
  case (input k data k1 r)
  then show ?case using input_total [of k data] by (metis Pair_inject option.inject)
next
  case (update k t k1 outs)
  then show ?case using update_keeps(3) by blast
next
  case (flush k k1 outs)
  then show ?case using flush_keeps(3) by blast
qed (simp_all add: create_ok settings_ok)


definition ex_data :: "u8 list" where "ex_data = [104, 105]"


text \<open>
  C15: A flush writes the pending acknowledgements, the window probes that are due and the data that is
  due, in this order; the packets are cut at segment boundaries and none is empty or longer than the MTU.
\<close>

theorem flush_packets:
  assumes "kcp_ok k" "k_updated k \<noteq> 0"
  shows "\<exists>k1 outs. ikcp_flush k = Some (k1, outs) \<and> packets_of (unat (k_mtu k)) (flush_segs k) outs \<and>
    k_snd_buf k1 = map (flushed_of k (flush_moved k)) (k_snd_buf (flush_moved k)) \<and> k_ackcount k1 = 0 \<and> kcp_ok k1"
proof -
  from flush_total [OF assms(1)] obtain k1 outs where f: "ikcp_flush k = Some (k1, outs)" by blast
  show ?thesis using f flush_parts(6,8-10) [OF assms(1) f assms(2)] by blast
qed

definition ex_k1 :: kcp where
  "ex_k1 = fst (the (ikcp_send (fst (lkcp_nodelay (ikcp_create 7) 1 10 0 1)) ex_data 2))"

definition ex_k2 :: kcp where
  "ex_k2 = ex_k1\<lparr>k_updated := 1\<rparr>"

lemma ex_k1_ok: "kcp_ok ex_k1"
proof -
  have "kcp_ok (fst (lkcp_nodelay (ikcp_create 7) 1 10 0 1))" by (rule settings_ok(2) [OF create_ok])
  from send_total [OF this, of ex_data 2] show ?thesis unfolding ex_k1_def by force
qed

lemma ex_k2_ok: "kcp_ok ex_k2"
  using ex_k1_ok kcp_ok_cong [of ex_k2 ex_k1] by (simp add: ex_k2_def parts_def)

theorem flush_packets_witness:
  "\<exists>k1 outs. ikcp_flush ex_k2 = Some (k1, outs) \<and> packets_of (unat (k_mtu ex_k2)) (flush_segs ex_k2) outs \<and>
     map s_data (flush_segs ex_k2) = [[104, 105]]"
proof -
  have "k_updated ex_k2 \<noteq> 0" by (simp add: ex_k2_def)
  moreover have "map s_data (flush_segs ex_k2) = [[104, 105]]" by code_simp
  moreover from flush_packets [OF ex_k2_ok calculation(1)] obtain k1 outs where
    "ikcp_flush ex_k2 = Some (k1, outs)" "packets_of (unat (k_mtu ex_k2)) (flush_segs ex_k2) outs" by blast
  ultimately show ?thesis by simp
qed


text \<open>
  C19: Every packet that a flush writes is accepted by a peer of the same conversation: \<open>ikcp_input\<close> takes
  all of it apart and gives zero.
\<close>

theorem peer_accepts:
  assumes "kcp_ok k" "ikcp_flush k = Some (k1, outs)" "p \<in> set outs"
    and "kcp_ok peer" "k_conv peer = k_conv k" "ack_room peer (length p)"
  shows "\<exists>peer1. ikcp_input peer p = Some (peer1, 0)"
proof -
  have up: "k_updated k \<noteq> 0" using assms(2,3) by (auto simp: ikcp_flush_def split: if_splits)
  note fp = flush_parts [OF assms(1,2) up]
  have segs: "\<forall>s \<in> set (flush_segs k). wire_ok (k_conv k) s"
  proof
    fix s assume "s \<in> set (flush_segs k)"
    then consider "s \<in> set (ack_segs k 0 (unat (k_ackcount k)) @ probe_segs k)" | "s \<in> set (k_snd_buf k1)"
      by (auto simp: flush_segs_def data_segs_def fp(6) Let_def)
    then show "wire_ok (k_conv k) s"
    proof cases
      case 1
      then show ?thesis using control_good [of s k] by (simp add: good_seg_def)
    next
      case 2
      then show ?thesis using fp(3,9) by (auto simp: kcp_ok_def snd_ok_def seg_fits_def wire_ok_def)
    qed
  qed
  from fp(10) assms(3) obtain gs g where g: "flush_segs k = concat gs" "g \<in> set gs" "p = concat (map wire g)"
    "p \<noteq> []" "length p \<le> unat (k_mtu k)" by (auto simp: packets_of_def)
  have gw: "\<forall>s \<in> set g. wire_ok (k_conv peer) s" using segs g(1,2) assms(5) by auto
  obtain s ss where "g = s # ss" using g(3,4) by (cases g) auto
  then have "24 \<le> length p" using gw by (simp add: g(3) length_wire wire_ok_def)
  moreover have "length p \<le> 1073741824" using g(5) assms(1) by (simp add: kcp_ok_def cfg_ok_def)
  ultimately have len: "\<not> sint (of_nat (length p) :: u32) < 24"
    by (subst sint_nonneg_u32) (simp_all add: unat_of_nat take_bit_nat_eq_self)
  have "input_loop peer None p = map_option (\<lambda>(k1, m1). (k1, m1, 0)) (input_segs peer None g [])"
    unfolding g(3) by (rule input_loop_wires) (use gw in blast)
  with input_loop_ok [OF assms(4,6), of None] obtain k2 m where "input_loop peer None p = Some (k2, m, 0)" by auto
  then show ?thesis using len by (simp add: ikcp_input_def Let_def)
qed

theorem peer_accepts_witness:
  "\<exists>p peer1. p \<in> set (snd (the (ikcp_flush ex_k2))) \<and> ikcp_input (ikcp_create 7) p = Some (peer1, 0)"
proof -
  have f: "ikcp_flush ex_k2 = Some (fst (the (ikcp_flush ex_k2)), snd (the (ikcp_flush ex_k2)))"
    using flush_total [OF ex_k2_ok] by (metis fst_conv option.sel snd_conv)
  have l: "map length (snd (the (ikcp_flush ex_k2))) = [26]" by code_simp
  define p where "p = hd (snd (the (ikcp_flush ex_k2)))"
  have p: "p \<in> set (snd (the (ikcp_flush ex_k2)))" "length p = 26"
    using l unfolding p_def by (cases "snd (the (ikcp_flush ex_k2))"; simp)+
  have c: "k_conv (ikcp_create 7) = k_conv ex_k2" by code_simp
  have "ack_room (ikcp_create 7) (length p)" by (simp add: ack_room_def p(2) ikcp_create_def)
  from peer_accepts [OF ex_k2_ok f p(1) create_ok c this] p(1) show ?thesis by blast
qed

text \<open>
  C24: In message mode a message is queued as consecutive fragments of at most \<open>mss\<close> bytes, the last one
  numbered zero, or it is refused with \<open>-2\<close> when it needs 128 or more.
\<close>

theorem send_fragments:
  assumes "kcp_ok k" "k_stream k = 0" "length msg < 2147483648"
  shows "(let n = frag_count (unat (k_mss k)) (length msg) in
    concat (map snd (frag_list (unat (k_mss k)) n msg)) = msg \<and>
    ikcp_send k msg (int (length msg)) =
      (if n \<ge> 128 then Some (k, -2)
       else Some (k\<lparr>k_snd_queue := k_snd_queue k @ map (frag_seg 0) (frag_list (unat (k_mss k)) n msg),
              k_nsnd_que := k_nsnd_que k + of_nat n\<rparr>, 0)))"
proof -
  have "cfg_ok k" using assms(1) by (simp add: kcp_ok_def)
  from send_message [OF this assms(2,3)] frag_count_enough [OF cfg_mss_pos [OF this], of "length msg"] show ?thesis
    unfolding Let_def concat_frag_list by simp
qed

theorem send_fragments_witness:
  "ikcp_send (ikcp_create 7) (replicate 1377 0) 1377 =
     Some ((ikcp_create 7)\<lparr>k_snd_queue := map (frag_seg 0) [(1, replicate 1376 0), (0, [0])], k_nsnd_que := 2\<rparr>, 0)"
proof -
  have st: "k_stream (ikcp_create 7) = 0" "unat (k_mss (ikcp_create 7)) = 1376" "k_snd_queue (ikcp_create 7) = []"
    "k_nsnd_que (ikcp_create 7) = 0" by (simp_all add: ikcp_create_def)
  have n: "frag_count 1376 1377 = 2" by (simp add: frag_count_def)
  have fl: "frag_list 1376 2 (replicate 1377 0) = [(1, replicate 1376 0), (0, [0])]"
    by (simp add: numeral_2_eq_2)
  from send_fragments [OF create_ok st(1), of "replicate 1377 0"] show ?thesis
    unfolding Let_def length_replicate st(2-4) n fl by simp
qed

section \<open>Receiving\<close>

lemma peek_loop_sum:
  assumes "map frag_of ss = frag_list mss (Suc n) msg @ tl1" "\<forall>s \<in> set ss. seg_len_ok s" "n < 4294967296"
  shows "peek_loop ss z = z + of_nat (length (take (Suc n * mss) msg))"
  using assms
proof (induction n arbitrary: ss msg z)
  case 0
  then obtain s ss1 where "ss = s # ss1" "frag_of s = (0, take mss msg)" "seg_len_ok s" by (cases ss) auto
  then show ?case by (auto simp: frag_of_def seg_len_ok_def simp flip: length_take)
next
  case (Suc n)
  from Suc.prems(1) obtain s ss1 where ss: "ss = s # ss1" "frag_of s = (of_nat (Suc n), take mss msg)"
    "map frag_of ss1 = frag_list mss (Suc n) (drop mss msg) @ tl1" by (cases ss) auto
  have "(of_nat (Suc n) :: u32) \<noteq> of_nat 0" using of_nat_u32_eq [of "Suc n" 0] Suc.prems(3) by auto
  then have nz: "s_frg s \<noteq> 0" using ss(2) by (simp add: frag_of_def)
  have "s_len s = of_nat (length (take mss msg))"
    using ss(1,2) Suc.prems(2) by (auto simp: frag_of_def seg_len_ok_def)
  moreover have "length (take (Suc (Suc n) * mss) msg) = length (take mss msg) + length (take (Suc n * mss) (drop mss msg))"
    by (simp add: take_add)
  ultimately show ?case using nz ss(1) Suc.IH [OF ss(3), of "z + s_len s"] Suc.prems(2,3)
    by (simp del: length_take mult_Suc)
qed

text \<open>
  C23: Once all fragments of a message are at the head of the queue, \<open>ikcp_recv\<close> gives back exactly the
  message that was cut into them.
\<close>

theorem recv_message:
  assumes "kcp_ok k" "map frag_of (k_rcv_queue k) = frags_of mss msg @ rest" "0 < mss"
    and "frag_count mss (length msg) < 128" "length (k_rcv_queue k) < 2147483648"
    and "length msg < 2147483648" "int (length msg) \<le> len"
  shows "\<exists>k1. ikcp_recv k len = Some (k1, int (length msg), msg) \<and> kcp_ok k1"
proof -
  let ?q = "k_rcv_queue k"
  have ok: "rcv_ok k" using assms(1) by (simp add: kcp_ok_def)
  from frags_of_Suc [OF assms(3), of msg] obtain c where c: "frag_count mss (length msg) = Suc c"
    "frags_of mss msg = frag_list mss (Suc c) msg" "take (Suc c * mss) msg = msg" by metis
  have mq: "map frag_of ?q = frag_list mss (Suc c) msg @ rest" using assms(2) c(2) by simp
  then obtain s ss where q: "?q = s # ss" "s_frg s = of_nat c" by (cases ?q) (auto simp: frag_of_def)
  have lq: "Suc c \<le> length ?q" using arg_cong [OF mq, of length] by simp
  have segs: "\<forall>s \<in> set ?q. seg_len_ok s" using ok by (simp add: rcv_ok_def)
  have pk: "peek_loop ?q 0 = of_nat (length msg)"
    using peek_loop_sum [OF mq segs, of 0] c(1,3) assms(4) by (simp del: length_take)
  have len: "sint (of_nat (length msg) :: u32) = int (length msg)"
    using assms(6) by (subst sint_nonneg_u32) (simp_all add: unat_of_nat take_bit_nat_eq_self)
  have "\<not> k_nrcv_que k < s_frg s + 1"
  proof -
    have "k_nrcv_que k = of_nat (length ?q)" using ok by (simp add: rcv_ok_def)
    moreover have "s_frg s + 1 = of_nat (Suc c)" by (simp add: q(2))
    ultimately show ?thesis using lq assms(4,5) c(1)
      by (simp add: word_less_nat_alt unat_of_nat take_bit_nat_eq_self del: of_nat_Suc)
  qed
  then have size: "ikcp_peeksize k = int (length msg)"
    using pk len q(1) by (cases "s_frg s = 0") (simp_all add: ikcp_peeksize_def)
  from merge_frags [OF mq segs, of 0] c(1,3) assms(4) obtain m where ml: "merge_loop ?q 0 = (msg, m, Suc c, drop (Suc c) ?q)"
    by auto
  have f: "?q \<noteq> []" "\<not> ikcp_peeksize k < 0" "ikcp_peeksize k \<le> (if len < 0 then - len else len)"
    using q(1) size assms(7) by auto
  from recv_cases [OF assms(1) f ml] obtain k1 where "ikcp_recv k len = Some (k1, ikcp_peeksize k, msg)" by metis
  then show ?thesis using recv_total [OF assms(1), of len] size by (metis Pair_inject option.inject)
qed

definition ex_r1 :: kcp where
  "ex_r1 = fst (the (ikcp_input (ikcp_create 7) (hd (snd (the (ikcp_update ex_k1 0))))))"

lemma ex_r1_eq: "ikcp_input (ikcp_create 7) (hd (snd (the (ikcp_update ex_k1 0)))) = Some (ex_r1, 0)"
  by code_simp

lemma ex_packet: "map length (snd (the (ikcp_update ex_k1 0))) = [26]"
  by code_simp

lemma ex_room: "ack_room (ikcp_create 7) (length (hd (snd (the (ikcp_update ex_k1 0)))))"
proof -
  have "length (hd (snd (the (ikcp_update ex_k1 0)))) = 26"
    using ex_packet by (cases "snd (the (ikcp_update ex_k1 0))") simp_all
  then show ?thesis by (simp add: ack_room_def ikcp_create_def)
qed

lemma ex_r1_ok: "kcp_ok ex_r1"
  using input_total [OF create_ok ex_room] ex_r1_eq by (metis Pair_inject option.inject)

theorem recv_message_witness: "\<exists>k1. ikcp_recv ex_r1 1000 = Some (k1, 2, [104, 105]) \<and> kcp_ok k1"
proof -
  have c: "frag_count 1376 (length ([104, 105] :: u8 list)) = 1" by (simp add: frag_count_def)
  have q: "map frag_of (k_rcv_queue ex_r1) = [(0, [104, 105])]" by code_simp
  have "frags_of 1376 [104, 105] = [(0, [104, 105])]" by code_simp
  with q have "map frag_of (k_rcv_queue ex_r1) = frags_of 1376 [104, 105] @ []" by simp
  moreover have "length (k_rcv_queue ex_r1) = 1" using arg_cong [OF q, of length] by simp
  ultimately show ?thesis using recv_message [OF ex_r1_ok, of 1376 "[104, 105]" "[]" 1000] c by simp
qed

lemma merge_loop_length:
  assumes "merge_loop ss z = (bs, m, used, rest)" "\<forall>s \<in> set ss. seg_len_ok s"
  shows "of_nat (length bs) + z = m \<and> length bs \<le> sum_list (map (\<lambda>s. length (s_data s)) ss)"
  using assms
proof (induction ss arbitrary: z bs m used rest)
  case (Cons s ss)
  obtain bs1 m1 used1 rest1 where r: "merge_loop ss (z + s_len s) = (bs1, m1, used1, rest1)" by (metis surj_pair)
  have s: "seg_bytes s = s_data s" "of_nat (length (s_data s)) = s_len s"
    using Cons.prems(2) by (simp_all add: seg_bytes_ok) (simp add: seg_len_ok_def)
  show ?case using Cons.IH [OF r] Cons.prems s by (cases "s_frg s = 0") (auto simp: r algebra_simps)
qed simp

text \<open>
  \<open>ikcp_recv\<close> never writes more bytes than the caller allows and reports their number, as long as the
  data that waits is less than two gigabytes; on an error it writes nothing and changes nothing.
\<close>

theorem recv_bounds:
  assumes "kcp_ok k" "sum_list (map (\<lambda>s. length (s_data s)) (k_rcv_queue k)) < 2147483648"
    and "ikcp_recv k len = Some (k1, r, bs)"
  shows "int (length bs) \<le> \<bar>len\<bar> \<and> (if r < 0 then bs = [] \<and> k1 = k else r = int (length bs))"
proof (cases "k_rcv_queue k = [] \<or> ikcp_peeksize k < 0 \<or> \<not> ikcp_peeksize k \<le> (if len < 0 then - len else len)")
  case True
  then show ?thesis using recv_error [OF True] assms(3) by (auto split: if_splits)
next
  case False
  obtain bs1 m used rest where ml: "merge_loop (k_rcv_queue k) 0 = (bs1, m, used, rest)" by (metis surj_pair)
  from False have f: "k_rcv_queue k \<noteq> []" "\<not> ikcp_peeksize k < 0" "ikcp_peeksize k \<le> (if len < 0 then - len else len)" by auto
  from recv_cases [OF assms(1) f ml] assms(3) have r: "r = ikcp_peeksize k" "bs = bs1" by (metis Pair_inject option.inject)+
  have segs: "\<forall>s \<in> set (k_rcv_queue k). seg_len_ok s" using assms(1) by (simp add: kcp_ok_def rcv_ok_def)
  note l = merge_loop_length [OF ml segs]
  have lb: "length bs < 2147483648" using l assms(2) r(2) by simp
  then have "unat m = length bs" using l r(2) by (auto simp: unat_of_nat take_bit_nat_eq_self)
  then have "sint m = int (length bs)" using lb sint_nonneg_u32 [of m] by simp
  then show ?thesis using peeksize_merge [OF ml f(2,1)] f r by (auto split: if_splits)
qed

theorem recv_bounds_witness:
  "int (length (snd (snd (the (ikcp_recv ex_r1 1000))))) \<le> \<bar>1000\<bar>"
proof -
  have w: "ikcp_recv ex_r1 1000 = Some (fst (the (ikcp_recv ex_r1 1000)), fst (snd (the (ikcp_recv ex_r1 1000))),
    snd (snd (the (ikcp_recv ex_r1 1000))))"
    using recv_total [OF ex_r1_ok, of 1000] by (metis fst_conv option.sel snd_conv)
  have "map (\<lambda>s. length (s_data s)) (k_rcv_queue ex_r1) = [2]" by code_simp
  then show ?thesis using recv_bounds [OF ex_r1_ok _ w] by simp
qed

section \<open>Delivery\<close>

text \<open>
  C3: Whatever the network loses, duplicates or reorders, and whatever arrives at the sender, the
  messages that the receiver gives out are the first messages that were sent, in order, complete and once,
  until the 31-bit range of fragment numbers is used up.
\<close>

theorem in_order_delivery:
  assumes "link_reach conv st" "length (all_frags mss0 (l_sent st)) < 2147483648"
  shows "l_got st = take (length (l_got st)) (l_sent st) \<and> kcp_ok (l_a st) \<and> kcp_ok (l_b st)"
proof -
  have inv: "link_inv conv st" by (rule link_reach_inv [OF assms])
  then obtain m where "m \<le> length (l_sent st)" "l_got st = take m (l_sent st)" by (auto simp: link_inv_def)
  then show ?thesis using link_ok [OF inv] by simp
qed

definition wa0 :: kcp where "wa0 = fst (lkcp_nodelay (ikcp_create 7) 1 10 0 1)"
definition wa1 :: kcp where "wa1 = fst (the (ikcp_send wa0 [104, 105] 2))"
definition wa2 :: kcp where "wa2 = fst (the (ikcp_update wa1 0))"
definition wp :: "u8 list list" where "wp = snd (the (ikcp_update wa1 0))"
definition wb1 :: kcp where "wb1 = fst (the (ikcp_input (ikcp_create 7) (hd wp)))"
definition wb2 :: kcp where "wb2 = fst (the (ikcp_recv wb1 1000))"

lemma wa_send: "ikcp_send wa0 [104, 105] (int (length [104, 105 :: u8])) = Some (wa1, 0)" by code_simp

lemma wa_update: "ikcp_update wa1 0 = Some (wa2, wp)" by code_simp

lemma wp_length: "map length wp = [26]" by code_simp

lemma wb_input: "ikcp_input (ikcp_create 7) (hd wp) = Some (wb1, 0)" by code_simp

lemma wb_recv: "ikcp_recv wb1 1000 = Some (wb2, 2, [104, 105])" by code_simp

theorem in_order_delivery_witness:
  "\<exists>st. link_reach 7 st \<and> l_got st = [[104, 105]] \<and> l_got st = take (length (l_got st)) (l_sent st)"
proof -
  note s = wa_send and u = wa_update and l = wp_length and i = wb_input and r = wb_recv
  define s0 where "s0 = link_init 7"
  define s1 where "s1 = s0\<lparr>l_a := wa0\<rparr>"
  define s2 where "s2 = s1\<lparr>l_a := wa1, l_sent := [[104, 105]]\<rparr>"
  define s3 where "s3 = s2\<lparr>l_a := wa2, l_net := set wp\<rparr>"
  define s4 where "s4 = s3\<lparr>l_b := wb1\<rparr>"
  define s5 where "s5 = s4\<lparr>l_b := wb2, l_got := [[104, 105]]\<rparr>"
  have 0: "link_reach 7 s0" unfolding s0_def by (rule link_reach.init)
  have "link_step s0 s1" using a_nodelay [of s0 1 10 0 1] by (simp add: s1_def wa0_def s0_def link_init_def)
  with 0 have 1: "link_reach 7 s1" by (rule link_reach.step)
  have "link_step s1 s2" using a_send [of "[104, 105]" s1 wa1 0] s by (simp add: s2_def s1_def s0_def link_init_def)
  with 1 have 2: "link_reach 7 s2" by (rule link_reach.step)
  have "link_step s2 s3" using a_update [of s2 0 wa2 wp] u by (simp add: s3_def s2_def s1_def s0_def link_init_def)
  with 2 have 3: "link_reach 7 s3" by (rule link_reach.step)
  have b: "l_b s3 = ikcp_create 7" "l_net s3 = set wp" by (simp_all add: s3_def s2_def s1_def s0_def link_init_def)
  have p: "hd wp \<in> set wp" "length (hd wp) = 26" 
  proof -
    from l obtain p0 where p0: "wp = [p0]" "length p0 = 26" unfolding map_eq_Cons_conv by auto
    show "hd wp \<in> set wp" "length (hd wp) = 26" by (simp_all add: p0)
  qed
  have "ack_room (ikcp_create 7) (length (hd wp))" by (simp add: ack_room_def p(2) ikcp_create_def)
  then have "link_step s3 s4" using b_input [of "hd wp" s3 wb1 0] i p(1) by (simp add: b s4_def)
  with 3 have 4: "link_reach 7 s4" by (rule link_reach.step)
  have "l_got s4 = []" by (simp add: s4_def s3_def s2_def s1_def s0_def link_init_def)
  then have "link_step s4 s5" using b_recv [of 1000 s4 wb2 2 "[104, 105]"] r by (simp add: s5_def s4_def)
  with 4 have 5: "link_reach 7 s5" by (rule link_reach.step)
  have sent: "l_sent s5 = [[104, 105]]" by (simp add: s5_def s4_def s3_def s2_def)
  have "length (frags_of 1376 [104, 105]) = 1" by code_simp
  then have "length (all_frags mss0 (l_sent s5)) < 2147483648" by (simp add: sent)
  from in_order_delivery [OF 5 this] have "l_got s5 = take (length (l_got s5)) (l_sent s5)" by blast
  moreover have "l_got s5 = [[104, 105]]" by (simp add: s5_def)
  ultimately show ?thesis using 5 by blast
qed

end
