(* ===== verification/Kcp_Timing.thy ===== *)
theory Kcp_Timing
  imports Kcp_Props
begin

text \<open>
  Parameters, timing and rejected input of \<^verbatim>\<open>src/depends/lua-kcp/kcp/ikcp.c\<close>.
\<close>

section \<open>Limits\<close>

text \<open>The bounds of the parameters and estimates.\<close>

definition limits_ok :: "kcp \<Rightarrow> bool" where
  "limits_ok k \<longleftrightarrow> k_mtu k = IKCP_MTU_DEF \<and> k_mss k = IKCP_MTU_DEF - 24 \<and> 10 \<le> k_interval k \<and> k_interval k \<le> 5000 \<and>
     k_rx_minrto k \<in> {IKCP_RTO_NDL, IKCP_RTO_MIN} \<and> IKCP_RTO_NDL \<le> k_rx_rto k \<and> k_rx_rto k \<le> IKCP_RTO_MAX \<and>
     IKCP_WND_RCV \<le> k_rcv_wnd k \<and> IKCP_THRESH_MIN \<le> k_ssthresh k"

definition limits_of :: "kcp \<Rightarrow> u32 \<times> u32 \<times> u32 \<times> u32 \<times> u32 \<times> u32 \<times> u32" where
  "limits_of k = (k_mtu k, k_mss k, k_interval k, k_rx_minrto k, k_rx_rto k, k_rcv_wnd k, k_ssthresh k)"

lemma limits_cong: "limits_of k1 = limits_of k \<Longrightarrow> limits_ok k1 = limits_ok k"
  by (simp add: limits_of_def limits_ok_def)

lemma limits_create: "limits_ok (ikcp_create conv)"
  by (simp add: limits_ok_def ikcp_create_def)

text \<open>The retransmission timeout is clamped.\<close>

lemma limits_update_ack: "limits_ok k \<Longrightarrow> limits_ok (ikcp_update_ack k rtt)"
proof -
  assume l: "limits_ok k"
  define k1 where "k1 = (if k_rx_srtt k = 0 then k\<lparr>k_rx_srtt := rtt, k_rx_rttval := word_of_int (c_div (sint rtt) 2)\<rparr>
    else (let delta = \<bar>sint (rtt - k_rx_srtt k)\<bar>;
              rttval = word_of_int (c_div (sint (3 * k_rx_rttval k) + delta) 4);
              srtt = word_of_int (c_div (sint (7 * k_rx_srtt k + rtt)) 8)
          in k\<lparr>k_rx_rttval := rttval, k_rx_srtt := (if sint (srtt :: u32) < 1 then 1 else srtt)\<rparr>))"
  have "limits_of k1 = limits_of k" unfolding k1_def Let_def by (simp add: limits_of_def)
  then have k1: "limits_ok k1" using limits_cong l by blast
  have "ikcp_update_ack k rtt = k1\<lparr>k_rx_rto := ibound (k_rx_minrto k1)
      (k_rx_srtt k1 + imax (k_interval k1) (4 * k_rx_rttval k1)) IKCP_RTO_MAX\<rparr>" (is "_ = ?k2")
    unfolding ikcp_update_ack_def k1_def by (simp only: Let_def)
  moreover have "limits_ok ?k2"
  proof -
    have b: "m \<in> {30, 100} \<Longrightarrow> 30 \<le> ibound m x 60000 \<and> ibound m x 60000 \<le> 60000" for m x :: u32
      by (auto simp: ibound_def imin_def imax_def word_le_nat_alt)
    from k1 have "k_rx_minrto k1 \<in> {30, 100}" by (simp add: limits_ok_def)
    from b [OF this] k1 show ?thesis by (simp add: limits_ok_def)
  qed
  ultimately show ?thesis by simp
qed

lemma limits_simple:
  "limits_of (ikcp_shrink_buf k) = limits_of k" "limits_of (ikcp_parse_una k una) = limits_of k"
  "limits_of (ikcp_parse_ack k sn) = limits_of k" "limits_of (ikcp_parse_fastack k sn ts) = limits_of k"
  "limits_of (taken n k) = limits_of k" "limits_of (buffered k s) = limits_of k"
  "limits_of (k\<lparr>k_rmt_wnd := w\<rparr>) = limits_of k" "limits_of (k\<lparr>k_probe := w\<rparr>) = limits_of k"
  by (simp_all add: ikcp_shrink_buf_def ikcp_parse_una_def ikcp_parse_ack_def ikcp_parse_fastack_def taken_def
    buffered_def limits_of_def split: prod.splits option.splits)

lemma limits_move_ready: "limits_of (move_ready k) = limits_of k"
  using move_ready_seq [of k] limits_simple(5) by metis

lemma limits_parse_data: "limits_of (ikcp_parse_data k s) = limits_of k"
  by (simp add: parse_data_eq limits_move_ready limits_simple)

lemma limits_ack_push: "ikcp_ack_push k sn ts = Some k1 \<Longrightarrow> limits_of k1 = limits_of k"
  by (auto simp: ikcp_ack_push_def Let_def limits_of_def split: if_splits)

lemma limits_input_push: "input_push k h p = Some k1 \<Longrightarrow> limits_of k1 = limits_of k"
  using limits_ack_push [of k "h_sn h" "h_ts h"] limits_parse_data
  by (auto simp: input_push_def split: if_splits bind_splits)

lemma limits_input_ack: "limits_ok k \<Longrightarrow> limits_ok (input_ack k h)"
proof -
  assume l: "limits_ok k"
  let ?k = "if itimediff (k_current k) (h_ts h) \<ge> 0 then ikcp_update_ack k (k_current k - h_ts h) else k"
  have "limits_ok ?k" using l limits_update_ack by simp
  moreover have "limits_of (ikcp_shrink_buf (ikcp_parse_ack ?k (h_sn h))) = limits_of ?k" by (simp only: limits_simple)
  ultimately show ?thesis unfolding input_ack_def Let_def using limits_cong by blast
qed

lemma input_seg_cases:
  assumes "input_seg k m h p = Some (k1, m1)"
  shows "k1 = input_ack (input_head k h) h \<or> input_push (input_head k h) h p = Some k1 \<or>
    k1 = (input_head k h)\<lparr>k_probe := k_probe (input_head k h) OR IKCP_ASK_TELL\<rparr> \<or> k1 = input_head k h"
proof (cases "ucast (h_cmd h) = IKCP_CMD_ACK")
  case True
  then show ?thesis using assms by (simp add: input_seg_def)
next
  case nack: False
  show ?thesis
  proof (cases "ucast (h_cmd h) = IKCP_CMD_PUSH")
    case True
    then show ?thesis using assms by (auto simp: input_seg_def)
  next
    case False
    then show ?thesis using assms nack by (cases "ucast (h_cmd h) = IKCP_CMD_WASK") (simp_all add: input_seg_def Let_def)
  qed
qed

lemma limits_input_seg:
  assumes "input_seg k m h p = Some (k1, m1)" "limits_ok k"
  shows "limits_ok k1"
proof -
  have h: "limits_ok (input_head k h)" using assms(2) limits_cong [of "input_head k h" k] by (simp add: limits_simple)
  consider "k1 = input_ack (input_head k h) h" | "input_push (input_head k h) h p = Some k1"
    | w where "k1 = (input_head k h)\<lparr>k_probe := w\<rparr>" | "k1 = input_head k h"
    using input_seg_cases [OF assms(1)] by blast
  then show ?thesis
  proof cases
    case 1
    then show ?thesis using limits_input_ack [OF h] by simp
  next
    case 2
    show ?thesis using limits_cong [OF limits_input_push [OF 2]] h by simp
  next
    case 3
    then show ?thesis using limits_cong [OF limits_simple(8)] h by simp
  qed (use h in simp)
qed

lemma limits_loop: "input_loop k m data = Some (k1, m1, r) \<Longrightarrow> limits_ok k \<Longrightarrow> limits_ok k1"
proof (induction "length data" arbitrary: k m data rule: less_induct)
  case less
  from less.prems(1) show ?case
  proof (cases rule: input_loop_cases)
    case (2 h p k2 m2)
    then have "length (drop (24 + unat (h_len h)) data) < length data" by simp
    from less.hyps [OF this 2(4) limits_input_seg [OF 2(3) less.prems(2)]] show ?thesis .
  qed (use less.prems in simp)
qed

lemma limits_open_cwnd: "limits_of (open_cwnd k) = limits_of k"
  by (simp add: open_cwnd_def limits_of_def Let_def)

lemma limits_input:
  assumes "ikcp_input k data = Some (k1, r)" "limits_ok k"
  shows "limits_ok k1"
proof (cases "sint (of_nat (length data) :: u32) < 24")
  case True
  then show ?thesis using assms by (simp add: ikcp_input_def)
next
  case False
  with assms(1) obtain k2 m2 e where l: "input_loop k None data = Some (k2, m2, e)" by (auto simp: ikcp_input_def bind_eq_Some_conv)
  have l2: "limits_ok k2" by (rule limits_loop [OF l assms(2)])
  define k3 where "k3 = (case m2 of Some (sn, ts) \<Rightarrow> ikcp_parse_fastack k2 sn ts | None \<Rightarrow> k2)"
  have "limits_of k3 = limits_of k2" using limits_simple(4) by (simp add: k3_def split: option.splits)
  then have l3: "limits_ok k3" "limits_ok (open_cwnd k3)" using l2 limits_cong limits_open_cwnd by blast+
  have "k1 = k2 \<or> k1 = (if itimediff (k_snd_una k3) (k_snd_una k) > 0 then open_cwnd k3 else k3)"
    using assms(1) False l unfolding ikcp_input_def by (auto simp: k3_def [symmetric] Let_def split: if_splits)
  then show ?thesis using l2 l3 by (auto split: if_splits)
qed


lemma word_one_le: "(x :: u32) \<noteq> 0 \<Longrightarrow> 1 \<le> x"
proof -
  assume "x \<noteq> 0"
  then have "unat x \<noteq> 0" by (simp add: unat_eq_0)
  then show ?thesis by (simp add: word_le_nat_alt)
qed

lemma limits_flush_cwnd: "limits_ok k \<Longrightarrow> limits_ok (flush_cwnd k l c r w) \<and> 1 \<le> k_cwnd (flush_cwnd k l c r w)"
proof -
  assume l: "limits_ok k"
  have th: "IKCP_THRESH_MIN \<le> (if x < IKCP_THRESH_MIN then IKCP_THRESH_MIN else x)" for x :: u32 by (simp add: not_less)
  have "IKCP_THRESH_MIN \<le> k_ssthresh (flush_cwnd k l c r w)"
    using l th [of "(k_snd_nxt k - k_snd_una k) div 2"] th [of "w div 2"]
    unfolding flush_cwnd_def Let_def by (cases l; cases c) (simp_all add: limits_ok_def)
  moreover have "k_mtu (flush_cwnd k l c r w) = k_mtu k" "k_mss (flush_cwnd k l c r w) = k_mss k"
    "k_interval (flush_cwnd k l c r w) = k_interval k" "k_rx_minrto (flush_cwnd k l c r w) = k_rx_minrto k"
    "k_rx_rto (flush_cwnd k l c r w) = k_rx_rto k" "k_rcv_wnd (flush_cwnd k l c r w) = k_rcv_wnd k"
    by (simp_all add: flush_cwnd_def Let_def)
  moreover have "1 \<le> k_cwnd (flush_cwnd k l c r w)"
    using word_one_le unfolding flush_cwnd_def Let_def by (simp add: not_less)
  ultimately show ?thesis using l by (simp add: limits_ok_def)
qed

lemma limits_flush:
  assumes "kcp_ok k" "ikcp_flush k = Some (k1, outs)" "limits_ok k"
  shows "limits_ok k1 \<and> (k_updated k \<noteq> 0 \<longrightarrow> 1 \<le> k_cwnd k1)"
proof (cases "k_updated k = 0")
  case True
  then show ?thesis using assms by (simp add: ikcp_flush_def)
next
  case False
  from flush_moved_eq [of k] obtain n where m: "flush_moved k = moved (ikcp_wnd_unused k) n (flush_start k)" by blast
  have "limits_of (flush_start k) = limits_of k" by (simp add: flush_start_def flush_probe_def limits_of_def Let_def)
  moreover have "limits_of (moved w n k2) = limits_of k2" for w k2 by (simp add: moved_def limits_of_def)
  ultimately have "limits_of (flush_moved k) = limits_of k" using m by simp
  moreover from flush_rep [OF assms(1) False] assms(2) obtain x y l c b where
    "k1 = flush_cwnd ((flush_moved k)\<lparr>k_xmit := x, k_state := y, k_snd_buf := b\<rparr>) l c
       (resent_of (flush_moved k)) (flush_window (flush_start k))" by auto
  moreover have "limits_of ((flush_moved k)\<lparr>k_xmit := x, k_state := y, k_snd_buf := b\<rparr>) = limits_of (flush_moved k)"
    by (simp add: limits_of_def)
  ultimately show ?thesis using assms(3) limits_flush_cwnd limits_cong by metis
qed

lemma limits_update:
  assumes "kcp_ok k" "ikcp_update k t = Some (k1, outs)" "limits_ok k"
  shows "limits_ok k1"
proof -
  obtain k2 d where s: "update_slap k t = (k2, d)" by fastforce
  have "limits_of (fst (update_slap k t)) = limits_of k" by (simp add: update_slap_def limits_of_def Let_def)
  then have l: "limits_ok k2" "limits_ok (k2\<lparr>k_ts_flush := ts\<rparr>)" for ts
    using assms(3) limits_cong [of k2 k] limits_cong [of "k2\<lparr>k_ts_flush := ts\<rparr>" k2] by (simp_all add: s limits_of_def)
  have ok: "kcp_ok k2" by (rule update_slap_ok [OF s assms(1)])
  show ?thesis
  proof (cases "0 \<le> d")
    case True
    then obtain t1 where "ikcp_flush (k2\<lparr>k_ts_flush := t1\<rparr>) = Some (k1, outs)"
      using assms(2) by (auto simp: ikcp_update_def s Let_def split: if_splits)
    from limits_flush [OF _ this l(2)] ok show ?thesis by simp
  next
    case False
    then show ?thesis using assms(2) l(1) by (simp add: ikcp_update_def s)
  qed
qed

lemma limits_recv:
  assumes "kcp_ok k" "ikcp_recv k len = Some (k1, r, bs)"
  shows "limits_of k1 = limits_of k"
proof (cases "k_rcv_queue k = [] \<or> ikcp_peeksize k < 0 \<or> \<not> ikcp_peeksize k \<le> (if len < 0 then - len else len)")
  case True
  then show ?thesis using recv_error [OF True] assms(2) by simp
next
  case False
  obtain bs1 m used rest where ml: "merge_loop (k_rcv_queue k) 0 = (bs1, m, used, rest)" by (metis surj_pair)
  from False have f: "k_rcv_queue k \<noteq> []" "\<not> ikcp_peeksize k < 0" "ikcp_peeksize k \<le> (if len < 0 then - len else len)" by auto
  from recv_cases [OF assms(1) f ml] obtain k2 n p where
    r: "ikcp_recv k len = Some ((taken n k2)\<lparr>k_probe := p\<rparr>, ikcp_peeksize k, bs1)"
    "k2 = (if len < 0 then k else k\<lparr>k_rcv_queue := drop used (k_rcv_queue k), k_nrcv_que := k_nrcv_que k - of_nat used\<rparr>)" by metis
  have "limits_of k2 = limits_of k" by (simp add: r(2) limits_of_def)
  then show ?thesis using assms(2) r(1) limits_simple(5,8) by auto
qed

lemma limits_send:
  assumes "ikcp_send k buffer len = Some (k1, r)"
  shows "limits_of k1 = limits_of k"
proof -
  have fr: "limits_of (send_frags n k2 bs) = limits_of k2" for n k2 bs
    by (induction n arbitrary: k2 bs) (simp_all add: Let_def, simp_all add: limits_of_def)
  have st: "limits_of (fst (send_stream k2 bs)) = limits_of k2" for k2 bs
    by (simp add: send_stream_def limits_of_def Let_def)
  obtain k2 bs2 where s: "(if k_stream k \<noteq> 0 then send_stream k (take (nat len) buffer) else (k, take (nat len) buffer)) = (k2, bs2)"
    by fastforce
  then have k2: "limits_of k2 = limits_of k"
    using st [of k "take (nat len) buffer"] by (auto split: if_splits)
  have "k1 = k \<or> k1 = k2 \<or> (\<exists>n. k1 = send_frags n k2 bs2)"
    using assms unfolding ikcp_send_def Let_def s prod.case
    by (auto split: if_splits simp del: send_frags.simps)
  then show ?thesis using k2 fr by auto
qed

lemma clamp_interval_bounds: "10 \<le> (word_of_int (clamp_interval i) :: u32)" "(word_of_int (clamp_interval i) :: u32) \<le> 5000"
proof -
  have "10 \<le> clamp_interval i" "clamp_interval i \<le> 5000" by (simp_all add: clamp_interval_def)
  moreover from this have "uint (word_of_int (clamp_interval i) :: u32) = clamp_interval i" by (simp add: uint_word_of_int_eq take_bit_int_eq_self)
  ultimately show "10 \<le> (word_of_int (clamp_interval i) :: u32)" "(word_of_int (clamp_interval i) :: u32) \<le> 5000"
    by (simp_all add: word_le_def)
qed

lemma limits_nodelay: "limits_ok k \<Longrightarrow> limits_ok (fst (ikcp_nodelay k nd iv rs nc))"
  using clamp_interval_bounds [of iv] by (simp add: ikcp_nodelay_def limits_ok_def Let_def)

lemma limits_wndsize: "limits_ok k \<Longrightarrow> limits_ok (fst (ikcp_wndsize k sw rw))"
proof -
  have "IKCP_WND_RCV \<le> imax x IKCP_WND_RCV" for x by (simp add: imax_def)
  moreover assume "limits_ok k"
  ultimately show ?thesis by (simp add: ikcp_wndsize_def limits_ok_def Let_def)
qed

text \<open>
  C21: In every reachable state the MTU is the default, the flush interval is between 10 and 5000
  milliseconds, the retransmission timeout between 30 milliseconds and a minute, the receive window at
  least 128 segments, which is a whole message, and the slow start threshold at least two.
\<close>

theorem parameters_bounded:
  assumes "kcp_reach k"
  shows "limits_ok k"
  using assms
proof (induction rule: kcp_reach.induct)
  case (send k buffer len k1 r)
  then show ?case using limits_cong [OF limits_send [OF send.hyps(2)]] by simp
next
  case (recv k len k1 r bs)
  then show ?case using limits_cong [OF limits_recv [OF kcp_reach_ok [OF recv.hyps(1)] recv.hyps(2)]] by simp
next
  case (input k data k1 r)
  then show ?case using limits_input [OF input.hyps(3)] by simp
next
  case (update k t k1 outs)
  then show ?case using limits_update [OF kcp_reach_ok [OF update.hyps(1)] update.hyps(2)] by simp
next
  case (flush k k1 outs)
  then show ?case using limits_flush [OF kcp_reach_ok [OF flush.hyps(1)] flush.hyps(2)] by simp
qed (simp_all add: limits_create limits_nodelay limits_wndsize lkcp_wndsize_def lkcp_nodelay_def)

theorem parameters_bounded_witness:
  "limits_ok (fst (lkcp_nodelay (ikcp_create 7) 1 1 2 1)) \<and> k_interval (fst (lkcp_nodelay (ikcp_create 7) 1 1 2 1)) = 10"
proof -
  have "kcp_reach (fst (lkcp_nodelay (ikcp_create 7) 1 1 2 1))" by (rule kcp_reach.nodelay [OF kcp_reach.create])
  moreover have "k_interval (fst (lkcp_nodelay (ikcp_create 7) 1 1 2 1)) = 10" by code_simp
  ultimately show ?thesis using parameters_bounded by blast
qed


section \<open>Timing\<close>

lemma check_loop_pos: "check_loop cur ss tm = Some d \<Longrightarrow> 0 < tm \<Longrightarrow> 0 < d \<and> d \<le> tm"
  by (induction ss arbitrary: tm) (force simp: Let_def split: if_splits)+

lemma sint_minus_small:
  fixes x :: u32
  assumes "0 \<le> sint x" "unat s \<le> 10000"
  shows "sint (x - s) = sint x - int (unat s)"
proof -
  have x: "sint x = int (unat x)" "unat x < 2147483648" using assms(1) sint_neg_u32 [of x] sint_nonneg_u32 [of x] by linarith+
  have "itimediff (of_nat (unat x)) (of_nat (unat s)) = int (unat x) - int (unat s)"
    by (rule itimediff_near) (use x(2) assms(2) in linarith)+
  then show ?thesis unfolding x(1) by (simp add: itimediff_def)
qed

text \<open>The time that \<open>ikcp_check\<close> gives is at most as far away as the next flush.\<close>

lemma check_step:
  assumes "k_updated k \<noteq> 0" "ikcp_check k cur \<noteq> cur"
  obtains step where "ikcp_check k cur = cur + step" "unat step \<le> 10000"
    "itimediff cur (k_ts_flush k) < 0" "- 10000 \<le> itimediff cur (k_ts_flush k)"
    "int (unat step) \<le> - itimediff cur (k_ts_flush k)"
proof -
  let ?d = "itimediff cur (k_ts_flush k)"
  have rng: "\<not> (?d \<ge> 10000 \<or> ?d < -10000)" "\<not> ?d \<ge> 0"
    using assms by (auto simp: ikcp_check_def Let_def itimediff_def split: if_splits)
  have neg: "itimediff (k_ts_flush k) cur = - ?d" by (rule itimediff_swap) (use rng in linarith)
  from assms obtain tm where tm: "check_loop cur (k_snd_buf k) 0x7fffffff = Some tm"
    using rng by (auto simp: ikcp_check_def Let_def split: if_splits option.splits)
  define minimal where "minimal = (if tm < - ?d then tm else - ?d)"
  have m: "0 < minimal" "minimal \<le> - ?d" "minimal \<le> 10000"
    using check_loop_pos [OF tm] rng by (auto simp: minimal_def)
  have "ikcp_check k cur = cur + (if word_of_int minimal \<ge> k_interval k then k_interval k else word_of_int minimal)"
    using assms(1) rng tm unfolding ikcp_check_def Let_def by (simp add: neg minimal_def)
  moreover have um: "unat (word_of_int minimal :: u32) = nat minimal"
    using m by (simp add: uint_word_of_int_eq take_bit_int_eq_self flip: nat_uint_eq)
  moreover have "unat (if word_of_int minimal \<ge> k_interval k then k_interval k else word_of_int minimal) \<le> nat minimal"
    (is "unat ?step \<le> _") using um by (simp add: word_le_nat_alt)
  ultimately show thesis
  proof (intro that)
    assume le: "unat ?step \<le> nat minimal"
    then show "unat ?step \<le> 10000" "int (unat ?step) \<le> - ?d" using m by linarith+
  qed (use rng in linarith)+
qed

text \<open>
  A program may sleep until the time that \<open>ikcp_check\<close> returned: calling \<open>ikcp_update\<close> before it
  sends nothing and changes nothing but the current time.
\<close>

theorem update_before_check:
  assumes "k_updated k \<noteq> 0" "0 \<le> itimediff t cur" "itimediff t (ikcp_check k cur) < 0"
  shows "ikcp_update k t = Some (k\<lparr>k_current := t\<rparr>, [])"
proof -
  have "ikcp_check k cur \<noteq> cur" using assms(2,3) by auto
  from check_step [OF assms(1) this] obtain step where s: "ikcp_check k cur = cur + step" "unat step \<le> 10000"
    "itimediff cur (k_ts_flush k) < 0" "- 10000 \<le> itimediff cur (k_ts_flush k)"
    "int (unat step) \<le> - itimediff cur (k_ts_flush k)" by metis
  let ?w = "- itimediff cur (k_ts_flush k)"
  have "itimediff t (cur + step) = itimediff t cur - int (unat step)"
    using sint_minus_small [of "t - cur" step] assms(2) s(2) by (simp add: itimediff_def algebra_simps)
  then have lt: "itimediff t cur < ?w" using assms(3) s(1,5) by simp
  have "itimediff (k_ts_flush k) cur = ?w" by (rule itimediff_swap) (use s(4) in linarith)
  then have g: "sint (k_ts_flush k - cur) = ?w" by (simp add: itimediff_def)
  then have un: "int (unat (k_ts_flush k - cur)) = ?w"
    using sint_neg_u32 [of "k_ts_flush k - cur"] sint_nonneg_u32 [of "k_ts_flush k - cur"] s(3) by linarith
  then have small: "unat (k_ts_flush k - cur) \<le> 10000" using s(4) by linarith
  have "itimediff t (k_ts_flush k) = itimediff t cur - ?w"
    using sint_minus_small [OF _ small, of "t - cur"] assms(2) un by (simp add: itimediff_def)
  then have d: "itimediff t (k_ts_flush k) < 0" "- 10000 \<le> itimediff t (k_ts_flush k)"
    using lt s(4) assms(2) by linarith+
  then have "update_slap k t = (k\<lparr>k_current := t\<rparr>, itimediff t (k_ts_flush k))"
    using assms(1) by (simp add: update_slap_def Let_def)
  then show ?thesis using d by (simp add: ikcp_update_def)
qed

theorem update_before_check_witness:
  "ikcp_update ((ikcp_create 7)\<lparr>k_updated := 1, k_ts_flush := 50\<rparr>) 0x10 =
     Some ((ikcp_create 7)\<lparr>k_updated := 1, k_ts_flush := 50, k_current := 0x10\<rparr>, [])"
proof -
  let ?k = "(ikcp_create 7)\<lparr>k_updated := 1, k_ts_flush := 50\<rparr>"
  have "k_updated ?k \<noteq> 0" "0 \<le> itimediff 0x10 0" "itimediff 0x10 (ikcp_check ?k 0) < 0" by code_simp+
  from update_before_check [OF this] show ?thesis by simp
qed

section \<open>Rejected input\<close>



end
