(* ===== verification/Kcp_Reassembly.thy ===== *)
theory Kcp_Reassembly
  imports Kcp_Receiver
begin

text \<open>
  Two data structures of \<^verbatim>\<open>src/depends/lua-kcp/kcp/ikcp.c\<close> against what they stand for: the array of pending
  acknowledgements is a list of pairs, and the sorted receive buffer is a set of arrived numbers.
\<close>

section \<open>Pending acknowledgements as a list of pairs\<close>

fun pairs_of :: "u32 list \<Rightarrow> (u32 \<times> u32) list" where
  "pairs_of (a # b # l) = (a, b) # pairs_of l"
| "pairs_of _ = []"

definition pending_acks :: "kcp \<Rightarrow> (u32 \<times> u32) list" where
  "pending_acks k = pairs_of (take (2 * unat (k_ackcount k)) (k_acklist k))"

lemma pairs_of_append: "even (length xs) \<Longrightarrow> pairs_of (xs @ ys) = pairs_of xs @ pairs_of ys"
  by (induction xs rule: pairs_of.induct) auto

lemma pairs_of_nth: "even (length xs) \<Longrightarrow> pairs_of xs = map (\<lambda>j. (xs ! (2 * j), xs ! (2 * j + 1))) [0..<length xs div 2]"
proof (induction xs rule: pairs_of.induct)
  case (1 a b l)
  have "[0..<length (a # b # l) div 2] = 0 # map Suc [0..<length l div 2]" by (simp add: upt_conv_Cons map_Suc_upt)
  then show ?case using 1 by (simp add: o_def)
qed auto

text \<open>
  The growing array of acknowledgements is a list to which \<open>ikcp_ack_push\<close> appends, whether or not the
  array had to be enlarged.
\<close>

theorem ack_push_appends:
  assumes "ack_ok k" "unat (k_ackcount k) < 1073741824"
  shows "\<exists>k1. ikcp_ack_push k sn ts = Some k1 \<and> pending_acks k1 = pending_acks k @ [(sn, ts)] \<and> ack_ok k1"
proof -
  from ack_push_ok [OF assms, of sn ts] obtain l b where p:
    "ikcp_ack_push k sn ts = Some (k\<lparr>k_acklist := l, k_ackblock := b, k_ackcount := k_ackcount k + 1\<rparr>)"
    "ack_ok (k\<lparr>k_acklist := l, k_ackblock := b, k_ackcount := k_ackcount k + 1\<rparr>)"
    "take (2 * unat (k_ackcount k) + 2) l = take (2 * unat (k_ackcount k)) (k_acklist k) @ [sn, ts]" by metis
  have c: "unat (k_ackcount k + 1) = unat (k_ackcount k) + 1" using assms(2) by (subst unat_word_ariths) simp
  have "unat (k_ackcount k) \<le> unat (k_ackblock k)" using assms(1) by (simp add: ack_ok_def word_le_nat_alt)
  then have "length (take (2 * unat (k_ackcount k)) (k_acklist k)) = 2 * unat (k_ackcount k)"
    using assms(1) by (simp add: ack_ok_def)
  then have "pairs_of (take (2 * unat (k_ackcount k)) (k_acklist k) @ [sn, ts]) = pending_acks k @ [(sn, ts)]"
    unfolding pending_acks_def by (subst pairs_of_append) simp_all
  then have "pending_acks (k\<lparr>k_acklist := l, k_ackblock := b, k_ackcount := k_ackcount k + 1\<rparr>) = pending_acks k @ [(sn, ts)]"
    using p(3) by (simp add: pending_acks_def c)
  then show ?thesis using p(1,2) by blast
qed

theorem ack_push_appends_witness:
  "\<exists>k1. ikcp_ack_push (ikcp_create 7) 3 9 = Some k1 \<and> pending_acks k1 = [(3, 9)]"
proof -
  have "ack_ok (ikcp_create 7)" using create_ok by (simp add: kcp_ok_def)
  moreover have "unat (k_ackcount (ikcp_create 7)) < 1073741824" "pending_acks (ikcp_create 7) = []"
    by (simp_all add: ikcp_create_def pending_acks_def)
  ultimately show ?thesis using ack_push_appends [of "ikcp_create 7" 3 9] by auto
qed

section \<open>Reassembly\<close>

text \<open>
  Sequence numbers are unbounded here and words in the code: \<open>R\<close> is the next number that is expected and
  \<open>ns\<close> are the numbers in the receive buffer.  The buffer is sorted, lies less than \<open>2 ^ 30\<close> ahead, and
  its first segment is not one that could be moved.
\<close>

definition reasm_inv :: "nat \<Rightarrow> nat list \<Rightarrow> kcp \<Rightarrow> bool" where
  "reasm_inv R ns k \<longleftrightarrow> k_rcv_nxt k = of_nat R \<and> map s_sn (k_rcv_buf k) = map of_nat ns \<and>
     sorted_wrt (<) ns \<and> (\<forall>n \<in> set ns. R \<le> n \<and> n < R + 1073741824)"

definition reasm_done :: "kcp \<Rightarrow> bool" where
  "reasm_done k \<longleftrightarrow> (case k_rcv_buf k of [] \<Rightarrow> True
     | s # _ \<Rightarrow> s_sn s \<noteq> k_rcv_nxt k \<or> \<not> k_nrcv_que k < k_rcv_wnd k)"

text \<open>The numbers that have arrived: everything below \<open>R\<close> and what is in the buffer.\<close>

definition arrived :: "nat \<Rightarrow> nat list \<Rightarrow> nat set" where
  "arrived R ns = {..<R} \<union> set ns"

text \<open>The search from the end puts a new number at its place and finds a number that is there.\<close>

lemma buf_insert_sorted:
  assumes "map s_sn ss = map of_nat ns" "sorted_wrt (>) ns" "s_sn s = of_nat n"
    and "\<forall>x \<in> set ns. x < n + 2147483648 \<and> n < x + 2147483648"
  shows "(n \<in> set ns \<longrightarrow> buf_insert s ss = None) \<and>
    (n \<notin> set ns \<longrightarrow> (\<exists>r rs. buf_insert s ss = Some r \<and> map s_sn r = map of_nat rs \<and> sorted_wrt (>) rs \<and> set rs = insert n (set ns)))"
  using assms
proof (induction ss arbitrary: ns)
  case Nil
  then show ?case by (auto intro: exI [of _ "[n]"])
next
  case (Cons x ss)
  then obtain m ms where ns: "ns = m # ms" "s_sn x = of_nat m" "map s_sn ss = map of_nat ms" by (cases ns) auto
  have near: "m < n + 2147483648" "n < m + 2147483648" using Cons.prems(4) ns(1) by simp_all
  have eq: "s_sn x = s_sn s \<longleftrightarrow> m = n" using of_nat_near_eq [OF near] by (simp add: ns(2) Cons.prems(3))
  have gt: "itimediff (s_sn s) (s_sn x) > 0 \<longleftrightarrow> m < n"
    using itimediff_near [OF near(2,1)] by (simp add: ns(2) Cons.prems(3))
  have IH: "(n \<in> set ms \<longrightarrow> buf_insert s ss = None) \<and> (n \<notin> set ms \<longrightarrow>
    (\<exists>r rs. buf_insert s ss = Some r \<and> map s_sn r = map of_nat rs \<and> sorted_wrt (>) rs \<and> set rs = insert n (set ms)))"
    by (rule Cons.IH) (use Cons.prems ns in simp_all)
  consider "m = n" | "m < n" | "n < m" by linarith
  then show ?case
  proof cases
    case 1
    then show ?thesis using eq by (simp add: ns(1))
  next
    case 2
    then have "n \<notin> set ns" using Cons.prems(2) by (auto simp: ns(1))
    moreover have "buf_insert s (x # ss) = Some (s # x # ss)" using 2 eq gt by simp
    moreover have "map s_sn (s # x # ss) = map of_nat (n # ns)" using Cons.prems(1,3) by simp
    moreover have "sorted_wrt (>) (n # ns)" using 2 Cons.prems(2) by (auto simp: ns(1))
    ultimately show ?thesis by (metis list.simps(15))
  next
    case 3
    then have step: "buf_insert s (x # ss) = map_option ((#) x) (buf_insert s ss)" using eq gt by simp
    show ?thesis
    proof (cases "n \<in> set ms")
      case True
      then show ?thesis using IH step by (simp add: ns(1))
    next
      case False
      with IH obtain r rs where r: "buf_insert s ss = Some r" "map s_sn r = map of_nat rs" "sorted_wrt (>) rs"
        "set rs = insert n (set ms)" by blast
      have "sorted_wrt (>) (m # rs)" using r(3,4) 3 Cons.prems(2) by (auto simp: ns(1))
      moreover have "map s_sn (x # r) = map of_nat (m # rs)" using r(2) ns(2) by simp
      moreover have "set (m # rs) = insert n (set ns)" using r(4) by (auto simp: ns(1))
      moreover have "n \<notin> set ns" using False 3 by (simp add: ns(1))
      ultimately show ?thesis using step r(1) by (metis option.simps(9))
    qed
  qed
qed

lemma reasm_insert:
  assumes "reasm_inv R ns k" "s_sn s = of_nat (R + d)" "d < 1073741824"
  obtains ns1 where "reasm_inv R ns1 (buffered k s)" "set ns1 = insert (R + d) (set ns)"
proof -
  have near: "\<forall>x \<in> set (rev ns). x < (R + d) + 2147483648 \<and> R + d < x + 2147483648"
    using assms(1,3) by (auto simp: reasm_inv_def)
  have m: "map s_sn (rev (k_rcv_buf k)) = map of_nat (rev ns)" using assms(1) by (metis reasm_inv_def rev_map)
  have "sorted_wrt (>) (rev ns)" using assms(1) by (simp add: reasm_inv_def sorted_wrt_rev)
  from buf_insert_sorted [OF m this assms(2) near] show thesis
  proof (cases "R + d \<in> set ns")
    case True
    then have "buffered k s = k" using buf_insert_sorted [OF m \<open>sorted_wrt (>) (rev ns)\<close> assms(2) near] by (simp add: buffered_def)
    then show thesis using that [of ns] assms(1) True by auto
  next
    case False
    with buf_insert_sorted [OF m \<open>sorted_wrt (>) (rev ns)\<close> assms(2) near] obtain r rs where
      r: "buf_insert s (rev (k_rcv_buf k)) = Some r" "map s_sn r = map of_nat rs" "sorted_wrt (>) rs" "set rs = insert (R + d) (set ns)"
      by auto
    have "reasm_inv R (rev rs) (buffered k s)"
      using assms(1,3) r by (auto simp: reasm_inv_def buffered_def sorted_wrt_rev rev_map [symmetric])
    then show thesis using that [of "rev rs"] r(4) by simp
  qed
qed

text \<open>Moving takes the longest run of expected numbers that the queue has room for.\<close>

lemma sorted_nth_ge: "sorted_wrt (<) ns \<Longrightarrow> \<forall>n \<in> set ns. R \<le> n \<Longrightarrow> i < length ns \<Longrightarrow> R + i \<le> ns ! i"
proof (induction ns arbitrary: R i)
  case (Cons n ns)
  show ?case
  proof (cases i)
    case (Suc j)
    have "\<forall>m \<in> set ns. Suc R \<le> m" using Cons.prems(1,2) by fastforce
    then have "Suc R + j \<le> ns ! j" by (rule Cons.IH [rotated]) (use Cons.prems Suc in simp_all)
    then show ?thesis by (simp add: Suc)
  qed (use Cons.prems in simp)
qed simp

lemma reasm_taken:
  assumes inv: "reasm_inv R ns k" and n: "n \<le> length (k_rcv_buf k)"
    "\<forall>i < n. s_sn (k_rcv_buf k ! i) = k_rcv_nxt k + of_nat i"
  shows "reasm_inv (R + n) (drop n ns) (taken n k)" "arrived (R + n) (drop n ns) = arrived R ns"
proof -
  have i: "k_rcv_nxt k = of_nat R" "map s_sn (k_rcv_buf k) = map of_nat ns" "sorted_wrt (<) ns"
    "\<forall>x \<in> set ns. R \<le> x \<and> x < R + 1073741824" using inv by (simp_all add: reasm_inv_def)
  have len: "length ns = length (k_rcv_buf k)" using arg_cong [OF i(2), of length] by simp
  have run: "ns ! j = R + j" if "j < n" for j
  proof -
    have jl: "j < length ns" using that n(1) len by simp
    have "of_nat (ns ! j) = (of_nat (R + j) :: u32)"
      using arg_cong [OF i(2), of "\<lambda>l. l ! j"] n(2) that jl len i(1) by simp
    moreover have "R + j \<le> ns ! j" using sorted_nth_ge [OF i(3) _ jl] i(4) by simp
    moreover have "ns ! j < R + 1073741824" using i(4) jl by simp
    ultimately show ?thesis using of_nat_near_eq [of "ns ! j" "R + j"] by simp
  qed
  have tk: "take n ns = [R..<R + n]" using run n(1) len by (intro nth_equalityI) simp_all
  have ns: "ns = [R..<R + n] @ drop n ns" using tk by (metis append_take_drop_id)
  have ge: "R + n \<le> x" if "x \<in> set (drop n ns)" for x
  proof -
    from that obtain j where "j < length ns - n" "x = ns ! (n + j)" by (auto simp: in_set_conv_nth)
    then have "n + j < length ns" by linarith
    then show ?thesis using sorted_nth_ge [OF i(3), of R "n + j"] i(4) \<open>x = ns ! (n + j)\<close> by simp
  qed
  show "arrived (R + n) (drop n ns) = arrived R ns"
  proof -
    have "set ns = {R..<R + n} \<union> set (drop n ns)" using arg_cong [OF ns, of set] unfolding set_append set_upt .
    moreover have "{..<R + n} = {..<R} \<union> {R..<R + n}" by auto
    ultimately show ?thesis unfolding arrived_def by blast
  qed
  have "\<forall>x \<in> set (drop n ns). R + n \<le> x \<and> x < R + n + 1073741824"
  proof
    fix x assume x: "x \<in> set (drop n ns)"
    then have "x < R + 1073741824" using i(4) in_set_dropD by fast
    then show "R + n \<le> x \<and> x < R + n + 1073741824" using ge [OF x] by simp
  qed
  then show "reasm_inv (R + n) (drop n ns) (taken n k)"
    using i by (simp add: reasm_inv_def taken_def sorted_wrt_drop flip: drop_map)
qed

lemma window_offset:
  assumes "in_window k sn" "k_rcv_nxt k = of_nat R" "unat (k_rcv_wnd k) \<le> 1073741824"
  shows "sn = of_nat (R + unat (sn - k_rcv_nxt k))" "unat (sn - k_rcv_nxt k) < 1073741824"
proof -
  let ?d = "unat (sn - k_rcv_nxt k)"
  have "of_nat ?d = sn - k_rcv_nxt k" by simp
  then show sn: "sn = of_nat (R + ?d)" using assms(2) by simp
  have d: "?d < 2147483648" using assms(1) sint_neg_u32 [of "sn - k_rcv_nxt k"] by (auto simp: in_window_def itimediff_def)
  have "k_rcv_nxt k + k_rcv_wnd k = of_nat (R + unat (k_rcv_wnd k))" by (simp add: assms(2))
  then have "itimediff (of_nat (R + ?d)) (of_nat (R + unat (k_rcv_wnd k))) < 0"
    using assms(1) unfolding in_window_def by (simp only: sn [symmetric])
  moreover have "itimediff (of_nat (R + ?d)) (of_nat (R + unat (k_rcv_wnd k))) =
      int (R + ?d) - int (R + unat (k_rcv_wnd k))"
    by (rule itimediff_near) (use d assms(3) in linarith)+
  ultimately have "?d < unat (k_rcv_wnd k)" by linarith
  then show "?d < 1073741824" using assms(3) by linarith
qed


text \<open>
  C13: The receive buffer refines a set of arrived numbers: a segment inside the window adds its number, a
  duplicate adds nothing, anything else is ignored; afterwards the buffer is sorted and nothing in it could
  be handed over.  Numbers that wrap around at 32 bits are compared correctly.
\<close>

theorem parse_data_refines:
  assumes "reasm_inv R ns k" "unat (k_rcv_wnd k) \<le> 1073741824" "in_window k (s_sn s)"
  shows "\<exists>R1 ns1. reasm_inv R1 ns1 (ikcp_parse_data k s) \<and> reasm_done (ikcp_parse_data k s) \<and>
    arrived R1 ns1 = insert (R + unat (s_sn s - k_rcv_nxt k)) (arrived R ns)"
proof -
  have nxt: "k_rcv_nxt k = of_nat R" using assms(1) by (simp add: reasm_inv_def)
  note w = window_offset [OF assms(3) nxt assms(2)]
  from reasm_insert [OF assms(1) w] obtain ns1 where b: "reasm_inv R ns1 (buffered k s)"
    "set ns1 = insert (R + unat (s_sn s - k_rcv_nxt k)) (set ns)" by blast
  let ?b = "buffered k s"
  from move_loop_taken [of "k_rcv_buf ?b" ?b] obtain n where n: "n \<le> length (k_rcv_buf ?b)" "move_ready ?b = taken n ?b"
    "\<forall>i < n. s_sn (k_rcv_buf ?b ! i) = k_rcv_nxt ?b + of_nat i"
    "n < length (k_rcv_buf ?b) \<longrightarrow> s_sn (k_rcv_buf ?b ! n) \<noteq> k_rcv_nxt ?b + of_nat n \<or>
       \<not> k_nrcv_que ?b + of_nat n < k_rcv_wnd ?b" by (auto simp: move_ready_def)
  have "reasm_done (taken n ?b)"
  proof (cases "drop n (k_rcv_buf ?b)")
    case Nil
    then show ?thesis by (simp add: reasm_done_def taken_def)
  next
    case (Cons x xs)
    then have "n < length (k_rcv_buf ?b)" "x = k_rcv_buf ?b ! n"
      using n(1) by (metis drop_all list.distinct(1) not_le) (metis Cons hd_drop_conv_nth list.sel(1) drop_all list.distinct(1) not_le)
    then show ?thesis using n(4) Cons by (simp add: reasm_done_def taken_def)
  qed
  moreover have "arrived R ns1 = insert (R + unat (s_sn s - k_rcv_nxt k)) (arrived R ns)"
    using b(2) by (simp add: arrived_def)
  moreover have "ikcp_parse_data k s = taken n ?b" using assms(3) n(2) by (simp add: parse_data_eq)
  ultimately show ?thesis using reasm_taken [OF b(1) n(1,3)] by auto
qed

theorem parse_data_refines_witness:
  "\<exists>R1 ns1. reasm_inv R1 ns1 (ikcp_parse_data ((ikcp_create 7)\<lparr>k_rcv_nxt := 0xffffffff\<rparr>) (segment_new\<lparr>s_sn := 2\<rparr>)) \<and>
     arrived R1 ns1 = insert 4294967298 {..<4294967295}"
proof -
  let ?k = "(ikcp_create 7)\<lparr>k_rcv_nxt := 0xffffffff\<rparr>" and ?s = "segment_new\<lparr>s_sn := 2\<rparr>"
  have "reasm_inv 4294967295 [] ?k" by (simp add: reasm_inv_def ikcp_create_def)
  moreover have "unat (k_rcv_wnd ?k) \<le> 1073741824" by (simp add: ikcp_create_def)
  moreover have "in_window ?k (s_sn ?s)" by (simp add: in_window_def itimediff_def ikcp_create_def)
  ultimately obtain R1 ns1 where r: "reasm_inv R1 ns1 (ikcp_parse_data ?k ?s)"
    "arrived R1 ns1 = insert (4294967295 + unat (s_sn ?s - k_rcv_nxt ?k)) (arrived 4294967295 [])"
    using parse_data_refines [of 4294967295 "[]" ?k ?s] by blast
  have "4294967295 + unat (s_sn ?s - k_rcv_nxt ?k) = 4294967298" by simp
  moreover have "arrived 4294967295 [] = {..<4294967295}" by (simp only: arrived_def list.set Un_empty_right)
  ultimately have "arrived R1 ns1 = insert 4294967298 {..<4294967295}" using r(2) by (simp only:)
  with r(1) show ?thesis by (intro exI conjI)
qed

end
