(* ===== verification/Crc32.thy ===== *)
theory Crc32
  imports Prelude
begin

text \<open>
  The checksums of \<^verbatim>\<open>src/depends/lua-crc32\<close>: the two tables, the routine for short keys, which looks up four
  bits at a time, the one for long keys, which looks up eight, the incremental routine, and the
  alignment of the small table.  They are compared with the definition of CRC-32 bit by bit.
\<close>

section \<open>Tables\<close>

definition ngx_crc32_table16 :: "u32 list" where
  "ngx_crc32_table16 =
    [0x00000000, 0x1db71064, 0x3b6e20c8, 0x26d930ac, 0x76dc4190, 0x6b6b51f4,
     0x4db26158, 0x5005713c, 0xedb88320, 0xf00f9344, 0xd6d6a3e8, 0xcb61b38c,
     0x9b64c2b0, 0x86d3d2d4, 0xa00ae278, 0xbdbdf21c]"

definition ngx_crc32_table256 :: "u32 list" where
  "ngx_crc32_table256 =
    [0x00000000, 0x77073096, 0xee0e612c, 0x990951ba, 0x076dc419, 0x706af48f,
     0xe963a535, 0x9e6495a3, 0x0edb8832, 0x79dcb8a4, 0xe0d5e91e, 0x97d2d988,
     0x09b64c2b, 0x7eb17cbd, 0xe7b82d07, 0x90bf1d91, 0x1db71064, 0x6ab020f2,
     0xf3b97148, 0x84be41de, 0x1adad47d, 0x6ddde4eb, 0xf4d4b551, 0x83d385c7,
     0x136c9856, 0x646ba8c0, 0xfd62f97a, 0x8a65c9ec, 0x14015c4f, 0x63066cd9,
     0xfa0f3d63, 0x8d080df5, 0x3b6e20c8, 0x4c69105e, 0xd56041e4, 0xa2677172,
     0x3c03e4d1, 0x4b04d447, 0xd20d85fd, 0xa50ab56b, 0x35b5a8fa, 0x42b2986c,
     0xdbbbc9d6, 0xacbcf940, 0x32d86ce3, 0x45df5c75, 0xdcd60dcf, 0xabd13d59,
     0x26d930ac, 0x51de003a, 0xc8d75180, 0xbfd06116, 0x21b4f4b5, 0x56b3c423,
     0xcfba9599, 0xb8bda50f, 0x2802b89e, 0x5f058808, 0xc60cd9b2, 0xb10be924,
     0x2f6f7c87, 0x58684c11, 0xc1611dab, 0xb6662d3d, 0x76dc4190, 0x01db7106,
     0x98d220bc, 0xefd5102a, 0x71b18589, 0x06b6b51f, 0x9fbfe4a5, 0xe8b8d433,
     0x7807c9a2, 0x0f00f934, 0x9609a88e, 0xe10e9818, 0x7f6a0dbb, 0x086d3d2d,
     0x91646c97, 0xe6635c01, 0x6b6b51f4, 0x1c6c6162, 0x856530d8, 0xf262004e,
     0x6c0695ed, 0x1b01a57b, 0x8208f4c1, 0xf50fc457, 0x65b0d9c6, 0x12b7e950,
     0x8bbeb8ea, 0xfcb9887c, 0x62dd1ddf, 0x15da2d49, 0x8cd37cf3, 0xfbd44c65,
     0x4db26158, 0x3ab551ce, 0xa3bc0074, 0xd4bb30e2, 0x4adfa541, 0x3dd895d7,
     0xa4d1c46d, 0xd3d6f4fb, 0x4369e96a, 0x346ed9fc, 0xad678846, 0xda60b8d0,
     0x44042d73, 0x33031de5, 0xaa0a4c5f, 0xdd0d7cc9, 0x5005713c, 0x270241aa,
     0xbe0b1010, 0xc90c2086, 0x5768b525, 0x206f85b3, 0xb966d409, 0xce61e49f,
     0x5edef90e, 0x29d9c998, 0xb0d09822, 0xc7d7a8b4, 0x59b33d17, 0x2eb40d81,
     0xb7bd5c3b, 0xc0ba6cad, 0xedb88320, 0x9abfb3b6, 0x03b6e20c, 0x74b1d29a,
     0xead54739, 0x9dd277af, 0x04db2615, 0x73dc1683, 0xe3630b12, 0x94643b84,
     0x0d6d6a3e, 0x7a6a5aa8, 0xe40ecf0b, 0x9309ff9d, 0x0a00ae27, 0x7d079eb1,
     0xf00f9344, 0x8708a3d2, 0x1e01f268, 0x6906c2fe, 0xf762575d, 0x806567cb,
     0x196c3671, 0x6e6b06e7, 0xfed41b76, 0x89d32be0, 0x10da7a5a, 0x67dd4acc,
     0xf9b9df6f, 0x8ebeeff9, 0x17b7be43, 0x60b08ed5, 0xd6d6a3e8, 0xa1d1937e,
     0x38d8c2c4, 0x4fdff252, 0xd1bb67f1, 0xa6bc5767, 0x3fb506dd, 0x48b2364b,
     0xd80d2bda, 0xaf0a1b4c, 0x36034af6, 0x41047a60, 0xdf60efc3, 0xa867df55,
     0x316e8eef, 0x4669be79, 0xcb61b38c, 0xbc66831a, 0x256fd2a0, 0x5268e236,
     0xcc0c7795, 0xbb0b4703, 0x220216b9, 0x5505262f, 0xc5ba3bbe, 0xb2bd0b28,
     0x2bb45a92, 0x5cb36a04, 0xc2d7ffa7, 0xb5d0cf31, 0x2cd99e8b, 0x5bdeae1d,
     0x9b64c2b0, 0xec63f226, 0x756aa39c, 0x026d930a, 0x9c0906a9, 0xeb0e363f,
     0x72076785, 0x05005713, 0x95bf4a82, 0xe2b87a14, 0x7bb12bae, 0x0cb61b38,
     0x92d28e9b, 0xe5d5be0d, 0x7cdcefb7, 0x0bdbdf21, 0x86d3d2d4, 0xf1d4e242,
     0x68ddb3f8, 0x1fda836e, 0x81be16cd, 0xf6b9265b, 0x6fb077e1, 0x18b74777,
     0x88085ae6, 0xff0f6a70, 0x66063bca, 0x11010b5c, 0x8f659eff, 0xf862ae69,
     0x616bffd3, 0x166ccf45, 0xa00ae278, 0xd70dd2ee, 0x4e048354, 0x3903b3c2,
     0xa7672661, 0xd06016f7, 0x4969474d, 0x3e6e77db, 0xaed16a4a, 0xd9d65adc,
     0x40df0b66, 0x37d83bf0, 0xa9bcae53, 0xdebb9ec5, 0x47b2cf7f, 0x30b5ffe9,
     0xbdbdf21c, 0xcabac28a, 0x53b39330, 0x24b4a3a6, 0xbad03605, 0xcdd70693,
     0x54de5729, 0x23d967bf, 0xb3667a2e, 0xc4614ab8, 0x5d681b02, 0x2a6f2b94,
     0xb40bbe37, 0xc30c8ea1, 0x5a05df1b, 0x2d02ef8d]"

section \<open>Routines\<close>

definition short_step :: "u32 \<Rightarrow> u8 \<Rightarrow> u32" where
  "short_step crc c =
     (let crc1 = ngx_crc32_table16 ! unat ((crc XOR ucast (c AND 0xf)) AND 0xf) XOR drop_bit 4 crc
      in ngx_crc32_table16 ! unat ((crc1 XOR ucast (drop_bit 4 c)) AND 0xf) XOR drop_bit 4 crc1)"

definition ngx_crc32_short :: "u8 list \<Rightarrow> u32" where
  "ngx_crc32_short p = foldl short_step 0xffffffff p XOR 0xffffffff"

definition long_step :: "u32 \<Rightarrow> u8 \<Rightarrow> u32" where
  "long_step crc c = ngx_crc32_table256 ! unat ((crc XOR ucast c) AND 0xff) XOR drop_bit 8 crc"

definition ngx_crc32_long :: "u8 list \<Rightarrow> u32" where
  "ngx_crc32_long p = foldl long_step 0xffffffff p XOR 0xffffffff"

definition ngx_crc32_init :: u32 where
  "ngx_crc32_init = 0xffffffff"

definition ngx_crc32_update :: "u32 \<Rightarrow> u8 list \<Rightarrow> u32" where
  "ngx_crc32_update crc p = foldl long_step crc p"

definition ngx_crc32_final :: "u32 \<Rightarrow> u32" where
  "ngx_crc32_final crc = crc XOR 0xffffffff"

text \<open>The Lua functions give the 32-bit value as an integer.  \<open>None\<close> is an argument that is no string.\<close>

definition lua_f_short :: "u8 list option \<Rightarrow> int option" where
  "lua_f_short s = map_option (\<lambda>v. uint (ngx_crc32_short v)) s"

definition lua_f_long :: "u8 list option \<Rightarrow> int option" where
  "lua_f_long s = map_option (\<lambda>v. uint (ngx_crc32_long v)) s"

section \<open>Alignment of the small table\<close>

definition ngx_align_ptr :: "u64 \<Rightarrow> u64 \<Rightarrow> u64" where
  "ngx_align_ptr p a = (p + (a - 1)) AND NOT (a - 1)"

text \<open>
  The address of the small table and what \<open>malloc\<close> gave; the result is the status, the new address
  and the bytes that were copied there.
\<close>

definition ngx_crc32_table_init :: "u64 \<Rightarrow> u64 option \<Rightarrow> int \<times> u64 \<times> nat" where
  "ngx_crc32_table_init short malloc =
     (if short AND NOT (128 - 1) = short then (0, short, 0)
      else case malloc of
        None \<Rightarrow> (-1, short, 0)
      | Some p \<Rightarrow> (0, ngx_align_ptr p 128, 16 * 4))"

section \<open>The definition of CRC-32\<close>

text \<open>One bit at a time, with the reversed polynomial.\<close>

definition bit_step :: "u32 \<Rightarrow> u32" where
  "bit_step crc = (if bit crc 0 then drop_bit 1 crc XOR 0xedb88320 else drop_bit 1 crc)"

fun bit_steps :: "nat \<Rightarrow> u32 \<Rightarrow> u32" where
  "bit_steps 0 crc = crc"
| "bit_steps (Suc n) crc = bit_steps n (bit_step crc)"

definition crc32_bitwise :: "u8 list \<Rightarrow> u32" where
  "crc32_bitwise p = foldl (\<lambda>crc c. bit_steps 8 (crc XOR ucast c)) 0xffffffff p XOR 0xffffffff"

lemma bit_step_xor: "bit_step (a XOR b) = bit_step a XOR bit_step b"
  by (rule bit_word_eqI) (auto simp: bit_step_def bit_simps)

lemma bit_steps_xor: "bit_steps n (a XOR b) = bit_steps n a XOR bit_steps n b"
  by (induction n arbitrary: a b) (simp_all add: bit_step_xor)

lemma bit_steps_add: "bit_steps (m + n) a = bit_steps n (bit_steps m a)"
  by (induction m arbitrary: a) simp_all

text \<open>Bits above the first \<open>n\<close> are only shifted.\<close>

lemma bit_steps_high: "\<forall>i < n. \<not> bit a i \<Longrightarrow> bit_steps n a = drop_bit n a"
proof (induction n arbitrary: a)
  case (Suc n)
  have "bit_step a = drop_bit 1 a" using Suc.prems by (simp add: bit_step_def)
  moreover have "\<forall>i < n. \<not> bit (drop_bit 1 a) i" using Suc.prems by (simp add: bit_simps)
  ultimately show ?case using Suc.IH [of "drop_bit 1 a"] by simp
qed simp

lemma bit_steps_split: "bit_steps n a = bit_steps n (take_bit n a) XOR drop_bit n a"
proof -
  let ?h = "push_bit n (drop_bit n a)"
  have a: "a = take_bit n a XOR ?h" by (rule bit_word_eqI) (auto simp: bit_simps)
  have "bit_steps n ?h = drop_bit n ?h" by (rule bit_steps_high) (simp add: bit_simps)
  also have "\<dots> = drop_bit n a" by (rule bit_word_eqI) (auto simp: bit_simps dest: bit_imp_le_length)
  finally show ?thesis by (subst a) (simp only: bit_steps_xor)
qed

text \<open>The tables hold the results for all values of four and of eight bits.\<close>

lemma bit_steps_4: "bit_steps 4 x = bit_step (bit_step (bit_step (bit_step x)))"
  by (simp add: numeral_eq_Suc)

lemma bit_steps_8: "bit_steps 8 x = bit_steps 4 (bit_steps 4 x)"
  using bit_steps_add [of 4 4 x] by simp

lemma bit_step_num:
  "bit_step (numeral n) = (if bit (numeral n :: u32) 0 then drop_bit 1 (numeral n) XOR 0xedb88320 else drop_bit 1 (numeral n))"
  "bit_step 0 = 0" "bit_step 1 = 0xedb88320"
  by (simp_all add: bit_step_def)

lemma table16: "ngx_crc32_table16 = map (\<lambda>i. bit_steps 4 (of_nat i)) [0..<16]"
  unfolding ngx_crc32_table16_def by (simp add: upt_rec bit_steps_4 bit_step_num)

lemma table256: "ngx_crc32_table256 = map (\<lambda>i. bit_steps 8 (of_nat i)) [0..<256]"
  unfolding ngx_crc32_table256_def by (simp add: upt_rec bit_steps_8 bit_steps_4 bit_step_num)

lemma lookup16: "ngx_crc32_table16 ! unat (x AND 0xf) = bit_steps 4 (take_bit 4 x)"
proof -
  have x: "x AND 0xf = take_bit 4 x" by (simp add: take_bit_eq_mask mask_eq_exp_minus_1)
  have "unat (take_bit 4 x) < 16" using take_bit_nat_less_exp [of 4 "unat x"] by (simp only: unsigned_take_bit_eq) simp
  then show ?thesis unfolding table16 x by simp
qed

lemma lookup256: "ngx_crc32_table256 ! unat (x AND 0xff) = bit_steps 8 (take_bit 8 x)"
proof -
  have x: "x AND 0xff = take_bit 8 x" by (simp add: take_bit_eq_mask mask_eq_exp_minus_1)
  have "unat (take_bit 8 x) < 256" using take_bit_nat_less_exp [of 8 "unat x"] by (simp only: unsigned_take_bit_eq) simp
  then show ?thesis unfolding table256 x by simp
qed

lemma long_step_eq: "long_step crc c = bit_steps 8 (crc XOR ucast c)"
proof -
  have "drop_bit 8 (crc XOR ucast c) = drop_bit 8 crc"
    by (rule bit_word_eqI) (auto simp: bit_simps dest: bit_imp_le_length)
  then show ?thesis unfolding long_step_def lookup256 by (subst (2) bit_steps_split) simp
qed

lemma short_half: "ngx_crc32_table16 ! unat ((crc XOR ucast n) AND 0xf) XOR drop_bit 4 crc = bit_steps 4 (crc XOR ucast n)"
  if "drop_bit 4 n = 0" for n :: u8
proof -
  have "\<not> bit n (4 + i)" for i
  proof -
    have "\<not> bit (drop_bit 4 n) i" unfolding that by simp
    then show ?thesis by (simp only: bit_drop_bit_eq comp_apply) simp
  qed
  then have "drop_bit 4 (crc XOR ucast n) = drop_bit 4 crc" by (intro bit_word_eqI) (simp add: bit_simps)
  then show ?thesis unfolding lookup16 by (subst (2) bit_steps_split) simp
qed

lemma short_step_eq: "short_step crc c = bit_steps 8 (crc XOR ucast c)"
proof -
  let ?lo = "c AND 0xf" and ?hi = "drop_bit 4 c"
  define crc1 where "crc1 = bit_steps 4 (crc XOR ucast ?lo)"
  have lo: "drop_bit 4 ?lo = 0"
  proof -
    have "?lo = take_bit 4 c" by (simp add: take_bit_eq_mask mask_eq_exp_minus_1)
    then show ?thesis by (simp add: drop_bit_take_bit)
  qed
  have hi: "drop_bit 4 ?hi = 0" by (rule bit_word_eqI) (auto simp: bit_simps dest: bit_imp_le_length)
  have "short_step crc c = bit_steps 4 (crc1 XOR ucast ?hi)"
    unfolding short_step_def short_half [OF lo] crc1_def [symmetric] Let_def short_half [OF hi] ..
  also have "\<dots> = bit_steps 4 (crc1 XOR bit_steps 4 (push_bit 4 (ucast ?hi)))"
  proof -
    have "bit_steps 4 (push_bit 4 (ucast ?hi)) = drop_bit 4 (push_bit 4 (ucast ?hi))"
      by (rule bit_steps_high) (simp add: bit_simps)
    also have "\<dots> = ucast ?hi" by (rule bit_word_eqI) (auto simp: bit_simps dest: bit_imp_le_length)
    finally show ?thesis by simp
  qed
  also have "\<dots> = bit_steps 8 ((crc XOR ucast ?lo) XOR push_bit 4 (ucast ?hi))"
    using bit_steps_add [of 4 4] by (simp add: crc1_def bit_steps_xor)
  also have "(crc XOR ucast ?lo) XOR push_bit 4 (ucast ?hi) = crc XOR ucast c"
  proof -
    have "?lo = take_bit 4 c" by (simp add: take_bit_eq_mask mask_eq_exp_minus_1)
    then have "ucast ?lo XOR push_bit 4 (ucast ?hi) = (ucast c :: u32)"
      by (intro bit_word_eqI) (auto simp: bit_simps dest: bit_imp_le_length)
    then show ?thesis by (simp add: xor.assoc)
  qed
  finally show ?thesis .
qed

text \<open>
  C36: Both table routines and the incremental one compute CRC-32 as it is defined bit by bit, so a key gets
  the same hash whichever routine is used.
\<close>

theorem crc32_routines_agree:
  "ngx_crc32_short p = crc32_bitwise p \<and> ngx_crc32_long p = crc32_bitwise p \<and>
   ngx_crc32_final (ngx_crc32_update (ngx_crc32_update ngx_crc32_init (take n p)) (drop n p)) = crc32_bitwise p \<and>
   lua_f_short (Some p) = lua_f_long (Some p)"
proof -
  have s: "short_step = (\<lambda>crc c. bit_steps 8 (crc XOR ucast c))" "long_step = (\<lambda>crc c. bit_steps 8 (crc XOR ucast c))"
    by (simp_all add: fun_eq_iff short_step_eq long_step_eq)
  have "ngx_crc32_update (ngx_crc32_update ngx_crc32_init (take n p)) (drop n p) = ngx_crc32_update ngx_crc32_init p"
    unfolding ngx_crc32_update_def by (metis append_take_drop_id foldl_append)
  then show ?thesis
    by (simp add: ngx_crc32_short_def ngx_crc32_long_def crc32_bitwise_def ngx_crc32_final_def ngx_crc32_update_def
      ngx_crc32_init_def lua_f_short_def lua_f_long_def s)
qed

lemma mask7: "(128 - 1 :: u64) = mask 7" "(127 :: u64) = mask 7"
  by (simp_all add: mask_eq_exp_minus_1)

lemma unat_and_not_mask: "unat (x AND NOT (mask 7 :: u64)) = unat x - unat x mod 128"
proof -
  have d: "(x AND NOT (mask 7)) + (x AND mask 7) = x"
    by (subst disjunctive_add) (auto simp: bit_simps intro!: bit_word_eqI)
  then have e: "x AND NOT (mask 7) = x - (x AND mask 7)" by (metis add_diff_cancel_right')
  have "unat (x AND mask 7) = unat x mod 128" by (simp add: unat_and_mask)
  then show ?thesis unfolding e by (subst unat_sub) (simp_all add: word_le_nat_alt)
qed

text \<open>
  The small table is moved to a cache line boundary inside the memory that was allocated for it, or
  stays where it is when it is aligned already.
\<close>

theorem table_init_aligned:
  assumes "unat p + 192 \<le> 18446744073709551616" "ngx_crc32_table_init short (Some p) = (r, q, n)"
  shows "r = 0 \<and> unat q mod 128 = 0 \<and> (0 < n \<longrightarrow> unat p \<le> unat q \<and> unat q + n \<le> unat p + (16 * 4 + 128))"
proof (cases "short AND NOT (mask 7) = short")
  case True
  then have "q = short" "r = 0" "n = 0" using assms(2) by (auto simp: ngx_crc32_table_init_def mask7)
  moreover have "unat short mod 128 = 0"
  proof -
    have "unat short = unat short - unat short mod 128" using unat_and_not_mask [of short] True by simp
    then show ?thesis using mod_less_eq_dividend [of "unat short" 128] by linarith
  qed
  ultimately show ?thesis by simp
next
  case False
  then have q: "q = (p + mask 7) AND NOT (mask 7)" "r = 0" "n = 64"
    using assms(2) by (auto simp: ngx_crc32_table_init_def ngx_align_ptr_def mask7)
  have s: "unat (p + mask 7) = unat p + 127"
    using assms(1) by (subst unat_word_ariths) (simp flip: mask7)
  then have uq: "unat q = unat p + 127 - (unat p + 127) mod 128" unfolding q(1) unat_and_not_mask by simp
  have "unat q mod 128 = 0" unfolding uq by (simp add: minus_mod_eq_mult_div)
  moreover have "(unat p + 127) mod 128 < 128" by simp
  ultimately show ?thesis using uq q(2,3) by linarith
qed

theorem table_init_aligned_witness:
  "\<exists>r q n. ngx_crc32_table_init 32 (Some 1000) = (r, q, n) \<and> unat q mod 128 = 0 \<and> unat q + n \<le> 1192"
proof -
  obtain r q n where i: "ngx_crc32_table_init 32 (Some 1000) = (r, q, n)" by (metis surj_pair)
  moreover have "0 < n" using i by (auto simp: ngx_crc32_table_init_def)
  ultimately show ?thesis using table_init_aligned [of 1000 32 r q n] by auto
qed

end
