(* ===== verification/Maths.thy ===== *)
theory Maths
  imports Lua_Number
begin

text \<open>
  The fixed-point functions of \<^verbatim>\<open>src/depends/lua-maths/mathS.c\<close>.  Values of type \<open>long long\<close> are
  integers whose range is checked: \<open>None\<close> is signed overflow, a division by zero or a cast out of
  range, all of them undefined in C.  A result is the integer that is handed to Lua as a \<open>double\<close>.
\<close>

abbreviation i64 :: "int \<Rightarrow> int option" where
  "i64 \<equiv> int_range 64"

definition abs_s :: "int \<Rightarrow> int option" where
  "abs_s x = (if x > 0 then Some x else i64 (- x))"

definition mins :: "int \<Rightarrow> int \<Rightarrow> int" where
  "mins x y = (if x < y then x else y)"

definition pointDis :: "int \<Rightarrow> int \<Rightarrow> int option" where
  "pointDis x y = do {
     x \<leftarrow> abs_s x;
     y \<leftarrow> abs_s y;
     let m = mins x y;
     s \<leftarrow> i64 (x + y);
     i64 (s - drop_bit 1 m - drop_bit 2 m + drop_bit 4 m)
   }"

definition nNormalizeV2 :: "dbl \<Rightarrow> dbl \<Rightarrow> (int \<times> int) option" where
  "nNormalizeV2 a b = do {
     x \<leftarrow> dbl_to_int 64 a;
     y \<leftarrow> dbl_to_int 64 b;
     d \<leftarrow> pointDis x y;
     let d = (if d = 0 then 1 else d);
     p \<leftarrow> i64 (x * 1000);
     q \<leftarrow> i64 (y * 1000);
     Some (c_div p d, c_div q d)
   }"

definition nRandom :: "dbl \<Rightarrow> dbl \<Rightarrow> (int \<times> int) option" where
  "nRandom a b = do {
     s \<leftarrow> dbl_to_int 32 a;
     m \<leftarrow> dbl_to_int 32 b;
     let seed = (word_of_int s * 1194211693 + 12345 :: u32);
     let max = (word_of_int m :: u32);
     if max = 0 then None else Some (uint (drop_bit 2 seed), uint (drop_bit 16 seed mod max))
   }"

definition nRotateV2 :: "dbl \<Rightarrow> dbl \<Rightarrow> dbl \<Rightarrow> dbl \<Rightarrow> (int \<times> int) option" where
  "nRotateV2 a b c d = do {
     x \<leftarrow> dbl_to_int 64 a;
     y \<leftarrow> dbl_to_int 64 b;
     s \<leftarrow> dbl_to_int 64 c;
     c \<leftarrow> dbl_to_int 64 d;
     xc \<leftarrow> i64 (x * c);
     ys \<leftarrow> i64 (y * s);
     p \<leftarrow> i64 (xc + ys);
     yc \<leftarrow> i64 (y * c);
     xs \<leftarrow> i64 (x * s);
     q \<leftarrow> i64 (yc - xs);
     Some (c_div p 100000, c_div q 100000)
   }"

definition nDistanceV2 :: "dbl \<Rightarrow> dbl \<Rightarrow> int option" where
  "nDistanceV2 a b = do { x \<leftarrow> dbl_to_int 64 a; y \<leftarrow> dbl_to_int 64 b; pointDis x y }"

definition nMultiply :: "dbl \<Rightarrow> dbl \<Rightarrow> int option" where
  "nMultiply a b = do { x \<leftarrow> dbl_to_int 64 a; y \<leftarrow> dbl_to_int 64 b; i64 (x * y) }"

definition nDivided :: "dbl \<Rightarrow> dbl \<Rightarrow> int option" where
  "nDivided a b = do {
     x \<leftarrow> dbl_to_int 64 a;
     y \<leftarrow> dbl_to_int 64 b;
     i64 (c_div x (if y = 0 then 1 else y))
   }"

definition nMd :: "dbl \<Rightarrow> dbl \<Rightarrow> dbl \<Rightarrow> int option" where
  "nMd a b c = do {
     x \<leftarrow> dbl_to_int 64 a;
     y \<leftarrow> dbl_to_int 64 b;
     z \<leftarrow> dbl_to_int 64 c;
     p \<leftarrow> i64 (x * y);
     i64 (c_div p (if z = 0 then 1 else z))
   }"

section \<open>The distance\<close>

text \<open>The sum of shifts is five sixteenths, up to rounding.\<close>

lemma shift_sum:
  fixes m :: int
  assumes "0 \<le> m"
  shows "5 * m - 12 \<le> 16 * (m - m div 2 - m div 4 + m div 16)" "16 * (m - m div 2 - m div 4 + m div 16) \<le> 5 * m + 17"
proof -
  define q r where "q = m div 16" and "r = m mod 16"
  have m: "m = 16 * q + r" "0 \<le> r" "r < 16" by (simp_all add: q_def r_def)
  have d: "m div 2 = 8 * q + r div 2" "m div 4 = 4 * q + r div 4" "m div 16 = q" unfolding m(1) using m(2,3) by simp_all
  have "r = 0 \<or> r = 1 \<or> r = 2 \<or> r = 3 \<or> r = 4 \<or> r = 5 \<or> r = 6 \<or> r = 7 \<or> r = 8 \<or> r = 9 \<or> r = 10 \<or>
      r = 11 \<or> r = 12 \<or> r = 13 \<or> r = 14 \<or> r = 15" using m(2,3) by presburger
  then have "5 * r - 12 \<le> 16 * (r - r div 2 - r div 4)" "16 * (r - r div 2 - r div 4) \<le> 5 * r + 17" by auto
  then show "5 * m - 12 \<le> 16 * (m - m div 2 - m div 4 + m div 16)" "16 * (m - m div 2 - m div 4 + m div 16) \<le> 5 * m + 17"
    unfolding d using m(1) by (simp_all add: algebra_simps)
qed

text \<open>Sixteen times the larger and five times the smaller side, against the hypotenuse.\<close>

lemma hypotenuse_bounds:
  fixes a b :: real
  assumes "0 \<le> b" "b \<le> a"
  shows "74 / 5 * sqrt (a\<^sup>2 + b\<^sup>2) \<le> 16 * a + 5 * b" "16 * a + 5 * b \<le> 84 / 5 * sqrt (a\<^sup>2 + b\<^sup>2)"
proof -
  have ab: "b * b \<le> a * b" "a * b \<le> a * a" "0 \<le> b * b" using assms by (auto intro: mult_mono)
  have s: "(16 * a + 5 * b)\<^sup>2 = 256 * (a * a) + 160 * (a * b) + 25 * (b * b)"
    "(74 / 5)\<^sup>2 * (a\<^sup>2 + b\<^sup>2) = (5476 / 25) * (a * a) + (5476 / 25) * (b * b)"
    by (simp_all add: power2_eq_square algebra_simps)
  have "(74 / 5)\<^sup>2 * (a\<^sup>2 + b\<^sup>2) \<le> (16 * a + 5 * b)\<^sup>2" unfolding s using ab by linarith
  then have "sqrt ((74 / 5)\<^sup>2 * (a\<^sup>2 + b\<^sup>2)) \<le> 16 * a + 5 * b" using assms by (intro real_le_lsqrt) auto
  then show "74 / 5 * sqrt (a\<^sup>2 + b\<^sup>2) \<le> 16 * a + 5 * b" by (simp add: real_sqrt_mult)
  have sq: "0 \<le> (5 * a - 16 * b)\<^sup>2" by simp
  have e: "(5 * a - 16 * b)\<^sup>2 = 25 * (a * a) - 160 * (a * b) + 256 * (b * b)"
    "(84 / 5)\<^sup>2 * (a\<^sup>2 + b\<^sup>2) = (7056 / 25) * (a * a) + (7056 / 25) * (b * b)"
    by (simp_all add: power2_eq_square algebra_simps)
  have "(16 * a + 5 * b)\<^sup>2 \<le> (84 / 5)\<^sup>2 * (a\<^sup>2 + b\<^sup>2)" using sq ab unfolding s e by linarith
  then have "16 * a + 5 * b \<le> sqrt ((84 / 5)\<^sup>2 * (a\<^sup>2 + b\<^sup>2))" by (rule real_le_rsqrt)
  then show "16 * a + 5 * b \<le> 84 / 5 * sqrt (a\<^sup>2 + b\<^sup>2)" by (simp add: real_sqrt_mult)
qed

text \<open>
  C40: The distance computed without a square root lies within 7.5 percent below and 5 percent above the
  Euclidean distance, up to a rounding error of less than one below and two above, and never overflows for
  coordinates up to \<open>2 ^ 61\<close>.
\<close>

theorem pointDis_bounds:
  assumes "\<bar>x\<bar> \<le> 2 ^ 61" "\<bar>y\<bar> \<le> 2 ^ 61"
  shows "\<exists>d. pointDis x y = Some d \<and>
    37 / 40 * sqrt ((real_of_int x)\<^sup>2 + (real_of_int y)\<^sup>2) - 1 \<le> real_of_int d \<and>
    real_of_int d \<le> 21 / 20 * sqrt ((real_of_int x)\<^sup>2 + (real_of_int y)\<^sup>2) + 2"
proof -
  define m M where "m = min \<bar>x\<bar> \<bar>y\<bar>" and "M = max \<bar>x\<bar> \<bar>y\<bar>"
  define d where "d = M + (m - m div 2 - m div 4 + m div 16)"
  have big: "0 \<le> m" "m \<le> 2 ^ 61" "M \<le> 2 ^ 61" "m \<le> M" using assms by (simp_all add: m_def M_def)
  have s: "5 * m - 12 \<le> 16 * (d - M)" "16 * (d - M) \<le> 5 * m + 17"
    using shift_sum [OF big(1)] by (simp_all add: d_def)
  have a: "abs_s x = Some \<bar>x\<bar>" "abs_s y = Some \<bar>y\<bar>"
    using assms by (simp_all add: abs_s_def int_range_def)
  have mm: "mins \<bar>x\<bar> \<bar>y\<bar> = m" by (simp add: mins_def m_def)
  have sum: "\<bar>x\<bar> + \<bar>y\<bar> = M + m" by (simp add: m_def M_def)
  have "i64 (\<bar>x\<bar> + \<bar>y\<bar>) = Some (M + m)" unfolding sum using big by (simp add: int_range_def)
  moreover have "i64 d = Some d" using big s by (simp add: int_range_def)
  moreover have "M + m - drop_bit 1 m - drop_bit 2 m + drop_bit 4 m = d"
    by (simp add: d_def drop_bit_int_def)
  ultimately have pd: "pointDis x y = Some d" by (simp only: pointDis_def a bind.bind_lunit mm Let_def)
  have sq: "(real_of_int x)\<^sup>2 + (real_of_int y)\<^sup>2 = (real_of_int M)\<^sup>2 + (real_of_int m)\<^sup>2"
    by (cases "\<bar>x\<bar> \<le> \<bar>y\<bar>") (simp_all add: m_def M_def max_def min_def)
  have hb: "74 / 5 * sqrt ((real_of_int M)\<^sup>2 + (real_of_int m)\<^sup>2) \<le> 16 * real_of_int M + 5 * real_of_int m"
    "16 * real_of_int M + 5 * real_of_int m \<le> 84 / 5 * sqrt ((real_of_int M)\<^sup>2 + (real_of_int m)\<^sup>2)"
    by (rule hypotenuse_bounds; use big in simp)+
  have "16 * M + 5 * m - 12 \<le> 16 * d" "16 * d \<le> 16 * M + 5 * m + 17" using s by simp_all
  then have "16 * real_of_int M + 5 * real_of_int m - 12 \<le> 16 * real_of_int d"
    "16 * real_of_int d \<le> 16 * real_of_int M + 5 * real_of_int m + 17" by linarith+
  then show ?thesis unfolding sq using pd hb by (intro exI [of _ d] conjI) (assumption | linarith)+
qed

theorem pointDis_bounds_witness:
  "\<exists>d. pointDis 3 (- 4) = Some d \<and> real_of_int d \<le> 21 / 20 * sqrt (3\<^sup>2 + (- 4)\<^sup>2) + 2"
  using pointDis_bounds [of 3 "- 4"] by auto

text \<open>
  The random function gives a value below its bound and below 65536 and a seed that is small enough to
  be passed back; with the bound zero it divides by zero.
\<close>

theorem nRandom_range:
  assumes "- (2 ^ 31) \<le> s" "s < 2 ^ 31" "0 \<le> m" "m < 2 ^ 31"
  shows "if m = 0 then nRandom (Fin (of_int s)) (Fin (of_int m)) = None
    else (\<exists>s1 r. nRandom (Fin (of_int s)) (Fin (of_int m)) = Some (s1, r) \<and> 0 \<le> r \<and> r < m \<and> r < 65536 \<and>
      0 \<le> s1 \<and> s1 < 2 ^ 30)"
proof -
  have c: "dbl_to_int 32 (Fin (of_int s)) = Some s" "dbl_to_int 32 (Fin (of_int m)) = Some m"
    using assms by (simp_all add: int_range_def)
  define seed :: u32 where "seed = word_of_int s * 1194211693 + 12345"
  have um: "uint (word_of_int m :: u32) = m" using assms by (simp add: uint_word_of_int_eq take_bit_int_eq_self)
  have mz: "(word_of_int m :: u32) = 0 \<longleftrightarrow> m = 0" using um by auto
  have u: "uint (drop_bit 2 seed) < 2 ^ 30" "uint (drop_bit 16 seed) < 65536"
  proof -
    have s: "uint seed < 4294967296" using uint_lt2p [of seed] by simp
    then have "take_bit 32 (uint seed) = uint seed" by (simp add: take_bit_int_eq_self)
    then have "uint (drop_bit 2 seed) = uint seed div 4" "uint (drop_bit 16 seed) = uint seed div 65536"
      by (simp_all add: unsigned_drop_bit_eq drop_bit_int_def)
    with s show "uint (drop_bit 2 seed) < 2 ^ 30" "uint (drop_bit 16 seed) < 65536" by simp_all+
  qed
  show ?thesis
  proof (cases "m = 0")
    case True
    then show ?thesis using c mz by (simp add: nRandom_def)
  next
    case False
    have "uint (drop_bit 16 seed mod word_of_int m) = uint (drop_bit 16 seed) mod m" by (simp add: uint_mod um)
    moreover have "uint (drop_bit 16 seed) mod m \<le> uint (drop_bit 16 seed)" by (rule zmod_le_nonneg_dividend) simp
    moreover have "0 \<le> uint (drop_bit 16 seed) mod m" "uint (drop_bit 16 seed) mod m < m" using assms False by simp_all
    moreover have "nRandom (Fin (of_int s)) (Fin (of_int m)) =
        Some (uint (drop_bit 2 seed), uint (drop_bit 16 seed mod word_of_int m))"
      using c mz False by (simp add: nRandom_def seed_def Let_def)
    ultimately show ?thesis using u False by auto
  qed
qed

theorem nRandom_range_witness:
  "nRandom (Fin 7) (Fin 0) = None \<and> (\<exists>s1 r. nRandom (Fin 7) (Fin 6) = Some (s1, r) \<and> r < 6)"
  using nRandom_range [of 7 0] nRandom_range [of 7 6] by auto

end
