(* ===== verification/Lutil.thy ===== *)
theory Lutil
  imports Kcp_Codec
begin

text \<open>
  The helpers of \<^verbatim>\<open>src/depends/lua-kcp/src/lutil.c\<close>: the millisecond clock, sleeping, and 32-bit numbers in
  network byte order.  What \<open>gettimeofday\<close> reports is an argument; a result \<open>None\<close> is a read behind
  the end of a string.  Shifting a byte into the sign bit of an \<open>int\<close> wraps, as GCC defines it.
\<close>

section \<open>Operations\<close>

definition l_gettimeofday :: "u64 \<Rightarrow> u64 \<Rightarrow> u32" where
  "l_gettimeofday tv_sec tv_usec = ucast ((tv_sec * 1000 + tv_usec div 1000) AND 0x7fffffff)"

text \<open>The argument of \<open>usleep\<close>.\<close>

definition l_isleep :: "int \<Rightarrow> u32" where
  "l_isleep ms =
     (let millisecond = word_of_int ms :: u32
      in push_bit 10 millisecond - push_bit 4 millisecond - push_bit 3 millisecond)"

text \<open>A Lua string is followed by a zero byte that may be read.\<close>

definition c_char :: "u8 list \<Rightarrow> nat \<Rightarrow> u8 option" where
  "c_char s i = (if i < length s then Some (s ! i) else if i = length s then Some 0 else None)"

definition l_netbytes2uint32 :: "u8 list \<Rightarrow> u32 option" where
  "l_netbytes2uint32 s = do {
     s0 \<leftarrow> c_char s 0;
     s1 \<leftarrow> c_char s 1;
     s2 \<leftarrow> c_char s 2;
     s3 \<leftarrow> c_char s 3;
     let a0 = push_bit 24 (ucast s0 :: u32);
     let a1 = push_bit 16 (ucast s1 :: u32);
     let a2 = push_bit 8 (ucast s2 :: u32);
     Some (a0 OR a1 OR a2 OR ucast s3)
   }"

definition l_uint322netbytes :: "int \<Rightarrow> u8 list" where
  "l_uint322netbytes n =
     (let i = word_of_int n :: u32 in [ucast (drop_bit 24 i), ucast (drop_bit 16 i), ucast (drop_bit 8 i), ucast i])"

section \<open>Properties\<close>

lemma netbytes_Cons:
  "l_netbytes2uint32 (a # b # c # d # rest) =
     Some (push_bit 24 (ucast a) OR push_bit 16 (ucast b) OR push_bit 8 (ucast c) OR ucast d)"
  by (simp add: l_netbytes2uint32_def c_char_def or.assoc)

lemma netbytes_None: "(l_netbytes2uint32 s = None) = (length s < 3)"
  by (auto simp: l_netbytes2uint32_def c_char_def Let_def split: if_splits)

text \<open>
  A 32-bit number and its four bytes in network order determine each other, and of a longer string
  the first four bytes count; a string of fewer than three bytes is read behind its end.
\<close>

theorem netbytes_roundtrip:
  "l_netbytes2uint32 (l_uint322netbytes n) = Some (word_of_int n) \<and>
   l_uint322netbytes (uint (the (l_netbytes2uint32 (a # b # c # d # rest)))) = [a, b, c, d] \<and>
   (l_netbytes2uint32 s = None) = (length s < 3)"
proof -
  define i :: u32 where "i = word_of_int n"
  have "l_netbytes2uint32 (l_uint322netbytes n) = Some (push_bit 24 (ucast (ucast (drop_bit 24 i) :: u8)) OR
      push_bit 16 (ucast (ucast (drop_bit 16 i) :: u8)) OR push_bit 8 (ucast (ucast (drop_bit 8 i) :: u8)) OR ucast (ucast i :: u8))"
    unfolding l_uint322netbytes_def Let_def netbytes_Cons i_def ..
  also have "\<dots> = Some i"
  proof (simp, rule bit_word_eqI)
    fix n :: nat
    assume n: "n < LENGTH(32)"
    then consider "n < 8" | "8 \<le> n" "n < 16" | "16 \<le> n" "n < 24" | "24 \<le> n" "n < 32" by force
    then show "bit (push_bit 24 (ucast (ucast (drop_bit 24 i) :: u8)) OR push_bit 16 (ucast (ucast (drop_bit 16 i) :: u8)) OR
        push_bit 8 (ucast (ucast (drop_bit 8 i) :: u8)) OR ucast (ucast i :: u8) :: u32) n = bit i n"
      by cases (simp_all add: bit_simps less_diff_conv2)
  qed
  finally have "l_netbytes2uint32 (l_uint322netbytes n) = Some (word_of_int n)" by (simp add: i_def)
  moreover have "l_uint322netbytes (uint (the (l_netbytes2uint32 (a # b # c # d # rest)))) = [a, b, c, d]"
  proof -
    have "\<not> bit (w :: u8) (8 + n)" "\<not> bit (w :: u8) (16 + n)" "\<not> bit (w :: u8) (24 + n)" for w n
      by (auto dest: bit_imp_le_length)
    then show ?thesis unfolding netbytes_Cons l_uint322netbytes_def Let_def
      by (simp, intro conjI bit_word_eqI) (simp_all add: bit_simps)
  qed
  ultimately show ?thesis using netbytes_None by blast
qed

lemma isleep_eq: "l_isleep ms = word_of_int (1000 * ms)"
proof -
  have "push_bit 10 x - push_bit 4 x - push_bit 3 x = 1000 * x" for x :: u32
    by (simp add: push_bit_eq_mult)
  then show ?thesis by (simp add: l_isleep_def)
qed

text \<open>
  The shifts multiply by 1000; sleeping longer than 4294967 milliseconds wraps to a shorter sleep.
\<close>

lemma isleep_bounds: "0 \<le> ms \<Longrightarrow> uint (l_isleep ms) = 1000 * ms mod 4294967296"
  unfolding isleep_eq by (subst uint_word_of_int) simp

text \<open>The clock at \<open>ms\<close> milliseconds, with any number of microseconds below the next.\<close>

lemma gettimeofday_ms:
  assumes "ms = sec * 1000 + usec div 1000" "sec * 1000 + usec < 2 ^ 64"
  shows "l_gettimeofday (of_nat sec) (of_nat usec) = of_nat (ms mod 2147483648)"
proof -
  have e: "(of_nat sec * 1000 + of_nat usec div 1000 :: u64) = of_nat ms"
  proof -
    have "(of_nat usec div 1000 :: u64) = of_nat (usec div 1000)"
    proof (rule word_unat_eq_iff [THEN iffD2])
      have "usec mod 2 ^ 64 = usec" "(usec div 1000) mod 2 ^ 64 = usec div 1000" using assms(2) by simp_all
      then show "unat (of_nat usec div 1000 :: u64) = unat (of_nat (usec div 1000) :: u64)"
        by (simp add: unat_div_distrib unat_of_nat)
    qed
    then show ?thesis by (simp add: assms(1))
  qed
  have "(of_nat ms AND 0x7fffffff :: u64) = of_nat (ms mod 2147483648)"
  proof -
    have "(0x7fffffff :: u64) = mask 31" by (simp add: mask_eq_exp_minus_1)
    then have "(of_nat ms AND 0x7fffffff :: u64) = take_bit 31 (of_nat ms)" by (simp only: take_bit_eq_mask)
    then show ?thesis by (simp only: take_bit_of_nat) (simp add: take_bit_eq_mod)
  qed
  then show ?thesis unfolding l_gettimeofday_def e by (simp add: unsigned_of_nat take_bit_nat_eq_self less_trans [OF mod_less_divisor])
qed

text \<open>
  The clock counts milliseconds modulo 31 bits.  From one millisecond to the next the 32-bit time difference
  that the protocol computes is one, except when the clock wraps: then time seems to jump back by
  2147483647 milliseconds.
\<close>

theorem clock_step:
  assumes "sec1 * 1000 + usec1 < 2 ^ 64" "sec2 * 1000 + usec2 < 2 ^ 64"
    and "sec2 * 1000 + usec2 div 1000 = Suc (sec1 * 1000 + usec1 div 1000)"
  shows "itimediff (l_gettimeofday (of_nat sec2) (of_nat usec2)) (l_gettimeofday (of_nat sec1) (of_nat usec1)) =
    (if 2147483648 dvd sec2 * 1000 + usec2 div 1000 then - 2147483647 else 1)"
proof -
  define ms where "ms = sec1 * 1000 + usec1 div 1000"
  have g: "l_gettimeofday (of_nat sec1) (of_nat usec1) = of_nat (ms mod 2147483648)"
    "l_gettimeofday (of_nat sec2) (of_nat usec2) = of_nat (Suc ms mod 2147483648)"
    by (rule gettimeofday_ms; use assms in \<open>simp add: ms_def\<close>)+
  have "itimediff (of_nat (Suc ms mod 2147483648)) (of_nat (ms mod 2147483648)) =
      int (Suc ms mod 2147483648) - int (ms mod 2147483648)"
    by (rule itimediff_near) (simp_all add: less_trans [OF mod_less_divisor])
  also have "\<dots> = (if 2147483648 dvd Suc ms then - 2147483647 else 1)"
    by (auto simp: mod_Suc dvd_eq_mod_eq_0)
  finally show ?thesis unfolding g using assms(3) by (simp only: ms_def)
qed

theorem clock_step_witness:
  "itimediff (l_gettimeofday 5 7000) (l_gettimeofday 5 6999) = 1 \<and>
   itimediff (l_gettimeofday 2147483 648000) (l_gettimeofday 2147483 647000) = - 2147483647"
  using clock_step [of 5 6999 5 7000] clock_step [of 2147483 647000 2147483 648000] by simp

end
