(* ===== verification/Run.thy ===== *)
theory Run
  imports Lua_Number
begin

text \<open>
  The outcome of a C function that may stop short, as a sum: the reason, or the result.
\<close>

text \<open>
  How a run can stop short: an error that is thrown to Lua, \<open>die\<close>, which ends the process, an overflow
  of \<open>int\<close>, an access outside a buffer, and a loop that never ends.
\<close>

datatype stop = Throw string | Die string | Overflow | OutOfBounds | Hang

type_synonym 'a run = "stop + 'a"

definition bindR :: "'a run \<Rightarrow> ('a \<Rightarrow> 'b run) \<Rightarrow> 'b run" where
  "bindR m f = (case m of Inl e \<Rightarrow> Inl e | Inr x \<Rightarrow> f x)"

lemma bindR_simps [simp]: "bindR (Inl e) f = Inl e" "bindR (Inr x) f = f x"
  by (simp_all add: bindR_def)

lemma bindR_Inr_iff: "bindR m f = Inr y \<longleftrightarrow> (\<exists>x. m = Inr x \<and> f x = Inr y)"
  by (cases m) simp_all

lemma bindR_Inl_iff: "bindR m f = Inl e \<longleftrightarrow> m = Inl e \<or> (\<exists>x. m = Inr x \<and> f x = Inl e)"
  by (cases m) auto

lemma bindR_assoc: "bindR (bindR m f) g = bindR m (\<lambda>x. bindR (f x) g)"
  by (cases m) simp_all

lemma bindR_cong [fundef_cong]: "m = m' \<Longrightarrow> (\<And>x. m' = Inr x \<Longrightarrow> f x = g x) \<Longrightarrow> bindR m f = bindR m' g"
  by (cases m') simp_all

definition i32 :: "int \<Rightarrow> int run" where
  "i32 i = (case int_range 32 i of None \<Rightarrow> Inl Overflow | Some j \<Rightarrow> Inr j)"

lemma i32_eq: "i32 i = (if - 2147483648 \<le> i \<and> i < 2147483648 then Inr i else Inl Overflow)"
  by (simp add: i32_def int_range_def)

definition bytes :: "string \<Rightarrow> u8 list" where
  "bytes s = map of_char s"

text \<open>A number in decimal digits, as \<open>%u\<close> and \<open>%d\<close> print it.\<close>

fun dec_nat :: "nat \<Rightarrow> string" where
  "dec_nat n = (if n < 10 then [''0123456789'' ! n] else dec_nat (n div 10) @ [''0123456789'' ! (n mod 10)])"

declare dec_nat.simps [simp del]

lemma dec_nat_length: "n < 10 ^ k \<Longrightarrow> 0 < k \<Longrightarrow> length (dec_nat n) \<le> k"
proof (induction n arbitrary: k rule: dec_nat.induct)
  case (1 n)
  show ?case
  proof (cases "n < 10")
    case True
    then show ?thesis using 1(3) by (simp add: dec_nat.simps [of n])
  next
    case False
    then obtain j where k: "k = Suc j" "0 < j" using 1(2,3) by (cases k; cases "k - 1") auto
    then have "n div 10 < 10 ^ j" using 1(2) by (simp add: less_mult_imp_div_less mult.commute)
    with 1(1) False k show ?thesis by (simp add: dec_nat.simps [of n])
  qed
qed

end
