(* ===== verification/Strbuf.thy ===== *)
theory Strbuf
  imports Run
begin

text \<open>
  The string buffer of \<^verbatim>\<open>src/depends/json/strbuf.c\<close> and \<^verbatim>\<open>strbuf.h\<close>, with its allocated memory as
  a list of bytes whose length is the member \<open>size\<close>.  \<open>malloc\<close> and \<open>realloc\<close> are taken to succeed; the
  contents of fresh memory are zero here.  Every write is compared with the allocation.
\<close>

section \<open>The buffer\<close>

record strbuf =
  sb_buf :: "u8 list"
  sb_length :: int
  sb_increment :: int
  sb_dynamic :: bool
  sb_reallocs :: int

abbreviation sb_size :: "strbuf \<Rightarrow> int" where
  "sb_size s \<equiv> int (length (sb_buf s))"

definition put_byte :: "strbuf \<Rightarrow> int \<Rightarrow> u8 \<Rightarrow> strbuf run" where
  "put_byte s i c =
     (if 0 \<le> i \<and> i < sb_size s then Inr (s\<lparr>sb_buf := (sb_buf s)[nat i := c]\<rparr>) else Inl OutOfBounds)"

text \<open>\<open>memcpy\<close> of the bytes \<open>c\<close> to the offset \<open>i\<close>.\<close>

definition put_bytes :: "strbuf \<Rightarrow> int \<Rightarrow> u8 list \<Rightarrow> strbuf run" where
  "put_bytes s i c =
     (if 0 \<le> i \<and> i + int (length c) \<le> sb_size s
      then Inr (s\<lparr>sb_buf := take (nat i) (sb_buf s) @ c @ drop (nat i + length c) (sb_buf s)\<rparr>)
      else Inl OutOfBounds)"

definition strbuf_ensure_null :: "strbuf \<Rightarrow> strbuf run" where
  "strbuf_ensure_null s = put_byte s (sb_length s) 0"

definition strbuf_init :: "int \<Rightarrow> strbuf run" where
  "strbuf_init len =
     bindR (if len \<le> 0 then Inr 1023 else i32 (len + 1)) (\<lambda>size.
     strbuf_ensure_null \<lparr>sb_buf = replicate (nat size) 0, sb_length = 0, sb_increment = -2,
       sb_dynamic = False, sb_reallocs = 0\<rparr>)"

definition strbuf_new :: "int \<Rightarrow> strbuf run" where
  "strbuf_new len = bindR (strbuf_init len) (\<lambda>s. Inr (s\<lparr>sb_dynamic := True\<rparr>))"

definition strbuf_set_increment :: "strbuf \<Rightarrow> int \<Rightarrow> strbuf run" where
  "strbuf_set_increment s increment =
     (if increment = 0 \<or> increment = -1 then Inl (Die ''BUG: Invalid string increment'')
      else Inr (s\<lparr>sb_increment := increment\<rparr>))"

text \<open>A null pointer is the empty buffer.\<close>

definition strbuf_free :: "strbuf \<Rightarrow> strbuf" where
  "strbuf_free s = s\<lparr>sb_buf := []\<rparr>"

definition strbuf_free_to_string :: "strbuf \<Rightarrow> (u8 list \<times> int) run" where
  "strbuf_free_to_string s = bindR (strbuf_ensure_null s) (\<lambda>s. Inr (sb_buf s, sb_length s))"

definition strbuf_reset :: "strbuf \<Rightarrow> strbuf" where
  "strbuf_reset s = s\<lparr>sb_length := 0\<rparr>"

definition strbuf_empty_length :: "strbuf \<Rightarrow> int" where
  "strbuf_empty_length s = sb_size s - sb_length s - 1"

definition strbuf_extend_length :: "strbuf \<Rightarrow> int \<Rightarrow> strbuf" where
  "strbuf_extend_length s len = s\<lparr>sb_length := sb_length s + len\<rparr>"

definition strbuf_string :: "strbuf \<Rightarrow> u8 list \<times> int" where
  "strbuf_string s = (sb_buf s, sb_length s)"

section \<open>Growing\<close>

text \<open>The loop multiplies the size by \<open>k\<close>; with \<open>k\<close> or the size too small it would never end.\<close>

function grow_size :: "int \<Rightarrow> int \<Rightarrow> int \<Rightarrow> int run" where
  "grow_size k newsize reqsize =
     (if newsize < reqsize then
        if newsize \<le> 0 \<or> k \<le> 1 then Inl Hang
        else bindR (i32 (newsize * k)) (\<lambda>n. grow_size k n reqsize)
      else Inr newsize)"
  by pat_completeness auto
termination
proof (relation "measure (\<lambda>(k, newsize, reqsize). nat (reqsize - newsize))", goal_cases)
  case (2 k newsize reqsize n)
  then have "n = newsize * k" "0 < newsize" "2 \<le> k" by (auto simp: i32_eq split: if_splits)
  then have "newsize < n" using mult_left_mono [of 2 k newsize] by linarith
  with 2 show ?case by simp
qed simp

definition calculate_new_size :: "strbuf \<Rightarrow> int \<Rightarrow> int run" where
  "calculate_new_size s len =
     (if len \<le> 0 then Inl (Die ''BUG: Invalid strbuf length requested'')
      else bindR (i32 (len + 1)) (\<lambda>reqsize.
        if sb_size s > reqsize then Inr reqsize
        else if sb_increment s < 0 then bindR (i32 (- sb_increment s)) (\<lambda>k. grow_size k (sb_size s) reqsize)
        else bindR (i32 (sb_size s + sb_increment s)) (\<lambda>n.
          i32 (c_div (n - 1) (sb_increment s) * sb_increment s))))"

definition strbuf_resize :: "strbuf \<Rightarrow> int \<Rightarrow> strbuf run" where
  "strbuf_resize s len =
     bindR (calculate_new_size s len) (\<lambda>newsize.
     Inr (s\<lparr>sb_buf := take (nat newsize) (sb_buf s) @ replicate (nat newsize - length (sb_buf s)) 0,
            sb_reallocs := sb_reallocs s + 1\<rparr>))"

definition strbuf_ensure_empty_length :: "strbuf \<Rightarrow> int \<Rightarrow> strbuf run" where
  "strbuf_ensure_empty_length s len =
     (if len > strbuf_empty_length s then bindR (i32 (sb_length s + len)) (strbuf_resize s) else Inr s)"

section \<open>Appending\<close>

definition strbuf_append_char_unsafe :: "strbuf \<Rightarrow> u8 \<Rightarrow> strbuf run" where
  "strbuf_append_char_unsafe s c =
     bindR (put_byte s (sb_length s) c) (\<lambda>s. Inr (s\<lparr>sb_length := sb_length s + 1\<rparr>))"

definition strbuf_append_char :: "strbuf \<Rightarrow> u8 \<Rightarrow> strbuf run" where
  "strbuf_append_char s c = bindR (strbuf_ensure_empty_length s 1) (\<lambda>s. strbuf_append_char_unsafe s c)"

definition strbuf_append_mem_unsafe :: "strbuf \<Rightarrow> u8 list \<Rightarrow> strbuf run" where
  "strbuf_append_mem_unsafe s c =
     bindR (put_bytes s (sb_length s) c) (\<lambda>s. Inr (s\<lparr>sb_length := sb_length s + int (length c)\<rparr>))"

definition strbuf_append_mem :: "strbuf \<Rightarrow> u8 list \<Rightarrow> strbuf run" where
  "strbuf_append_mem s c =
     bindR (strbuf_ensure_empty_length s (int (length c))) (\<lambda>s. strbuf_append_mem_unsafe s c)"

text \<open>The bytes of a zero-terminated string; \<open>space\<close> is the room that is known to be left.\<close>

fun append_string_loop :: "strbuf \<Rightarrow> int \<Rightarrow> u8 list \<Rightarrow> strbuf run" where
  "append_string_loop s space [] = Inr s"
| "append_string_loop s space (c # str) =
     (if c = 0 then Inr s
      else bindR (if space < 1
                  then bindR (strbuf_resize s (sb_length s + 1)) (\<lambda>s. Inr (s, strbuf_empty_length s))
                  else Inr (s, space)) (\<lambda>(s, space).
           bindR (put_byte s (sb_length s) c) (\<lambda>s.
           append_string_loop (s\<lparr>sb_length := sb_length s + 1\<rparr>) (space - 1) str)))"

definition strbuf_append_string :: "strbuf \<Rightarrow> u8 list \<Rightarrow> strbuf run" where
  "strbuf_append_string s str = append_string_loop s (strbuf_empty_length s) str"

text \<open>
  \<open>vsnprintf\<close> with a limit writes what fits, and a terminating zero, when the limit is not zero.  A negative
  limit becomes a very large one.  The formatted text is the argument \<open>out\<close>.
\<close>

definition vsnprintf :: "strbuf \<Rightarrow> int \<Rightarrow> int \<Rightarrow> u8 list \<Rightarrow> strbuf run" where
  "vsnprintf s i limit out =
     (if limit = 0 then Inr s
      else put_bytes s i ((if limit < 0 then out else take (nat limit - 1) out) @ [0]))"

definition strbuf_append_fmt :: "strbuf \<Rightarrow> int \<Rightarrow> u8 list \<Rightarrow> strbuf run" where
  "strbuf_append_fmt s len out =
     bindR (strbuf_ensure_empty_length s len) (\<lambda>s.
     bindR (vsnprintf s (sb_length s) len out) (\<lambda>s.
     Inr (s\<lparr>sb_length := sb_length s + int (length out)\<rparr>)))"

text \<open>The counter \<open>try\<close> allows one more attempt after the first.\<close>

fun fmt_retry_loop :: "nat \<Rightarrow> strbuf \<Rightarrow> u8 list \<Rightarrow> strbuf run" where
  "fmt_retry_loop retries s out =
     (let empty_len = strbuf_empty_length s in
      bindR (vsnprintf s (sb_length s) (empty_len + 1) out) (\<lambda>s.
      if int (length out) \<le> empty_len then Inr s
      else case retries of
        0 \<Rightarrow> Inl (Die ''BUG: length of formatted string changed'')
      | Suc r \<Rightarrow> bindR (i32 (sb_length s + int (length out))) (\<lambda>n.
          bindR (strbuf_resize s n) (\<lambda>s. fmt_retry_loop r s out))))"

definition strbuf_append_fmt_retry :: "strbuf \<Rightarrow> u8 list \<Rightarrow> strbuf run" where
  "strbuf_append_fmt_retry s out =
     bindR (fmt_retry_loop 1 s out) (\<lambda>s. Inr (s\<lparr>sb_length := sb_length s + int (length out)\<rparr>))"

declare grow_size.simps [simp del] fmt_retry_loop.simps [simp del]

section \<open>What appending does\<close>

text \<open>
  The program never changes the growth rate from the initial one, which doubles the size.  In a proper
  buffer there is room for a terminating zero after the contents.
\<close>

definition content :: "strbuf \<Rightarrow> u8 list" where
  "content s = take (nat (sb_length s)) (sb_buf s)"

definition strbuf_ok :: "strbuf \<Rightarrow> bool" where
  "strbuf_ok s \<longleftrightarrow> 0 \<le> sb_length s \<and> sb_length s < sb_size s \<and> sb_size s < 2147483648 \<and> sb_increment s = -2"

lemma content_length: "strbuf_ok s \<Longrightarrow> length (content s) = nat (sb_length s)"
  by (auto simp: strbuf_ok_def content_def)

text \<open>
  The outcome \<open>r\<close> of appending the bytes \<open>bs\<close>, for which the code asks for \<open>need\<close> bytes of room: it can only fail by
  an overflow of the size, when about a gigabyte is asked for.
\<close>

definition appends :: "int \<Rightarrow> strbuf \<Rightarrow> u8 list \<Rightarrow> strbuf run \<Rightarrow> bool" where
  "appends need s bs r \<longleftrightarrow>
     (case r of
        Inr s' \<Rightarrow> strbuf_ok s' \<and> content s' = content s @ bs
      | Inl e \<Rightarrow> e = Overflow \<and> 1073741824 \<le> sb_length s + need)"

lemma appends_length:
  assumes "strbuf_ok s" "appends need s bs (Inr s')"
  shows "sb_length s' = sb_length s + int (length bs)"
proof -
  have ok: "strbuf_ok s'" and "length (content s') = length (content s) + length bs" using assms(2) by (simp_all add: appends_def)
  then have "nat (sb_length s') = nat (sb_length s) + length bs" using assms(1) by (simp add: content_length)
  then show ?thesis using assms(1) ok unfolding strbuf_ok_def by linarith
qed

lemma appends_bind:
  assumes "strbuf_ok s" "appends n1 s bs m" "\<And>s'. strbuf_ok s' \<Longrightarrow> m = Inr s' \<Longrightarrow> appends n2 s' cs (f s')"
    and "n1 \<le> n" "int (length bs) + n2 \<le> n"
  shows "appends n s (bs @ cs) (bindR m f)"
proof (cases m)
  case (Inl e)
  then show ?thesis using assms(2,4) by (simp add: appends_def)
next
  case (Inr s')
  then have "appends n1 s bs (Inr s')" using assms(2) by simp
  then have "strbuf_ok s'" "sb_length s' = sb_length s + int (length bs)" "content s' = content s @ bs"
    using appends_length [OF assms(1)] by (simp_all add: appends_def)
  moreover from this(1) have "appends n2 s' cs (f s')" using assms(3) Inr by blast
  ultimately show ?thesis using Inr assms(5) by (cases "f s'") (simp_all add: appends_def)
qed

lemma appends_weaken: "appends n s bs r \<Longrightarrow> n \<le> m \<Longrightarrow> appends m s bs r"
  by (cases r) (auto simp: appends_def)

lemma appends_Inr: "appends n s bs (Inr s') \<longleftrightarrow> strbuf_ok s' \<and> content s' = content s @ bs"
  by (simp add: appends_def)

subsection \<open>Growing\<close>

lemma grow_size_doubles:
  assumes "0 < n" "n < 2147483648"
  shows "case grow_size 2 n r of Inr m \<Rightarrow> n \<le> m \<and> r \<le> m \<and> m < 2147483648 | Inl e \<Rightarrow> e = Overflow \<and> 1073741824 < r"
  using assms
proof (induction k\<equiv>"2 :: int" n r rule: grow_size.induct)
  case (1 n r)
  show ?case
  proof (cases "n < r")
    case False
    then show ?thesis using 1(3) by (simp add: grow_size.simps)
  next
    case lt: True
    show ?thesis
    proof (cases "n * 2 < 2147483648")
      case True
      then have i: "i32 (n * 2) = Inr (n * 2)" using 1(2) by (simp add: i32_eq)
      have g: "grow_size 2 n r = grow_size 2 (n * 2) r" using lt 1(2) i by (subst grow_size.simps) simp
      have "case grow_size 2 (n * 2) r of Inr m \<Rightarrow> n * 2 \<le> m \<and> r \<le> m \<and> m < 2147483648
          | Inl e \<Rightarrow> e = Overflow \<and> 1073741824 < r"
        using 1(1) [OF lt _ i] 1(2) True by simp
      then show ?thesis unfolding g using 1(2) by (auto split: sum.splits)
    next
      case False
      then have i: "i32 (n * 2) = Inl Overflow" by (simp add: i32_eq)
      then have g: "grow_size 2 n r = Inl Overflow" using lt 1(2) by (subst grow_size.simps) simp
      show ?thesis unfolding g using False lt by simp
    qed
  qed
qed

lemma resize_ok:
  assumes "strbuf_ok s" "sb_length s \<le> len" "0 < len"
  shows "case strbuf_resize s len of
      Inr s' \<Rightarrow> strbuf_ok s' \<and> content s' = content s \<and> sb_length s' = sb_length s \<and> len < sb_size s'
    | Inl e \<Rightarrow> e = Overflow \<and> 1073741824 \<le> len"
proof -
  have ok: "0 \<le> sb_length s" "sb_length s < sb_size s" "sb_size s < 2147483648" "sb_increment s = -2"
    using assms(1) by (simp_all add: strbuf_ok_def)
  let ?new = "\<lambda>n. s\<lparr>sb_buf := take (nat n) (sb_buf s) @ replicate (nat n - length (sb_buf s)) 0,
    sb_reallocs := sb_reallocs s + 1\<rparr>"
  have new: "strbuf_ok (?new n) \<and> content (?new n) = content s \<and> sb_length (?new n) = sb_length s \<and> len < sb_size (?new n)"
    if "len + 1 \<le> n" "n < 2147483648" for n
    using that ok assms(2,3) by (auto simp: strbuf_ok_def content_def min_def nat_le_iff)
  have "case calculate_new_size s len of Inr n \<Rightarrow> len + 1 \<le> n \<and> n < 2147483648
      | Inl e \<Rightarrow> e = Overflow \<and> 1073741824 \<le> len"
  proof (cases "len + 1 < 2147483648")
    case False
    then show ?thesis using assms(3) by (simp add: calculate_new_size_def i32_eq)
  next
    case True
    have k: "i32 2 = Inr 2" by (simp add: i32_eq)
    have sz: "0 < sb_size s" using ok by linarith
    have "calculate_new_size s len = (if sb_size s > len + 1 then Inr (len + 1) else grow_size 2 (sb_size s) (len + 1))"
      using True assms(3) ok(4) k by (simp add: calculate_new_size_def i32_eq)
    then show ?thesis using True grow_size_doubles [OF sz ok(3), of "len + 1"] by (auto split: sum.splits)
  qed
  then show ?thesis using new by (cases "calculate_new_size s len") (simp_all add: strbuf_resize_def)
qed

lemma ensure_empty_ok:
  assumes "strbuf_ok s" "0 \<le> len"
  shows "case strbuf_ensure_empty_length s len of
      Inr s' \<Rightarrow> strbuf_ok s' \<and> content s' = content s \<and> sb_length s' = sb_length s \<and> len \<le> strbuf_empty_length s'
    | Inl e \<Rightarrow> e = Overflow \<and> 1073741824 \<le> sb_length s + len"
proof (cases "len > strbuf_empty_length s")
  case False
  then show ?thesis using assms by (simp add: strbuf_ensure_empty_length_def)
next
  case True
  have ok: "0 \<le> sb_length s" "sb_length s < sb_size s" using assms(1) by (simp_all add: strbuf_ok_def)
  have l: "0 < sb_length s + len" using True ok by (simp add: strbuf_empty_length_def)
  show ?thesis
  proof (cases "sb_length s + len < 2147483648")
    case False
    then show ?thesis using True l by (simp add: strbuf_ensure_empty_length_def i32_eq)
  next
    case lt: True
    then have "strbuf_ensure_empty_length s len = strbuf_resize s (sb_length s + len)"
      using True l by (simp add: strbuf_ensure_empty_length_def i32_eq)
    then show ?thesis using resize_ok [OF assms(1), of "sb_length s + len"] assms(2) l
      by (auto simp: strbuf_empty_length_def split: sum.splits)
  qed
qed

subsection \<open>Appending where there is room\<close>

lemma empty_length_iff: "strbuf_ok s \<Longrightarrow> strbuf_empty_length s = sb_size s - int (length (content s)) - 1"
  using content_length [of s] by (auto simp: strbuf_ok_def strbuf_empty_length_def)

lemma put_bytes_ok:
  assumes "strbuf_ok s" "int (length c) \<le> sb_size s - sb_length s"
  shows "put_bytes s (sb_length s) c =
      Inr (s\<lparr>sb_buf := content s @ c @ drop (nat (sb_length s) + length c) (sb_buf s)\<rparr>)"
  using assms by (simp add: put_bytes_def content_def strbuf_ok_def)

lemma append_mem_unsafe_ok:
  assumes "strbuf_ok s" "int (length c) \<le> strbuf_empty_length s"
  shows "\<exists>s'. strbuf_append_mem_unsafe s c = Inr s' \<and> strbuf_ok s' \<and> content s' = content s @ c \<and>
    strbuf_empty_length s' = strbuf_empty_length s - int (length c)"
proof -
  have "int (length c) \<le> sb_size s - sb_length s" using assms(2) by (simp add: strbuf_empty_length_def)
  note p = put_bytes_ok [OF assms(1) this]
  let ?s' = "s\<lparr>sb_buf := content s @ c @ drop (nat (sb_length s) + length c) (sb_buf s), sb_length := sb_length s + int (length c)\<rparr>"
  have "strbuf_append_mem_unsafe s c = Inr ?s'" by (simp add: strbuf_append_mem_unsafe_def p)
  moreover have "strbuf_ok ?s' \<and> content ?s' = content s @ c \<and> strbuf_empty_length ?s' = strbuf_empty_length s - int (length c)"
    using assms content_length [OF assms(1)]
    by (auto simp: strbuf_ok_def strbuf_empty_length_def content_def [of ?s'] nat_add_distrib)
  ultimately show ?thesis by blast
qed

lemma put_byte_bytes: "0 \<le> i \<Longrightarrow> put_byte s i c = put_bytes s i [c]"
proof -
  have "xs[n := c] = take n xs @ c # drop (Suc n) xs" if "n < length xs" for n and xs :: "u8 list"
    using that by (simp add: upd_conv_take_nth_drop)
  then show "0 \<le> i \<Longrightarrow> put_byte s i c = put_bytes s i [c]"
    by (auto simp: put_byte_def put_bytes_def nat_less_iff)
qed

lemma append_char_unsafe_mem: "0 \<le> sb_length s \<Longrightarrow> strbuf_append_char_unsafe s c = strbuf_append_mem_unsafe s [c]"
  by (simp add: strbuf_append_char_unsafe_def strbuf_append_mem_unsafe_def put_byte_bytes)

lemma append_char_unsafe_ok:
  assumes "strbuf_ok s" "1 \<le> strbuf_empty_length s"
  shows "\<exists>s'. strbuf_append_char_unsafe s c = Inr s' \<and> strbuf_ok s' \<and> content s' = content s @ [c] \<and>
    strbuf_empty_length s' = strbuf_empty_length s - 1"
  using append_mem_unsafe_ok [of s "[c]"] assms append_char_unsafe_mem [of s c] by (simp add: strbuf_ok_def)

text \<open>With enough room a string is appended without growing the buffer.\<close>

lemma append_string_loop_ok:
  assumes "strbuf_ok s" "space = strbuf_empty_length s" "0 \<notin> set str"
  shows "appends (int (length str)) s str (append_string_loop s space str)"
    and "int (length str) \<le> space \<Longrightarrow> \<exists>s'. append_string_loop s space str = Inr s' \<and>
      strbuf_empty_length s' = space - int (length str)"
proof -
  have step: "append_string_loop s space (c # str) =
      bindR (if space < 1 then strbuf_resize s (sb_length s + 1) else Inr s) (\<lambda>s1.
      bindR (strbuf_append_char_unsafe s1 c) (\<lambda>s2. append_string_loop s2 (strbuf_empty_length s2) str))"
    if "strbuf_ok s" "space = strbuf_empty_length s" "c \<noteq> 0" for s space c str
  proof -
    have "bindR (put_byte s1 (sb_length s1) c) (\<lambda>s. append_string_loop (s\<lparr>sb_length := sb_length s + 1\<rparr>) (strbuf_empty_length s1 - 1) str) =
        bindR (strbuf_append_char_unsafe s1 c) (\<lambda>s2. append_string_loop s2 (strbuf_empty_length s2) str)" for s1
      by (auto simp: strbuf_append_char_unsafe_def put_byte_def strbuf_empty_length_def)
    then show ?thesis using that by (simp add: bindR_assoc)
  qed
  show "appends (int (length str)) s str (append_string_loop s space str)"
    using assms
  proof (induction str arbitrary: s space)
    case (Cons c str)
    let ?r = "if space < 1 then strbuf_resize s (sb_length s + 1) else Inr s"
    have l: "0 \<le> sb_length s" using Cons.prems(1) by (simp add: strbuf_ok_def)
    have r: "case ?r of Inr s1 \<Rightarrow> strbuf_ok s1 \<and> content s1 = content s \<and> sb_length s1 = sb_length s \<and> 1 \<le> strbuf_empty_length s1
        | Inl e \<Rightarrow> e = Overflow \<and> 1073741824 \<le> sb_length s + 1"
      using resize_ok [OF Cons.prems(1), of "sb_length s + 1"] l Cons.prems
      by (auto simp: strbuf_empty_length_def split: sum.splits)
    have "c \<noteq> 0" using Cons.prems(3) by auto
    note st = step [OF Cons.prems(1,2) this, of str]
    show ?case
    proof (cases ?r)
      case (Inl e)
      then show ?thesis using r unfolding st Inl by (simp add: appends_def)
    next
      case (Inr s1)
      then have s1: "strbuf_ok s1" "content s1 = content s" "sb_length s1 = sb_length s" "1 \<le> strbuf_empty_length s1" using r by simp_all
      from append_char_unsafe_ok [OF s1(1,4)] obtain s2 where s2: "strbuf_append_char_unsafe s1 c = Inr s2" "strbuf_ok s2"
        "content s2 = content s @ [c]" using s1(2) by auto
      have "sb_length s2 = sb_length s + 1" using content_length [OF s2(2)] content_length [OF s1(1)] s2 s1 l
        by (simp add: strbuf_ok_def)
      moreover have "appends (int (length str)) s2 str (append_string_loop s2 (strbuf_empty_length s2) str)"
        using Cons.IH [OF s2(2) refl] Cons.prems(3) by simp
      moreover have "append_string_loop s space (c # str) = append_string_loop s2 (strbuf_empty_length s2) str"
        unfolding st Inr by (simp add: s2(1))
      ultimately show ?thesis using s2(3) by (cases "append_string_loop s2 (strbuf_empty_length s2) str") (simp_all add: appends_def)
    qed
  qed (simp add: appends_def)
  show "int (length str) \<le> space \<Longrightarrow> \<exists>s'. append_string_loop s space str = Inr s' \<and>
      strbuf_empty_length s' = space - int (length str)"
    using assms
  proof (induction str arbitrary: s space)
    case (Cons c str)
    from append_char_unsafe_ok [OF Cons.prems(2), of c] Cons.prems obtain s2 where s2:
      "strbuf_append_char_unsafe s c = Inr s2" "strbuf_ok s2" "strbuf_empty_length s2 = space - 1" by auto
    have "c \<noteq> 0" using Cons.prems(4) by auto
    note st = step [OF Cons.prems(2,3) this, of str]
    have "append_string_loop s space (c # str) = append_string_loop s2 (strbuf_empty_length s2) str"
      unfolding st using Cons.prems(1,3) s2(1) by simp
    with Cons.IH [OF _ s2(2) refl] Cons.prems(1,4) s2(3) show ?case by (simp add: diff_diff_eq)
  qed simp
qed

subsection \<open>The appending operations\<close>

lemma append_mem_ok:
  assumes "strbuf_ok s"
  shows "appends (int (length c)) s c (strbuf_append_mem s c)"
proof -
  let ?r = "strbuf_ensure_empty_length s (int (length c))"
  have r: "case ?r of Inr s' \<Rightarrow> strbuf_ok s' \<and> content s' = content s \<and> sb_length s' = sb_length s \<and> int (length c) \<le> strbuf_empty_length s'
      | Inl e \<Rightarrow> e = Overflow \<and> 1073741824 \<le> sb_length s + int (length c)"
    by (rule ensure_empty_ok) (simp_all add: assms)
  show ?thesis
  proof (cases ?r)
    case (Inl e)
    then show ?thesis using r by (simp add: strbuf_append_mem_def appends_def)
  next
    case (Inr s1)
    then show ?thesis using r append_mem_unsafe_ok [of s1 c] by (auto simp: strbuf_append_mem_def appends_def)
  qed
qed

lemma append_char_ok:
  assumes "strbuf_ok s"
  shows "appends 1 s [c] (strbuf_append_char s c)"
proof -
  have "strbuf_append_char s c = strbuf_append_mem s [c]"
  proof (cases "strbuf_ensure_empty_length s 1")
    case (Inr s1)
    then have "0 \<le> sb_length s1" using ensure_empty_ok [OF assms, of 1] assms by (simp add: strbuf_ok_def)
    then show ?thesis using Inr by (simp add: strbuf_append_char_def strbuf_append_mem_def append_char_unsafe_mem)
  qed (simp add: strbuf_append_char_def strbuf_append_mem_def)
  then show ?thesis using append_mem_ok [OF assms, of "[c]"] by simp
qed

lemma append_string_ok:
  assumes "strbuf_ok s" "0 \<notin> set str"
  shows "appends (int (length str)) s str (strbuf_append_string s str)"
  unfolding strbuf_append_string_def by (rule append_string_loop_ok(1) [OF assms(1) refl assms(2)])

lemma vsnprintf_ok:
  assumes "strbuf_ok s" "int (length out) < limit" "limit \<le> strbuf_empty_length s + 1"
  shows "\<exists>s'. vsnprintf s (sb_length s) limit out = Inr s' \<and> content s' = content s \<and> sb_length s' = sb_length s \<and>
    strbuf_ok (s'\<lparr>sb_length := sb_length s + int (length out)\<rparr>) \<and>
    content (s'\<lparr>sb_length := sb_length s + int (length out)\<rparr>) = content s @ out"
proof -
  have ok: "0 \<le> sb_length s" using assms(1) by (simp add: strbuf_ok_def)
  have tk: "take (nat limit - 1) out = out" using assms(2) by simp
  have l: "int (length (out @ [0])) \<le> sb_size s - sb_length s" using assms(2,3) by (simp add: strbuf_empty_length_def)
  have "vsnprintf s (sb_length s) limit out = put_bytes s (sb_length s) (out @ [0])" using assms(2) tk by (auto simp: vsnprintf_def)
  moreover note put_bytes_ok [OF assms(1) l]
  moreover have "length (content s) = nat (sb_length s)" by (rule content_length [OF assms(1)])
  ultimately show ?thesis using assms(1) ok l
    by (auto simp: strbuf_ok_def content_def nat_add_distrib)
qed

lemma append_fmt_ok:
  assumes "strbuf_ok s" "int (length out) < len"
  shows "appends len s out (strbuf_append_fmt s len out)"
proof -
  let ?r = "strbuf_ensure_empty_length s len"
  have r: "case ?r of Inr s' \<Rightarrow> strbuf_ok s' \<and> content s' = content s \<and> sb_length s' = sb_length s \<and> len \<le> strbuf_empty_length s'
      | Inl e \<Rightarrow> e = Overflow \<and> 1073741824 \<le> sb_length s + len"
    by (rule ensure_empty_ok) (use assms in simp_all)
  show ?thesis
  proof (cases ?r)
    case (Inl e)
    then show ?thesis using r by (simp add: strbuf_append_fmt_def appends_def)
  next
    case (Inr s1)
    then show ?thesis using r vsnprintf_ok [of s1 out len] assms(2) by (auto simp: strbuf_append_fmt_def appends_def)
  qed
qed

lemma append_fmt_retry_ok:
  assumes "strbuf_ok s"
  shows "appends (int (length out)) s out (strbuf_append_fmt_retry s out)"
proof (cases "int (length out) \<le> strbuf_empty_length s")
  case True
  with vsnprintf_ok [OF assms, of out "strbuf_empty_length s + 1"] show ?thesis
    by (auto simp: strbuf_append_fmt_retry_def fmt_retry_loop.simps appends_def Let_def)
next
  case False
  have ok: "0 \<le> sb_length s" "sb_length s < sb_size s" using assms by (simp_all add: strbuf_ok_def)
  have el: "0 \<le> strbuf_empty_length s" using ok by (simp add: strbuf_empty_length_def)
  let ?o = "take (nat (strbuf_empty_length s)) out"
  have "int (length ?o) < strbuf_empty_length s + 1" using el by simp
  from vsnprintf_ok [OF assms this] obtain s1 where s1: "vsnprintf s (sb_length s) (strbuf_empty_length s + 1) ?o = Inr s1"
    "content s1 = content s" "sb_length s1 = sb_length s" "strbuf_ok (s1\<lparr>sb_length := sb_length s + int (length ?o)\<rparr>)" by auto
  have v: "vsnprintf s (sb_length s) (strbuf_empty_length s + 1) out = Inr s1"
    using s1(1) el by (simp add: vsnprintf_def nat_add_distrib)
  have ok1: "strbuf_ok s1" using s1(3,4) ok by (simp add: strbuf_ok_def)
  let ?n = "sb_length s + int (length out)"
  have fr: "fmt_retry_loop 1 s out = bindR (i32 ?n) (\<lambda>n. bindR (strbuf_resize s1 n) (\<lambda>s. fmt_retry_loop 0 s out))"
    using False v s1(3) by (subst fmt_retry_loop.simps) simp
  have pos: "0 < ?n" using False ok el by linarith
  show ?thesis
  proof (cases "?n < 2147483648")
    case False
    then show ?thesis using pos fr by (simp add: strbuf_append_fmt_retry_def i32_eq appends_def)
  next
    case True
    then have fr1: "fmt_retry_loop 1 s out = bindR (strbuf_resize s1 ?n) (\<lambda>s. fmt_retry_loop 0 s out)" using fr pos by (simp add: i32_eq)
    have r: "case strbuf_resize s1 ?n of Inr s2 \<Rightarrow> strbuf_ok s2 \<and> content s2 = content s1 \<and> sb_length s2 = sb_length s1 \<and> ?n < sb_size s2
        | Inl e \<Rightarrow> e = Overflow \<and> 1073741824 \<le> ?n"
      by (rule resize_ok [OF ok1]) (use s1(3) pos in simp_all)
    show ?thesis
    proof (cases "strbuf_resize s1 ?n")
      case (Inl e)
      then show ?thesis using r fr1 by (simp add: strbuf_append_fmt_retry_def appends_def)
    next
      case (Inr s2)
      then have s2: "strbuf_ok s2" "content s2 = content s" "sb_length s2 = sb_length s" "int (length out) \<le> strbuf_empty_length s2"
        using r s1(2,3) by (simp_all add: strbuf_empty_length_def)
      from vsnprintf_ok [OF s2(1), of out "strbuf_empty_length s2 + 1"] s2(2-4) show ?thesis
        unfolding strbuf_append_fmt_retry_def fr1 Inr by (auto simp: fmt_retry_loop.simps appends_def Let_def)
    qed
  qed
qed

lemma strbuf_new_ok:
  assumes "len < 2147483647"
  shows "\<exists>s. strbuf_new len = Inr s \<and> strbuf_ok s \<and> content s = [] \<and> len \<le> strbuf_empty_length s"
    and "\<exists>s. strbuf_init len = Inr s \<and> strbuf_ok s \<and> content s = [] \<and> len \<le> strbuf_empty_length s"
  using assms by (auto simp: strbuf_new_def strbuf_init_def strbuf_ensure_null_def i32_eq put_byte_def strbuf_ok_def
    content_def strbuf_empty_length_def)

text \<open>
  C38: In a proper buffer every appending operation adds exactly its bytes at the end, never writes outside
  the allocation, never ends the process and never hangs: it can only fail by overflow of the size, when about a
  gigabyte is asked for.  \<open>strbuf_append_fmt\<close> needs its bound, as its comment says.
\<close>

theorem strbuf_appends:
  assumes "strbuf_ok s" "0 \<notin> set str" "int (length text1) < bound"
  shows "appends 1 s [c] (strbuf_append_char s c) \<and>
    appends (int (length mem)) s mem (strbuf_append_mem s mem) \<and>
    appends (int (length str)) s str (strbuf_append_string s str) \<and>
    appends bound s text1 (strbuf_append_fmt s bound text1) \<and>
    appends (int (length text2)) s text2 (strbuf_append_fmt_retry s text2)"
  using assms by (intro conjI append_char_ok append_mem_ok append_string_ok append_fmt_ok append_fmt_retry_ok)

theorem strbuf_appends_witness:
  "\<exists>s. strbuf_new 0 = Inr s \<and> (\<exists>s1. strbuf_append_string s [104, 105] = Inr s1 \<and> content s1 = [104, 105])"
proof -
  from strbuf_new_ok(1) [of 0] obtain s where s: "strbuf_new 0 = Inr s" "strbuf_ok s" "content s = []" by auto
  then have "sb_length s = 0" using content_length [OF s(2)] by (simp add: strbuf_ok_def)
  have "appends 2 s [104, 105] (strbuf_append_string s [104, 105])"
    using strbuf_appends [OF s(2), of "[104, 105]" "[]" 1] by simp
  with \<open>sb_length s = 0\<close> s show ?thesis by (cases "strbuf_append_string s [104, 105]") (simp_all add: appends_def)
qed

text \<open>
  With a positive increment the new size is the old one rounded up, whatever is needed: once the size is a
  multiple of the increment the buffer does not grow, and appending more than fits writes outside it.
\<close>

theorem linear_growth_overruns:
  assumes "0 \<le> sb_length s" "sb_length s < sb_size s" "0 < sb_increment s" "sb_increment s dvd sb_size s"
    and "sb_size s + sb_increment s < 2147483648" "sb_length s + int (length mem) < 2147483647"
    and "strbuf_empty_length s < int (length mem)"
  shows "strbuf_append_mem s mem = (if sb_length s + int (length mem) = sb_size s
    then strbuf_append_mem_unsafe (s\<lparr>sb_reallocs := sb_reallocs s + 1\<rparr>) mem else Inl OutOfBounds)"
proof -
  obtain m where m: "sb_size s = sb_increment s * m" using assms(4) by (rule dvdE)
  have "(sb_size s + (sb_increment s - 1)) div sb_increment s = m"
    unfolding m using assms(3) by simp
  then have "c_div (sb_size s + sb_increment s - 1) (sb_increment s) * sb_increment s = sb_size s"
    using assms(1-3) m by (simp add: c_div_def sgn_if algebra_simps)
  then have "calculate_new_size s (sb_length s + int (length mem)) = Inr (sb_size s)"
    using assms by (simp add: calculate_new_size_def i32_eq strbuf_empty_length_def)
  then have "strbuf_resize s (sb_length s + int (length mem)) = Inr (s\<lparr>sb_reallocs := sb_reallocs s + 1\<rparr>)"
    by (simp add: strbuf_resize_def)
  then show ?thesis using assms
    by (auto simp: strbuf_append_mem_def strbuf_ensure_empty_length_def i32_eq strbuf_empty_length_def
      strbuf_append_mem_unsafe_def put_bytes_def)
qed

theorem linear_growth_overruns_witness:
  "\<exists>s. bindR (strbuf_new 15) (\<lambda>s. strbuf_set_increment s 16) = Inr s \<and> strbuf_append_mem s (replicate 20 65) = Inl OutOfBounds"
proof -
  let ?s = "\<lparr>sb_buf = replicate 16 0, sb_length = 0, sb_increment = 16, sb_dynamic = True, sb_reallocs = 0\<rparr>"
  have "bindR (strbuf_new 15) (\<lambda>s. strbuf_set_increment s 16) = Inr ?s" by code_simp
  with linear_growth_overruns [of ?s "replicate 20 65"] show ?thesis by (simp add: strbuf_empty_length_def)
qed

end
