(* ===== verification/Fpconv.thy ===== *)
theory Fpconv
  imports Strbuf "HOL-Library.Log_Nat"
begin

text \<open>
  Numbers as text: what \<^verbatim>\<open>src/depends/json/lua_cjson.c\<close> uses of the C library (\<open>strtoll\<close>, \<open>strtod\<close>,
  \<open>snprintf\<close> with \<open>%lld\<close> and \<open>%.<n>g\<close>), and \<^verbatim>\<open>src/depends/json/fpconv.c\<close>, which hides the decimal point of
  the locale.  A text is the list of its bytes up to the terminator.  The sign of a zero is not represented.
\<close>

section \<open>Digits\<close>

definition digit_val :: "int \<Rightarrow> u8 \<Rightarrow> int option" where
  "digit_val base c =
     (let v = (if 48 \<le> c \<and> c \<le> 57 then uint c - 48
               else if 97 \<le> c \<and> c \<le> 122 then uint c - 87
               else if 65 \<le> c \<and> c \<le> 90 then uint c - 55
               else 99)
      in if v < base then Some v else None)"

definition digits :: "int \<Rightarrow> u8 list \<Rightarrow> u8 list" where
  "digits base p = takeWhile (\<lambda>c. digit_val base c \<noteq> None) p"

definition num_of :: "int \<Rightarrow> u8 list \<Rightarrow> int" where
  "num_of base ds = foldl (\<lambda>n c. n * base + the (digit_val base c)) 0 ds"

definition digit_char :: "nat \<Rightarrow> u8" where
  "digit_char d = of_nat (48 + d)"

fun nat_digits :: "nat \<Rightarrow> u8 list" where
  "nat_digits n = (if n < 10 then [digit_char n] else nat_digits (n div 10) @ [digit_char (n mod 10)])"

declare nat_digits.simps [simp del]

section \<open>Integers\<close>

definition is_space :: "u8 \<Rightarrow> bool" where
  "is_space c \<longleftrightarrow> c = 32 \<or> 9 \<le> c \<and> c \<le> 13"

text \<open>An optional sign: whether it is a minus, the rest, and the number of bytes.\<close>

fun read_sign :: "u8 list \<Rightarrow> bool \<times> u8 list \<times> nat" where
  "read_sign (c # p) = (if c = 45 then (True, p, 1) else if c = 43 then (False, p, 1) else (False, c # p, 0))"
| "read_sign [] = (False, [], 0)"

text \<open>The base of a number after its sign, its digits, and the length of the prefix.\<close>

definition read_base :: "u8 list \<Rightarrow> int \<times> u8 list \<times> nat" where
  "read_base p =
     (case p of
        c # x # h # r \<Rightarrow>
          if c = 48 \<and> (x = 120 \<or> x = 88) \<and> digit_val 16 h \<noteq> None then (16, h # r, 2)
          else if c = 48 then (8, p, 0) else (10, p, 0)
      | c # r \<Rightarrow> if c = 48 then (8, p, 0) else (10, p, 0)
      | [] \<Rightarrow> (10, p, 0))"

definition clamp64 :: "int \<Rightarrow> int" where
  "clamp64 i = max (- (2 ^ 63)) (min (2 ^ 63 - 1) i)"

text \<open>\<open>strtoll\<close> with base 0: the value, and how many bytes were read.  A value out of range is clamped.\<close>

definition strtoll :: "u8 list \<Rightarrow> int \<times> nat" where
  "strtoll p =
     (let sp = length (takeWhile is_space p);
          (neg, q, k1) = read_sign (drop sp p);
          (base, r, k2) = read_base q;
          ds = digits base r
      in if ds = [] then (0, 0)
         else (clamp64 (if neg then - num_of base ds else num_of base ds), sp + k1 + k2 + length ds))"

text \<open>The format \<open>%lld\<close>.\<close>

definition lua_integer2str :: "int \<Rightarrow> u8 list" where
  "lua_integer2str i = (if i < 0 then 45 # nat_digits (nat (- i)) else nat_digits (nat i))"

section \<open>Rounding\<close>

definition pow_rat :: "rat \<Rightarrow> int \<Rightarrow> rat" where
  "pow_rat b e = (if 0 \<le> e then b ^ nat e else 1 / b ^ nat (- e))"

text \<open>The integer part of the logarithm of a positive number.\<close>

definition ilog :: "nat \<Rightarrow> rat \<Rightarrow> int" where
  "ilog b q =
     (let (n, d) = quotient_of q;
          k = int (floorlog b (nat n)) - int (floorlog b (nat d))
      in if pow_rat (of_nat b) k \<le> q then k else k - 1)"

definition round_half_even :: "rat \<Rightarrow> int" where
  "round_half_even x =
     (let f = \<lfloor>x\<rfloor>; r = x - of_int f
      in if r < 1 / 2 then f else if 1 / 2 < r then f + 1 else if even f then f else f + 1)"

text \<open>The double that is nearest to a positive number: 53 bits, with subnormal numbers and infinity.\<close>

definition round_pos :: "rat \<Rightarrow> dbl" where
  "round_pos q =
     (let e = max (ilog 2 q) (- 1022);
          ulp = pow_rat 2 (e - 52);
          r = of_int (round_half_even (q / ulp)) * ulp
      in if pow_rat 2 1024 \<le> r then PosInf else Fin r)"

definition negate :: "dbl \<Rightarrow> dbl" where
  "negate d = (case d of NaN \<Rightarrow> NaN | NegInf \<Rightarrow> PosInf | Fin q \<Rightarrow> Fin (- q) | PosInf \<Rightarrow> NegInf)"

definition to_dbl :: "bool \<Rightarrow> rat \<Rightarrow> dbl" where
  "to_dbl neg q = (if q = 0 then Fin 0 else if neg then negate (round_pos q) else round_pos q)"

section \<open>Text to double\<close>

text \<open>The exponent after \<open>e\<close>, or \<open>p\<close> in hexadecimal numbers: its value and length, zero when there is none.\<close>

definition read_exp :: "u8 \<Rightarrow> u8 \<Rightarrow> u8 list \<Rightarrow> int \<times> nat" where
  "read_exp e1 e2 p =
     (case p of
        c # r \<Rightarrow>
          if c = e1 \<or> c = e2 then
            (let (neg, q, k) = read_sign r; ds = digits 10 q
             in if ds = [] then (0, 0) else (if neg then - num_of 10 ds else num_of 10 ds, 1 + k + length ds))
          else (0, 0)
      | [] \<Rightarrow> (0, 0))"

text \<open>
  Digits with a decimal point \<open>dp\<close> in base 10 or 16: the number of digits before and after it, the value of
  all digits as an integer, and the rest.
\<close>

definition read_mantissa :: "u8 \<Rightarrow> int \<Rightarrow> u8 list \<Rightarrow> nat \<times> nat \<times> int \<times> nat \<times> u8 list" where
  "read_mantissa dp base p =
     (let ds1 = digits base p; r = drop (length ds1) p in
      case r of
        c # r1 \<Rightarrow>
          if c = dp then
            (let ds2 = digits base r1
             in if ds1 = [] \<and> ds2 = [] then (0, 0, 0, 0, p)
                else (length ds1, length ds2, num_of base (ds1 @ ds2), length ds1 + 1 + length ds2, drop (length ds2) r1))
          else (length ds1, 0, num_of base ds1, length ds1, r)
      | [] \<Rightarrow> (length ds1, 0, num_of base ds1, length ds1, r))"

text \<open>A letter in lower case.\<close>

definition lower :: "u8 \<Rightarrow> u8" where
  "lower c = (if 65 \<le> c \<and> c \<le> 90 then c + 32 else c)"

definition prefix_ci :: "u8 list \<Rightarrow> u8 list \<Rightarrow> bool" where
  "prefix_ci w p \<longleftrightarrow> map lower (take (length w) p) = w"

text \<open>The part in parentheses that may follow \<open>nan\<close>.\<close>

definition nan_tail :: "u8 list \<Rightarrow> nat" where
  "nan_tail p =
     (case p of
        c # r \<Rightarrow>
          if c = 40 then
            (let w = takeWhile (\<lambda>c. digit_val 36 c \<noteq> None \<or> c = 95) r
             in if length w < length r \<and> r ! length w = 41 then length w + 2 else 0)
          else 0
      | [] \<Rightarrow> 0)"

text \<open>\<open>strtod\<close> after white space and sign.\<close>

definition strtod_unsigned :: "u8 \<Rightarrow> bool \<Rightarrow> u8 list \<Rightarrow> dbl \<times> nat" where
  "strtod_unsigned dp neg q =
     (if prefix_ci [105, 110, 102, 105, 110, 105, 116, 121] q then (if neg then NegInf else PosInf, 8)
      else if prefix_ci [105, 110, 102] q then (if neg then NegInf else PosInf, 3)
      else if prefix_ci [110, 97, 110] q then (NaN, 3 + nan_tail (drop 3 q))
      else
        let hex = prefix_ci [48, 120] q;
            (i, f, n, len, r) = (if hex then read_mantissa dp 16 (drop 2 q) else (0, 0, 0, 0, []))
        in if hex \<and> 0 < i + f then
             (let (e, k) = read_exp 112 80 r
              in (to_dbl neg (of_int n * pow_rat 2 (e - 4 * int f)), 2 + len + k))
           else
             (let (i, f, n, len, r) = read_mantissa dp 10 q
              in if i + f = 0 then (Fin 0, 0)
                 else let (e, k) = read_exp 101 69 r
                      in (to_dbl neg (of_int n * pow_rat 10 (e - int f)), len + k)))"

definition strtod :: "u8 \<Rightarrow> u8 list \<Rightarrow> dbl \<times> nat" where
  "strtod dp p =
     (let sp = length (takeWhile is_space p);
          (neg, q, k1) = read_sign (drop sp p);
          (d, n) = strtod_unsigned dp neg q
      in if n = 0 then (Fin 0, 0) else (d, sp + k1 + n))"

section \<open>Double to text\<close>

text \<open>A positive number to \<open>P\<close> significant digits: the digits as an integer, and the decimal exponent.\<close>

definition g_digits :: "int \<Rightarrow> rat \<Rightarrow> int \<times> int" where
  "g_digits P q =
     (let x = ilog 10 q;
          n = round_half_even (q * pow_rat 10 (P - 1 - x))
      in if n = 10 ^ nat P then (10 ^ nat (P - 1), x + 1) else (n, x))"

definition strip_zeros :: "u8 list \<Rightarrow> u8 list" where
  "strip_zeros ds = rev (dropWhile (\<lambda>c. c = 48) (rev ds))"

definition g_fixed :: "u8 \<Rightarrow> u8 list \<Rightarrow> int \<Rightarrow> u8 list" where
  "g_fixed dp ds x =
     (if x < 0 then [48, dp] @ replicate (nat (- x - 1)) 48 @ ds
      else let whole = take (nat x + 1) (ds @ replicate (nat x + 1 - length ds) 48);
               frac = drop (nat x + 1) ds
           in if frac = [] then whole else whole @ [dp] @ frac)"

definition g_exp :: "u8 \<Rightarrow> u8 list \<Rightarrow> int \<Rightarrow> u8 list" where
  "g_exp dp ds x =
     take 1 ds @ (if drop 1 ds = [] then [] else dp # drop 1 ds) @ [101, if x < 0 then 45 else 43] @
     (let e = nat_digits (nat \<bar>x\<bar>) in if length e < 2 then 48 # e else e)"

text \<open>The format \<open>%.<P>g\<close>, where a precision of zero counts as one.\<close>

definition format_g :: "u8 \<Rightarrow> int \<Rightarrow> dbl \<Rightarrow> u8 list" where
  "format_g dp precision d =
     (let P = (if precision = 0 then 1 else precision) in
      case d of
        NaN \<Rightarrow> [110, 97, 110]
      | PosInf \<Rightarrow> [105, 110, 102]
      | NegInf \<Rightarrow> [45, 105, 110, 102]
      | Fin q \<Rightarrow>
          if q = 0 then [48]
          else
            (let (n, x) = g_digits P \<bar>q\<bar>;
                 ds = strip_zeros (nat_digits (nat n))
             in (if q < 0 then [45] else []) @ (if - 4 \<le> x \<and> x < P then g_fixed dp ds x else g_exp dp ds x)))"

text \<open>
  \<open>snprintf\<close> with a format of this form: the precision is what stands between the point and the \<open>g\<close>.  The
  result is what is written, before the terminator, and the length of the whole text.
\<close>

definition snprintf_g :: "u8 \<Rightarrow> nat \<Rightarrow> u8 list \<Rightarrow> dbl \<Rightarrow> u8 list \<times> int" where
  "snprintf_g dp bufsize fmt num =
     (let out = format_g dp (num_of 10 (digits 10 (drop 2 fmt))) num in (take (bufsize - 1) out, int (length out)))"

section \<open>The locale\<close>

text \<open>The text that \<open>snprintf\<close> makes of one half; \<open>abort\<close> ends the process.\<close>

definition fpconv_update_locale :: "u8 list \<Rightarrow> u8 run" where
  "fpconv_update_locale buf =
     (let ch = (\<lambda>i. if i < length buf then buf ! i else 0) in
      if ch 0 \<noteq> 48 \<or> ch 2 \<noteq> 53 \<or> ch 3 \<noteq> 0 then Inl (Die ''Error: wide characters found or printf() bug.'')
      else Inr (ch 1))"

definition fpconv_init :: "u8 \<Rightarrow> u8 run" where
  "fpconv_init libc_point = fpconv_update_locale (format_g libc_point 6 (Fin (1 / 2)))"

definition valid_number_character :: "u8 \<Rightarrow> bool" where
  "valid_number_character ch \<longleftrightarrow>
     (48 \<le> ch \<and> ch \<le> 57) \<or> ch = 45 \<or> ch = 43 \<or> ch = 46 \<or> (97 \<le> ch OR 0x20 \<and> ch OR 0x20 \<le> 121)"

definition strtod_buffer_size :: "u8 list \<Rightarrow> nat" where
  "strtod_buffer_size s = length (takeWhile valid_number_character s)"

text \<open>\<open>strchr\<close> and the assignment to what it finds.\<close>

fun replace_first :: "u8 \<Rightarrow> u8 \<Rightarrow> u8 list \<Rightarrow> u8 list" where
  "replace_first c d [] = []"
| "replace_first c d (x # xs) = (if x = c then d # xs else x # replace_first c d xs)"

definition fpconv_strtod :: "u8 \<Rightarrow> u8 list \<Rightarrow> dbl \<times> nat" where
  "fpconv_strtod locale_decimal_point nptr =
     (if locale_decimal_point = 46 then strtod 46 nptr
      else let buflen = strtod_buffer_size nptr in
        if buflen = 0 then (Fin 0, 0)
        else strtod locale_decimal_point (replace_first 46 locale_decimal_point (take buflen nptr)))"

definition set_number_format :: "int \<Rightarrow> u8 list" where
  "set_number_format precision =
     (let d1 = c_div precision 10; d2 = c_mod precision 10
      in [37, 46] @ (if d1 \<noteq> 0 then [word_of_int (48 + d1)] else []) @ [word_of_int (48 + d2), 103])"

definition FPCONV_G_FMT_BUFSIZE :: nat where
  "FPCONV_G_FMT_BUFSIZE = 32"

text \<open>What is written to the target, before the terminator, and the result.\<close>

definition fpconv_g_fmt :: "u8 \<Rightarrow> dbl \<Rightarrow> int \<Rightarrow> u8 list \<times> int" where
  "fpconv_g_fmt locale_decimal_point num precision =
     (let fmt = set_number_format precision in
      if locale_decimal_point = 46 then snprintf_g 46 FPCONV_G_FMT_BUFSIZE fmt num
      else let (buf, len) = snprintf_g locale_decimal_point FPCONV_G_FMT_BUFSIZE fmt num
           in (map (\<lambda>b. if b = locale_decimal_point then 46 else b) buf, len))"

section \<open>Integers: printing and reading\<close>

lemma uint_digit_char: "d < 10 \<Longrightarrow> uint (digit_char d) = 48 + int d"
  unfolding digit_char_def unsigned_of_nat by (simp add: take_bit_nat_eq_self)

lemma digit_val_digit:
  assumes "d < 10" "10 \<le> base"
  shows "digit_val base (digit_char d) = Some (int d)"
proof -
  note u = uint_digit_char [OF assms(1)]
  have "48 \<le> digit_char d \<and> digit_char d \<le> 57" using assms(1) by (simp add: word_le_def u)
  then show ?thesis using assms u by (simp add: digit_val_def)
qed

lemma nat_digits_digits: "c \<in> set (nat_digits n) \<Longrightarrow> \<exists>d < 10. c = digit_char d"
proof (induction n rule: nat_digits.induct)
  case (1 n)
  show ?case
  proof (cases "n < 10")
    case True
    then show ?thesis using "1.prems" by (auto simp: nat_digits.simps [of n])
  next
    case False
    then have "c \<in> set (nat_digits (n div 10)) \<or> c = digit_char (n mod 10)" using "1.prems" by (auto simp: nat_digits.simps [of n])
    moreover have "n mod 10 < 10" by simp
    ultimately show ?thesis using "1.IH" [OF False] by blast
  qed
qed

lemma nat_digits_0: "nat_digits 0 = [48]"
  by (subst nat_digits.simps) (simp add: digit_char_def)

lemma nat_digits_not_Nil: "nat_digits n \<noteq> []"
  by (simp add: nat_digits.simps [of n])

lemma num_of_snoc: "num_of b (ds @ [c]) = num_of b ds * b + the (digit_val b c)"
  by (simp add: num_of_def)

lemma num_of_nat_digits: "num_of 10 (nat_digits n) = int n"
proof (induction n rule: nat_digits.induct)
  case (1 n)
  show ?case
  proof (cases "n < 10")
    case True
    then show ?thesis by (simp add: nat_digits.simps [of n] num_of_def digit_val_digit)
  next
    case False
    have "num_of 10 (nat_digits n) = int (n div 10) * 10 + the (digit_val 10 (digit_char (n mod 10)))"
      using False "1.IH" [OF False] by (simp add: nat_digits.simps [of n] num_of_snoc)
    also have "\<dots> = int (n div 10) * 10 + int (n mod 10)" by (subst digit_val_digit) simp_all
    also have "\<dots> = int n" by (metis div_mult_mod_eq of_nat_add of_nat_mult of_nat_numeral)
    finally show ?thesis .
  qed
qed

lemma nat_digits_head: "0 < n \<Longrightarrow> hd (nat_digits n) \<noteq> 48"
proof (induction n rule: nat_digits.induct)
  case (1 n)
  show ?case
  proof (cases "n < 10")
    case True
    have "digit_char n \<noteq> 48"
    proof
      assume "digit_char n = 48"
      then have "uint (digit_char n) = 48" by simp
      then show False using uint_digit_char [OF True] "1.prems" by simp
    qed
    then show ?thesis using True by (simp add: nat_digits.simps [of n])
  next
    case False
    then have "hd (nat_digits n) = hd (nat_digits (n div 10))"
      by (simp add: nat_digits.simps [of n] nat_digits_not_Nil hd_append)
    then show ?thesis using "1.IH" [OF False] False by simp
  qed
qed

lemma nat_digits_length: "n < 10 ^ k \<Longrightarrow> 0 < k \<Longrightarrow> length (nat_digits n) \<le> k"
proof (induction n arbitrary: k rule: nat_digits.induct)
  case (1 n)
  show ?case
  proof (cases "n < 10")
    case True
    then show ?thesis using "1.prems" by (simp add: nat_digits.simps [of n])
  next
    case False
    then have "1 < k" using "1.prems" by (cases "k = 1") auto
    then obtain l where l: "k = Suc l" "0 < l" by (cases k) auto
    have "n div 10 < 10 ^ l" using "1.prems"(1) l(1) by (simp add: less_mult_imp_div_less mult.commute)
    then have "length (nat_digits (n div 10)) \<le> l" using "1.IH" [OF False] l(2) by blast
    then show ?thesis using l False by (simp add: nat_digits.simps [of n])
  qed
qed

text \<open>The byte after a number, if there is one, is none that could belong to it.\<close>

definition number_ends :: "u8 list \<Rightarrow> bool" where
  "number_ends rest \<longleftrightarrow> (case rest of [] \<Rightarrow> True | c # _ \<Rightarrow> c = 44 \<or> c = 93 \<or> c = 125)"

lemma number_ends_no_digit:
  assumes "number_ends (c # rest)"
  shows "base < 99 \<Longrightarrow> digit_val base c = None" "c \<noteq> 120" "c \<noteq> 88" "c \<noteq> 46" "c \<noteq> 101" "c \<noteq> 69"
proof -
  have c: "c = 44 \<or> c = 93 \<or> c = 125" using assms by (simp add: number_ends_def)
  then show "base < 99 \<Longrightarrow> digit_val base c = None" by (auto simp: digit_val_def Let_def)
  show "c \<noteq> 120" "c \<noteq> 88" "c \<noteq> 46" "c \<noteq> 101" "c \<noteq> 69" using c by auto
qed

lemma digits_append:
  assumes "\<forall>c \<in> set ds. digit_val base c \<noteq> None" "number_ends rest" "base < 99"
  shows "digits base (ds @ rest) = ds"
proof -
  have "takeWhile (\<lambda>c. digit_val base c \<noteq> None) rest = []"
    using number_ends_no_digit(1) assms(2,3) by (cases rest) auto
  then show ?thesis using assms(1) by (simp add: digits_def takeWhile_append)
qed

lemma nat_digits_vals: "10 \<le> base \<Longrightarrow> \<forall>c \<in> set (nat_digits n). digit_val base c \<noteq> None"
  using nat_digits_digits digit_val_digit by fastforce

text \<open>Printed numbers have no leading zero, so they are read in base 10; zero is read in base 8.\<close>

lemma strtoll_digits:
  assumes "number_ends rest"
  shows "read_base (nat_digits n @ rest) = (if n = 0 then 8 else 10, nat_digits n @ rest, 0)"
proof (cases "n = 0")
  case True
  note d = nat_digits_0
  show ?thesis
  proof (cases rest)
    case (Cons c r)
    with assms have "c \<noteq> 120" "c \<noteq> 88" using number_ends_no_digit by blast+
    then show ?thesis using Cons d True by (auto simp: read_base_def split: list.splits)
  qed (simp add: read_base_def d True)
next
  case False
  then have "hd (nat_digits n) \<noteq> 48" by (intro nat_digits_head) simp
  then obtain c ds where "nat_digits n = c # ds" "c \<noteq> 48" using nat_digits_not_Nil by (metis list.collapse)
  then show ?thesis using False by (simp add: read_base_def split: list.splits)
qed

lemma digit_char_not: "d < 10 \<Longrightarrow> \<not> is_space (digit_char d) \<and> digit_char d \<noteq> 45 \<and> digit_char d \<noteq> 43"
proof -
  assume d: "d < 10"
  have ne: "digit_char d \<noteq> c" if "uint c < 48" for c using uint_digit_char [OF d] that by auto
  have "digit_char d \<noteq> 32" "digit_char d \<noteq> 45" "digit_char d \<noteq> 43" by (rule ne, simp)+
  moreover have "\<not> digit_char d \<le> 13" using uint_digit_char [OF d] by (simp add: word_le_def)
  ultimately show ?thesis by (auto simp: is_space_def)
qed

lemma strtoll_integer2str:
  assumes "- (2 ^ 63) \<le> i" "i < 2 ^ 63" "number_ends rest"
  shows "strtoll (lua_integer2str i @ rest) = (i, length (lua_integer2str i))"
proof -
  define n where "n = nat \<bar>i\<bar>"
  have ds: "digits base (nat_digits n @ rest) = nat_digits n \<and> num_of base (nat_digits n) = int n"
    if "base = (if n = 0 then 8 else 10)" for base
  proof (cases "n = 0")
    case True
    have "digit_val 8 48 = Some 0" by (simp add: digit_val_def)
    then have "digits 8 ([48] @ rest) = [48]" by (intro digits_append) (simp_all add: assms(3))
    then show ?thesis using \<open>digit_val 8 48 = Some 0\<close> unfolding that True nat_digits_0 by (simp add: num_of_def)
  next
    case False
    then show ?thesis using that digits_append [OF nat_digits_vals assms(3)] num_of_nat_digits by simp
  qed
  obtain c r where cr: "nat_digits n = c # r" using nat_digits_not_Nil [of n] by (cases "nat_digits n") auto
  then have "c \<in> set (nat_digits n)" by simp
  then obtain d where "d < 10" "c = digit_char d" using nat_digits_digits by blast
  then have c: "\<not> is_space c" "c \<noteq> 45" "c \<noteq> 43" using digit_char_not by simp_all
  have clamp: "clamp64 i = i" using assms(1,2) unfolding clamp64_def max_def min_def by auto
  note rb = strtoll_digits [OF assms(3), of n]
  show ?thesis
  proof (cases "i < 0")
    case True
    then have s: "lua_integer2str i = 45 # nat_digits n" "- int n = i" by (simp_all add: lua_integer2str_def n_def)
    have "\<not> is_space 45" by (simp add: is_space_def)
    then show ?thesis using ds [OF refl] rb s clamp nat_digits_not_Nil [of n] by (simp add: strtoll_def Let_def)
  next
    case False
    then have s: "lua_integer2str i = nat_digits n" "int n = i" by (simp_all add: lua_integer2str_def n_def)
    have "takeWhile is_space (nat_digits n @ rest) = []" "read_sign (nat_digits n @ rest) = (False, nat_digits n @ rest, 0)"
      using c cr by simp_all
    then show ?thesis using ds [OF refl] rb s clamp nat_digits_not_Nil [of n] by (simp add: strtoll_def Let_def)
  qed
qed

end
