(* ===== verification/Json_Config.thy ===== *)
theory Json_Config
  imports Fpconv
begin

text \<open>
  The configuration of \<^verbatim>\<open>src/depends/json/lua_cjson.c\<close>: its defaults and the functions that change it.  An
  integer argument is what \<open>luaL_checkinteger\<close> gives, a 64-bit integer; an argument of another type raises an
  error before anything is changed.  Each function gives the configuration, which stays changed even when an
  error is raised, and what is pushed.
\<close>

section \<open>Configuration\<close>

record json_config =
  encode_buf :: strbuf
  encode_sparse_convert :: int
  encode_sparse_ratio :: int
  encode_sparse_safe :: int
  encode_max_depth :: int
  encode_invalid_numbers :: int
  encode_number_precision :: int
  encode_keep_buffer :: int
  decode_invalid_numbers :: int
  decode_max_depth :: int

definition json_create_config :: "json_config run" where
  "json_create_config =
     bindR (strbuf_init 0) (\<lambda>buf.
     Inr \<lparr>encode_buf = buf, encode_sparse_convert = 0, encode_sparse_ratio = 2, encode_sparse_safe = 10,
       encode_max_depth = 1000, encode_invalid_numbers = 0, encode_number_precision = 14,
       encode_keep_buffer = 1, decode_invalid_numbers = 1, decode_max_depth = 1000\<rparr>)"

definition json_destroy_config :: "json_config \<Rightarrow> json_config" where
  "json_destroy_config cfg = cfg\<lparr>encode_buf := strbuf_free (encode_buf cfg)\<rparr>"

section \<open>Options\<close>

text \<open>A number in an error message.\<close>

definition int_text :: "int \<Rightarrow> string" where
  "int_text i = map (\<lambda>c. char_of (unat c)) (lua_integer2str i)"

text \<open>\<open>None\<close> is nil.  The integer is narrowed to \<open>int\<close> before its range is checked.\<close>

definition json_integer_option :: "int option \<Rightarrow> int \<Rightarrow> int \<Rightarrow> int \<Rightarrow> int run" where
  "json_integer_option arg setting lo hi =
     (case arg of
        None \<Rightarrow> Inr setting
      | Some i \<Rightarrow>
          let v = sint (word_of_int i :: u32) in
          if lo \<le> v \<and> v \<le> hi then Inr v else Inl (Throw (''expected integer between '' @ int_text lo @ '' and '' @ int_text hi)))"

datatype option_arg = ANil | ABool bool | AString string

datatype pushed = PInt int | PBool bool | PString string

text \<open>\<open>luaL_checkoption\<close>: the index of the string in the list.\<close>

fun check_option :: "string list \<Rightarrow> string \<Rightarrow> int run" where
  "check_option [] s = Inl (Throw ''invalid option'')"
| "check_option (x # xs) s = (if x = s then Inr 0 else bindR (check_option xs s) (\<lambda>i. Inr (i + 1)))"

text \<open>An empty list of options stands for the null pointer.  The result is the setting and what is pushed.\<close>

definition json_enum_option :: "option_arg \<Rightarrow> int \<Rightarrow> string list \<Rightarrow> int \<Rightarrow> (int \<times> pushed) run" where
  "json_enum_option arg setting options bool_true =
     (let (options, bool_true) = (if options = [] then ([''off'', ''on''], 1) else (options, bool_true)) in
      bindR (case arg of
               ANil \<Rightarrow> Inr setting
             | ABool b \<Rightarrow> if bool_true \<noteq> 0 then Inr (of_bool b * bool_true) else Inl (Throw ''string expected'')
             | AString s \<Rightarrow> check_option options s) (\<lambda>setting.
      Inr (setting, if bool_true \<noteq> 0 \<and> (setting = 0 \<or> setting = bool_true) then PBool (setting \<noteq> 0)
                    else PString (options ! nat setting))))"

section \<open>The functions of the module\<close>

type_synonym cfg_result = "json_config \<times> pushed list run"

definition set_int :: "int run \<Rightarrow> json_config \<Rightarrow> (int \<Rightarrow> json_config) \<Rightarrow> cfg_result" where
  "set_int r cfg upd = (case r of Inl e \<Rightarrow> (cfg, Inl e) | Inr v \<Rightarrow> (upd v, Inr [PInt v]))"

definition json_cfg_encode_sparse_array ::
    "json_config \<Rightarrow> option_arg \<Rightarrow> int option \<Rightarrow> int option \<Rightarrow> cfg_result" where
  "json_cfg_encode_sparse_array cfg convert ratio safe =
     (case json_enum_option convert (encode_sparse_convert cfg) [] 1 of
        Inl e \<Rightarrow> (cfg, Inl e)
      | Inr (c, p1) \<Rightarrow>
          let cfg = cfg\<lparr>encode_sparse_convert := c\<rparr> in
          case json_integer_option ratio (encode_sparse_ratio cfg) 0 2147483647 of
            Inl e \<Rightarrow> (cfg, Inl e)
          | Inr r \<Rightarrow>
              let cfg = cfg\<lparr>encode_sparse_ratio := r\<rparr> in
              case json_integer_option safe (encode_sparse_safe cfg) 0 2147483647 of
                Inl e \<Rightarrow> (cfg, Inl e)
              | Inr s \<Rightarrow> (cfg\<lparr>encode_sparse_safe := s\<rparr>, Inr [p1, PInt r, PInt s]))"

definition json_cfg_encode_max_depth :: "json_config \<Rightarrow> int option \<Rightarrow> cfg_result" where
  "json_cfg_encode_max_depth cfg arg =
     set_int (json_integer_option arg (encode_max_depth cfg) 1 2147483647) cfg (\<lambda>v. cfg\<lparr>encode_max_depth := v\<rparr>)"

definition json_cfg_decode_max_depth :: "json_config \<Rightarrow> int option \<Rightarrow> cfg_result" where
  "json_cfg_decode_max_depth cfg arg =
     set_int (json_integer_option arg (decode_max_depth cfg) 1 2147483647) cfg (\<lambda>v. cfg\<lparr>decode_max_depth := v\<rparr>)"

definition json_cfg_encode_number_precision :: "json_config \<Rightarrow> int option \<Rightarrow> cfg_result" where
  "json_cfg_encode_number_precision cfg arg =
     set_int (json_integer_option arg (encode_number_precision cfg) 1 14) cfg (\<lambda>v. cfg\<lparr>encode_number_precision := v\<rparr>)"

definition json_cfg_encode_keep_buffer :: "json_config \<Rightarrow> option_arg \<Rightarrow> cfg_result" where
  "json_cfg_encode_keep_buffer cfg arg =
     (let old_value = encode_keep_buffer cfg in
      case json_enum_option arg (encode_keep_buffer cfg) [] 1 of
        Inl e \<Rightarrow> (cfg, Inl e)
      | Inr (v, p) \<Rightarrow>
          let cfg = cfg\<lparr>encode_keep_buffer := v\<rparr> in
          if old_value XOR v \<noteq> 0 then
            if v \<noteq> 0 then
              (case strbuf_init 0 of
                 Inl e \<Rightarrow> (cfg, Inl e)
               | Inr buf \<Rightarrow> (cfg\<lparr>encode_buf := buf\<rparr>, Inr [p]))
            else (cfg\<lparr>encode_buf := strbuf_free (encode_buf cfg)\<rparr>, Inr [p])
          else (cfg, Inr [p]))"

text \<open>With the default build options \<open>json_verify_invalid_number_setting\<close> does nothing.\<close>

definition json_cfg_encode_invalid_numbers :: "json_config \<Rightarrow> option_arg \<Rightarrow> cfg_result" where
  "json_cfg_encode_invalid_numbers cfg arg =
     (case json_enum_option arg (encode_invalid_numbers cfg) [''off'', ''on'', ''null''] 1 of
        Inl e \<Rightarrow> (cfg, Inl e)
      | Inr (v, p) \<Rightarrow> (cfg\<lparr>encode_invalid_numbers := v\<rparr>, Inr [p]))"

definition json_cfg_decode_invalid_numbers :: "json_config \<Rightarrow> option_arg \<Rightarrow> cfg_result" where
  "json_cfg_decode_invalid_numbers cfg arg =
     (case json_enum_option arg (decode_invalid_numbers cfg) [] 1 of
        Inl e \<Rightarrow> (cfg, Inl e)
      | Inr (v, p) \<Rightarrow> (cfg\<lparr>decode_invalid_numbers := v\<rparr>, Inr [p]))"

section \<open>What every configuration satisfies\<close>

definition config_ok :: "json_config \<Rightarrow> bool" where
  "config_ok cfg \<longleftrightarrow>
     encode_sparse_convert cfg \<in> {0, 1} \<and> 0 \<le> encode_sparse_ratio cfg \<and> encode_sparse_ratio cfg < 2147483648 \<and>
     0 \<le> encode_sparse_safe cfg \<and> encode_sparse_safe cfg < 2147483648 \<and>
     1 \<le> encode_max_depth cfg \<and> encode_max_depth cfg < 2147483648 \<and> encode_invalid_numbers cfg \<in> {0, 1, 2} \<and>
     1 \<le> encode_number_precision cfg \<and> encode_number_precision cfg \<le> 14 \<and> encode_keep_buffer cfg \<in> {0, 1} \<and>
     decode_invalid_numbers cfg \<in> {0, 1} \<and> 1 \<le> decode_max_depth cfg \<and> decode_max_depth cfg < 2147483648 \<and>
     (if encode_keep_buffer cfg = 1 then strbuf_ok (encode_buf cfg) else sb_buf (encode_buf cfg) = [])"

text \<open>The configurations a program can reach.\<close>

inductive config_reach :: "json_config \<Rightarrow> bool" where
  create: "json_create_config = Inr cfg \<Longrightarrow> config_reach cfg"
| sparse: "config_reach cfg \<Longrightarrow> config_reach (fst (json_cfg_encode_sparse_array cfg a b c))"
| encode_depth: "config_reach cfg \<Longrightarrow> config_reach (fst (json_cfg_encode_max_depth cfg b))"
| decode_depth: "config_reach cfg \<Longrightarrow> config_reach (fst (json_cfg_decode_max_depth cfg b))"
| precision: "config_reach cfg \<Longrightarrow> config_reach (fst (json_cfg_encode_number_precision cfg b))"
| keep: "config_reach cfg \<Longrightarrow> config_reach (fst (json_cfg_encode_keep_buffer cfg a))"
| encode_invalid: "config_reach cfg \<Longrightarrow> config_reach (fst (json_cfg_encode_invalid_numbers cfg a))"
| decode_invalid: "config_reach cfg \<Longrightarrow> config_reach (fst (json_cfg_decode_invalid_numbers cfg a))"
| encode: "config_reach cfg \<Longrightarrow> encode_keep_buffer cfg = 1 \<Longrightarrow> strbuf_ok buf \<Longrightarrow> config_reach (cfg\<lparr>encode_buf := buf\<rparr>)"

lemma strbuf_init_default: "\<exists>s. strbuf_init 0 = Inr s \<and> strbuf_ok s"
  using strbuf_new_ok(2) [of 0] by auto

lemma integer_option_range: "json_integer_option arg v lo hi = Inr r \<Longrightarrow> lo \<le> v \<and> v \<le> hi \<Longrightarrow> lo \<le> r \<and> r \<le> hi"
  by (auto simp: json_integer_option_def Let_def split: option.splits if_splits)

lemma check_option_range: "check_option xs s = Inr i \<Longrightarrow> 0 \<le> i \<and> i < int (length xs)"
  by (induction xs arbitrary: i) (auto simp: bindR_Inr_iff split: if_splits)

lemma enum_option_bool: "json_enum_option arg v [] b = Inr (r, p) \<Longrightarrow> v \<in> {0, 1} \<Longrightarrow> r \<in> {0, 1}"
  by (cases arg) (auto simp: json_enum_option_def bindR_Inr_iff split: if_splits)

lemma enum_option_three:
  "json_enum_option arg v [x, y, z] 1 = Inr (r, p) \<Longrightarrow> v \<in> {0, 1, 2} \<Longrightarrow> r \<in> {0, 1, 2}"
  by (cases arg) (auto simp: json_enum_option_def bindR_Inr_iff split: if_splits)

text \<open>
  C33: Whatever the options are set to, in any order and with errors in between, the configuration keeps its ranges, so
  the format of a number can always be built, and the buffer exists exactly when it is to be kept.
\<close>

theorem config_reach_ok: "config_reach cfg \<Longrightarrow> config_ok cfg"
proof (induction rule: config_reach.induct)
  case (create cfg)
  then show ?case using strbuf_init_default by (auto simp: json_create_config_def config_ok_def)
next
  case (sparse cfg a b c)
  show ?case
  proof (cases "json_enum_option a (encode_sparse_convert cfg) [] 1")
    case (Inr r)
    obtain v p where r: "r = (v, p)" by fastforce
    have v: "v \<in> {0, 1}" using enum_option_bool [of a "encode_sparse_convert cfg" 1 v p] Inr r sparse.IH by (simp add: config_ok_def)
    let ?r = "json_integer_option b (encode_sparse_ratio cfg) 0 2147483647"
    let ?s = "json_integer_option c (encode_sparse_safe cfg) 0 2147483647"
    have "0 \<le> x \<and> x \<le> 2147483647" if "?r = Inr x" for x
      using integer_option_range [OF that] sparse.IH by (simp add: config_ok_def)
    moreover have "0 \<le> x \<and> x \<le> 2147483647" if "?s = Inr x" for x
      using integer_option_range [OF that] sparse.IH by (simp add: config_ok_def)
    ultimately show ?thesis using sparse.IH v Inr r
      by (cases ?r; cases ?s) (simp_all add: json_cfg_encode_sparse_array_def config_ok_def Let_def)
  qed (use sparse.IH in \<open>simp add: json_cfg_encode_sparse_array_def\<close>)
next
  case (encode_depth cfg b)
  then show ?case
    by (auto simp: json_cfg_encode_max_depth_def set_int_def config_ok_def split: sum.splits dest!: integer_option_range)
next
  case (decode_depth cfg b)
  then show ?case
    by (auto simp: json_cfg_decode_max_depth_def set_int_def config_ok_def split: sum.splits dest!: integer_option_range)
next
  case (precision cfg b)
  then show ?case
    by (auto simp: json_cfg_encode_number_precision_def set_int_def config_ok_def split: sum.splits dest!: integer_option_range)
next
  case (keep cfg a)
  show ?case
  proof (cases "json_enum_option a (encode_keep_buffer cfg) [] 1")
    case (Inr r)
    obtain v p where r: "r = (v, p)" by fastforce
    have v: "v \<in> {0, 1}" "encode_keep_buffer cfg \<in> {0, 1}"
      using enum_option_bool [of a "encode_keep_buffer cfg" 1 v p] Inr r keep.IH by (auto simp: config_ok_def)
    obtain s where s: "strbuf_init 0 = Inr s" "strbuf_ok s" using strbuf_init_default by blast
    show ?thesis using keep.IH v s Inr r
      by (auto simp: json_cfg_encode_keep_buffer_def Let_def config_ok_def strbuf_free_def)
  qed (use keep.IH in \<open>simp add: json_cfg_encode_keep_buffer_def Let_def\<close>)
next
  case (encode_invalid cfg a)
  then show ?case
    by (auto simp: json_cfg_encode_invalid_numbers_def config_ok_def split: sum.splits dest!: enum_option_three)
next
  case (decode_invalid cfg a)
  then show ?case
    by (auto simp: json_cfg_decode_invalid_numbers_def config_ok_def split: sum.splits dest!: enum_option_bool)
next
  case (encode cfg buf)
  then show ?case by (simp add: config_ok_def)
qed

theorem config_reach_ok_witness:
  "\<exists>cfg. json_create_config = Inr cfg \<and> config_ok (fst (json_cfg_encode_number_precision cfg (Some 20)))"
proof -
  obtain s where "strbuf_init 0 = Inr s" using strbuf_init_default by blast
  then obtain cfg where c: "json_create_config = Inr cfg" by (simp add: json_create_config_def)
  from config_reach_ok [OF config_reach.precision [OF config_reach.create [OF c]]] c show ?thesis by blast
qed

text \<open>
  The range of an integer option is checked after it has been cut to 32 bits: a depth of \<open>2 ^ 32 + 5\<close> is taken
  to be five.
\<close>

lemma integer_option_narrows: "json_integer_option (Some (2 ^ 32 + 5)) v 1 2147483647 = Inr 5"
proof -
  have "(word_of_int (2 ^ 32 + 5) :: u32) = 5" by (simp add: word_of_int_eq_iff take_bit_eq_mod)
  then have "sint (word_of_int (2 ^ 32 + 5) :: u32) = 5" by simp
  then show ?thesis by (simp add: json_integer_option_def)
qed

end
