(* ===== verification/Json_String.thy ===== *)
theory Json_String
  imports Strbuf
begin

text \<open>
  JSON strings of \<^verbatim>\<open>src/depends/json/lua_cjson.c\<close>: escaping when a Lua string is written, and decoding
  escapes, with UTF-16 surrogates, when a JSON string is read.  The text that is parsed is a Lua string,
  which is followed by a zero byte; the pointer into it is the list of the bytes that are left.
\<close>

section \<open>Writing a string\<close>

definition char2escape :: "u8 list option list" where
  "char2escape =
    [Some [92, 117, 48, 48, 48, 48], Some [92, 117, 48, 48, 48, 49], Some [92, 117, 48, 48, 48, 50], Some [92, 117, 48, 48, 48, 51],
     Some [92, 117, 48, 48, 48, 52], Some [92, 117, 48, 48, 48, 53], Some [92, 117, 48, 48, 48, 54], Some [92, 117, 48, 48, 48, 55],
     Some [92, 98], Some [92, 116], Some [92, 110], Some [92, 117, 48, 48, 48, 98],
     Some [92, 102], Some [92, 114], Some [92, 117, 48, 48, 48, 101], Some [92, 117, 48, 48, 48, 102],
     Some [92, 117, 48, 48, 49, 48], Some [92, 117, 48, 48, 49, 49], Some [92, 117, 48, 48, 49, 50], Some [92, 117, 48, 48, 49, 51],
     Some [92, 117, 48, 48, 49, 52], Some [92, 117, 48, 48, 49, 53], Some [92, 117, 48, 48, 49, 54], Some [92, 117, 48, 48, 49, 55],
     Some [92, 117, 48, 48, 49, 56], Some [92, 117, 48, 48, 49, 57], Some [92, 117, 48, 48, 49, 97], Some [92, 117, 48, 48, 49, 98],
     Some [92, 117, 48, 48, 49, 99], Some [92, 117, 48, 48, 49, 100], Some [92, 117, 48, 48, 49, 101], Some [92, 117, 48, 48, 49, 102]] @
    [None, None, Some [92, 34], None, None, None, None, None,
     None, None, None, None, None, None, None, Some [92, 47]] @
    replicate 44 None @ [Some [92, 92]] @ replicate 34 None @
    [Some [92, 117, 48, 48, 55, 102]] @ replicate 128 None"

fun append_string_chars :: "strbuf \<Rightarrow> u8 list \<Rightarrow> strbuf run" where
  "append_string_chars s [] = Inr s"
| "append_string_chars s (c # str) =
     bindR (case char2escape ! unat c of
              Some escstr \<Rightarrow> strbuf_append_string s escstr
            | None \<Rightarrow> strbuf_append_char_unsafe s c) (\<lambda>s.
     append_string_chars s str)"

text \<open>The room that is asked for is a \<open>size_t\<close> which becomes an \<open>int\<close>.\<close>

definition json_append_string :: "strbuf \<Rightarrow> u8 list \<Rightarrow> strbuf run" where
  "json_append_string json str =
     bindR (strbuf_ensure_empty_length json (sint (of_nat (length str * 6 + 2) :: u32))) (\<lambda>s.
     bindR (strbuf_append_char_unsafe s 34) (\<lambda>s.
     bindR (append_string_chars s str) (\<lambda>s.
     strbuf_append_char_unsafe s 34)))"

section \<open>Reading the text\<close>

record json_parse =
  jp_len :: nat
  jp_ptr :: "u8 list"
  jp_tmp :: strbuf
  jp_depth :: int

definition peek :: "u8 list \<Rightarrow> nat \<Rightarrow> u8 run" where
  "peek p k = (if k < length p then Inr (p ! k) else if k = length p then Inr 0 else Inl OutOfBounds)"

definition advance :: "nat \<Rightarrow> json_parse \<Rightarrow> json_parse run" where
  "advance k j = (if k \<le> length (jp_ptr j) then Inr (j\<lparr>jp_ptr := drop k (jp_ptr j)\<rparr>) else Inl OutOfBounds)"

section \<open>Escapes\<close>

text \<open>Bytes from 128 on are negative as \<open>char\<close>; they fail both tests as unsigned values, too.\<close>

definition hexdigit2int :: "u8 \<Rightarrow> int" where
  "hexdigit2int hex =
     (if 48 \<le> hex \<and> hex \<le> 57 then uint hex - 48
      else let hex = hex OR 0x20 in if 97 \<le> hex \<and> hex \<le> 102 then 10 + uint hex - 97 else -1)"

fun hex4_loop :: "nat \<Rightarrow> u8 list \<Rightarrow> nat \<Rightarrow> int list \<Rightarrow> int list option run" where
  "hex4_loop 0 p i digit = Inr (Some digit)"
| "hex4_loop (Suc n) p i digit =
     bindR (peek p i) (\<lambda>h.
     if hexdigit2int h < 0 then Inr None else hex4_loop n p (i + 1) (digit @ [hexdigit2int h]))"

definition decode_hex4 :: "u8 list \<Rightarrow> nat \<Rightarrow> int run" where
  "decode_hex4 p i =
     bindR (hex4_loop 4 p i []) (\<lambda>digit.
     Inr (case digit of
       Some d \<Rightarrow> push_bit 12 (d ! 0) + push_bit 8 (d ! 1) + push_bit 4 (d ! 2) + d ! 3
     | None \<Rightarrow> -1))"

text \<open>The length that the function returns is the length of the list.\<close>

definition codepoint_to_utf8 :: "int \<Rightarrow> u8 list" where
  "codepoint_to_utf8 codepoint =
     (if codepoint \<le> 0x7F then [word_of_int codepoint]
      else if codepoint \<le> 0x7FF then
        [word_of_int (drop_bit 6 codepoint OR 0xC0), word_of_int ((codepoint AND 0x3F) OR 0x80)]
      else if codepoint \<le> 0xFFFF then
        [word_of_int (drop_bit 12 codepoint OR 0xE0), word_of_int ((drop_bit 6 codepoint AND 0x3F) OR 0x80),
         word_of_int ((codepoint AND 0x3F) OR 0x80)]
      else if codepoint \<le> 0x1FFFFF then
        [word_of_int (drop_bit 18 codepoint OR 0xF0), word_of_int ((drop_bit 12 codepoint AND 0x3F) OR 0x80),
         word_of_int ((drop_bit 6 codepoint AND 0x3F) OR 0x80), word_of_int ((codepoint AND 0x3F) OR 0x80)]
      else [])"

text \<open>\<open>None\<close> is the result -1.\<close>

definition append_utf8 :: "json_parse \<Rightarrow> int \<Rightarrow> nat \<Rightarrow> json_parse option run" where
  "append_utf8 j codepoint escape_len =
     (let utf8 = codepoint_to_utf8 codepoint in
      if utf8 = [] then Inr None
      else bindR (strbuf_append_mem_unsafe (jp_tmp j) utf8) (\<lambda>tmp.
           bindR (advance escape_len (j\<lparr>jp_tmp := tmp\<rparr>)) (\<lambda>j. Inr (Some j))))"

definition json_append_unicode_escape :: "json_parse \<Rightarrow> json_parse option run" where
  "json_append_unicode_escape j =
     (let p = jp_ptr j in
      bindR (decode_hex4 p 2) (\<lambda>codepoint.
      if codepoint < 0 then Inr None
      else if codepoint AND 0xF800 = 0xD800 then
        if codepoint AND 0x400 \<noteq> 0 then Inr None
        else
          bindR (peek p 6) (\<lambda>c6.
          if c6 \<noteq> 92 then Inr None
          else bindR (peek p 7) (\<lambda>c7.
          if c7 \<noteq> 117 then Inr None
          else bindR (decode_hex4 p 8) (\<lambda>surrogate_low.
          if surrogate_low < 0 then Inr None
          else if surrogate_low AND 0xFC00 \<noteq> 0xDC00 then Inr None
          else append_utf8 j ((push_bit 10 (codepoint AND 0x3FF) OR (surrogate_low AND 0x3FF)) + 0x10000) 12)))
      else append_utf8 j codepoint 6))"

definition escape2char :: "u8 \<Rightarrow> u8" where
  "escape2char =
     (\<lambda>_. 0)(34 := 34, 92 := 92, 47 := 47, 98 := 8, 116 := 9, 110 := 10, 102 := 12, 114 := 13, 117 := 117)"

section \<open>A string token\<close>

lemma unicode_escape_shrinks:
  assumes "json_append_unicode_escape j = Inr (Some j')" "jp_ptr j \<noteq> []"
  shows "length (jp_ptr j') < length (jp_ptr j)"
proof -
  have "append_utf8 j cp n = Inr (Some j') \<Longrightarrow> 0 < n \<Longrightarrow> length (jp_ptr j') < length (jp_ptr j)" for cp n
    using assms(2) by (auto simp: append_utf8_def advance_def Let_def bindR_Inr_iff split: if_splits)
  with assms(1) show ?thesis
    by (auto simp: json_append_unicode_escape_def Let_def bindR_Inr_iff split: if_splits)
qed

text \<open>The result is the parser and the error, if there is one.\<close>

function string_loop :: "json_parse \<Rightarrow> (json_parse \<times> string option) run" where
  "string_loop j =
     bindR (peek (jp_ptr j) 0) (\<lambda>ch.
     if ch = 34 then Inr (j, None)
     else if ch = 0 then Inr (j, Some ''unexpected end of string'')
     else if ch = 92 then
       bindR (peek (jp_ptr j) 1) (\<lambda>c1.
       let ch = escape2char c1 in
       if ch = 117 then
         bindR (json_append_unicode_escape j) (\<lambda>r.
         case r of
           Some j \<Rightarrow> string_loop j
         | None \<Rightarrow> Inr (j, Some ''invalid unicode escape code''))
       else if ch = 0 then Inr (j, Some ''invalid escape code'')
       else
         bindR (advance 1 j) (\<lambda>j.
         bindR (strbuf_append_char_unsafe (jp_tmp j) ch) (\<lambda>tmp.
         bindR (advance 1 (j\<lparr>jp_tmp := tmp\<rparr>)) string_loop)))
     else
       bindR (strbuf_append_char_unsafe (jp_tmp j) ch) (\<lambda>tmp.
       bindR (advance 1 (j\<lparr>jp_tmp := tmp\<rparr>)) string_loop))"
  by pat_completeness auto
termination
proof (relation "measure (\<lambda>j. length (jp_ptr j))", goal_cases)
  case (2 j ch c1 x r j')
  then have "jp_ptr j \<noteq> []" by (auto simp: peek_def split: if_splits)
  with 2 show ?case using unicode_escape_shrinks by simp
qed (auto simp: peek_def advance_def split: if_splits)

declare string_loop.simps [simp del]

text \<open>The string of the token, or the error.\<close>

definition json_next_string_token :: "json_parse \<Rightarrow> (json_parse \<times> (string + u8 list)) run" where
  "json_next_string_token j =
     bindR (advance 1 j) (\<lambda>j.
     bindR (string_loop (j\<lparr>jp_tmp := strbuf_reset (jp_tmp j)\<rparr>)) (\<lambda>(j, err).
     case err of
       Some e \<Rightarrow> Inr (j, Inl e)
     | None \<Rightarrow>
         bindR (advance 1 j) (\<lambda>j.
         bindR (strbuf_ensure_null (jp_tmp j)) (\<lambda>tmp.
         let (buf, string_len) = strbuf_string tmp in
         Inr (j\<lparr>jp_tmp := tmp\<rparr>, Inr (take (nat string_len) buf))))))"

section \<open>The table of escapes\<close>

definition escape1 :: "u8 \<Rightarrow> u8 list" where
  "escape1 c = (case char2escape ! unat c of Some e \<Rightarrow> e | None \<Rightarrow> [c])"

definition escape_string :: "u8 list \<Rightarrow> u8 list" where
  "escape_string str = concat (map escape1 str)"

text \<open>What is checked of each entry: it decodes to its index.\<close>

definition esc_ok :: "nat \<times> u8 list option \<Rightarrow> bool" where
  "esc_ok ie = (case ie of
     (i, None) \<Rightarrow> i \<noteq> 0 \<and> i \<noteq> 34 \<and> i \<noteq> 92
   | (i, Some [b, x]) \<Rightarrow> b = 92 \<and> x \<noteq> 0 \<and> unat (escape2char x) = i \<and> i \<noteq> 0 \<and> i \<noteq> 117
   | (i, Some [b, u, z1, z2, h, l]) \<Rightarrow> b = 92 \<and> u = 117 \<and> z1 = 48 \<and> z2 = 48 \<and> h \<noteq> 0 \<and> l \<noteq> 0 \<and>
       0 \<le> hexdigit2int h \<and> 0 \<le> hexdigit2int l \<and> int i = 16 * hexdigit2int h + hexdigit2int l \<and> i \<le> 127
   | _ \<Rightarrow> False)"

lemma char2escape_checked: "length char2escape = 256 \<and> list_all esc_ok (zip [0..<256] char2escape)"
  by code_simp

lemma esc_ok: "esc_ok (unat c, char2escape ! unat (c :: u8))"
proof -
  have "unat c < 256" using unsigned_less [of c] by simp
  then have "(unat c, char2escape ! unat c) = zip [0..<256] char2escape ! unat c" "unat c < length (zip [0..<256] char2escape)"
    using char2escape_checked by simp_all
  then have "(unat c, char2escape ! unat c) \<in> set (zip [0..<256] char2escape)" by (metis nth_mem)
  then show ?thesis using char2escape_checked by (simp add: list_all_iff)
qed

lemma escape_cases:
  obtains (plain) "char2escape ! unat c = None" "c \<noteq> 0" "c \<noteq> 34" "c \<noteq> 92"
  | (short) x where "char2escape ! unat c = Some [92, x]" "escape2char x = c" "x \<noteq> 0" "c \<noteq> 0" "c \<noteq> 117"
  | (unicode) h l where "char2escape ! unat c = Some [92, 117, 48, 48, h, l]" "h \<noteq> 0" "l \<noteq> 0"
    "0 \<le> hexdigit2int h" "0 \<le> hexdigit2int l" "uint c = 16 * hexdigit2int h + hexdigit2int l" "uint c \<le> 127"
proof -
  note e = esc_ok [of c]
  show thesis
  proof (cases "char2escape ! unat c")
    case None
    have "unat c \<noteq> 0 \<and> unat c \<noteq> 34 \<and> unat c \<noteq> 92" using e None by (simp add: esc_ok_def)
    then have "c \<noteq> 0" "c \<noteq> 34" "c \<noteq> 92" by auto
    then show thesis using plain None by blast
  next
    case (Some e')
    note e = e [unfolded Some]
    consider b x where "e' = [b, x]" | b u z1 z2 h l where "e' = [b, u, z1, z2, h, l]"
      using e by (auto simp: esc_ok_def split: list.splits)
    then show thesis
    proof cases
      case 1
      with e have *: "b = 92" "x \<noteq> 0" "unat (escape2char x) = unat c" "unat c \<noteq> 0" "unat c \<noteq> 117" by (simp_all add: esc_ok_def)
      then have "escape2char x = c" "c \<noteq> 0" "c \<noteq> 117" by (auto simp: word_unat_eq_iff)
      then show thesis using short Some 1 * by blast
    next
      case 2
      with e have *: "e' = [92, 117, 48, 48, h, l]" "h \<noteq> 0" "l \<noteq> 0" "0 \<le> hexdigit2int h" "0 \<le> hexdigit2int l"
        "int (unat c) = 16 * hexdigit2int h + hexdigit2int l" "unat c \<le> 127" by (simp_all add: esc_ok_def)
      have "uint c = int (unat c)" by simp
      with * have "uint c = 16 * hexdigit2int h + hexdigit2int l" "uint c \<le> 127" by linarith+
      then show thesis using unicode [of h l] Some * by blast
    qed
  qed
qed

lemma escape1_facts: "0 \<notin> set (case char2escape ! unat c of Some e \<Rightarrow> e | None \<Rightarrow> [])" "length (escape1 c) \<le> 6" "1 \<le> length (escape1 c)"
  by (cases c rule: escape_cases; simp add: escape1_def)+

section \<open>Writing\<close>

lemma append_string_chars_ok:
  assumes "strbuf_ok s" "int (6 * length str + 1) \<le> strbuf_empty_length s"
  shows "\<exists>s'. append_string_chars s str = Inr s' \<and> strbuf_ok s' \<and> content s' = content s @ escape_string str \<and>
    1 \<le> strbuf_empty_length s'"
  using assms
proof (induction str arbitrary: s)
  case (Cons c str)
  let ?r = "case char2escape ! unat c of Some escstr \<Rightarrow> strbuf_append_string s escstr | None \<Rightarrow> strbuf_append_char_unsafe s c"
  have len: "int (length (escape1 c)) \<le> strbuf_empty_length s" "length (escape1 c) \<le> 6"
    using escape1_facts(2) [of c] Cons.prems(2) by simp_all
  have "\<exists>s1. ?r = Inr s1 \<and> strbuf_ok s1 \<and> content s1 = content s @ escape1 c \<and>
      strbuf_empty_length s1 = strbuf_empty_length s - int (length (escape1 c))"
  proof (cases "char2escape ! unat c")
    case None
    then show ?thesis using append_char_unsafe_ok [OF Cons.prems(1), of c] len by (simp add: escape1_def)
  next
    case (Some e)
    have z: "0 \<notin> set e" and e: "escape1 c = e" using escape1_facts(1) [of c] Some by (simp_all add: escape1_def)
    from append_string_loop_ok(2) [OF Cons.prems(1) refl z] len e obtain s1 where
      s1: "strbuf_append_string s e = Inr s1" "strbuf_empty_length s1 = strbuf_empty_length s - int (length e)"
      by (auto simp: strbuf_append_string_def)
    with append_string_ok [OF Cons.prems(1) z] Some e show ?thesis by (simp add: appends_def)
  qed
  then obtain s1 where s1: "?r = Inr s1" "strbuf_ok s1" "content s1 = content s @ escape1 c"
    "strbuf_empty_length s1 = strbuf_empty_length s - int (length (escape1 c))" by blast
  have "int (6 * length str + 1) \<le> strbuf_empty_length s1" using s1(4) len Cons.prems(2) by simp
  from Cons.IH [OF s1(2) this] s1(1,3) show ?case by (simp add: escape_string_def)
qed (simp add: escape_string_def)

lemma append_string_escapes:
  assumes "strbuf_ok s" "length str \<le> 357913940"
  shows "appends (int (6 * length str + 2)) s (34 # escape_string str @ [34]) (json_append_string s str)"
proof -
  have n: "sint (of_nat (length str * 6 + 2) :: u32) = int (6 * length str + 2)"
    using assms(2) by (subst sint_of_nat_u32) simp_all
  let ?r = "strbuf_ensure_empty_length s (int (6 * length str + 2))"
  have r: "case ?r of Inr s' \<Rightarrow> strbuf_ok s' \<and> content s' = content s \<and> sb_length s' = sb_length s \<and>
        int (6 * length str + 2) \<le> strbuf_empty_length s'
      | Inl e \<Rightarrow> e = Overflow \<and> 1073741824 \<le> sb_length s + int (6 * length str + 2)"
    by (rule ensure_empty_ok [OF assms(1)]) simp
  show ?thesis
  proof (cases ?r)
    case (Inl e)
    then show ?thesis using r unfolding json_append_string_def n by (simp add: appends_def)
  next
    case (Inr s1)
    then have s1: "strbuf_ok s1" "content s1 = content s" "int (6 * length str + 2) \<le> strbuf_empty_length s1" using r by simp_all
    from append_char_unsafe_ok [OF s1(1), of 34] s1(2,3) obtain s2 where s2: "strbuf_append_char_unsafe s1 34 = Inr s2"
      "strbuf_ok s2" "content s2 = content s @ [34]" "int (6 * length str + 1) \<le> strbuf_empty_length s2" by auto
    from append_string_chars_ok [OF s2(2,4)] s2(3) obtain s3 where s3: "append_string_chars s2 str = Inr s3"
      "strbuf_ok s3" "content s3 = content s @ 34 # escape_string str" "1 \<le> strbuf_empty_length s3" by auto
    from append_char_unsafe_ok [OF s3(2,4), of 34] s3(3) show ?thesis
      unfolding json_append_string_def n Inr using s2(1) s3(1) by (auto simp: appends_def)
  qed
qed

section \<open>Reading stays inside the text and the buffer\<close>

text \<open>
  While a string is read, what has been decoded is not longer than what has been read, and the buffer was
  made as large as the whole text.
\<close>

definition jp_ok :: "json_parse \<Rightarrow> bool" where
  "jp_ok j \<longleftrightarrow> strbuf_ok (jp_tmp j) \<and> length (jp_ptr j) \<le> jp_len j \<and> int (jp_len j) < sb_size (jp_tmp j)"

definition reading :: "json_parse \<Rightarrow> bool" where
  "reading j \<longleftrightarrow> jp_ok j \<and> sb_length (jp_tmp j) + int (length (jp_ptr j)) \<le> int (jp_len j)"

text \<open>What stays the same, or only moves forward.\<close>

definition follows :: "json_parse \<Rightarrow> json_parse \<Rightarrow> bool" where
  "follows j j' \<longleftrightarrow> jp_len j' = jp_len j \<and> jp_depth j' = jp_depth j \<and> sb_size (jp_tmp j') = sb_size (jp_tmp j) \<and>
     (\<exists>k. k \<le> length (jp_ptr j) \<and> jp_ptr j' = drop k (jp_ptr j))"

lemma follows_refl [simp]: "follows j j"
  by (auto simp: follows_def intro: exI [of _ 0])

lemma follows_trans: "follows a b \<Longrightarrow> follows b c \<Longrightarrow> follows a c"
proof -
  assume "follows a b" "follows b c"
  then obtain k l where "k \<le> length (jp_ptr a)" "jp_ptr b = drop k (jp_ptr a)" "l \<le> length (jp_ptr b)" "jp_ptr c = drop l (jp_ptr b)"
    and r: "jp_len c = jp_len a \<and> jp_depth c = jp_depth a \<and> sb_size (jp_tmp c) = sb_size (jp_tmp a)"
    by (auto simp: follows_def)
  then have "k + l \<le> length (jp_ptr a)" "jp_ptr c = drop (k + l) (jp_ptr a)" by (simp_all add: add.commute)
  then show ?thesis using r unfolding follows_def by blast
qed

lemma follows_length: "follows j j' \<Longrightarrow> length (jp_ptr j') \<le> length (jp_ptr j)"
  by (auto simp: follows_def)

lemma append_mem_unsafe_size:
  assumes "strbuf_ok s" "int (length c) \<le> strbuf_empty_length s"
  shows "\<exists>s'. strbuf_append_mem_unsafe s c = Inr s' \<and> strbuf_ok s' \<and> content s' = content s @ c \<and>
    sb_length s' = sb_length s + int (length c) \<and> sb_size s' = sb_size s"
proof -
  from append_mem_unsafe_ok [OF assms] obtain s' where s': "strbuf_append_mem_unsafe s c = Inr s'" "strbuf_ok s'"
    "content s' = content s @ c" "strbuf_empty_length s' = strbuf_empty_length s - int (length c)" by blast
  have "appends (int (length c)) s c (Inr s')" using s' by (simp add: appends_Inr)
  from appends_length [OF assms(1) this] s'(4) have "sb_length s' = sb_length s + int (length c)" "sb_size s' = sb_size s"
    by (simp_all add: strbuf_empty_length_def)
  then show ?thesis using s' by blast
qed

text \<open>Appending the bytes \<open>c\<close> and going \<open>k\<close> bytes forward.\<close>

lemma append_advance:
  assumes "reading j" "length c \<le> k" "k \<le> length (jp_ptr j)"
  shows "\<exists>s. strbuf_append_mem_unsafe (jp_tmp j) c = Inr s \<and> content s = content (jp_tmp j) @ c \<and>
    advance k (j\<lparr>jp_tmp := s\<rparr>) = Inr (j\<lparr>jp_tmp := s, jp_ptr := drop k (jp_ptr j)\<rparr>) \<and>
    reading (j\<lparr>jp_tmp := s, jp_ptr := drop k (jp_ptr j)\<rparr>) \<and> follows j (j\<lparr>jp_tmp := s, jp_ptr := drop k (jp_ptr j)\<rparr>)"
proof -
  have ok: "strbuf_ok (jp_tmp j)" "length (jp_ptr j) \<le> jp_len j" "int (jp_len j) < sb_size (jp_tmp j)"
    "sb_length (jp_tmp j) + int (length (jp_ptr j)) \<le> int (jp_len j)"
    using assms(1) by (simp_all add: reading_def jp_ok_def)
  have "int (length c) \<le> strbuf_empty_length (jp_tmp j)" using ok assms(2,3) by (simp add: strbuf_empty_length_def)
  from append_mem_unsafe_size [OF ok(1) this] obtain s where s: "strbuf_append_mem_unsafe (jp_tmp j) c = Inr s" "strbuf_ok s"
    "content s = content (jp_tmp j) @ c" "sb_length s = sb_length (jp_tmp j) + int (length c)" "sb_size s = sb_size (jp_tmp j)" by blast
  then show ?thesis using ok assms(2,3) by (auto simp: advance_def reading_def jp_ok_def follows_def)
qed

lemma codepoint_to_utf8_length: "length (codepoint_to_utf8 cp) \<le> (if cp \<le> 65535 then 3 else 4)"
  by (simp add: codepoint_to_utf8_def)

lemma append_utf8_ok:
  assumes "reading j" "n = (if cp \<le> 65535 then 6 else 12)" "n \<le> length (jp_ptr j)"
  shows "\<exists>r. append_utf8 j cp n = Inr r \<and> (\<forall>j'. r = Some j' \<longrightarrow> reading j' \<and> follows j j')"
proof -
  have "length (codepoint_to_utf8 cp) \<le> n" using codepoint_to_utf8_length [of cp] assms(2) by (simp split: if_splits)
  from append_advance [OF assms(1) this assms(3)] show ?thesis by (auto simp: append_utf8_def Let_def)
qed

text \<open>Hexadecimal digits: the terminator is none, so reading stops there.\<close>

lemma hexdigit2int_range: "- 1 \<le> hexdigit2int h" "hexdigit2int h < 16" "hexdigit2int 0 = - 1"
proof -
  have u: "uint h \<le> 57" if "h \<le> 57" using that by (simp add: word_le_def)
  have v: "48 \<le> uint h" if "48 \<le> h" using that by (simp add: word_le_def)
  have w: "uint (h OR 32) \<le> 102" if "h OR 32 \<le> 102" using that by (simp add: word_le_def)
  have x: "97 \<le> uint (h OR 32)" if "97 \<le> h OR 32" using that by (simp add: word_le_def)
  show "- 1 \<le> hexdigit2int h" "hexdigit2int h < 16" using u v w x by (auto simp: hexdigit2int_def Let_def)
  show "hexdigit2int 0 = - 1" by (simp add: hexdigit2int_def)
qed

lemma hex4_loop_ok:
  assumes "i \<le> length p"
  shows "\<exists>r. hex4_loop n p i ds = Inr r \<and> (\<forall>d. r = Some d \<longrightarrow> i + n \<le> length p \<and>
    d = ds @ map (\<lambda>k. hexdigit2int (p ! (i + k))) [0..<n] \<and> (\<forall>k < n. 0 \<le> hexdigit2int (p ! (i + k))))"
  using assms
proof (induction n arbitrary: i ds)
  case (Suc n)
  show ?case
  proof (cases "i = length p \<or> hexdigit2int (p ! i) < 0")
    case True
    then show ?thesis using Suc.prems hexdigit2int_range(3) by (auto simp: peek_def)
  next
    case False
    then have i: "Suc i \<le> length p" "\<not> hexdigit2int (p ! i) < 0" using Suc.prems by simp_all
    then have h: "hex4_loop (Suc n) p i ds = hex4_loop n p (Suc i) (ds @ [hexdigit2int (p ! i)])" by (simp add: peek_def)
    have m: "map f [0..<Suc n] = f 0 # map (\<lambda>k. f (Suc k)) [0..<n]" for f :: "nat \<Rightarrow> int"
      by (simp add: map_upt_Suc del: upt_Suc)
    have "(\<forall>k < Suc n. 0 \<le> hexdigit2int (p ! (i + k))) = (0 \<le> hexdigit2int (p ! i) \<and> (\<forall>k < n. 0 \<le> hexdigit2int (p ! (Suc i + k))))"
      by (simp add: All_less_Suc2)
    with Suc.IH [OF i(1), of "ds @ [hexdigit2int (p ! i)]"] i(2) show ?thesis unfolding h m by auto
  qed
qed simp

lemma decode_hex4_ok:
  assumes "i \<le> length p"
  shows "\<exists>cp. decode_hex4 p i = Inr cp \<and> (cp \<noteq> - 1 \<longrightarrow> 0 \<le> cp \<and> cp \<le> 65535 \<and> i + 4 \<le> length p)"
proof -
  from hex4_loop_ok [OF assms, of 4 "[]"] obtain r where r: "hex4_loop 4 p i [] = Inr r"
    "\<forall>d. r = Some d \<longrightarrow> i + 4 \<le> length p \<and> d = map (\<lambda>k. hexdigit2int (p ! (i + k))) [0..<4] \<and>
      (\<forall>k < 4. 0 \<le> hexdigit2int (p ! (i + k)))" by auto
  show ?thesis
  proof (cases r)
    case (Some d)
    define h where "h = (\<lambda>k. hexdigit2int (p ! (i + k)))"
    have d: "d = [h 0, h 1, h 2, h 3]" and n: "i + 4 \<le> length p" and p: "\<forall>k < 4. 0 \<le> h k"
      using r(2) Some by (simp_all add: h_def upt_rec numeral_eq_Suc)
    have "0 \<le> h 0" "0 \<le> h 1" "0 \<le> h 2" "0 \<le> h 3" using p by simp_all
    moreover have "h k < 16" for k by (simp add: h_def hexdigit2int_range)
    ultimately have "0 \<le> push_bit 12 (h 0) + push_bit 8 (h 1) + push_bit 4 (h 2) + h 3"
      "push_bit 12 (h 0) + push_bit 8 (h 1) + push_bit 4 (h 2) + h 3 \<le> 65535"
      by (simp_all add: push_bit_eq_mult) (smt (verit))
    then show ?thesis using n r(1) Some d by (simp add: decode_hex4_def)
  qed (use r in \<open>simp add: decode_hex4_def\<close>)
qed

lemma unicode_escape_ok:
  assumes "reading j" "2 \<le> length (jp_ptr j)"
  shows "\<exists>r. json_append_unicode_escape j = Inr r \<and> (\<forall>j'. r = Some j' \<longrightarrow> reading j' \<and> follows j j')"
proof -
  let ?p = "jp_ptr j"
  from decode_hex4_ok [OF assms(2)] obtain cp where cp: "decode_hex4 ?p 2 = Inr cp"
    "cp \<noteq> - 1 \<longrightarrow> 0 \<le> cp \<and> cp \<le> 65535 \<and> 6 \<le> length ?p" by auto
  consider "cp < 0" | "0 \<le> cp" "cp AND 0xF800 \<noteq> 0xD800" | "0 \<le> cp" "cp AND 0xF800 = 0xD800" "cp AND 0x400 \<noteq> 0"
    | "0 \<le> cp" "cp AND 0xF800 = 0xD800" "cp AND 0x400 = 0" by linarith
  then show ?thesis
  proof cases
    case 1
    then show ?thesis using cp by (simp add: json_append_unicode_escape_def)
  next
    case 2
    then have "cp \<le> 65535" "6 \<le> length ?p" using cp(2) by auto
    with append_utf8_ok [OF assms(1), of 6 cp] 2 cp(1) show ?thesis by (simp add: json_append_unicode_escape_def)
  next
    case 3
    then show ?thesis using cp by (simp add: json_append_unicode_escape_def)
  next
    case 4
    then have l: "6 \<le> length ?p" using cp(2) by auto
    have p0: "peek ?p k = Inr c \<Longrightarrow> c \<noteq> 0 \<Longrightarrow> Suc k \<le> length ?p" for k c by (auto simp: peek_def split: if_splits)
    have p1: "k \<le> length ?p \<Longrightarrow> \<exists>c. peek ?p k = Inr c" for k by (auto simp: peek_def)
    from p1 [OF l] obtain c6 where c6: "peek ?p 6 = Inr c6" by blast
    have e: "json_append_unicode_escape j =
        (if c6 \<noteq> 92 then Inr None
         else bindR (peek ?p 7) (\<lambda>c7. if c7 \<noteq> 117 then Inr None
         else bindR (decode_hex4 ?p 8) (\<lambda>low. if low < 0 then Inr None else if low AND 0xFC00 \<noteq> 0xDC00 then Inr None
           else append_utf8 j ((push_bit 10 (cp AND 0x3FF) OR (low AND 0x3FF)) + 0x10000) 12)))"
      using 4 cp(1) c6 by (simp add: json_append_unicode_escape_def Let_def)
    show ?thesis
    proof (cases "c6 = 92")
      case True
      then have "7 \<le> length ?p" using p0 [OF c6] by simp
      from p1 [OF this] obtain c7 where c7: "peek ?p 7 = Inr c7" by blast
      show ?thesis
      proof (cases "c7 = 117")
        case True
        then have "8 \<le> length ?p" using p0 [OF c7] by simp
        from decode_hex4_ok [OF this] obtain low where low: "decode_hex4 ?p 8 = Inr low"
          "low \<noteq> - 1 \<longrightarrow> 0 \<le> low \<and> low \<le> 65535 \<and> 12 \<le> length ?p" by auto
        let ?cp = "(push_bit 10 (cp AND 0x3FF) OR (low AND 0x3FF)) + 0x10000"
        show ?thesis
        proof (cases "low < 0")
          case False
          then have "12 \<le> length ?p" "0 \<le> low" using low(2) by auto
          moreover have "0 \<le> push_bit 10 (cp AND 0x3FF) OR (low AND 0x3FF)" by (simp add: or_nonnegative_int_iff)
          then have "\<not> ?cp \<le> 65535" by linarith
          ultimately show ?thesis using append_utf8_ok [OF assms(1), of 12 ?cp] e \<open>c6 = 92\<close> c7 True low(1)
            by simp
        qed (use e \<open>c6 = 92\<close> c7 True low(1) in simp)
      qed (use e \<open>c6 = 92\<close> c7 in simp)
    qed (use e in simp)
  qed
qed

lemma char_unsafe_reading: "reading j \<Longrightarrow> strbuf_append_char_unsafe (jp_tmp j) c = strbuf_append_mem_unsafe (jp_tmp j) [c]"
  by (rule append_char_unsafe_mem) (simp add: reading_def jp_ok_def strbuf_ok_def)

definition string_end :: "json_parse \<Rightarrow> (json_parse \<times> string option) run \<Rightarrow> bool" where
  "string_end j r \<longleftrightarrow> (\<exists>j' err. r = Inr (j', err) \<and> reading j' \<and> follows j j' \<and>
     (err = None \<longrightarrow> (\<exists>rest. jp_ptr j' = 34 # rest)))"

lemma string_end_follows: "follows j j1 \<Longrightarrow> string_end j1 r \<Longrightarrow> string_end j r"
  using follows_trans unfolding string_end_def by blast

lemma string_loop_ok:
  assumes "reading j"
  shows "string_end j (string_loop j)"
  using assms
proof (induction j rule: string_loop.induct)
  case (1 j)
  note IH = "1.IH" and pr = "1.prems"
  show ?case
  proof (cases "jp_ptr j")
    case Nil
    then show ?thesis using pr by (simp add: string_loop.simps [of j] peek_def string_end_def)
  next
    case (Cons ch p)
    then have pk: "peek (jp_ptr j) 0 = Inr ch" by (simp add: peek_def)
    consider "ch = 34 \<or> ch = 0" | "ch = 92" | "ch \<noteq> 34" "ch \<noteq> 0" "ch \<noteq> 92" by blast
    then show ?thesis
    proof cases
      case 1
      then show ?thesis using 1 pr Cons pk by (auto simp: string_loop.simps [of j] string_end_def)
    next
      case 3
      from append_advance [OF pr, of "[ch]" 1] Cons obtain s where
        s: "strbuf_append_char_unsafe (jp_tmp j) ch = Inr s"
          "advance 1 (j\<lparr>jp_tmp := s\<rparr>) = Inr (j\<lparr>jp_tmp := s, jp_ptr := p\<rparr>)"
          "reading (j\<lparr>jp_tmp := s, jp_ptr := p\<rparr>)" "follows j (j\<lparr>jp_tmp := s, jp_ptr := p\<rparr>)"
        using char_unsafe_reading [OF pr] by auto
      have "string_loop j = string_loop (j\<lparr>jp_tmp := s, jp_ptr := p\<rparr>)"
        using 3 pk s(1,2) by (subst string_loop.simps) simp
      with string_end_follows [OF s(4) IH(3) [OF pk 3(1,2,3) s(1,2) s(3)]] show ?thesis by simp
    next
      case 2
      then have n: "ch \<noteq> 34" "ch \<noteq> 0" by simp_all
      have "\<exists>c1. peek (jp_ptr j) 1 = Inr c1 \<and> (c1 \<noteq> 0 \<longrightarrow> 2 \<le> length (jp_ptr j))"
        using Cons by (auto simp: peek_def Suc_le_eq)
      then obtain c1 where c1: "peek (jp_ptr j) 1 = Inr c1" "c1 \<noteq> 0 \<longrightarrow> 2 \<le> length (jp_ptr j)" by blast
      have z: "escape2char 0 = 0" by (simp add: escape2char_def)
      let ?c = "escape2char c1"
      consider "?c = 0" | "?c = 117" | "?c \<noteq> 0" "?c \<noteq> 117" by blast
      then show ?thesis
      proof cases
        case 1
        then show ?thesis using pr 2 pk c1 by (auto simp: string_loop.simps [of j] string_end_def)
      next
        case u: 2
        then have "c1 \<noteq> 0" using z by auto
        with c1(2) have "2 \<le> length (jp_ptr j)" by simp
        from unicode_escape_ok [OF pr this] obtain r where r: "json_append_unicode_escape j = Inr r"
          "\<forall>j'. r = Some j' \<longrightarrow> reading j' \<and> follows j j'" by blast
        show ?thesis
        proof (cases r)
          case None
          then show ?thesis using pr 2 pk c1 u r by (auto simp: string_loop.simps [of j] string_end_def)
        next
          case (Some j1)
          have "string_loop j = string_loop j1"
            using 2 pk c1(1) u r(1) Some by (subst string_loop.simps) simp
          moreover have "reading j1" "follows j j1" using r(2) Some by simp_all
          ultimately show ?thesis using IH(1) [OF pk n 2 c1(1) refl u r(1) Some] string_end_follows by simp
        qed
      next
        case 3
        then have "c1 \<noteq> 0" using z by auto
        with c1(2) have l: "2 \<le> length (jp_ptr j)" by simp
        let ?j1 = "j\<lparr>jp_ptr := p\<rparr>"
        from append_advance [OF pr, of "[?c]" 2] l obtain s where
          s: "strbuf_append_mem_unsafe (jp_tmp j) [?c] = Inr s"
            "reading (j\<lparr>jp_tmp := s, jp_ptr := drop 2 (jp_ptr j)\<rparr>)" "follows j (j\<lparr>jp_tmp := s, jp_ptr := drop 2 (jp_ptr j)\<rparr>)"
          by auto
        have a: "advance 1 j = Inr ?j1" "advance 1 (?j1\<lparr>jp_tmp := s\<rparr>) = Inr (j\<lparr>jp_tmp := s, jp_ptr := drop 2 (jp_ptr j)\<rparr>)"
          using l Cons by (simp_all add: advance_def numeral_2_eq_2)
        have c: "strbuf_append_char_unsafe (jp_tmp ?j1) ?c = Inr s" using s(1) char_unsafe_reading [OF pr] by simp
        have "string_loop j = string_loop (j\<lparr>jp_tmp := s, jp_ptr := drop 2 (jp_ptr j)\<rparr>)"
          using 2 pk c1(1) 3 a c by (subst string_loop.simps) simp
        with string_end_follows [OF s(3) IH(2) [OF pk n 2 c1(1) refl 3(2,1) a(1) c a(2) s(2)]] show ?thesis by simp
      qed
    qed
  qed
qed

lemma next_string_token_ok:
  assumes "jp_ok j" "jp_ptr j = 34 # p"
  shows "\<exists>j1 err. string_loop (j\<lparr>jp_ptr := p, jp_tmp := strbuf_reset (jp_tmp j)\<rparr>) = Inr (j1, err) \<and>
    (\<exists>j'. json_next_string_token j = Inr (j', case err of Some e \<Rightarrow> Inl e | None \<Rightarrow> Inr (content (jp_tmp j1))) \<and>
      jp_ok j' \<and> follows j j' \<and> length (jp_ptr j') < length (jp_ptr j) \<and>
      (if err = None then 34 # jp_ptr j' = jp_ptr j1 \<and> length (content (jp_tmp j1)) + length (jp_ptr j') < jp_len j else j' = j1))"
proof -
  let ?j0 = "j\<lparr>jp_ptr := p, jp_tmp := strbuf_reset (jp_tmp j)\<rparr>"
  have r0: "reading ?j0" using assms by (auto simp: reading_def jp_ok_def strbuf_reset_def strbuf_ok_def)
  have f0: "follows j ?j0" using assms by (auto simp: follows_def strbuf_reset_def intro: exI [of _ 1])
  have a0: "advance 1 j = Inr (j\<lparr>jp_ptr := p\<rparr>)" using assms by (simp add: advance_def)
  from string_loop_ok [OF r0] obtain j1 err where l: "string_loop ?j0 = Inr (j1, err)" "reading j1" "follows ?j0 j1"
    "err = None \<longrightarrow> (\<exists>rest. jp_ptr j1 = 34 # rest)" by (auto simp: string_end_def)
  have f1: "follows j j1" by (rule follows_trans [OF f0 l(3)])
  have len: "length (jp_ptr j1) \<le> length p" using follows_length [OF l(3)] by simp
  have ok1: "strbuf_ok (jp_tmp j1)" "jp_ok j1" "sb_length (jp_tmp j1) + int (length (jp_ptr j1)) \<le> int (jp_len j)"
    using l(2) f1 by (auto simp: reading_def jp_ok_def follows_def)
  show ?thesis
  proof (cases err)
    case (Some e)
    then show ?thesis using l a0 f1 len ok1(2) assms(2) by (auto simp: json_next_string_token_def)
  next
    case None
    with l(4) obtain rest where rest: "jp_ptr j1 = 34 # rest" by blast
    let ?tmp = "(jp_tmp j1)\<lparr>sb_buf := (sb_buf (jp_tmp j1))[nat (sb_length (jp_tmp j1)) := 0]\<rparr>"
    let ?j2 = "j1\<lparr>jp_ptr := rest, jp_tmp := ?tmp\<rparr>"
    have n: "strbuf_ensure_null (jp_tmp j1) = Inr ?tmp" using ok1(1) by (simp add: strbuf_ensure_null_def put_byte_def strbuf_ok_def)
    have "json_next_string_token j = Inr (?j2, Inr (content (jp_tmp j1)))"
      using l(1) a0 None rest n by (simp add: json_next_string_token_def advance_def strbuf_string_def content_def)
    moreover have "jp_ok ?j2" using ok1(2) rest by (simp add: jp_ok_def strbuf_ok_def)
    moreover have "follows j1 ?j2" using rest by (auto simp: follows_def intro: exI [of _ 1])
    then have "follows j ?j2" by (rule follows_trans [OF f1])
    moreover have "length (content (jp_tmp j1)) + length rest < jp_len j"
      using content_length [OF ok1(1)] ok1(1,3) rest by (simp add: strbuf_ok_def) arith
    ultimately show ?thesis using None l(1) rest len assms(2) by (intro exI conjI) (assumption | simp)+
  qed
qed

section \<open>Round trip\<close>

lemma peek_Cons [simp]: "peek (c # p) 0 = Inr c" "peek (c # p) (Suc k) = peek p k"
  by (auto simp: peek_def)

lemma decode_hex4_small:
  assumes "0 \<le> hexdigit2int h" "0 \<le> hexdigit2int l"
  shows "decode_hex4 (a # b # 48 # 48 # h # l # rest) 2 = Inr (16 * hexdigit2int h + hexdigit2int l)"
proof -
  have z: "hexdigit2int 48 = 0" by (simp add: hexdigit2int_def)
  show ?thesis using assms by (simp add: decode_hex4_def numeral_eq_Suc z push_bit_eq_mult)
qed

lemma escape1_decodes:
  assumes "reading j" "jp_ptr j = escape1 c @ rest"
  shows "\<exists>j'. string_loop j = string_loop j' \<and> reading j' \<and> follows j j' \<and> jp_ptr j' = rest \<and>
    content (jp_tmp j') = content (jp_tmp j) @ [c]"
proof (cases c rule: escape_cases)
  case plain
  then have p: "jp_ptr j = c # rest" using assms(2) by (simp add: escape1_def)
  from append_advance [OF assms(1), of "[c]" 1] p obtain s where
    s: "strbuf_append_char_unsafe (jp_tmp j) c = Inr s" "content s = content (jp_tmp j) @ [c]"
      "advance 1 (j\<lparr>jp_tmp := s\<rparr>) = Inr (j\<lparr>jp_tmp := s, jp_ptr := rest\<rparr>)"
      "reading (j\<lparr>jp_tmp := s, jp_ptr := rest\<rparr>)" "follows j (j\<lparr>jp_tmp := s, jp_ptr := rest\<rparr>)"
    using char_unsafe_reading [OF assms(1)] by auto
  have "string_loop j = string_loop (j\<lparr>jp_tmp := s, jp_ptr := rest\<rparr>)"
    using plain p s(1,3) by (subst string_loop.simps) simp
  then show ?thesis using s by (intro exI [of _ "j\<lparr>jp_tmp := s, jp_ptr := rest\<rparr>"]) simp
next
  case (short x)
  then have p: "jp_ptr j = 92 # x # rest" using assms(2) by (simp add: escape1_def)
  let ?j1 = "j\<lparr>jp_ptr := x # rest\<rparr>"
  from append_advance [OF assms(1), of "[c]" 2] p obtain s where
    s: "strbuf_append_char_unsafe (jp_tmp j) c = Inr s" "content s = content (jp_tmp j) @ [c]"
      "reading (j\<lparr>jp_tmp := s, jp_ptr := rest\<rparr>)" "follows j (j\<lparr>jp_tmp := s, jp_ptr := rest\<rparr>)"
    using char_unsafe_reading [OF assms(1)] by auto
  have a: "advance 1 j = Inr ?j1" "advance 1 (?j1\<lparr>jp_tmp := s\<rparr>) = Inr (j\<lparr>jp_tmp := s, jp_ptr := rest\<rparr>)"
    using p by (simp_all add: advance_def)
  have "string_loop j = string_loop (j\<lparr>jp_tmp := s, jp_ptr := rest\<rparr>)"
    using short p s(1) a by (subst string_loop.simps) simp
  then show ?thesis using s by (intro exI [of _ "j\<lparr>jp_tmp := s, jp_ptr := rest\<rparr>"]) simp
next
  case (unicode h l)
  then have p: "jp_ptr j = 92 # 117 # 48 # 48 # h # l # rest" using assms(2) by (simp add: escape1_def)
  let ?cp = "16 * hexdigit2int h + hexdigit2int l"
  have cp: "?cp = uint c" using unicode by simp
  have u: "codepoint_to_utf8 ?cp = [c]" using unicode unfolding cp codepoint_to_utf8_def by simp
  have hi: "?cp AND 0xF800 \<noteq> 0xD800"
  proof -
    have "?cp AND 0xF800 \<le> ?cp" unfolding cp by (intro AND_upper1) simp
    then show ?thesis using unicode(6,7) by linarith
  qed
  from append_advance [OF assms(1), of "[c]" 6] p obtain s where
    s: "strbuf_append_mem_unsafe (jp_tmp j) [c] = Inr s" "content s = content (jp_tmp j) @ [c]"
      "advance 6 (j\<lparr>jp_tmp := s\<rparr>) = Inr (j\<lparr>jp_tmp := s, jp_ptr := rest\<rparr>)"
      "reading (j\<lparr>jp_tmp := s, jp_ptr := rest\<rparr>)" "follows j (j\<lparr>jp_tmp := s, jp_ptr := rest\<rparr>)"
    by auto
  have "json_append_unicode_escape j = Inr (Some (j\<lparr>jp_tmp := s, jp_ptr := rest\<rparr>))"
    using hi unicode(4,5) s(1,3) u by (simp add: json_append_unicode_escape_def p decode_hex4_small append_utf8_def Let_def)
  moreover have "escape2char 117 = 117" by (simp add: escape2char_def)
  ultimately have "string_loop j = string_loop (j\<lparr>jp_tmp := s, jp_ptr := rest\<rparr>)"
    using p by (subst string_loop.simps) simp
  then show ?thesis using s by (intro exI [of _ "j\<lparr>jp_tmp := s, jp_ptr := rest\<rparr>"]) simp
qed

lemma escape_string_decodes:
  assumes "reading j" "jp_ptr j = escape_string str @ 34 # rest"
  shows "\<exists>j'. string_loop j = Inr (j', None) \<and> jp_ptr j' = 34 # rest \<and> content (jp_tmp j') = content (jp_tmp j) @ str"
  using assms
proof (induction str arbitrary: j)
  case Nil
  then show ?case by (subst string_loop.simps) (simp add: escape_string_def)
next
  case (Cons c str)
  then have "jp_ptr j = escape1 c @ escape_string str @ 34 # rest" by (simp add: escape_string_def)
  from escape1_decodes [OF Cons.prems(1) this] obtain j1 where j1: "string_loop j = string_loop j1" "reading j1"
    "jp_ptr j1 = escape_string str @ 34 # rest" "content (jp_tmp j1) = content (jp_tmp j) @ [c]" by auto
  from Cons.IH [OF j1(2,3)] j1(1,4) show ?case by simp
qed

lemma string_token_roundtrip:
  assumes "jp_ok j" "jp_ptr j = 34 # escape_string str @ 34 # rest"
  shows "\<exists>j'. json_next_string_token j = Inr (j', Inr str) \<and> jp_ok j' \<and> follows j j' \<and> jp_ptr j' = rest"
proof -
  let ?j0 = "j\<lparr>jp_ptr := escape_string str @ 34 # rest, jp_tmp := strbuf_reset (jp_tmp j)\<rparr>"
  have "reading ?j0" using assms by (auto simp: reading_def jp_ok_def strbuf_reset_def strbuf_ok_def)
  from escape_string_decodes [OF this, of str rest] obtain j1 where
    "string_loop ?j0 = Inr (j1, None)" "jp_ptr j1 = 34 # rest" "content (jp_tmp j1) = str"
    by (auto simp: content_def strbuf_reset_def)
  with next_string_token_ok [OF assms] show ?thesis by auto
qed

end
