(* ===== verification/Json_String_Props.thy ===== *)
theory Json_String_Props
  imports Json_String
begin
text \<open>
  The properties of JSON strings: what is written is read back, escapes of all Unicode code points are decoded
  to UTF-8, and reading is safe on any text.
\<close>


section \<open>UTF-16 escapes and UTF-8\<close>

definition hexchar :: "int \<Rightarrow> u8" where
  "hexchar d = word_of_int (if d < 10 then 48 + d else 87 + d)"

definition hex4 :: "int \<Rightarrow> u8 list" where
  "hex4 n = [hexchar (n div 4096), hexchar (n div 256 mod 16), hexchar (n div 16 mod 16), hexchar (n mod 16)]"

text \<open>The escapes of a Unicode code point in UTF-16, and its bytes in UTF-8, as the standards define them.\<close>

definition utf16_escape :: "int \<Rightarrow> u8 list" where
  "utf16_escape cp =
     (if cp < 0x10000 then [92, 117] @ hex4 cp
      else [92, 117] @ hex4 (0xD800 + (cp - 0x10000) div 1024) @ [92, 117] @ hex4 (0xDC00 + (cp - 0x10000) mod 1024))"

definition utf8 :: "int \<Rightarrow> u8 list" where
  "utf8 cp = map word_of_int
     (if cp < 0x80 then [cp]
      else if cp < 0x800 then [0xC0 + cp div 64, 0x80 + cp mod 64]
      else if cp < 0x10000 then [0xE0 + cp div 4096, 0x80 + cp div 64 mod 64, 0x80 + cp mod 64]
      else [0xF0 + cp div 262144, 0x80 + cp div 4096 mod 64, 0x80 + cp div 64 mod 64, 0x80 + cp mod 64])"

lemma or_low:
  fixes x :: int
  assumes "0 \<le> x" "x < 2 ^ n"
  shows "x OR push_bit n k = x + push_bit n k" "push_bit n k OR x = push_bit n k + x"
proof -
  have x: "take_bit n x = x" by (rule take_bit_int_eq_self) (use assms in auto)
  have "\<not> bit x m \<or> \<not> bit (push_bit n k) m" for m
    by (subst x [symmetric]) (auto simp: bit_simps)
  then show "x OR push_bit n k = x + push_bit n k" by (simp add: disjunctive_add)
  then show "push_bit n k OR x = push_bit n k + x" by (simp add: or.commute add.commute)
qed

lemma and_high:
  fixes x :: int
  assumes "0 \<le> x" "x < 2 ^ (n + k)"
  shows "x AND push_bit n (mask k) = push_bit n (drop_bit n x)"
proof -
  have x: "take_bit (n + k) x = x" by (rule take_bit_int_eq_self) (use assms in auto)
  have "n \<le> m \<Longrightarrow> bit x m \<Longrightarrow> m - n < k" for m by (subst (asm) x [symmetric]) (auto simp: bit_simps)
  then show ?thesis by (intro bit_eqI) (auto simp: bit_simps)
qed

lemma masks:
  "(63 :: int) = mask 6" "(1023 :: int) = mask 10" "(63488 :: int) = push_bit 11 (mask 5)" "(64512 :: int) = push_bit 10 (mask 6)"
  by (simp_all add: mask_eq_exp_minus_1 push_bit_eq_mult)

lemma and_masks:
  "x AND 63 = x mod 64" "x AND 1023 = x mod 1024" for x :: int
  unfolding masks by (simp_all add: take_bit_eq_mod flip: take_bit_eq_mask)

lemma and_surrogate:
  fixes x :: int
  assumes "0 \<le> x" "x < 65536"
  shows "x AND 0xF800 = x div 2048 * 2048" "x AND 0xFC00 = x div 1024 * 1024" "(x AND 0x400 \<noteq> 0) = odd (x div 1024)"
proof -
  show "x AND 0xF800 = x div 2048 * 2048" "x AND 0xFC00 = x div 1024 * 1024"
    unfolding masks using and_high [of x 11 5] and_high [of x 10 6] assms by (simp_all add: push_bit_eq_mult drop_bit_eq_div)
  have "(x AND 0x400 \<noteq> 0) = bit x 10"
    using and_exp_eq_0_iff_not_bit [of x 10] by simp
  then show "(x AND 0x400 \<noteq> 0) = odd (x div 1024)" by (simp add: bit_iff_odd)
qed

lemma codepoint_to_utf8_eq:
  assumes "0 \<le> cp" "cp < 0x110000"
  shows "codepoint_to_utf8 cp = utf8 cp"
proof -
  have o: "x OR 0x80 = 0x80 + x" if "0 \<le> x" "x < 64" for x :: int
    using or_low(1) [of x 6 2] that by (simp add: push_bit_eq_mult)
  have o5: "x OR 0xC0 = 0xC0 + x" if "0 \<le> x" "x < 32" for x :: int
    using or_low(1) [of x 5 6] that by (simp add: push_bit_eq_mult)
  have o4: "x OR 0xE0 = 0xE0 + x" if "0 \<le> x" "x < 16" for x :: int
    using or_low(1) [of x 4 14] that by (simp add: push_bit_eq_mult)
  have o3: "x OR 0xF0 = 0xF0 + x" if "0 \<le> x" "x < 8" for x :: int
    using or_low(1) [of x 3 30] that by (simp add: push_bit_eq_mult)
  consider "cp < 0x80" | "0x80 \<le> cp" "cp < 0x800" | "0x800 \<le> cp" "cp < 0x10000" | "0x10000 \<le> cp" by linarith
  then show ?thesis
    by cases (use assms in \<open>simp_all add: codepoint_to_utf8_def utf8_def and_masks drop_bit_eq_div o o5 o4 o3\<close>)
qed

lemma hexchar_digit: "0 \<le> d \<Longrightarrow> d < 16 \<Longrightarrow> hexdigit2int (hexchar d) = d"
proof -
  have "\<forall>d \<in> set [0..15]. hexdigit2int (hexchar d) = d" by code_simp
  then show "0 \<le> d \<Longrightarrow> d < 16 \<Longrightarrow> hexdigit2int (hexchar d) = d" by simp
qed

lemma hex4_loop_Cons: "hex4_loop n (x # p) (Suc i) ds = hex4_loop n p i ds"
  by (induction n arbitrary: i ds) (simp_all cong: if_cong)

lemma decode_hex4_skip: "decode_hex4 (a # b # c # d # e # f # p) 8 = decode_hex4 p 2"
  by (simp add: decode_hex4_def eval_nat_numeral(2,3) hex4_loop_Cons)

lemma decode_hex4_digits:
  assumes "0 \<le> hexdigit2int h0" "0 \<le> hexdigit2int h1" "0 \<le> hexdigit2int h2" "0 \<le> hexdigit2int h3"
  shows "decode_hex4 (a # b # h0 # h1 # h2 # h3 # rest) 2 =
    Inr (hexdigit2int h0 * 4096 + hexdigit2int h1 * 256 + hexdigit2int h2 * 16 + hexdigit2int h3)"
  using assms by (simp add: decode_hex4_def numeral_eq_Suc push_bit_eq_mult)

lemma decode_hex4_hex4:
  assumes "0 \<le> n" "n < 65536"
  shows "decode_hex4 (a # b # hex4 n @ rest) 2 = Inr n"
proof -
  have d: "0 \<le> n div 4096" "n div 4096 < 16" "0 \<le> n div 256 mod 16" "n div 256 mod 16 < 16" "0 \<le> n div 16 mod 16"
    "n div 16 mod 16 < 16" "0 \<le> n mod 16" "n mod 16 < 16" using assms by simp_all
  have n: "n = n div 4096 * 4096 + n div 256 mod 16 * 256 + n div 16 mod 16 * 16 + n mod 16"
  proof -
    have "n div 256 = n div 16 div 16" "n div 4096 = n div 256 div 16"
      using zdiv_zmult2_eq [of 16 n 16] zdiv_zmult2_eq [of 16 n 256] by simp_all
    then show ?thesis using mult_div_mod_eq [of 16 n] mult_div_mod_eq [of 16 "n div 16"] mult_div_mod_eq [of 16 "n div 256"]
      by linarith
  qed
  have "decode_hex4 (a # b # hexchar (n div 4096) # hexchar (n div 256 mod 16) # hexchar (n div 16 mod 16) # hexchar (n mod 16) # rest) 2 =
      Inr (n div 4096 * 4096 + n div 256 mod 16 * 256 + n div 16 mod 16 * 16 + n mod 16)"
    by (subst decode_hex4_digits) (simp_all only: hexchar_digit d)
  then show ?thesis unfolding hex4_def append_Cons append_Nil n [symmetric] .
qed

lemma append_utf8_step:
  assumes "reading j" "n = (if cp \<le> 65535 then 6 else 12)" "jp_ptr j = esc @ rest" "length esc = n" "0 \<le> cp" "cp < 0x110000"
  shows "\<exists>j'. append_utf8 j cp n = Inr (Some j') \<and> jp_ptr j' = rest \<and> content (jp_tmp j') = content (jp_tmp j) @ utf8 cp"
proof -
  have u: "codepoint_to_utf8 cp = utf8 cp" by (rule codepoint_to_utf8_eq [OF assms(5,6)])
  have "length (codepoint_to_utf8 cp) \<le> n" using codepoint_to_utf8_length [of cp] assms(2) by (simp split: if_splits)
  moreover have "n \<le> length (jp_ptr j)" "drop n (jp_ptr j) = rest" using assms(3,4) by auto
  moreover have "utf8 cp \<noteq> []" by (simp add: utf8_def)
  ultimately show ?thesis using append_advance [OF assms(1), of "codepoint_to_utf8 cp" n] u
    by (auto simp: append_utf8_def Let_def)
qed

lemma unicode_escapes_cases:
  assumes "reading j" "0 \<le> cp" "cp < 0x110000"
  shows "cp < 0xD800 \<or> 0xDFFF < cp \<Longrightarrow> jp_ptr j = utf16_escape cp @ rest \<Longrightarrow>
      \<exists>j'. json_append_unicode_escape j = Inr (Some j') \<and> jp_ptr j' = rest \<and> content (jp_tmp j') = content (jp_tmp j) @ utf8 cp"
    and "0xD800 \<le> cp \<Longrightarrow> cp \<le> 0xDFFF \<Longrightarrow> jp_ptr j = [92, 117] @ hex4 cp @ rest \<Longrightarrow> 0xDC00 \<le> cp \<or> take 2 rest \<noteq> [92, 117] \<Longrightarrow>
      json_append_unicode_escape j = Inr None"
proof -
  have l4: "length (hex4 n) = 4" for n by (simp add: hex4_def)
  have sur: "n AND 0xF800 = 0xD800 \<longleftrightarrow> 0xD800 \<le> n \<and> n \<le> 0xDFFF" if "0 \<le> n" "n < 65536" for n :: int
  proof -
    have "0xD800 \<le> n \<and> n \<le> 0xDFFF \<Longrightarrow> n div 2048 = 27" "n div 2048 = 27 \<Longrightarrow> 0xD800 \<le> n \<and> n \<le> 0xDFFF" by linarith+
    then have "n div 2048 = 27 \<longleftrightarrow> 0xD800 \<le> n \<and> n \<le> 0xDFFF" by blast
    then show ?thesis unfolding and_surrogate(1) [OF that] by auto
  qed
  show "\<exists>j'. json_append_unicode_escape j = Inr (Some j') \<and> jp_ptr j' = rest \<and> content (jp_tmp j') = content (jp_tmp j) @ utf8 cp"
    if "cp < 0xD800 \<or> 0xDFFF < cp" "jp_ptr j = utf16_escape cp @ rest"
  proof (cases "cp < 0x10000")
    case True
    then have p: "jp_ptr j = ([92, 117] @ hex4 cp) @ rest" using that(2) by (simp add: utf16_escape_def)
    have "decode_hex4 (jp_ptr j) 2 = Inr cp" using decode_hex4_hex4 [of cp 92 117 rest] assms(2) True p by simp
    moreover have "cp AND 0xF800 \<noteq> 0xD800" using sur [of cp] True assms(2) that(1) by auto
    ultimately have "json_append_unicode_escape j = append_utf8 j cp 6"
      using assms(2) by (simp add: json_append_unicode_escape_def Let_def)
    moreover have "\<exists>j'. append_utf8 j cp 6 = Inr (Some j') \<and> jp_ptr j' = rest \<and> content (jp_tmp j') = content (jp_tmp j) @ utf8 cp"
      by (rule append_utf8_step [OF assms(1) _ p]) (use True assms l4 in simp_all)
    ultimately show ?thesis by simp
  next
    case False
    define hi lo where "hi = 0xD800 + (cp - 0x10000) div 1024" and "lo = 0xDC00 + (cp - 0x10000) mod 1024"
    have hi: "0xD800 \<le> hi" "hi < 0xDC00" and lo: "0xDC00 \<le> lo" "lo < 0xE000" using False assms(3) unfolding hi_def lo_def by linarith+
    have p: "jp_ptr j = ([92, 117] @ hex4 hi @ [92, 117] @ hex4 lo) @ rest"
      using that(2) False by (simp add: utf16_escape_def hi_def lo_def)
    have d1: "decode_hex4 (jp_ptr j) 2 = Inr hi" using decode_hex4_hex4 [of hi 92 117 "[92, 117] @ hex4 lo @ rest"] hi p by simp
    have p2: "jp_ptr j = 92 # 117 # hexchar (hi div 4096) # hexchar (hi div 256 mod 16) # hexchar (hi div 16 mod 16) #
        hexchar (hi mod 16) # 92 # 117 # hex4 lo @ rest" using p by (simp add: hex4_def)
    have d2: "decode_hex4 (jp_ptr j) 8 = Inr lo"
      unfolding p2 decode_hex4_skip using decode_hex4_hex4 [of lo 92 117 rest] lo by simp
    have p67: "peek (jp_ptr j) 6 = Inr 92" "peek (jp_ptr j) 7 = Inr 117" unfolding p2 by (simp_all add: eval_nat_numeral(2,3))
    have t: "hi AND 0xF800 = 0xD800" "\<not> (hi AND 0x400 \<noteq> 0)" "lo AND 0xFC00 = 0xDC00"
    proof -
      have "hi div 1024 = 54" "lo div 1024 = 55" using hi lo by linarith+
      then show "hi AND 0xF800 = 0xD800" "\<not> (hi AND 0x400 \<noteq> 0)" "lo AND 0xFC00 = 0xDC00"
        using sur [of hi] and_surrogate(3) [of hi] and_surrogate(2) [of lo] hi lo by simp_all
    qed
    have m: "hi mod 1024 = (cp - 0x10000) div 1024" "lo mod 1024 = (cp - 0x10000) mod 1024"
    proof -
      have "(0xD800 + a) mod 1024 = a" "(0xDC00 + a) mod 1024 = a" if "0 \<le> a" "a < 1024" for a :: int
        using that mod_mult_self1 [of a 54 1024] mod_mult_self1 [of a 55 1024] by (simp_all add: add.commute)
      then show "hi mod 1024 = (cp - 0x10000) div 1024" "lo mod 1024 = (cp - 0x10000) mod 1024"
        using hi unfolding hi_def lo_def by simp_all
    qed
    have c: "(push_bit 10 (hi AND 0x3FF) OR (lo AND 0x3FF)) + 0x10000 = cp"
      unfolding and_masks m by (subst or_low(2)) (simp_all add: push_bit_eq_mult)
    have "json_append_unicode_escape j = append_utf8 j cp 12"
      using d1 d2 p67 t hi lo c by (simp add: json_append_unicode_escape_def Let_def)
    moreover have "\<exists>j'. append_utf8 j cp 12 = Inr (Some j') \<and> jp_ptr j' = rest \<and> content (jp_tmp j') = content (jp_tmp j) @ utf8 cp"
      by (rule append_utf8_step [OF assms(1) _ p]) (use False assms l4 in simp_all)
    ultimately show ?thesis by simp
  qed
  show "json_append_unicode_escape j = Inr None"
    if c: "0xD800 \<le> cp" "cp \<le> 0xDFFF" "jp_ptr j = [92, 117] @ hex4 cp @ rest" "0xDC00 \<le> cp \<or> take 2 rest \<noteq> [92, 117]"
  proof -
    have d: "decode_hex4 (jp_ptr j) 2 = Inr cp" using decode_hex4_hex4 [of cp 92 117 rest] c(1,2,3) by simp
    have s: "cp AND 0xF800 = 0xD800" using sur [of cp] c(1,2) by simp
    show ?thesis
    proof (cases "0xDC00 \<le> cp")
      case True
      then have "cp div 1024 = 55" using c(2) by linarith
      then have "cp AND 0x400 \<noteq> 0" using and_surrogate(3) [of cp] c(1,2) by simp
      then show ?thesis using d s c(1) by (simp add: json_append_unicode_escape_def Let_def)
    next
      case False
      then have "cp div 1024 = 54" using c(1) by linarith
      then have t: "cp AND 0x400 = 0" using and_surrogate(3) [of cp] c(1,2) by simp
      have p: "peek (jp_ptr j) 6 = peek rest 0" "peek (jp_ptr j) 7 = peek rest 1"
        unfolding c(3) hex4_def by (simp_all add: eval_nat_numeral(2,3))
      consider "rest = []" | a where "rest = [a]" | a b r where "rest = a # b # r" "\<not> (a = 92 \<and> b = 117)"
        using c(4) False by (cases rest; cases "tl rest") auto
      then show ?thesis
        by cases (use d s t c(1) p in \<open>auto simp: json_append_unicode_escape_def Let_def peek_def\<close>)
    qed
  qed
qed


definition ex_parse :: "u8 list \<Rightarrow> json_parse" where
  "ex_parse text = \<lparr>jp_len = length text, jp_ptr = text,
     jp_tmp = \<lparr>sb_buf = replicate (length text + 1) 0, sb_length = 0, sb_increment = -2, sb_dynamic = True, sb_reallocs = 0\<rparr>,
     jp_depth = 0\<rparr>"

lemma ex_parse_ok: "length text < 1000 \<Longrightarrow> jp_ok (ex_parse text) \<and> reading (ex_parse text) \<and> jp_ptr (ex_parse text) = text"
  by (simp add: ex_parse_def jp_ok_def reading_def strbuf_ok_def)


text \<open>
  A Lua string that has been written is read back byte for byte, zero bytes and all, and the text behind it
  is left.
\<close>

theorem string_roundtrip:
  assumes "strbuf_ok s" "length str \<le> 357913940" "json_append_string s str = Inr s'"
    and "jp_ok j" "jp_ptr j = drop (length (content s)) (content s') @ rest"
  shows "\<exists>j'. json_next_string_token j = Inr (j', Inr str) \<and> jp_ok j' \<and> jp_ptr j' = rest"
proof -
  have "content s' = content s @ 34 # escape_string str @ [34]"
    using append_string_escapes [OF assms(1,2)] assms(3) by (simp add: appends_def)
  then have "jp_ptr j = 34 # escape_string str @ 34 # rest" using assms(5) by simp
  from string_token_roundtrip [OF assms(4) this] show ?thesis by blast
qed

theorem string_roundtrip_witness:
  "\<exists>s s' j'. strbuf_new 0 = Inr s \<and> json_append_string s [104, 0, 34] = Inr s' \<and>
    json_next_string_token (ex_parse (content s')) = Inr (j', Inr [104, 0, 34])"
proof -
  from strbuf_new_ok(1) [of 0] obtain s where s: "strbuf_new 0 = Inr s" "strbuf_ok s" "content s = []" by auto
  have l0: "sb_length s = 0" using content_length [OF s(2)] s by (simp add: strbuf_ok_def)
  have "appends 20 s (34 # escape_string [104, 0, 34] @ [34]) (json_append_string s [104, 0, 34])"
    using append_string_escapes [OF s(2), of "[104, 0, 34]"] by simp
  then obtain s' where s': "json_append_string s [104, 0, 34] = Inr s'" "content s' = 34 # escape_string [104, 0, 34] @ [34]"
    using l0 s(3) by (cases "json_append_string s [104, 0, 34]") (auto simp: appends_def)
  have "length (content s') < 1000" unfolding s'(2) by code_simp
  from string_roundtrip [OF s(2) _ s'(1), of "ex_parse (content s')" "[]"] ex_parse_ok [OF this] s' s show ?thesis by auto
qed

text \<open>
  Reading a string token never looks behind the terminator of the text and never writes outside the buffer,
  which is as large as the text, whatever the text is; it ends, moves forward inside the text, and the
  decoded string is shorter than the text.
\<close>

theorem string_token_safe:
  assumes "jp_ok j" "jp_ptr j = 34 # p"
  shows "\<exists>j' r. json_next_string_token j = Inr (j', r) \<and> jp_ok j' \<and> follows j j' \<and>
    length (jp_ptr j') < length (jp_ptr j) \<and> (\<forall>str. r = Inr str \<longrightarrow> length str + length (jp_ptr j') < jp_len j)"
proof -
  from next_string_token_ok [OF assms] obtain j1 err where ex:
    "\<exists>j'. json_next_string_token j = Inr (j', case err of Some e \<Rightarrow> Inl e | None \<Rightarrow> Inr (content (jp_tmp j1))) \<and>
      jp_ok j' \<and> follows j j' \<and> length (jp_ptr j') < length (jp_ptr j) \<and>
      (if err = None then 34 # jp_ptr j' = jp_ptr j1 \<and> length (content (jp_tmp j1)) + length (jp_ptr j') < jp_len j else j' = j1)"
    by blast
  show ?thesis
  proof (cases err)
    case None
    with ex show ?thesis by auto
  next
    case (Some e)
    with ex show ?thesis by auto
  qed
qed

theorem string_token_safe_witness:
  "\<exists>j' r. json_next_string_token (ex_parse [34, 92, 117, 100]) = Inr (j', r) \<and> length (jp_ptr j') < 4"
  using string_token_safe [of "ex_parse [34, 92, 117, 100]" "[92, 117, 100]"] ex_parse_ok [of "[34, 92, 117, 100]"] by auto

end
