(* ===== verification/Json_Parse.thy ===== *)
theory Json_Parse
  imports Json_Config Json_String_Props
begin

text \<open>
  The decoder of \<^verbatim>\<open>src/depends/json/lua_cjson.c\<close>: tokens, and the recursive parser that builds Lua tables.
  The decimal point of the locale and \<open>lua_checkstack\<close>, which says for a depth whether so many slots can be
  had, are arguments.
\<close>

section \<open>Lua values\<close>

text \<open>
  A table is the list of its pairs in the order in which \<open>lua_next\<close> gives them, which Lua does not specify; new
  keys are put at the end here.  A table value is an index into the list of all tables.  \<open>LNull\<close> is the null
  pointer as light userdata, \<open>LOther\<close> a value of another type with its type name.
\<close>

datatype lua = LNil | LBool bool | LInt int | LNum dbl | LStr "u8 list" | LNull | LTable nat | LOther string

type_synonym tables = "(lua \<times> lua) list list"

fun set_pair :: "lua \<Rightarrow> lua \<Rightarrow> (lua \<times> lua) list \<Rightarrow> (lua \<times> lua) list" where
  "set_pair k v [] = [(k, v)]"
| "set_pair k v ((k1, v1) # ps) = (if k1 = k then (k, v) # ps else (k1, v1) # set_pair k v ps)"

definition lua_rawset :: "tables \<Rightarrow> nat \<Rightarrow> lua \<Rightarrow> lua \<Rightarrow> tables" where
  "lua_rawset H r k v = H[r := set_pair k v (H ! r)]"

section \<open>Tokens\<close>

datatype json_token_type =
  T_OBJ_BEGIN | T_OBJ_END | T_ARR_BEGIN | T_ARR_END | T_STRING | T_NUMBER | T_INTEGER | T_BOOLEAN | T_NULL |
  T_COLON | T_COMMA | T_END | T_WHITESPACE | T_ERROR | T_UNKNOWN

fun json_token_type_name :: "json_token_type \<Rightarrow> string" where
  "json_token_type_name T_OBJ_BEGIN = ''T_OBJ_BEGIN''"
| "json_token_type_name T_OBJ_END = ''T_OBJ_END''"
| "json_token_type_name T_ARR_BEGIN = ''T_ARR_BEGIN''"
| "json_token_type_name T_ARR_END = ''T_ARR_END''"
| "json_token_type_name T_STRING = ''T_STRING''"
| "json_token_type_name T_NUMBER = ''T_NUMBER''"
| "json_token_type_name T_INTEGER = ''T_INTEGER''"
| "json_token_type_name T_BOOLEAN = ''T_BOOLEAN''"
| "json_token_type_name T_NULL = ''T_NULL''"
| "json_token_type_name T_COLON = ''T_COLON''"
| "json_token_type_name T_COMMA = ''T_COMMA''"
| "json_token_type_name T_END = ''T_END''"
| "json_token_type_name T_WHITESPACE = ''T_WHITESPACE''"
| "json_token_type_name T_ERROR = ''T_ERROR''"
| "json_token_type_name T_UNKNOWN = ''T_UNKNOWN''"

text \<open>The members of the union; the token type says which is set.\<close>

datatype token_value = NoValue | VString "u8 list" | VNumber dbl | VInteger int | VBoolean bool | VError string

record json_token =
  tk_type :: json_token_type
  tk_index :: nat
  tk_value :: token_value

definition ch2token :: "u8 \<Rightarrow> json_token_type" where
  "ch2token =
     (\<lambda>_. T_ERROR)
       (123 := T_OBJ_BEGIN, 125 := T_OBJ_END, 91 := T_ARR_BEGIN, 93 := T_ARR_END, 44 := T_COMMA, 58 := T_COLON,
        0 := T_END, 32 := T_WHITESPACE, 9 := T_WHITESPACE, 10 := T_WHITESPACE, 13 := T_WHITESPACE,
        102 := T_UNKNOWN, 105 := T_UNKNOWN, 73 := T_UNKNOWN, 110 := T_UNKNOWN, 78 := T_UNKNOWN, 116 := T_UNKNOWN,
        34 := T_UNKNOWN, 43 := T_UNKNOWN, 45 := T_UNKNOWN,
        48 := T_UNKNOWN, 49 := T_UNKNOWN, 50 := T_UNKNOWN, 51 := T_UNKNOWN, 52 := T_UNKNOWN, 53 := T_UNKNOWN,
        54 := T_UNKNOWN, 55 := T_UNKNOWN, 56 := T_UNKNOWN, 57 := T_UNKNOWN)"

definition jp_index :: "json_parse \<Rightarrow> nat" where
  "jp_index j = jp_len j - length (jp_ptr j)"

definition json_set_token_error :: "json_parse \<Rightarrow> string \<Rightarrow> json_token" where
  "json_set_token_error j errtype = \<lparr>tk_type = T_ERROR, tk_index = jp_index j, tk_value = VError errtype\<rparr>"

text \<open>Bytes from 128 on are negative as \<open>char\<close> and so below \<open>'9'\<close>.\<close>

definition json_is_invalid_number :: "u8 list \<Rightarrow> bool run" where
  "json_is_invalid_number ptr =
     bindR (peek ptr 0) (\<lambda>c0.
     if c0 = 43 then Inr True
     else
       let i = (if c0 = 45 then 1 else 0) in
       bindR (peek ptr i) (\<lambda>c.
       if c = 48 then
         bindR (peek ptr (i + 1)) (\<lambda>ch2. Inr (ch2 OR 0x20 = 120 \<or> (48 \<le> ch2 \<and> ch2 \<le> 57)))
       else if c \<le> 57 \<or> 128 \<le> c then Inr False
       else Inr (prefix_ci [105, 110, 102] (drop i ptr) \<or> prefix_ci [110, 97, 110] (drop i ptr))))"

definition json_next_number_token :: "u8 \<Rightarrow> json_parse \<Rightarrow> (json_parse \<times> json_token) run" where
  "json_next_number_token dp j =
     (let (integer, n) = strtoll (jp_ptr j) in
      if n = 0 then Inr (j, json_set_token_error j ''invalid number'')
      else
        bindR (peek (jp_ptr j) n) (\<lambda>c.
        if c = 46 \<or> c = 101 \<or> c = 69 then
          let (number, m) = fpconv_strtod dp (jp_ptr j) in
          bindR (advance m j) (\<lambda>j1.
          Inr (j1, \<lparr>tk_type = T_NUMBER, tk_index = jp_index j, tk_value = VNumber number\<rparr>))
        else
          bindR (advance n j) (\<lambda>j1.
          Inr (j1, \<lparr>tk_type = T_INTEGER, tk_index = jp_index j, tk_value = VInteger integer\<rparr>))))"

definition new_token :: "json_parse \<Rightarrow> json_token_type \<Rightarrow> token_value \<Rightarrow> json_token" where
  "new_token j t v = \<lparr>tk_type = t, tk_index = jp_index j, tk_value = v\<rparr>"

text \<open>The characters that need a closer look: strings, numbers, and the words \<open>true\<close>, \<open>false\<close> and \<open>null\<close>.\<close>

definition next_unknown_token :: "json_config \<Rightarrow> u8 \<Rightarrow> json_parse \<Rightarrow> u8 \<Rightarrow> (json_parse \<times> json_token) run" where
  "next_unknown_token cfg dp j ch =
     (if ch = 34 then
        bindR (json_next_string_token j) (\<lambda>(j1, r).
        Inr (j1, case r of Inr s \<Rightarrow> new_token j T_STRING (VString s) | Inl e \<Rightarrow> json_set_token_error j1 e))
      else if ch = 45 \<or> (48 \<le> ch \<and> ch \<le> 57) then
        bindR (if decode_invalid_numbers cfg = 0 then json_is_invalid_number (jp_ptr j) else Inr False) (\<lambda>bad.
        if bad then Inr (j, json_set_token_error j ''invalid number'') else json_next_number_token dp j)
      else if take 4 (jp_ptr j) = [116, 114, 117, 101] then
        bindR (advance 4 j) (\<lambda>j1. Inr (j1, new_token j T_BOOLEAN (VBoolean True)))
      else if take 5 (jp_ptr j) = [102, 97, 108, 115, 101] then
        bindR (advance 5 j) (\<lambda>j1. Inr (j1, new_token j T_BOOLEAN (VBoolean False)))
      else if take 4 (jp_ptr j) = [110, 117, 108, 108] then
        bindR (advance 4 j) (\<lambda>j1. Inr (j1, new_token j T_NULL NoValue))
      else
        bindR (if decode_invalid_numbers cfg \<noteq> 0 then json_is_invalid_number (jp_ptr j) else Inr False) (\<lambda>num.
        if num then json_next_number_token dp j else Inr (j, json_set_token_error j ''invalid token'')))"

definition skip_white :: "json_parse \<Rightarrow> json_parse" where
  "skip_white j = j\<lparr>jp_ptr := dropWhile (\<lambda>c. ch2token c = T_WHITESPACE) (jp_ptr j)\<rparr>"

definition next_token_here :: "json_config \<Rightarrow> u8 \<Rightarrow> json_parse \<Rightarrow> (json_parse \<times> json_token) run" where
  "next_token_here cfg dp j =
     bindR (peek (jp_ptr j) 0) (\<lambda>ch.
     let t = ch2token ch in
     if t = T_ERROR then Inr (j, json_set_token_error j ''invalid token'')
     else if t = T_END then Inr (j, new_token j t NoValue)
     else if t \<noteq> T_UNKNOWN then bindR (advance 1 j) (\<lambda>j1. Inr (j1, new_token j t NoValue))
     else next_unknown_token cfg dp j ch)"

definition json_next_token :: "json_config \<Rightarrow> u8 \<Rightarrow> json_parse \<Rightarrow> (json_parse \<times> json_token) run" where
  "json_next_token cfg dp j = next_token_here cfg dp (skip_white j)"

section \<open>Errors and depth\<close>

definition json_throw_parse_error :: "string \<Rightarrow> json_token \<Rightarrow> 'a run" where
  "json_throw_parse_error expected token =
     (let found = (case tk_value token of
            VError e \<Rightarrow> if tk_type token = T_ERROR then e else json_token_type_name (tk_type token)
          | _ \<Rightarrow> json_token_type_name (tk_type token))
      in Inl (Throw (''Expected '' @ expected @ '' but found '' @ found @ '' at character '' @
           int_text (int (tk_index token) + 1))))"

definition json_decode_ascend :: "json_parse \<Rightarrow> json_parse" where
  "json_decode_ascend j = j\<lparr>jp_depth := jp_depth j - 1\<rparr>"

definition json_decode_descend ::
    "json_config \<Rightarrow> (int \<Rightarrow> nat \<Rightarrow> bool) \<Rightarrow> json_parse \<Rightarrow> nat \<Rightarrow> json_parse run" where
  "json_decode_descend cfg checkstack j slots =
     bindR (i32 (jp_depth j + 1)) (\<lambda>depth.
     if depth \<le> decode_max_depth cfg \<and> checkstack depth slots then Inr (j\<lparr>jp_depth := depth\<rparr>)
     else Inl (Throw (''Found too many nested data structures ('' @ int_text depth @ '') at character '' @
       int_text (int (jp_index j)))))"

section \<open>Moving forward\<close>

text \<open>How much is left, counting an opening bracket that has just been read.\<close>

definition left :: "json_parse \<Rightarrow> json_token \<Rightarrow> nat" where
  "left j token = length (jp_ptr j) + (if tk_type token = T_OBJ_BEGIN \<or> tk_type token = T_ARR_BEGIN then 1 else 0)"

lemma advance_length: "advance k j = Inr j' \<Longrightarrow> k + length (jp_ptr j') = length (jp_ptr j)"
  by (auto simp: advance_def split: if_splits)

lemma next_number_token_length:
  "json_next_number_token dp j = Inr (j', token) \<Longrightarrow>
     length (jp_ptr j') \<le> length (jp_ptr j) \<and> tk_type token \<in> {T_ERROR, T_NUMBER, T_INTEGER}"
  by (auto simp: json_next_number_token_def json_set_token_error_def bindR_Inr_iff
    split: prod.splits if_splits dest!: advance_length)

lemma string_loop_length:
  "string_loop j = Inr (j', err) \<Longrightarrow> length (jp_ptr j') \<le> length (jp_ptr j)"
proof (induction j arbitrary: j' err rule: string_loop.induct)
  case (1 j)
  note IH = "1.IH" and run = "1.prems" [unfolded string_loop.simps [of j]]
  from run obtain ch where ch: "peek (jp_ptr j) 0 = Inr ch"
    and r: "(if ch = 34 then Inr (j, None)
     else if ch = 0 then Inr (j, Some ''unexpected end of string'')
     else if ch = 92 then
       bindR (peek (jp_ptr j) 1) (\<lambda>c1.
       let ch = escape2char c1 in
       if ch = 117 then
         bindR (json_append_unicode_escape j) (\<lambda>r.
         case r of Some j \<Rightarrow> string_loop j | None \<Rightarrow> Inr (j, Some ''invalid unicode escape code''))
       else if ch = 0 then Inr (j, Some ''invalid escape code'')
       else
         bindR (advance 1 j) (\<lambda>j.
         bindR (strbuf_append_char_unsafe (jp_tmp j) ch) (\<lambda>tmp.
         bindR (advance 1 (j\<lparr>jp_tmp := tmp\<rparr>)) string_loop)))
     else
       bindR (strbuf_append_char_unsafe (jp_tmp j) ch) (\<lambda>tmp.
       bindR (advance 1 (j\<lparr>jp_tmp := tmp\<rparr>)) string_loop)) = Inr (j', err)"
    unfolding bindR_Inr_iff by blast
  consider "ch = 34 \<or> ch = 0" | "ch = 92" | "ch \<noteq> 34" "ch \<noteq> 0" "ch \<noteq> 92" by blast
  then show ?case
  proof cases
    case 1
    then show ?thesis using r by (auto split: if_splits)
  next
    case 3
    with r obtain tmp j1 where "strbuf_append_char_unsafe (jp_tmp j) ch = Inr tmp" and a: "advance 1 (j\<lparr>jp_tmp := tmp\<rparr>) = Inr j1"
      and "string_loop j1 = Inr (j', err)" by (auto simp: bindR_Inr_iff)
    from IH(3) [OF ch 3 this(1,2,3)] advance_length [OF a] show ?thesis by simp
  next
    case 2
    then have n: "ch \<noteq> 34" "ch \<noteq> 0" by simp_all
    from r 2 obtain c1 where c1: "peek (jp_ptr j) 1 = Inr c1" and r1: "(if escape2char c1 = 117 then
         bindR (json_append_unicode_escape j) (\<lambda>r.
         case r of Some j \<Rightarrow> string_loop j | None \<Rightarrow> Inr (j, Some ''invalid unicode escape code''))
       else if escape2char c1 = 0 then Inr (j, Some ''invalid escape code'')
       else
         bindR (advance 1 j) (\<lambda>j.
         bindR (strbuf_append_char_unsafe (jp_tmp j) (escape2char c1)) (\<lambda>tmp.
         bindR (advance 1 (j\<lparr>jp_tmp := tmp\<rparr>)) string_loop))) = Inr (j', err)"
      by (auto simp: bindR_Inr_iff Let_def)
    have ne: "jp_ptr j \<noteq> []" using ch n by (auto simp: peek_def split: if_splits)
    consider "escape2char c1 = 0" | "escape2char c1 = 117" | "escape2char c1 \<noteq> 0" "escape2char c1 \<noteq> 117" by blast
    then show ?thesis
    proof cases
      case 1
      then show ?thesis using r1 by simp
    next
      case u: 2
      with r1 obtain r2 where r2: "json_append_unicode_escape j = Inr r2"
        "(case r2 of Some j \<Rightarrow> string_loop j | None \<Rightarrow> Inr (j, Some ''invalid unicode escape code'')) = Inr (j', err)"
        by (auto simp: bindR_Inr_iff)
      show ?thesis
      proof (cases r2)
        case None
        then show ?thesis using r2 by simp
      next
        case (Some j1)
        with r2 have "string_loop j1 = Inr (j', err)" by simp
        from IH(1) [OF ch n 2 c1 refl u r2(1) Some this] unicode_escape_shrinks [of j j1] r2(1) Some ne show ?thesis by simp
      qed
    next
      case 3
      with r1 obtain j1 tmp j2 where s: "advance 1 j = Inr j1" "strbuf_append_char_unsafe (jp_tmp j1) (escape2char c1) = Inr tmp"
        "advance 1 (j1\<lparr>jp_tmp := tmp\<rparr>) = Inr j2" "string_loop j2 = Inr (j', err)" by (auto simp: bindR_Inr_iff)
      from IH(2) [OF ch n 2 c1 refl 3(2,1) s] advance_length [OF s(1)] advance_length [OF s(3)] show ?thesis by simp
    qed
  qed
qed

lemma next_string_token_length:
  "json_next_string_token j = Inr (j', r) \<Longrightarrow> length (jp_ptr j') < length (jp_ptr j)"
  by (auto simp: json_next_string_token_def bindR_Inr_iff Let_def strbuf_string_def split: option.splits
    dest!: advance_length string_loop_length)

lemma next_unknown_token_length:
  assumes "next_unknown_token cfg dp j ch = Inr (j', token)"
  shows "length (jp_ptr j') \<le> length (jp_ptr j) \<and> (tk_type token = T_STRING \<longrightarrow> length (jp_ptr j') < length (jp_ptr j)) \<and>
    tk_type token \<in> {T_STRING, T_ERROR, T_NUMBER, T_INTEGER, T_BOOLEAN, T_NULL}"
proof -
  have num: "?thesis" if "json_next_number_token dp j = Inr (j', token)"
    using next_number_token_length [OF that] by auto
  show ?thesis
  proof (cases "ch = 34")
    case True
    with assms obtain j1 r where s: "json_next_string_token j = Inr (j1, r)"
      and "j' = j1" "token = (case r of Inr s \<Rightarrow> new_token j T_STRING (VString s) | Inl e \<Rightarrow> json_set_token_error j1 e)"
      by (auto simp: next_unknown_token_def bindR_Inr_iff)
    then show ?thesis using next_string_token_length [OF s]
      by (cases r) (simp_all add: new_token_def json_set_token_error_def)
  next
    case False
    with assms num show ?thesis by (auto simp: next_unknown_token_def bindR_Inr_iff new_token_def json_set_token_error_def
      split: if_splits dest!: advance_length)
  qed
qed

text \<open>A bracket that is read counts one byte more; strings, colons and commas are not empty.\<close>

lemma next_token_left:
  assumes "json_next_token cfg dp j = Inr (j', token)"
  shows "left j' token \<le> length (jp_ptr j) \<and>
    (tk_type token \<in> {T_STRING, T_COLON, T_COMMA} \<longrightarrow> length (jp_ptr j') < length (jp_ptr j))"
proof -
  define j0 where "j0 = skip_white j"
  have j0: "length (jp_ptr j0) \<le> length (jp_ptr j)" by (simp add: j0_def skip_white_def length_dropWhile_le)
  from assms have h: "next_token_here cfg dp j0 = Inr (j', token)" by (simp add: json_next_token_def j0_def)
  obtain ch where "peek (jp_ptr j0) 0 = Inr ch" using h unfolding next_token_here_def bindR_Inr_iff by blast
  with h have c: "(if ch2token ch = T_ERROR then Inr (j0, json_set_token_error j0 ''invalid token'')
     else if ch2token ch = T_END then Inr (j0, new_token j0 (ch2token ch) NoValue)
     else if ch2token ch \<noteq> T_UNKNOWN then bindR (advance 1 j0) (\<lambda>j1. Inr (j1, new_token j0 (ch2token ch) NoValue))
     else next_unknown_token cfg dp j0 ch) = Inr (j', token)" by (simp add: next_token_here_def Let_def)
  have "left j' token \<le> length (jp_ptr j0) \<and> (tk_type token \<in> {T_STRING, T_COLON, T_COMMA} \<longrightarrow> length (jp_ptr j') < length (jp_ptr j0))"
  proof (cases "ch2token ch \<in> {T_ERROR, T_END, T_UNKNOWN}")
    case True
    then show ?thesis using c next_unknown_token_length [of cfg dp j0 ch j' token]
      by (auto simp: left_def json_set_token_error_def new_token_def split: if_splits)
  next
    case False
    then obtain j1 where "advance 1 j0 = Inr j1" "j' = j1" "token = new_token j0 (ch2token ch) NoValue"
      using c by (auto simp: bindR_Inr_iff)
    then show ?thesis using advance_length [of 1 j0 j1] by (auto simp: left_def new_token_def)
  qed
  with j0 show ?thesis by auto
qed

lemma next_token_length:
  "json_next_token cfg dp j = Inr (j', token) \<Longrightarrow> length (jp_ptr j') \<le> length (jp_ptr j)"
  by (drule next_token_left) (simp add: left_def)

lemma descend_length:
  "json_decode_descend cfg ck j slots = Inr j' \<Longrightarrow> jp_ptr j' = jp_ptr j"
  by (auto simp: json_decode_descend_def bindR_Inr_iff split: if_splits)

lemma ascend_ptr [simp]: "jp_ptr (json_decode_ascend j) = jp_ptr j"
  by (simp add: json_decode_ascend_def)

section \<open>The parser\<close>

text \<open>
  The five functions call each other: values, objects with the loop over their members, arrays with the loop
  over their elements, which are numbered by \<open>i\<close>.  The result is the parser, the tables and the value.
\<close>

function json_process_value :: "json_config \<Rightarrow> u8 \<Rightarrow> (int \<Rightarrow> nat \<Rightarrow> bool) \<Rightarrow> json_parse \<Rightarrow> tables \<Rightarrow> json_token \<Rightarrow>
      (json_parse \<times> tables \<times> lua) run"
  and json_parse_object_context :: "json_config \<Rightarrow> u8 \<Rightarrow> (int \<Rightarrow> nat \<Rightarrow> bool) \<Rightarrow> json_parse \<Rightarrow> tables \<Rightarrow>
      (json_parse \<times> tables \<times> lua) run"
  and object_loop :: "json_config \<Rightarrow> u8 \<Rightarrow> (int \<Rightarrow> nat \<Rightarrow> bool) \<Rightarrow> json_parse \<Rightarrow> tables \<Rightarrow> nat \<Rightarrow> json_token \<Rightarrow>
      (json_parse \<times> tables \<times> lua) run"
  and json_parse_array_context :: "json_config \<Rightarrow> u8 \<Rightarrow> (int \<Rightarrow> nat \<Rightarrow> bool) \<Rightarrow> json_parse \<Rightarrow> tables \<Rightarrow>
      (json_parse \<times> tables \<times> lua) run"
  and array_loop :: "json_config \<Rightarrow> u8 \<Rightarrow> (int \<Rightarrow> nat \<Rightarrow> bool) \<Rightarrow> json_parse \<Rightarrow> tables \<Rightarrow> nat \<Rightarrow> int \<Rightarrow> json_token \<Rightarrow>
      (json_parse \<times> tables \<times> lua) run" where
  "json_process_value cfg dp ck j H token =
     (case (tk_type token, tk_value token) of
        (T_STRING, VString s) \<Rightarrow> Inr (j, H, LStr s)
      | (T_NUMBER, VNumber d) \<Rightarrow> Inr (j, H, LNum d)
      | (T_INTEGER, VInteger i) \<Rightarrow> Inr (j, H, LInt i)
      | (T_BOOLEAN, VBoolean b) \<Rightarrow> Inr (j, H, LBool b)
      | (T_OBJ_BEGIN, _) \<Rightarrow> json_parse_object_context cfg dp ck j H
      | (T_ARR_BEGIN, _) \<Rightarrow> json_parse_array_context cfg dp ck j H
      | (T_NULL, _) \<Rightarrow> Inr (j, H, LNull)
      | _ \<Rightarrow> json_throw_parse_error ''value'' token)"
| "json_parse_object_context cfg dp ck j H =
     bindR (json_decode_descend cfg ck j 3) (\<lambda>j.
     bindR (json_next_token cfg dp j) (\<lambda>(j, token).
     if tk_type token = T_OBJ_END then Inr (json_decode_ascend j, H @ [[]], LTable (length H))
     else object_loop cfg dp ck j (H @ [[]]) (length H) token))"
| "object_loop cfg dp ck j H r token =
     (case tk_value token of
        VString key \<Rightarrow>
          if tk_type token \<noteq> T_STRING then json_throw_parse_error ''object key string'' token
          else
            bindR (json_next_token cfg dp j) (\<lambda>(j, token).
            if tk_type token \<noteq> T_COLON then json_throw_parse_error ''colon'' token
            else
              bindR (json_next_token cfg dp j) (\<lambda>(j, token).
              bindR (json_process_value cfg dp ck j H token) (\<lambda>(j, H, v).
              let H = lua_rawset H r (LStr key) v in
              bindR (json_next_token cfg dp j) (\<lambda>(j, token).
              if tk_type token = T_OBJ_END then Inr (json_decode_ascend j, H, LTable r)
              else if tk_type token \<noteq> T_COMMA then json_throw_parse_error ''comma or object end'' token
              else bindR (json_next_token cfg dp j) (\<lambda>(j, token). object_loop cfg dp ck j H r token)))))
      | _ \<Rightarrow> json_throw_parse_error ''object key string'' token)"
| "json_parse_array_context cfg dp ck j H =
     bindR (json_decode_descend cfg ck j 2) (\<lambda>j.
     bindR (json_next_token cfg dp j) (\<lambda>(j, token).
     if tk_type token = T_ARR_END then Inr (json_decode_ascend j, H @ [[]], LTable (length H))
     else array_loop cfg dp ck j (H @ [[]]) (length H) 1 token))"
| "array_loop cfg dp ck j H r i token =
     bindR (json_process_value cfg dp ck j H token) (\<lambda>(j, H, v).
     let H = lua_rawset H r (LInt i) v in
     bindR (json_next_token cfg dp j) (\<lambda>(j, token).
     if tk_type token = T_ARR_END then Inr (json_decode_ascend j, H, LTable r)
     else if tk_type token \<noteq> T_COMMA then json_throw_parse_error ''comma or array end'' token
     else
       bindR (json_next_token cfg dp j) (\<lambda>(j, token).
       bindR (i32 (i + 1)) (\<lambda>i. array_loop cfg dp ck j H r i token))))"
  by pat_completeness auto


text \<open>Whatever a call that returns has read is gone, also where it is not known yet that every call returns.\<close>

lemma parser_length:
  "json_process_value_json_parse_object_context_object_loop_json_parse_array_context_array_loop_dom (Inl (Inl (cfg, dp, ck, j, H, token))) \<Longrightarrow>
     json_process_value cfg dp ck j H token = Inr (j', q) \<Longrightarrow> length (jp_ptr j') \<le> length (jp_ptr j)"
  "json_process_value_json_parse_object_context_object_loop_json_parse_array_context_array_loop_dom (Inl (Inr (cfg, dp, ck, j, H))) \<Longrightarrow>
     json_parse_object_context cfg dp ck j H = Inr (j', q) \<Longrightarrow> length (jp_ptr j') \<le> length (jp_ptr j)"
  "json_process_value_json_parse_object_context_object_loop_json_parse_array_context_array_loop_dom (Inr (Inl (cfg, dp, ck, j, H, r, token))) \<Longrightarrow>
     object_loop cfg dp ck j H r token = Inr (j', q) \<Longrightarrow> length (jp_ptr j') \<le> length (jp_ptr j)"
  "json_process_value_json_parse_object_context_object_loop_json_parse_array_context_array_loop_dom (Inr (Inr (Inl (cfg, dp, ck, j, H)))) \<Longrightarrow>
     json_parse_array_context cfg dp ck j H = Inr (j', q) \<Longrightarrow> length (jp_ptr j') \<le> length (jp_ptr j)"
  "json_process_value_json_parse_object_context_object_loop_json_parse_array_context_array_loop_dom (Inr (Inr (Inr (cfg, dp, ck, j, H, r, i, token)))) \<Longrightarrow>
     array_loop cfg dp ck j H r i token = Inr (j', q) \<Longrightarrow> length (jp_ptr j') \<le> length (jp_ptr j)"
proof (induction arbitrary: j' q and j' q and j' q and j' q and j' q
    rule: json_process_value_json_parse_object_context_object_loop_json_parse_array_context_array_loop.pinduct)
  case (1 cfg dp ck j H token)
  then show ?case
    by (auto simp: json_process_value.psimps json_throw_parse_error_def split: json_token_type.splits token_value.splits)
next
  case (2 cfg dp ck j H)
  from 2(1,3) obtain j1 j2 token where d: "json_decode_descend cfg ck j 3 = Inr j1" "json_next_token cfg dp j1 = Inr (j2, token)"
    and r: "(if tk_type token = T_OBJ_END then Inr (json_decode_ascend j2, H @ [[]], LTable (length H))
     else object_loop cfg dp ck j2 (H @ [[]]) (length H) token) = Inr (j', q)"
    by (auto simp: json_parse_object_context.psimps bindR_Inr_iff)
  have "length (jp_ptr j2) \<le> length (jp_ptr j)"
    using next_token_length [OF d(2)] descend_length [OF d(1)] by simp
  moreover have "length (jp_ptr j') \<le> length (jp_ptr j2)"
    using r 2(2) [OF d refl _] by (auto split: if_splits)
  ultimately show ?case by simp
next
  case (3 cfg dp ck j H r token)
  show ?case
  proof (cases "\<exists>key. tk_value token = VString key \<and> tk_type token = T_STRING")
    case False
    then show ?thesis using 3(1,4) by (auto simp: object_loop.psimps json_throw_parse_error_def split: token_value.splits if_splits)
  next
    case True
    then obtain key where key: "tk_value token = VString key" "tk_type token = T_STRING" by blast
    with 3(1,4) have "bindR (json_next_token cfg dp j) (\<lambda>(j, token).
            if tk_type token \<noteq> T_COLON then json_throw_parse_error ''colon'' token
            else
              bindR (json_next_token cfg dp j) (\<lambda>(j, token).
              bindR (json_process_value cfg dp ck j H token) (\<lambda>(j, H, v).
              let H = lua_rawset H r (LStr key) v in
              bindR (json_next_token cfg dp j) (\<lambda>(j, token).
              if tk_type token = T_OBJ_END then Inr (json_decode_ascend j, H, LTable r)
              else if tk_type token \<noteq> T_COMMA then json_throw_parse_error ''comma or object end'' token
              else bindR (json_next_token cfg dp j) (\<lambda>(j, token). object_loop cfg dp ck j H r token))))) = Inr (j', q)"
      by (simp add: object_loop.psimps)
    then obtain j1 t1 j2 t2 j3 H3 v where t: "json_next_token cfg dp j = Inr (j1, t1)" "tk_type t1 = T_COLON"
        "json_next_token cfg dp j1 = Inr (j2, t2)" and v: "json_process_value cfg dp ck j2 H t2 = Inr (j3, H3, v)"
      and r: "bindR (json_next_token cfg dp j3) (\<lambda>(j, token).
              if tk_type token = T_OBJ_END then Inr (json_decode_ascend j, lua_rawset H3 r (LStr key) v, LTable r)
              else if tk_type token \<noteq> T_COMMA then json_throw_parse_error ''comma or object end'' token
              else bindR (json_next_token cfg dp j) (\<lambda>(j, token). object_loop cfg dp ck j (lua_rawset H3 r (LStr key) v) r token))
            = Inr (j', q)"
      by (auto simp: bindR_Inr_iff Let_def json_throw_parse_error_def split: if_splits)
    from r obtain j4 t4 where t4: "json_next_token cfg dp j3 = Inr (j4, t4)"
      and r4: "(if tk_type t4 = T_OBJ_END then Inr (json_decode_ascend j4, lua_rawset H3 r (LStr key) v, LTable r)
              else if tk_type t4 \<noteq> T_COMMA then json_throw_parse_error ''comma or object end'' t4
              else bindR (json_next_token cfg dp j4) (\<lambda>(j, token). object_loop cfg dp ck j (lua_rawset H3 r (LStr key) v) r token))
            = Inr (j', q)" by (auto simp: bindR_Inr_iff)
    have "length (jp_ptr j') \<le> length (jp_ptr j4)"
    proof (cases "tk_type t4 = T_COMMA")
      case True
      with r4 obtain j5 t5 where t5: "json_next_token cfg dp j4 = Inr (j5, t5)"
        and a: "object_loop cfg dp ck j5 (lua_rawset H3 r (LStr key) v) r t5 = Inr (j', q)"
        by (auto simp: bindR_Inr_iff)
      from 3(3) [OF key(1) _ t(1) refl _ t(3) refl v refl refl refl t4 refl _ _ t5 refl a] key(2) t(2) True
        next_token_length [OF t5] show ?thesis by simp
    next
      case False
      with r4 show ?thesis by (auto simp: json_throw_parse_error_def split: if_splits)
    qed
    moreover have "length (jp_ptr j3) \<le> length (jp_ptr j2)"
      using 3(2) [OF key(1) _ t(1) refl _ t(3) refl v] key(2) t(2) by simp
    ultimately show ?thesis using next_token_length [OF t(1)] next_token_length [OF t(3)] next_token_length [OF t4] by simp
  qed
next
  case (4 cfg dp ck j H)
  from 4(1,3) obtain j1 j2 token where d: "json_decode_descend cfg ck j 2 = Inr j1" "json_next_token cfg dp j1 = Inr (j2, token)"
    and r: "(if tk_type token = T_ARR_END then Inr (json_decode_ascend j2, H @ [[]], LTable (length H))
     else array_loop cfg dp ck j2 (H @ [[]]) (length H) 1 token) = Inr (j', q)"
    by (auto simp: json_parse_array_context.psimps bindR_Inr_iff)
  have "length (jp_ptr j2) \<le> length (jp_ptr j)"
    using next_token_length [OF d(2)] descend_length [OF d(1)] by simp
  moreover have "length (jp_ptr j') \<le> length (jp_ptr j2)"
    using r 4(2) [OF d refl _] by (auto split: if_splits)
  ultimately show ?case by simp
next
  case (5 cfg dp ck j H r i token)
  from 5(1,4) obtain j1 H1 v where
    v: "json_process_value cfg dp ck j H token = Inr (j1, H1, v)" and
    r: "bindR (json_next_token cfg dp j1) (\<lambda>(j, token).
     if tk_type token = T_ARR_END then Inr (json_decode_ascend j, lua_rawset H1 r (LInt i) v, LTable r)
     else if tk_type token \<noteq> T_COMMA then json_throw_parse_error ''comma or array end'' token
     else
       bindR (json_next_token cfg dp j) (\<lambda>(j, token).
       bindR (i32 (i + 1)) (\<lambda>k. array_loop cfg dp ck j (lua_rawset H1 r (LInt i) v) r k token))) = Inr (j', q)"
    by (auto simp: array_loop.psimps bindR_Inr_iff Let_def split: prod.splits)
  from r obtain j2 t2 where t2: "json_next_token cfg dp j1 = Inr (j2, t2)"
    and r2: "(if tk_type t2 = T_ARR_END then Inr (json_decode_ascend j2, lua_rawset H1 r (LInt i) v, LTable r)
     else if tk_type t2 \<noteq> T_COMMA then json_throw_parse_error ''comma or array end'' t2
     else
       bindR (json_next_token cfg dp j2) (\<lambda>(j, token).
       bindR (i32 (i + 1)) (\<lambda>k. array_loop cfg dp ck j (lua_rawset H1 r (LInt i) v) r k token))) = Inr (j', q)"
    by (auto simp: bindR_Inr_iff)
  have "length (jp_ptr j') \<le> length (jp_ptr j2)"
  proof (cases "tk_type t2 = T_COMMA")
    case True
    with r2 obtain j3 t3 k where t3: "json_next_token cfg dp j2 = Inr (j3, t3)" and k: "i32 (i + 1) = Inr k"
      and a: "array_loop cfg dp ck j3 (lua_rawset H1 r (LInt i) v) r k t3 = Inr (j', q)"
      by (auto simp: bindR_Inr_iff)
    from 5(3) [OF v refl refl refl t2 refl _ _ t3 refl k a] True next_token_length [OF t3] show ?thesis by simp
  next
    case False
    with r2 show ?thesis by (auto simp: json_throw_parse_error_def split: if_splits)
  qed
  with 5(2) [OF v] next_token_length [OF t2] show ?case by simp
qed


text \<open>
  Every call leaves less to read, or passes on what it was given to a function with a smaller constant.
\<close>

termination json_process_value
proof (relation "measure (case_sum
    (case_sum (\<lambda>(cfg, dp, ck, j, H, token). 5 * left j token) (\<lambda>(cfg, dp, ck, j, H). 5 * length (jp_ptr j) + 3))
    (case_sum (\<lambda>(cfg, dp, ck, j, H, r, token). 5 * left j token + 1)
      (case_sum (\<lambda>(cfg, dp, ck, j, H). 5 * length (jp_ptr j) + 3)
        (\<lambda>(cfg, dp, ck, j, H, r, i, token). 5 * left j token + 1))))", goal_cases)
  case (4 cfg dp ck j H j1 p j2 token)
  then show ?case using next_token_left [of cfg dp j1 j2 token] by (auto dest: descend_length)
next
  case (5 cfg dp ck j H r token key p j1 t1 p2 j2 t2)
  then show ?case using next_token_left [of cfg dp j j1 t1] next_token_left [of cfg dp j1 j2 t2] by (auto simp: left_def)
next
  case (6 cfg dp ck j H r token key p j1 t1 p2 j2 t2 p3 j3 q H3 v H4 p4 j4 t4 p5 j5 t5)
  then show ?case using next_token_left [of cfg dp j j1 t1] next_token_length [of cfg dp j1 j2 t2]
      parser_length(1) [of cfg dp ck j2 H t2 j3 q] next_token_length [of cfg dp j3 j4 t4] next_token_left [of cfg dp j4 j5 t5]
    by (auto simp: left_def)
next
  case (7 cfg dp ck j H j1 p j2 token)
  then show ?case using next_token_left [of cfg dp j1 j2 token] by (auto dest: descend_length)
next
  case (9 cfg dp ck j H r i token p j1 q H1 v H2 p2 j2 t2 p3 j3 t3 k)
  then show ?case using parser_length(1) [of cfg dp ck j H token j1 q] next_token_left [of cfg dp j1 j2 t2] next_token_left [of cfg dp j2 j3 t3]
    by (auto simp: left_def)
qed (auto simp: left_def)

declare json_process_value.simps [simp del] json_parse_object_context.simps [simp del] object_loop.simps [simp del]
  json_parse_array_context.simps [simp del] array_loop.simps [simp del]

section \<open>Decoding a text\<close>

text \<open>A Lua string is followed by a zero byte; \<open>strbuf_new\<close> takes an \<open>int\<close>.\<close>

definition json_decode :: "json_config \<Rightarrow> u8 \<Rightarrow> (int \<Rightarrow> nat \<Rightarrow> bool) \<Rightarrow> u8 list \<Rightarrow> tables \<Rightarrow> (tables \<times> lua) run" where
  "json_decode cfg dp ck text H =
     (if 2 \<le> length text \<and> (text ! 0 = 0 \<or> text ! 1 = 0)
      then Inl (Throw ''JSON parser does not support UTF-16 or UTF-32'')
      else
        bindR (strbuf_new (sint (of_nat (length text) :: u32))) (\<lambda>tmp.
        bindR (json_next_token cfg dp \<lparr>jp_len = length text, jp_ptr = text, jp_tmp = tmp, jp_depth = 0\<rparr>) (\<lambda>(j, token).
        bindR (json_process_value cfg dp ck j H token) (\<lambda>(j, H, v).
        bindR (json_next_token cfg dp j) (\<lambda>(j, token).
        if tk_type token \<noteq> T_END then json_throw_parse_error ''the end'' token
        else Inr (H, v))))))"

end
