(* ===== verification/Json_Encode.thy ===== *)
theory Json_Encode
  imports Json_Parse
begin

text \<open>
  The encoder of \<^verbatim>\<open>src/depends/json/lua_cjson.c\<close>, which walks through Lua tables and appends to the buffer, and the
  protected call.  \<open>dp\<close> is the decimal point of the locale, \<open>ck\<close> tells whether \<open>lua_checkstack\<close> succeeds at a depth.
\<close>

section \<open>Reading Lua values\<close>

fun lua_typename :: "lua \<Rightarrow> string" where
  "lua_typename LNil = ''nil''"
| "lua_typename (LBool b) = ''boolean''"
| "lua_typename (LInt i) = ''number''"
| "lua_typename (LNum d) = ''number''"
| "lua_typename (LStr s) = ''string''"
| "lua_typename LNull = ''userdata''"
| "lua_typename (LTable r) = ''table''"
| "lua_typename (LOther s) = s"

text \<open>The pairs of a table in the order of \<open>lua_next\<close>, and a raw access by an integer key.\<close>

definition lua_pairs :: "tables \<Rightarrow> nat \<Rightarrow> (lua \<times> lua) list" where
  "lua_pairs H r = (if r < length H then H ! r else [])"

definition lua_rawgeti :: "(lua \<times> lua) list \<Rightarrow> int \<Rightarrow> lua" where
  "lua_rawgeti ps i = (case map_of ps (LInt i) of None \<Rightarrow> LNil | Some v \<Rightarrow> v)"

fun lua_tonumber :: "lua \<Rightarrow> dbl option" where
  "lua_tonumber (LInt i) = Some (to_dbl (i < 0) (of_int \<bar>i\<bar>))"
| "lua_tonumber (LNum d) = Some d"
| "lua_tonumber _ = None"

section \<open>Errors and checks\<close>

text \<open>
  The error ends the call with \<open>luaL_error\<close>; the buffer it leaves is reset, or made anew, before it is used again.
\<close>

definition json_encode_exception :: "lua \<Rightarrow> string \<Rightarrow> 'a run" where
  "json_encode_exception v reason = Inl (Throw (''Cannot serialise '' @ lua_typename v @ '': '' @ reason))"

text \<open>A positive double that is a whole number, as an \<open>int\<close> when it fits; the conversion is undefined otherwise.\<close>

fun whole_positive :: "dbl \<Rightarrow> bool" where
  "whole_positive (Fin q) = (of_int \<lfloor>q\<rfloor> = q \<and> 1 \<le> q)"
| "whole_positive PosInf = True"
| "whole_positive _ = False"

text \<open>The loop over the keys: \<open>None\<close> when one is not a positive whole number.\<close>

fun array_length_loop :: "(lua \<times> lua) list \<Rightarrow> int \<Rightarrow> int \<Rightarrow> (int \<times> int) option run" where
  "array_length_loop [] max0 items = Inr (Some (max0, items))"
| "array_length_loop ((k, v) # ps) max0 items =
     (case lua_tonumber k of
        None \<Rightarrow> Inr None
      | Some d \<Rightarrow>
          if whole_positive d then
            bindR (if dlt (Fin (of_int max0)) d
                   then (case dbl_to_int 32 d of None \<Rightarrow> Inl Overflow | Some m \<Rightarrow> Inr m) else Inr max0) (\<lambda>max1.
            bindR (i32 (items + 1)) (\<lambda>items. array_length_loop ps max1 items))
          else Inr None)"

definition lua_array_length :: "json_config \<Rightarrow> nat \<Rightarrow> (lua \<times> lua) list \<Rightarrow> int run" where
  "lua_array_length cfg r ps =
     bindR (array_length_loop ps 0 0) (\<lambda>res.
     case res of
       None \<Rightarrow> Inr (- 1)
     | Some (max0, items) \<Rightarrow>
         bindR (if encode_sparse_ratio cfg > 0
                then bindR (i32 (items * encode_sparse_ratio cfg)) (\<lambda>n. Inr (max0 > n \<and> max0 > encode_sparse_safe cfg))
                else Inr False) (\<lambda>sparse.
         if sparse then
           (if encode_sparse_convert cfg = 0 then json_encode_exception (LTable r) ''excessively sparse array''
            else Inr (- 1))
         else Inr max0))"

definition json_check_encode_depth :: "json_config \<Rightarrow> (int \<Rightarrow> bool) \<Rightarrow> int \<Rightarrow> unit run" where
  "json_check_encode_depth cfg ck current_depth =
     (if current_depth \<le> encode_max_depth cfg \<and> ck current_depth then Inr ()
      else Inl (Throw (''Cannot serialise, excessive nesting ('' @ int_text current_depth @ '')'')))"

section \<open>Numbers\<close>

definition json_append_double :: "json_config \<Rightarrow> u8 \<Rightarrow> strbuf \<Rightarrow> dbl \<Rightarrow> strbuf run" where
  "json_append_double cfg dp s num =
     bindR (strbuf_ensure_empty_length s (int FPCONV_G_FMT_BUFSIZE)) (\<lambda>s.
     let (out, len) = fpconv_g_fmt dp num (encode_number_precision cfg) in
     bindR (put_bytes s (sb_length s) (out @ [0])) (\<lambda>s.
     Inr (strbuf_extend_length s len)))"

definition json_append_number :: "json_config \<Rightarrow> u8 \<Rightarrow> strbuf \<Rightarrow> lua \<Rightarrow> strbuf run" where
  "json_append_number cfg dp s v =
     (case v of
        LInt num \<Rightarrow>
          bindR (strbuf_ensure_empty_length s (int FPCONV_G_FMT_BUFSIZE)) (\<lambda>s.
          let out = lua_integer2str num in
          bindR (vsnprintf s (sb_length s) (strbuf_empty_length s) out) (\<lambda>s.
          Inr (strbuf_extend_length s (int (length out)))))
      | LNum num \<Rightarrow>
          if encode_invalid_numbers cfg = 0 then
            (if num = PosInf \<or> num = NegInf \<or> num = NaN
             then json_encode_exception v ''must not be NaN or Infinity''
             else json_append_double cfg dp s num)
          else if encode_invalid_numbers cfg = 1 then
            (if num = NaN then strbuf_append_mem s (bytes ''NaN'')
             else if num = NegInf then strbuf_append_mem s (bytes ''-Infinity'')
             else if num = PosInf then strbuf_append_mem s (bytes ''Infinity'')
             else json_append_double cfg dp s num)
          else
            (if num = PosInf \<or> num = NegInf \<or> num = NaN then strbuf_append_mem s (bytes ''null'')
             else json_append_double cfg dp s num)
      | _ \<Rightarrow> json_append_double cfg dp s (Fin 0))"

text \<open>A key with its colon.\<close>

definition json_append_key :: "json_config \<Rightarrow> u8 \<Rightarrow> strbuf \<Rightarrow> lua \<Rightarrow> strbuf run" where
  "json_append_key cfg dp s k =
     (case k of
        LInt i \<Rightarrow>
          bindR (strbuf_append_char s 34) (\<lambda>s.
          bindR (json_append_number cfg dp s k) (\<lambda>s. strbuf_append_mem s [34, 58]))
      | LNum d \<Rightarrow>
          bindR (strbuf_append_char s 34) (\<lambda>s.
          bindR (json_append_number cfg dp s k) (\<lambda>s. strbuf_append_mem s [34, 58]))
      | LStr str \<Rightarrow> bindR (json_append_string s str) (\<lambda>s. strbuf_append_char s 58)
      | _ \<Rightarrow> json_encode_exception k ''table key must be a number or string'')"

section \<open>Tables\<close>

text \<open>
  The loops over the elements \<open>i\<close> to \<open>array_length\<close> of an array and over the pairs of an object; \<open>comma\<close> is whether one
  was written before.
\<close>

function json_append_data :: "json_config \<Rightarrow> u8 \<Rightarrow> (int \<Rightarrow> bool) \<Rightarrow> tables \<Rightarrow> int \<Rightarrow> lua \<Rightarrow> strbuf \<Rightarrow> strbuf run"
  and append_array_loop :: "json_config \<Rightarrow> u8 \<Rightarrow> (int \<Rightarrow> bool) \<Rightarrow> tables \<Rightarrow> int \<Rightarrow> (lua \<times> lua) list \<Rightarrow> int \<Rightarrow> int \<Rightarrow> bool \<Rightarrow>
      strbuf \<Rightarrow> strbuf run"
  and append_object_loop :: "json_config \<Rightarrow> u8 \<Rightarrow> (int \<Rightarrow> bool) \<Rightarrow> tables \<Rightarrow> int \<Rightarrow> (lua \<times> lua) list \<Rightarrow> bool \<Rightarrow>
      strbuf \<Rightarrow> strbuf run"
  and json_append_array :: "json_config \<Rightarrow> u8 \<Rightarrow> (int \<Rightarrow> bool) \<Rightarrow> tables \<Rightarrow> int \<Rightarrow> (lua \<times> lua) list \<Rightarrow> int \<Rightarrow> strbuf \<Rightarrow> strbuf run"
  and json_append_object :: "json_config \<Rightarrow> u8 \<Rightarrow> (int \<Rightarrow> bool) \<Rightarrow> tables \<Rightarrow> int \<Rightarrow> (lua \<times> lua) list \<Rightarrow> strbuf \<Rightarrow> strbuf run" where
  "json_append_data cfg dp ck H depth v s =
     (case v of
        LStr str \<Rightarrow> json_append_string s str
      | LInt i \<Rightarrow> json_append_number cfg dp s v
      | LNum d \<Rightarrow> json_append_number cfg dp s v
      | LBool b \<Rightarrow> strbuf_append_mem s (bytes (if b then ''true'' else ''false''))
      | LTable r \<Rightarrow>
          bindR (i32 (depth + 1)) (\<lambda>depth1.
          bindR (json_check_encode_depth cfg ck depth1) (\<lambda>_.
          bindR (lua_array_length cfg r (lua_pairs H r)) (\<lambda>len.
          if len > 0 then json_append_array cfg dp ck H depth1 (lua_pairs H r) len s
          else json_append_object cfg dp ck H depth1 (lua_pairs H r) s)))
      | LNil \<Rightarrow> strbuf_append_mem s (bytes ''null'')
      | LNull \<Rightarrow> strbuf_append_mem s (bytes ''null'')
      | LOther t \<Rightarrow> json_encode_exception v ''type not supported'')"
| "append_array_loop cfg dp ck H depth ps array_length i comma s =
     (if i \<le> array_length then
        bindR (if comma then strbuf_append_char s 44 else Inr s) (\<lambda>s.
        bindR (json_append_data cfg dp ck H depth (lua_rawgeti ps i) s) (\<lambda>s.
        bindR (i32 (i + 1)) (\<lambda>i1. append_array_loop cfg dp ck H depth ps array_length i1 True s)))
      else strbuf_append_char s 93)"
| "append_object_loop cfg dp ck H depth ps comma s =
     (case ps of
        [] \<Rightarrow> strbuf_append_char s 125
      | (k, v) # ps1 \<Rightarrow>
          bindR (if comma then strbuf_append_char s 44 else Inr s) (\<lambda>s.
          bindR (json_append_key cfg dp s k) (\<lambda>s.
          bindR (json_append_data cfg dp ck H depth v s) (\<lambda>s.
          append_object_loop cfg dp ck H depth ps1 True s))))"
| "json_append_array cfg dp ck H depth ps array_length s =
     bindR (strbuf_append_char s 91) (append_array_loop cfg dp ck H depth ps array_length 1 False)"
| "json_append_object cfg dp ck H depth ps s =
     bindR (strbuf_append_char s 123) (append_object_loop cfg dp ck H depth ps False)"
  by pat_completeness auto

text \<open>
  Every level of tables is one deeper, and the depth is bounded by the check, so that also a table which contains itself
  comes to an end; the loops count up to the length of the array, or down the pairs.
\<close>

termination json_append_data
proof (relation "measures [case_sum
    (case_sum (\<lambda>(cfg, dp, ck, H, depth, v, s). nat (encode_max_depth cfg + 1 - depth))
      (\<lambda>(cfg, dp, ck, H, depth, ps, len, i, comma, s). nat (encode_max_depth cfg + 1 - depth)))
    (case_sum (\<lambda>(cfg, dp, ck, H, depth, ps, comma, s). nat (encode_max_depth cfg + 1 - depth))
      (case_sum (\<lambda>(cfg, dp, ck, H, depth, ps, len, s). nat (encode_max_depth cfg + 1 - depth))
        (\<lambda>(cfg, dp, ck, H, depth, ps, s). nat (encode_max_depth cfg + 1 - depth)))),
    case_sum
    (case_sum (\<lambda>(cfg, dp, ck, H, depth, v, s). 0)
      (\<lambda>(cfg, dp, ck, H, depth, ps, len, i, comma, s). 1 + nat (len + 1 - i)))
    (case_sum (\<lambda>(cfg, dp, ck, H, depth, ps, comma, s). 1 + length ps)
      (case_sum (\<lambda>(cfg, dp, ck, H, depth, ps, len, s). 2 + nat len)
        (\<lambda>(cfg, dp, ck, H, depth, ps, s). 2 + length ps)))]", goal_cases)
qed (auto simp: i32_eq json_check_encode_depth_def split: if_splits)

declare json_append_data.simps [simp del] append_array_loop.simps [simp del] append_object_loop.simps [simp del]
  json_append_array.simps [simp del] json_append_object.simps [simp del]

section \<open>Encoding a value\<close>

text \<open>
  The buffer is the one of the configuration, emptied, or a private one.  The result is the configuration
  with its buffer, and the text.
\<close>

definition json_encode :: "json_config \<Rightarrow> u8 \<Rightarrow> (int \<Rightarrow> bool) \<Rightarrow> tables \<Rightarrow> lua \<Rightarrow> (json_config \<times> u8 list) run" where
  "json_encode cfg dp ck H v =
     bindR (if encode_keep_buffer cfg = 0 then strbuf_init 0 else Inr (strbuf_reset (encode_buf cfg))) (\<lambda>s.
     bindR (json_append_data cfg dp ck H 0 v s) (\<lambda>s.
     let (json, len) = strbuf_string s in
     Inr (if encode_keep_buffer cfg = 0 then cfg else cfg\<lparr>encode_buf := s\<rparr>, take (nat len) json)))"

text \<open>
  The protected versions: a thrown error is returned as nil and its message.  Every error that is thrown here is a run-time
  error.
\<close>

definition json_protect_conversion :: "'a run \<Rightarrow> ('a + string) run" where
  "json_protect_conversion result =
     (case result of
        Inr x \<Rightarrow> Inr (Inl x)
      | Inl (Throw msg) \<Rightarrow> Inr (Inr msg)
      | Inl e \<Rightarrow> Inl e)"

end
