(* ===== verification/Fpconv_Props.thy ===== *)
theory Fpconv_Props
  imports Fpconv
begin

text \<open>
  The conversion of doubles to text: how long the text is, and that it does not depend on the locale.
\<close>

section \<open>Powers, logarithms and rounding\<close>

lemma pow_rat_eq: "pow_rat b e = power_int b e"
  by (simp add: pow_rat_def power_int_def inverse_eq_divide power_divide)

lemma pow_rat_nat: "pow_rat b (int n) = b ^ n"
  by (simp add: pow_rat_def)

lemma ilog_bounds:
  assumes "0 < q" "1 < b"
  shows "pow_rat (of_nat b) (ilog b q) \<le> q" "q < pow_rat (of_nat b) (ilog b q + 1)"
proof -
  obtain n d where nd: "quotient_of q = (n, d)" by (metis surj_pair)
  have d: "0 < d" and q: "q = of_int n / of_int d" using quotient_of_denom_pos [OF nd] quotient_of_div [OF nd] by simp_all
  have n: "0 < n" using assms(1) d unfolding q by (simp add: zero_less_divide_iff)
  let ?B = "of_nat b :: rat"
  define fn fd where "fn = floorlog b (nat n)" and "fd = floorlog b (nat d)"
  have B: "1 < ?B" using assms(2) by simp
  have fp: "0 < fn" "0 < fd" using n d assms(2) by (simp_all add: fn_def fd_def floorlog_def)
  have fl: "b ^ (fn - 1) \<le> nat n" "nat n < b ^ fn" "b ^ (fd - 1) \<le> nat d" "nat d < b ^ fd"
    using floorlog_bounds [of "nat n" b] floorlog_bounds [of "nat d" b] n d assms(2) by (simp_all add: fn_def fd_def)
  have r: "?B ^ (fn - 1) \<le> of_int n" "of_int n < ?B ^ fn" "?B ^ (fd - 1) \<le> of_int d" "of_int d < ?B ^ fd"
    using fl n d by (metis of_nat_le_iff of_nat_less_iff of_nat_power of_nat_nat less_imp_le of_int_of_nat_eq)+
  define k where "k = int fn - int fd"
  have up: "q < pow_rat ?B (k + 1)"
  proof -
    have "q < ?B ^ fn / ?B ^ (fd - 1)" unfolding q using r d n B by (intro frac_less) auto
    also have "\<dots> = pow_rat ?B (k + 1)" using B fp
      by (simp add: pow_rat_eq k_def flip: power_int_of_nat power_int_diff) (simp add: algebra_simps)
    finally show ?thesis .
  qed
  have lo: "pow_rat ?B (k - 1) \<le> q"
  proof -
    have "pow_rat ?B (k - 1) = ?B ^ (fn - 1) / ?B ^ fd" using B fp
      by (simp add: pow_rat_eq k_def flip: power_int_of_nat power_int_diff) (simp add: algebra_simps)
    also have "\<dots> \<le> q" unfolding q using r d n B by (intro frac_le) auto
    finally show ?thesis .
  qed
  have i: "ilog b q = (if pow_rat ?B k \<le> q then k else k - 1)"
    by (simp add: ilog_def nd k_def fn_def fd_def)
  show "pow_rat ?B (ilog b q) \<le> q" "q < pow_rat ?B (ilog b q + 1)" using i up lo by (auto simp: not_le)
qed

lemma round_half_even_floor: "\<lfloor>x\<rfloor> \<le> round_half_even x" "round_half_even x \<le> \<lfloor>x\<rfloor> + 1"
  by (simp_all add: round_half_even_def Let_def)

lemma round_half_even_lower: "of_int a \<le> x \<Longrightarrow> a \<le> round_half_even x"
  using round_half_even_floor(1) [of x] le_floor_iff [of a x] by linarith

lemma round_half_even_upper: "x < of_int b \<Longrightarrow> round_half_even x \<le> b"
  using round_half_even_floor(2) [of x] floor_less_iff [of x b] by linarith

lemma g_digits_bounds:
  assumes "0 < q" "1 \<le> P" "g_digits P q = (n, x)"
  shows "10 ^ nat (P - 1) \<le> n" "n < 10 ^ nat P" "x = ilog 10 q \<or> x = ilog 10 q + 1"
proof -
  let ?x = "ilog 10 q"
  define n0 where "n0 = round_half_even (q * pow_rat 10 (P - 1 - ?x))"
  have b: "pow_rat 10 ?x \<le> q" "q < pow_rat 10 (?x + 1)" using ilog_bounds [OF assms(1), of 10] by simp_all
  have pos: "0 < pow_rat 10 (P - 1 - ?x)" by (simp add: pow_rat_eq)
  have m: "pow_rat 10 u * pow_rat 10 v = pow_rat 10 (u + v)" for u v by (simp add: pow_rat_eq power_int_add)
  have "pow_rat 10 (P - 1) \<le> q * pow_rat 10 (P - 1 - ?x)"
    using mult_right_mono [OF b(1), of "pow_rat 10 (P - 1 - ?x)"] pos m by simp
  then have "of_int (10 ^ nat (P - 1)) \<le> q * pow_rat 10 (P - 1 - ?x)" using assms(2) by (simp add: pow_rat_def)
  then have lo: "10 ^ nat (P - 1) \<le> n0" unfolding n0_def by (rule round_half_even_lower)
  have "q * pow_rat 10 (P - 1 - ?x) < pow_rat 10 P"
    using mult_strict_right_mono [OF b(2) pos] m by simp
  then have "q * pow_rat 10 (P - 1 - ?x) < of_int (10 ^ nat P)" using assms(2) by (simp add: pow_rat_def)
  then have hi: "n0 \<le> 10 ^ nat P" unfolding n0_def by (rule round_half_even_upper)
  have "nat P = Suc (nat (P - 1))" using assms(2) by simp
  then have lt: "(10 :: int) ^ nat (P - 1) < 10 ^ nat P" by simp
  have g: "(n, x) = (if n0 = 10 ^ nat P then (10 ^ nat (P - 1), ?x + 1) else (n0, ?x))"
    using assms(3) unfolding g_digits_def n0_def Let_def by simp
  then show "10 ^ nat (P - 1) \<le> n" "n < 10 ^ nat P" "x = ilog 10 q \<or> x = ilog 10 q + 1" using lo hi lt by (auto split: if_splits)
qed

section \<open>The text of a double\<close>

text \<open>The values of type \<open>double\<close>: what is not zero lies between the smallest subnormal number and the largest number.\<close>

definition is_double :: "dbl \<Rightarrow> bool" where
  "is_double d = (case d of Fin q \<Rightarrow> q = 0 \<or> (pow_rat 2 (- 1074) \<le> \<bar>q\<bar> \<and> \<bar>q\<bar> < pow_rat 2 1024) | _ \<Rightarrow> True)"

lemma pow_rat_10_less: "pow_rat 10 a < pow_rat 10 b \<Longrightarrow> a < b"
  using power_int_increasing [of b a "10 :: rat"] by (force simp: pow_rat_eq not_less)

lemma four_le_ten: "(2 :: rat) ^ (2 * n) \<le> 10 ^ n"
proof -
  have "((2 :: rat)\<^sup>2) ^ n \<le> 10 ^ n" by (intro power_mono) simp_all
  then show ?thesis by (simp only: power_mult)
qed

lemma two_le_ten: "pow_rat 2 1024 \<le> pow_rat 10 512" "pow_rat 10 (- 537) \<le> pow_rat 2 (- 1074)"
proof -
  have p: "pow_rat 2 (int (2 * n)) \<le> pow_rat 10 (int n)" for n
    using four_le_ten [of n] by (simp only: pow_rat_nat)
  show "pow_rat 2 1024 \<le> pow_rat 10 512" using p [of 512] by (simp only: of_nat_numeral of_nat_mult) simp
  have m: "pow_rat b (- e) = 1 / pow_rat b e" if "b \<noteq> 0" for b e
    using that by (simp add: pow_rat_eq power_int_minus inverse_eq_divide)
  have "1 / pow_rat 10 (int n) \<le> 1 / pow_rat 2 (int (2 * n))" for n
    using p [of n] by (intro divide_left_mono) (simp_all add: pow_rat_eq)
  from this [of 537] show "pow_rat 10 (- 537) \<le> pow_rat 2 (- 1074)"
    using m [of 10 537] m [of 2 1074] by (simp only: of_nat_numeral of_nat_mult) simp
qed

lemma ilog_double:
  assumes "is_double (Fin q)" "q \<noteq> 0"
  shows "- 539 < ilog 10 \<bar>q\<bar>" "ilog 10 \<bar>q\<bar> < 512"
proof -
  have q: "pow_rat 2 (- 1074) \<le> \<bar>q\<bar>" "\<bar>q\<bar> < pow_rat 2 1024" "0 < \<bar>q\<bar>" using assms by (simp_all add: is_double_def)
  note b = ilog_bounds [OF q(3), of 10, simplified]
  have "pow_rat 10 (ilog 10 \<bar>q\<bar>) < pow_rat 10 512" using b(1) q(2) two_le_ten(1) by linarith
  then show "ilog 10 \<bar>q\<bar> < 512" by (rule pow_rat_10_less)
  have "pow_rat 10 (- 537) < pow_rat 10 (ilog 10 \<bar>q\<bar> + 1)" using b(2) q(1) two_le_ten(2) by linarith
  then have "- 537 < ilog 10 \<bar>q\<bar> + 1" by (rule pow_rat_10_less)
  then show "- 539 < ilog 10 \<bar>q\<bar>" by simp
qed

lemma strip_zeros_facts: "length (strip_zeros ds) \<le> length ds" "set (strip_zeros ds) \<subseteq> set ds"
  using length_dropWhile_le [of "\<lambda>c. c = 48" "rev ds"] set_dropWhileD [of _ "\<lambda>c. c = 48" "rev ds"]
  by (auto simp: strip_zeros_def)

lemma g_fixed_length:
  assumes "length ds \<le> nat P" "- 4 \<le> x" "x < P" "1 \<le> P"
  shows "length (g_fixed dp ds x) \<le> nat P + 5"
proof (cases "x < 0")
  case True
  then have "nat (- x - 1) \<le> 3" using assms(2) by simp
  then show ?thesis using True assms(1) by (simp add: g_fixed_def)
next
  case False
  then have "nat x + 1 \<le> nat P" using assms(3) by linarith
  then show ?thesis using False assms(1) by (auto simp: g_fixed_def Let_def)
qed

lemma g_exp_length:
  assumes "length ds \<le> nat P" "\<bar>x\<bar> < 1000" "1 \<le> P"
  shows "length (g_exp dp ds x) \<le> nat P + 6"
proof -
  have "nat \<bar>x\<bar> < 10 ^ 3" using assms(2) by simp
  then have e: "length (nat_digits (nat \<bar>x\<bar>)) \<le> 3" using nat_digits_length [of _ 3] by simp
  have d: "length ds - 1 + 1 \<le> nat P" using assms(1,3) by linarith
  show ?thesis using e d by (cases ds) (auto simp: g_exp_def Let_def min_def)
qed

lemma format_g_length:
  assumes "is_double d" "1 \<le> P"
  shows "length (format_g dp P d) \<le> nat P + 7"
proof (cases d)
  case (Fin q)
  show ?thesis
  proof (cases "q = 0")
    case False
    obtain n x where nx: "g_digits P \<bar>q\<bar> = (n, x)" by (metis surj_pair)
    have q: "0 < \<bar>q\<bar>" using False by simp
    note g = g_digits_bounds [OF q assms(2) nx]
    have "0 \<le> n" using g(1) by (meson order_trans zero_le_numeral zero_le_power)
    then have "nat n < 10 ^ nat P" using g(2) by (simp add: nat_less_iff)
    then have l: "length (strip_zeros (nat_digits (nat n))) \<le> nat P"
      using nat_digits_length [of "nat n" "nat P"] assms(2) strip_zeros_facts(1) [of "nat_digits (nat n)"] by linarith
    have x: "\<bar>x\<bar> < 1000" using g(3) ilog_double [of q] assms(1) Fin False by auto
    have "length (format_g dp P d) \<le> 1 + (if - 4 \<le> x \<and> x < P then length (g_fixed dp (strip_zeros (nat_digits (nat n))) x)
        else length (g_exp dp (strip_zeros (nat_digits (nat n))) x))"
      using Fin False nx assms(2) by (simp add: format_g_def Let_def)
    then show ?thesis using g_fixed_length [OF l _ _ assms(2), of x dp] g_exp_length [OF l x assms(2), of dp]
      by (cases "- 4 \<le> x \<and> x < P") auto
  qed (use Fin assms in \<open>simp add: format_g_def\<close>)
qed (use assms in \<open>simp_all add: format_g_def\<close>)

section \<open>The decimal point\<close>

definition number_chars :: "u8 set" where
  "number_chars = digit_char ` {..<10} \<union> {43, 45, 97, 101, 102, 105, 110}"

lemma nat_digits_chars: "set (nat_digits n) \<subseteq> digit_char ` {..<10}"
  using nat_digits_digits by fastforce

text \<open>Replacing the decimal point in the text is the same as printing with the other one.\<close>

lemma map_digits:
  assumes "set ds \<subseteq> digit_char ` {..<10}" "dp \<notin> number_chars"
  shows "map (\<lambda>b. if b = dp then 46 else b) ds = ds"
  using assms by (intro map_idI) (auto simp: number_chars_def)

lemma format_g_point:
  assumes "dp \<notin> number_chars" "1 \<le> P"
  shows "map (\<lambda>b. if b = dp then 46 else b) (format_g dp P d) = format_g 46 P d"
proof -
  let ?f = "\<lambda>b. if b = dp then 46 else b"
  have z: "(48 :: u8) = digit_char 0" by (simp add: digit_char_def)
  have c: "?f 43 = 43" "?f 45 = 45" "?f 97 = 97" "?f 101 = 101" "?f 102 = 102" "?f 105 = 105" "?f 110 = 110" "?f 48 = 48"
    using assms(1) unfolding z by (auto simp: number_chars_def)
  have e: "map ?f (nat_digits k) = nat_digits k" for k by (rule map_digits [OF nat_digits_chars assms(1)])
  show ?thesis
  proof (cases d)
    case (Fin q)
    obtain n x where nx: "g_digits P \<bar>q\<bar> = (n, x)" by (metis surj_pair)
    let ?ds = "strip_zeros (nat_digits (nat n))"
    have "set ?ds \<subseteq> digit_char ` {..<10}" using strip_zeros_facts(2) nat_digits_chars by blast
    then have ds: "map ?f ?ds = ?ds" by (rule map_digits [OF _ assms(1)])
    then have tk: "map ?f (take k ?ds) = take k ?ds" "map ?f (drop k ?ds) = drop k ?ds" for k
      by (simp_all flip: take_map drop_map)
    have r: "map ?f (replicate k 48) = replicate k 48" for k using c by simp
    have "map ?f (g_fixed dp ?ds x) = g_fixed 46 ?ds x"
      using ds tk r c by (simp add: g_fixed_def Let_def take_append)
    moreover have "map ?f (g_exp dp ?ds x) = g_exp 46 ?ds x"
      using tk c e by (simp add: g_exp_def Let_def)
    ultimately show ?thesis using Fin nx assms(2) c by (simp add: format_g_def Let_def)
  qed (use c in \<open>simp_all add: format_g_def\<close>)
qed

lemma number_format:
  assumes "1 \<le> precision" "precision \<le> 14"
  shows "num_of 10 (digits 10 (drop 2 (set_number_format precision))) = precision"
proof -
  have "\<forall>p \<in> set [1..14]. num_of 10 (digits 10 (drop 2 (set_number_format p))) = p" by code_simp
  then show ?thesis using assms by simp
qed

lemma g_fmt_fits:
  assumes "1 \<le> precision" "precision \<le> 14" "is_double d" "dp \<notin> number_chars"
  shows "fpconv_g_fmt dp d precision = (format_g 46 precision d, int (length (format_g 46 precision d))) \<and>
    length (format_g 46 precision d) \<le> 21"
proof -
  have l: "length (format_g q precision d) \<le> 21" for q
    using format_g_length [OF assms(3,1), of q] assms(2) by linarith
  have s: "snprintf_g q FPCONV_G_FMT_BUFSIZE (set_number_format precision) d =
      (format_g q precision d, int (length (format_g q precision d)))" for q
    using l [of q] by (simp add: snprintf_g_def number_format [OF assms(1,2)] FPCONV_G_FMT_BUFSIZE_def Let_def)
  have "length (format_g dp precision d) = length (format_g 46 precision d)"
    using arg_cong [OF format_g_point [OF assms(4,1), of d], of length] by simp
  then show ?thesis using s l format_g_point [OF assms(4,1), of d] by (simp add: fpconv_g_fmt_def Let_def)
qed

text \<open>
  A double is printed to at most 21 characters, which fit the 32 bytes the buffer keeps for it, and the text has
  the same bytes whatever decimal point the locale uses.
\<close>

theorem fpconv_g_fmt_fits:
  assumes "1 \<le> precision" "precision \<le> 14" "is_double d" "dp \<notin> number_chars"
  shows "fpconv_g_fmt dp d precision = (format_g 46 precision d, int (length (format_g 46 precision d))) \<and>
    length (format_g 46 precision d) \<le> 21"
  using assms by (rule g_fmt_fits)

theorem fpconv_g_fmt_fits_witness:
  "fpconv_g_fmt 44 (Fin 0) 14 = ([48], 1)"
proof -
  have "(44 :: u8) \<notin> number_chars"
  proof -
    have "uint (digit_char d) \<noteq> 44" if "d < 10" for d using uint_digit_char [OF that] by simp
    then have "44 \<notin> digit_char ` {..<10}" by force
    then show ?thesis by (simp add: number_chars_def)
  qed
  moreover have "format_g 46 14 (Fin 0) = [48]" by (simp add: format_g_def)
  ultimately show ?thesis using fpconv_g_fmt_fits [of 14 "Fin 0" 44] by (simp add: is_double_def)
qed

end
