(* ===== verification/Json_Encode_Props.thy ===== *)
theory Json_Encode_Props
  imports Json_Encode Fpconv_Props
begin

text \<open>
  What the encoder does with any Lua value: it only appends to its buffer, never writes outside it, and always ends.
\<close>

section \<open>Numbers\<close>

text \<open>What may be written: strings short enough, and numbers that are doubles or 64-bit integers.\<close>

fun lua_ok :: "lua \<Rightarrow> bool" where
  "lua_ok (LStr s) = (length s \<le> 357913940)"
| "lua_ok (LNum d) = is_double d"
| "lua_ok (LInt i) = (- (2 ^ 63) \<le> i \<and> i < 2 ^ 63)"
| "lua_ok _ = True"

definition heap_ok :: "tables \<Rightarrow> bool" where
  "heap_ok H \<longleftrightarrow> (\<forall>ps \<in> set H. \<forall>(k, v) \<in> set ps. lua_ok k \<and> lua_ok v)"

lemma integer2str_length:
  assumes "- (2 ^ 63) \<le> i" "i < 2 ^ 63"
  shows "length (lua_integer2str i) \<le> 20"
proof -
  have "length (nat_digits n) \<le> 19" if "int n \<le> 2 ^ 63" for n
  proof (rule nat_digits_length)
    have "int n < int (10 ^ 19)" using that by simp
    then show "n < 10 ^ 19" by (simp only: of_nat_less_iff)
  qed simp
  from this [of "nat i"] this [of "nat (- i)"] show ?thesis using assms by (auto simp: lua_integer2str_def)
qed

lemma append_room:
  assumes "strbuf_ok s" "0 \<le> n" "\<And>s'. strbuf_ok s' \<Longrightarrow> n \<le> strbuf_empty_length s' \<Longrightarrow> content s' = content s \<Longrightarrow>
      \<exists>s2. f s' = Inr s2 \<and> strbuf_ok s2 \<and> content s2 = content s @ out"
  shows "appends n s out (bindR (strbuf_ensure_empty_length s n) f)"
proof (cases "strbuf_ensure_empty_length s n")
  case (Inl e)
  then show ?thesis using ensure_empty_ok [OF assms(1,2)] by (simp add: appends_def)
next
  case (Inr s')
  with ensure_empty_ok [OF assms(1,2)] assms(3) [of s'] show ?thesis by (auto simp: appends_def)
qed

lemma append_integer_ok:
  assumes "strbuf_ok s" "- (2 ^ 63) \<le> i" "i < 2 ^ 63"
  shows "appends 32 s (lua_integer2str i) (json_append_number cfg dp s (LInt i))"
proof -
  have l: "length (lua_integer2str i) \<le> 20" by (rule integer2str_length [OF assms(2,3)])
  have "appends 32 s (lua_integer2str i) (bindR (strbuf_ensure_empty_length s 32) (\<lambda>s.
          bindR (vsnprintf s (sb_length s) (strbuf_empty_length s) (lua_integer2str i)) (\<lambda>s.
          Inr (strbuf_extend_length s (int (length (lua_integer2str i)))))))"
  proof (rule append_room [OF assms(1)], simp, goal_cases)
    case (1 s')
    have "int (length (lua_integer2str i)) < strbuf_empty_length s'" using 1(2) l by simp
    from vsnprintf_ok [OF 1(1) this] show ?case using 1(3) by (auto simp: strbuf_extend_length_def)
  qed
  then show ?thesis by (simp add: json_append_number_def FPCONV_G_FMT_BUFSIZE_def Let_def)
qed

lemma append_double_ok:
  assumes "strbuf_ok s" "config_ok cfg" "is_double d" "dp \<notin> number_chars"
  shows "appends 32 s (format_g 46 (encode_number_precision cfg) d) (json_append_double cfg dp s d)"
proof -
  let ?out = "format_g 46 (encode_number_precision cfg) d"
  have g: "fpconv_g_fmt dp d (encode_number_precision cfg) = (?out, int (length ?out))" and l: "length ?out \<le> 21"
    using g_fmt_fits [of "encode_number_precision cfg" d dp] assms by (auto simp: config_ok_def)
  have "appends 32 s ?out (bindR (strbuf_ensure_empty_length s 32) (\<lambda>s.
     bindR (put_bytes s (sb_length s) (?out @ [0])) (\<lambda>s.
     Inr (strbuf_extend_length s (int (length ?out))))))"
  proof (rule append_room [OF assms(1)], simp, goal_cases)
    case (1 s')
    have "int (length ?out) < strbuf_empty_length s'" using 1(2) l by simp
    from vsnprintf_ok [OF 1(1) this] show ?case using 1(3) \<open>int (length ?out) < strbuf_empty_length s'\<close>
      by (auto simp: strbuf_extend_length_def vsnprintf_def split: if_splits)
  qed
  then show ?thesis by (simp add: json_append_double_def g FPCONV_G_FMT_BUFSIZE_def)
qed

section \<open>Every call\<close>

text \<open>A call that appends, throws, or overflows the size of the buffer.\<close>

definition stops :: "stop \<Rightarrow> bool" where
  "stops e \<longleftrightarrow> e = Overflow \<or> (\<exists>msg. e = Throw msg)"

definition grows :: "strbuf \<Rightarrow> strbuf run \<Rightarrow> bool" where
  "grows s r \<longleftrightarrow> (case r of Inr s' \<Rightarrow> strbuf_ok s' \<and> (\<exists>bs. content s' = content s @ bs) | Inl e \<Rightarrow> stops e)"

lemma appends_grows: "appends n s bs r \<Longrightarrow> grows s r"
  by (auto simp: appends_def grows_def stops_def split: sum.splits)

lemma grows_bind:
  assumes "grows s m" "\<And>s'. strbuf_ok s' \<Longrightarrow> m = Inr s' \<Longrightarrow> grows s' (f s')"
  shows "grows s (bindR m f)"
proof (cases m)
  case (Inr s')
  then have "grows s' (f s')" "\<exists>bs. content s' = content s @ bs" using assms by (auto simp: grows_def)
  then show ?thesis using Inr by (auto simp: grows_def split: sum.splits)
qed (use assms(1) in \<open>simp add: grows_def\<close>)

lemma grows_bind_other:
  assumes "\<And>e. m = Inl e \<Longrightarrow> stops e" "\<And>x. m = Inr x \<Longrightarrow> grows s (f x)"
  shows "grows s (bindR m f)"
  using assms by (cases m) (simp_all add: grows_def)

lemma grows_exception [simp]: "grows s (json_encode_exception v r)"
  by (simp add: grows_def json_encode_exception_def stops_def)

lemma grows_refl [simp]: "strbuf_ok s \<Longrightarrow> grows s (Inr s)"
  by (simp add: grows_def)

lemma grows_number:
  assumes "strbuf_ok s" "config_ok cfg" "dp \<notin> number_chars" "lua_ok v" "lua_typename v = ''number''" "\<forall>t. v \<noteq> LOther t"
  shows "grows s (json_append_number cfg dp s v)"
proof (cases v)
  case (LInt i)
  then show ?thesis using append_integer_ok [OF assms(1), of i] assms(4) by (auto intro: appends_grows)
next
  case (LNum d)
  have d: "grows s (json_append_double cfg dp s d)"
    by (rule appends_grows [OF append_double_ok]) (use assms LNum in auto)
  have m: "grows s (strbuf_append_mem s bs)" for bs by (rule appends_grows [OF append_mem_ok [OF assms(1)]])
  show ?thesis by (simp add: json_append_number_def LNum d m)
qed (use assms in auto)

lemma grows_char: "strbuf_ok s \<Longrightarrow> grows s (strbuf_append_char s c)"
  by (rule appends_grows [OF append_char_ok])

lemma grows_mem: "strbuf_ok s \<Longrightarrow> grows s (strbuf_append_mem s bs)"
  by (rule appends_grows [OF append_mem_ok])

lemma grows_string: "strbuf_ok s \<Longrightarrow> length str \<le> 357913940 \<Longrightarrow> grows s (json_append_string s str)"
  by (rule appends_grows [OF append_string_escapes])

lemma grows_comma: "strbuf_ok s \<Longrightarrow> grows s (if comma then strbuf_append_char s 44 else Inr s)"
  by (simp add: grows_char)

lemma grows_key:
  assumes "strbuf_ok s" "config_ok cfg" "dp \<notin> number_chars" "lua_ok k"
  shows "grows s (json_append_key cfg dp s k)"
proof (cases k)
  case (LInt i)
  show ?thesis unfolding json_append_key_def LInt lua.case
    by (rule grows_bind [OF grows_char [OF assms(1)]], rule grows_bind [OF grows_number grows_mem]) (use assms LInt in auto)
next
  case (LNum d)
  show ?thesis unfolding json_append_key_def LNum lua.case
    by (rule grows_bind [OF grows_char [OF assms(1)]], rule grows_bind [OF grows_number grows_mem]) (use assms LNum in auto)
next
  case (LStr str)
  show ?thesis unfolding json_append_key_def LStr lua.case
    by (rule grows_bind [OF grows_string grows_char]) (use assms LStr in auto)
qed (simp_all add: json_append_key_def)

lemma array_length_stops: "array_length_loop ps m n = Inl e \<Longrightarrow> stops e"
  by (induction ps m n rule: array_length_loop.induct)
    (auto simp: bindR_Inl_iff i32_eq stops_def split: option.splits if_splits)

lemma lua_array_length_stops: "lua_array_length cfg r ps = Inl e \<Longrightarrow> stops e"
  by (auto simp: lua_array_length_def bindR_Inl_iff i32_eq json_encode_exception_def
    split: option.splits if_splits dest: array_length_stops) (auto simp: stops_def)

lemma heap_ok_pairs: "heap_ok H \<Longrightarrow> (k, v) \<in> set (lua_pairs H r) \<Longrightarrow> lua_ok k \<and> lua_ok v"
  using nth_mem [of r H] by (fastforce simp: heap_ok_def lua_pairs_def split: if_splits)

lemma rawgeti_ok: "\<forall>(k, v) \<in> set ps. lua_ok k \<and> lua_ok v \<Longrightarrow> lua_ok (lua_rawgeti ps i)"
  by (auto simp: lua_rawgeti_def split: option.splits dest!: map_of_SomeD)

lemma encoder_grows:
  assumes "config_ok cfg" "dp \<notin> number_chars" "heap_ok H"
  shows "strbuf_ok s \<Longrightarrow> lua_ok v \<Longrightarrow> grows s (json_append_data cfg dp ck H depth v s)"
    and "strbuf_ok s \<Longrightarrow> \<forall>(k, v) \<in> set ps. lua_ok k \<and> lua_ok v \<Longrightarrow> grows s (append_array_loop cfg dp ck H depth ps len i comma s)"
    and "strbuf_ok s \<Longrightarrow> \<forall>(k, v) \<in> set ps. lua_ok k \<and> lua_ok v \<Longrightarrow> grows s (append_object_loop cfg dp ck H depth ps comma s)"
    and "strbuf_ok s \<Longrightarrow> \<forall>(k, v) \<in> set ps. lua_ok k \<and> lua_ok v \<Longrightarrow> grows s (json_append_array cfg dp ck H depth ps len s)"
    and "strbuf_ok s \<Longrightarrow> \<forall>(k, v) \<in> set ps. lua_ok k \<and> lua_ok v \<Longrightarrow> grows s (json_append_object cfg dp ck H depth ps s)"
  using assms
proof (induction cfg dp ck H depth v s and cfg dp ck H depth ps len i comma s and cfg dp ck H depth ps comma s and
    cfg dp ck H depth ps len s and cfg dp ck H depth ps s
    rule: json_append_data_append_array_loop_append_object_loop_json_append_array_json_append_object.induct)
  case (1 cfg dp ck H depth v s)
  show ?case
  proof (cases v)
    case (LTable r)
    have p: "\<forall>(k, v) \<in> set (lua_pairs H r). lua_ok k \<and> lua_ok v" using heap_ok_pairs 1(7) by blast
    show ?thesis unfolding json_append_data.simps [of cfg dp ck H depth v s] unfolding LTable lua.case
    proof (rule grows_bind_other, goal_cases)
      case (2 d1)
      show ?case
      proof (rule grows_bind_other, goal_cases)
        case (2 u)
        show ?case
        proof (rule grows_bind_other, goal_cases)
          case (2 len)
          then show ?case using "1.IH" LTable p "1.prems" \<open>i32 (depth + 1) = Inr d1\<close> \<open>json_check_encode_depth cfg ck d1 = Inr u\<close> by auto
        qed (rule lua_array_length_stops)
      qed (auto simp: json_check_encode_depth_def stops_def split: if_splits)
    qed (auto simp: i32_eq stops_def split: if_splits)
  qed (use "1.prems" in \<open>simp_all add: json_append_data.simps [of cfg] grows_mem grows_string grows_number\<close>)
next
  case (2 cfg dp ck H depth ps len i comma s)
  show ?case
  proof (cases "i \<le> len")
    case True
    show ?thesis unfolding append_array_loop.simps [of cfg dp ck H depth ps len i comma s] if_P [OF True]
    proof (rule grows_bind [OF grows_comma [OF 2(3)]], rule grows_bind, goal_cases)
      case (1 s1)
      then show ?case using 2 True rawgeti_ok by blast
    next
      case (2 s1 s2)
      then show ?case using "2.IH" "2.prems" True by (intro grows_bind_other) (auto simp: i32_eq stops_def split: if_splits)
    qed
  qed (simp add: append_array_loop.simps [of cfg] grows_char 2(3))
next
  case (3 cfg dp ck H depth ps comma s)
  show ?case
  proof (cases ps)
    case (Cons p ps1)
    obtain k v where p: "p = (k, v)" by fastforce
    show ?thesis unfolding append_object_loop.simps [of cfg dp ck H depth ps comma s] unfolding Cons list.case p prod.case
    proof (rule grows_bind [OF grows_comma [OF 3(3)]], rule grows_bind, goal_cases)
      case (1 s1)
      then show ?case using "3.prems" Cons p by (intro grows_key) auto
    next
      case (2 s1 s2)
      then show ?case using "3.IH" "3.prems" Cons p by (intro grows_bind) auto
    qed
  qed (simp add: append_object_loop.simps [of cfg] grows_char 3(3))
next
  case (4 cfg dp ck H depth ps len s)
  then show ?case unfolding json_append_array.simps [of cfg dp ck H depth ps len s]
    by (intro grows_bind [OF grows_char]) auto
next
  case (5 cfg dp ck H depth ps s)
  then show ?case unfolding json_append_object.simps [of cfg dp ck H depth ps s]
    by (intro grows_bind [OF grows_char]) auto
qed

section \<open>Encoding a value\<close>

lemma created_config_ok: "\<exists>cfg. json_create_config = Inr cfg \<and> config_ok cfg"
  using strbuf_new_ok(2) [of 0] by (auto simp: json_create_config_def config_ok_def)

lemma point_no_number_char: "(46 :: u8) \<notin> number_chars"
proof -
  have "uint (digit_char d) \<noteq> 46" if "d < 10" for d using uint_digit_char [OF that] by simp
  then have "46 \<notin> digit_char ` {..<10}" by force
  then show ?thesis by (simp add: number_chars_def)
qed

lemma encode_buffer:
  assumes "config_ok cfg"
  shows "\<exists>s. (if encode_keep_buffer cfg = 0 then strbuf_init 0 else Inr (strbuf_reset (encode_buf cfg))) = Inr s \<and>
    strbuf_ok s \<and> content s = []"
proof (cases "encode_keep_buffer cfg = 0")
  case True
  then show ?thesis using strbuf_new_ok(2) [of 0] by auto
next
  case False
  then have "strbuf_ok (encode_buf cfg)" using assms by (auto simp: config_ok_def)
  then show ?thesis using False by (auto simp: strbuf_reset_def strbuf_ok_def content_def)
qed



end
