(* ===== verification/Json_Render.thy ===== *)
theory Json_Render
  imports Json_Encode_Props
begin

text \<open>
  The JSON text of a value, and the proof that the encoder writes it.  JSON values are trees; \<open>models\<close> says which Lua values
  stand for them.
\<close>

section \<open>JSON values\<close>

datatype json = JNull | JBool bool | JInt int | JNum dbl | JStr "u8 list" | JArr "json list" | JObj "(u8 list \<times> json) list"

text \<open>Separated by commas; \<open>comma\<close> puts one in front, too.\<close>

fun commas :: "bool \<Rightarrow> u8 list list \<Rightarrow> u8 list" where
  "commas comma [] = []"
| "commas comma (x # xs) = (if comma then [44] else []) @ x @ commas True xs"

text \<open>The text of a value, without white space; numbers that are not integers have \<open>p\<close> digits.\<close>

fun render :: "int \<Rightarrow> json \<Rightarrow> u8 list" where
  "render p JNull = bytes ''null''"
| "render p (JBool b) = bytes (if b then ''true'' else ''false'')"
| "render p (JInt i) = lua_integer2str i"
| "render p (JNum d) = format_g 46 p d"
| "render p (JStr s) = 34 # escape_string s @ [34]"
| "render p (JArr ts) = 91 # commas False (map (render p) ts) @ [93]"
| "render p (JObj kvs) = 123 # commas False (map (\<lambda>(k, t). 34 # escape_string k @ [34, 58] @ render p t) kvs) @ [125]"

text \<open>Nested at most \<open>d\<close> deep.\<close>

fun depth_le :: "int \<Rightarrow> json \<Rightarrow> bool" where
  "depth_le d (JArr ts) = (0 < d \<and> (\<forall>t \<in> set ts. depth_le (d - 1) t))"
| "depth_le d (JObj kvs) = (0 < d \<and> (\<forall>(k, t) \<in> set kvs. depth_le (d - 1) t))"
| "depth_le d t = True"

text \<open>
  Integers have 64 bits and other numbers are finite doubles.  An empty table is an object, so no array is empty.
\<close>

fun json_wf :: "json \<Rightarrow> bool" where
  "json_wf (JInt i) = (- (2 ^ 63) \<le> i \<and> i < 2 ^ 63)"
| "json_wf (JNum d) = (is_double d \<and> (\<exists>q. d = Fin q))"
| "json_wf (JArr ts) = (ts \<noteq> [] \<and> (\<forall>t \<in> set ts. json_wf t))"
| "json_wf (JObj kvs) = (distinct (map fst kvs) \<and> (\<forall>(k, t) \<in> set kvs. json_wf t))"
| "json_wf t = True"

definition array_keys :: "(lua \<times> lua) list \<Rightarrow> nat \<Rightarrow> bool" where
  "array_keys ps n \<longleftrightarrow> distinct (map fst ps) \<and> set (map fst ps) = (\<lambda>k. LInt (int k + 1)) ` {..<n}"

text \<open>The Lua value that stands for a JSON value; an array may have its pairs in any order.\<close>

function models :: "tables \<Rightarrow> json \<Rightarrow> lua \<Rightarrow> bool" where
  "models H JNull v = (v = LNull)"
| "models H (JBool b) v = (v = LBool b)"
| "models H (JInt i) v = (v = LInt i)"
| "models H (JNum d) v = (v = LNum d)"
| "models H (JStr s) v = (v = LStr s)"
| "models H (JArr ts) v = (case v of
     LTable r \<Rightarrow> r < length H \<and> array_keys (H ! r) (length ts) \<and>
       (\<forall>k \<in> set [0..<length ts]. models H (ts ! k) (lua_rawgeti (H ! r) (int k + 1)))
   | _ \<Rightarrow> False)"
| "models H (JObj kvs) v = (case v of
     LTable r \<Rightarrow> r < length H \<and> map fst (H ! r) = map (\<lambda>(k, t). LStr k) kvs \<and>
       (\<forall>k \<in> set [0..<length kvs]. models H (snd (kvs ! k)) (snd (H ! r ! k)))
   | _ \<Rightarrow> False)"
  by pat_completeness auto
termination
proof (relation "measure (\<lambda>(H, t, v). size t)", goal_cases)
  case (2 H ts v r k)
  then show ?case by (auto intro!: size_list_estimation' [of "ts ! k"] simp: less_Suc_eq_le)
next
  case (3 H kvs v r k)
  then have "kvs ! k \<in> set kvs" by simp
  moreover have "size (snd (kvs ! k)) < size_prod (\<lambda>x. 0) size (kvs ! k)" by (cases "kvs ! k") simp
  ultimately have "size (snd (kvs ! k)) < size_list (size_prod (\<lambda>x. 0) size) kvs" by (rule size_list_estimation)
  then show ?case by simp
qed simp

section \<open>The text that is written\<close>

text \<open>Where the buffer stays below a gigabyte, exactly the bytes \<open>bs\<close> are added.\<close>

definition writes :: "strbuf \<Rightarrow> u8 list \<Rightarrow> strbuf run \<Rightarrow> bool" where
  "writes s bs r \<longleftrightarrow> (length (content s) + 6 * length bs + 40 < 1073741824 \<longrightarrow>
     (\<exists>s'. r = Inr s' \<and> strbuf_ok s' \<and> content s' = content s @ bs))"

lemma appends_writes: "strbuf_ok s \<Longrightarrow> appends n s bs r \<Longrightarrow> n \<le> int (6 * length bs + 40) \<Longrightarrow> writes s bs r"
  by (auto simp: appends_def writes_def content_length strbuf_ok_def split: sum.splits)

lemma writes_bind:
  assumes "writes s b1 m" "\<And>s'. strbuf_ok s' \<Longrightarrow> writes s' b2 (f s')"
  shows "writes s (b1 @ b2) (bindR m f)"
  unfolding writes_def
proof
  assume l: "length (content s) + 6 * length (b1 @ b2) + 40 < 1073741824"
  with assms(1) obtain s1 where s1: "m = Inr s1" "strbuf_ok s1" "content s1 = content s @ b1" by (auto simp: writes_def)
  have "length (content s1) + 6 * length b2 + 40 < 1073741824" using s1(3) l by simp
  with assms(2) [OF s1(2)] obtain s2 where "f s1 = Inr s2" "strbuf_ok s2" "content s2 = content s1 @ b2" by (auto simp: writes_def)
  with s1 show "\<exists>s'. bindR m f = Inr s' \<and> strbuf_ok s' \<and> content s' = content s @ b1 @ b2" by simp
qed

lemma writes_char: "strbuf_ok s \<Longrightarrow> writes s [c] (strbuf_append_char s c)"
  by (rule appends_writes, assumption, erule append_char_ok) simp

lemma writes_mem: "strbuf_ok s \<Longrightarrow> writes s bs (strbuf_append_mem s bs)"
  by (rule appends_writes, assumption, erule append_mem_ok) simp

lemma escape_string_length: "length str \<le> length (escape_string str)"
proof (induction str)
  case (Cons c str)
  then show ?case using escape1_facts(3) [of c] by (simp add: escape_string_def)
qed (simp add: escape_string_def)

lemma writes_string: 
  assumes "strbuf_ok s"
  shows "writes s (34 # escape_string str @ [34]) (json_append_string s str)"
proof (cases "length str \<le> 357913940")
  case True
  show ?thesis by (rule appends_writes [OF assms append_string_escapes [OF assms True]]) (use escape_string_length [of str] in simp)
next
  case False
  then show ?thesis using escape_string_length [of str] by (simp add: writes_def)
qed

lemma writes_comma:
  "strbuf_ok s \<Longrightarrow> writes s (if comma then [44] else []) (if comma then strbuf_append_char s 44 else Inr s)"
  by (simp add: writes_char) (simp add: writes_def)

lemma writes_string_key:
  assumes "strbuf_ok s"
  shows "writes s (34 # escape_string k @ [34, 58]) (json_append_key cfg dp s (LStr k))"
  using writes_bind [OF writes_string [OF assms] writes_char, of k 58] by (simp add: json_append_key_def)

section \<open>Arrays\<close>

lemma round_half_even_int: "round_half_even (of_int i) = i"
  by (simp add: round_half_even_def)

lemma to_dbl_whole:
  assumes "0 < i" "i < 2147483648"
  shows "to_dbl False (of_int i) = Fin (of_int i)"
proof -
  let ?q = "of_int i :: rat"
  have q: "0 < ?q" "?q < 2 ^ 31" using assms by (simp_all add: of_int_less_iff [of i "2 ^ 31", where 'a = rat, simplified])
  define e where "e = max (ilog 2 ?q) (- 1022)"
  have b: "pow_rat 2 (ilog 2 ?q) \<le> ?q" using ilog_bounds(1) [of ?q 2] q(1) by simp
  have "ilog 2 ?q < 31"
  proof (rule ccontr)
    assume "\<not> ilog 2 ?q < 31"
    then have "(2 :: rat) powi 31 \<le> 2 powi (ilog 2 ?q)" by (intro power_int_increasing) auto
    then show False using b q(2) by (simp add: pow_rat_eq)
  qed
  then have e: "e \<le> 52" by (simp add: e_def)
  define n where "n = nat (52 - e)"
  have u: "pow_rat 2 (e - 52) = 1 / 2 ^ n" using e by (auto simp: pow_rat_def n_def)
  have "?q / pow_rat 2 (e - 52) = of_int (i * 2 ^ n)" unfolding u by simp
  then have r: "of_int (round_half_even (?q / pow_rat 2 (e - 52))) * pow_rat 2 (e - 52) = ?q"
    by (simp only: round_half_even_int) (simp add: u)
  have "pow_rat 2 (int 31) < pow_rat 2 (int 1024)" unfolding pow_rat_nat by (rule power_strict_increasing) simp_all
  then have "\<not> pow_rat 2 1024 \<le> ?q" using q(2) by (simp add: pow_rat_nat [of 2 31, simplified])
  then have "round_pos ?q = Fin ?q" unfolding round_pos_def Let_def e_def [symmetric] r by simp
  then show ?thesis using assms by (simp add: to_dbl_def)
qed

lemma array_length_keys:
  assumes "map fst ps = map LInt ks" "\<forall>i \<in> set ks. 0 < i \<and> i < 2147483648" "0 \<le> m" "m < 2147483648"
    and "0 \<le> items" "items + int (length ks) < 2147483648"
  shows "array_length_loop ps m items = Inr (Some (fold max ks m, items + int (length ks)))"
  using assms
proof (induction ps arbitrary: m items ks)
  case (Cons p ps)
  obtain i v ks' where p: "p = (LInt i, v)" and ks: "ks = i # ks'" and i: "0 < i" "i < 2147483648"
    using Cons.prems(1,2) by (cases p; cases ks) auto
  have "array_length_loop (p # ps) m items = array_length_loop ps (max i m) (items + 1)"
    using i Cons.prems to_dbl_whole [OF i] by (simp add: p ks dlt_def int_range_def i32_eq max_def)
  also have "\<dots> = Inr (Some (fold max ks' (max i m), items + 1 + int (length ks')))"
    by (rule Cons.IH) (use Cons.prems i ks p in auto)
  finally show ?case by (simp add: ks)
qed simp

lemma array_keys_ints:
  assumes "array_keys ps n"
  obtains ks where "map fst ps = map LInt ks" "set ks = (\<lambda>k. int k + 1) ` {..<n}" "length ks = n"
proof -
  define ks where "ks = map (\<lambda>p. case fst p of LInt i \<Rightarrow> i | _ \<Rightarrow> 0) ps"
  have k: "fst p \<in> (\<lambda>k. LInt (int k + 1)) ` {..<n}" if "p \<in> set ps" for p
    using assms that unfolding array_keys_def by (metis image_eqI set_map)
  have m: "map fst ps = map LInt ks" using k by (fastforce simp: ks_def)
  have "LInt ` set ks = LInt ` (\<lambda>k. int k + 1) ` {..<n}"
    using assms unfolding array_keys_def m by (simp add: image_image)
  then have s: "set ks = (\<lambda>k. int k + 1) ` {..<n}" by (subst (asm) inj_image_eq_iff) (auto simp: inj_def)
  have "distinct ks" using assms unfolding array_keys_def m by (simp add: distinct_map)
  then have "length ks = n" using s distinct_card [of ks] by (simp add: card_image inj_on_def)
  with m s show ?thesis using that by blast
qed

lemma lua_array_length_array:
  assumes "array_keys ps n" "0 < n" "config_ok cfg" "int n < 2147483648" "int n * encode_sparse_ratio cfg < 2147483648"
  shows "lua_array_length cfg r ps = Inr (int n)"
proof -
  obtain ks where ks: "map fst ps = map LInt ks" "set ks = (\<lambda>k. int k + 1) ` {..<n}" "length ks = n"
    using assms(1) by (rule array_keys_ints)
  have "Max (set (0 # ks)) = int n"
  proof (rule Max_eqI)
    show "int n \<in> set (0 # ks)" using assms(2) by (auto simp: ks(2) intro!: image_eqI [of _ _ "n - 1"])
  qed (auto simp: ks(2))
  then have "fold max ks 0 = int n" by (simp only: Max.set_eq_fold)
  moreover have "array_length_loop ps 0 0 = Inr (Some (fold max ks 0, 0 + int (length ks)))"
    by (rule array_length_keys) (use ks assms(4) in auto)
  ultimately have l: "array_length_loop ps 0 0 = Inr (Some (int n, int n))" using ks(3) by simp
  show ?thesis
  proof (cases "encode_sparse_ratio cfg > 0")
    case True
    then have "int n \<le> int n * encode_sparse_ratio cfg" using assms(2) by simp
    then show ?thesis using l assms(5) True by (simp add: lua_array_length_def i32_eq)
  qed (simp add: lua_array_length_def l)
qed

lemma lua_array_length_object:
  assumes "map fst ps = map (\<lambda>(k, t). LStr k) kvs"
  shows "\<exists>len \<le> 0. lua_array_length cfg r ps = Inr len"
proof (cases ps)
  case Nil
  then show ?thesis by (simp add: lua_array_length_def i32_eq)
next
  case (Cons p ps1)
  then obtain k v where "p = (LStr k, v)" using assms by (cases p; cases kvs) auto
  then show ?thesis using Cons by (simp add: lua_array_length_def)
qed

section \<open>The encoder writes the text of the value\<close>

lemma commas_length: "x \<in> set xs \<Longrightarrow> length x \<le> length (commas comma xs)" "length xs \<le> Suc (length (commas comma xs))"
proof -
  show "x \<in> set xs \<Longrightarrow> length x \<le> length (commas comma xs)" 
  proof (induction xs arbitrary: comma)
    case (Cons a xs)
    have "x \<in> set xs \<Longrightarrow> length x \<le> length (commas True xs)" by (rule Cons.IH)
    then show ?case using Cons.prems by auto
  qed simp
  have "length ys \<le> length (commas True ys)" for ys by (induction ys) simp_all
  then show "length xs \<le> Suc (length (commas comma xs))" by (cases xs) (simp_all add: trans_le_add2)
qed

lemma array_loop_writes:
  assumes "\<And>k s. k < length xs \<Longrightarrow> strbuf_ok s \<Longrightarrow> writes s (xs ! k) (json_append_data cfg dp ck H d (lua_rawgeti ps (i + int k)) s)"
    and "0 \<le> i" "i + int (length xs) < 2147483648" "strbuf_ok s"
  shows "writes s (commas comma xs @ [93]) (append_array_loop cfg dp ck H d ps (i + int (length xs) - 1) i comma s)"
  using assms
proof (induction xs arbitrary: i comma s)
  case Nil
  then show ?case by (simp add: append_array_loop.simps [of cfg] writes_char)
next
  case (Cons x xs)
  have i: "i32 (i + 1) = Inr (i + 1)" using Cons.prems(2,3) by (simp add: i32_eq)
  have len: "i + int (length (x # xs)) - 1 = i + 1 + int (length xs) - 1" by simp
  have "writes s ((if comma then [44] else []) @ x @ commas True xs @ [93])
      (bindR (if comma then strbuf_append_char s 44 else Inr s) (\<lambda>s.
        bindR (json_append_data cfg dp ck H d (lua_rawgeti ps i) s)
          (append_array_loop cfg dp ck H d ps (i + 1 + int (length xs) - 1) (i + 1) True)))"
  proof (rule writes_bind [OF writes_comma [OF Cons.prems(4)]], rule writes_bind, goal_cases)
    case (1 s1)
    then show ?case using Cons.prems(1) [of 0] by simp
  next
    case (2 s1 s2)
    show ?case
    proof (rule Cons.IH)
      show "writes s (xs ! k) (json_append_data cfg dp ck H d (lua_rawgeti ps (i + 1 + int k)) s)" if "k < length xs" "strbuf_ok s" for k s
        using Cons.prems(1) [of "Suc k" s] that by (simp add: algebra_simps)
    qed (use 2 Cons.prems in auto)
  qed
  then show ?case
    unfolding len by (subst append_array_loop.simps) (simp add: i split del: if_split)
qed

lemma object_loop_writes:
  assumes "map fst ps = map (\<lambda>(k, t). LStr k) kvs"
    and "\<And>k s. k < length kvs \<Longrightarrow> strbuf_ok s \<Longrightarrow> writes s (f (snd (kvs ! k))) (json_append_data cfg dp ck H d (snd (ps ! k)) s)"
    and "strbuf_ok s"
  shows "writes s (commas comma (map (\<lambda>(k, t). 34 # escape_string k @ [34, 58] @ f t) kvs) @ [125])
    (append_object_loop cfg dp ck H d ps comma s)"
  using assms
proof (induction kvs arbitrary: ps comma s)
  case Nil
  then show ?case by (simp add: append_object_loop.simps [of cfg] writes_char)
next
  case (Cons kv kvs)
  obtain k t v ps1 where p: "kv = (k, t)" "ps = (LStr k, v) # ps1" using Cons.prems(1) by (cases kv; cases ps) auto
  have "writes s ((if comma then [44] else []) @ (34 # escape_string k @ [34, 58]) @ f t @
      (commas True (map (\<lambda>(k, t). 34 # escape_string k @ [34, 58] @ f t) kvs) @ [125]))
      (bindR (if comma then strbuf_append_char s 44 else Inr s) (\<lambda>s.
          bindR (json_append_key cfg dp s (LStr k)) (\<lambda>s.
          bindR (json_append_data cfg dp ck H d v s) (append_object_loop cfg dp ck H d ps1 True))))"
  proof (rule writes_bind [OF writes_comma [OF Cons.prems(3)]], rule writes_bind [OF writes_string_key], assumption, rule writes_bind, goal_cases)
    case (1 s1 s2)
    then show ?case using Cons.prems(2) [of 0] p by simp
  next
    case (2 s1 s2 s3)
    show ?case
    proof (rule Cons.IH)
      show "writes s (f (snd (kvs ! k))) (json_append_data cfg dp ck H d (snd (ps1 ! k)) s)" if "k < length kvs" "strbuf_ok s" for k s
        using Cons.prems(2) [of "Suc k" s] that p by simp
    qed (use 2 Cons.prems p in auto)
  qed
  then show ?case unfolding p by (subst append_object_loop.simps) (simp split del: if_split)
qed

lemma encoder_writes:
  assumes "config_ok cfg" "dp \<notin> number_chars" "\<forall>d \<le> encode_max_depth cfg. ck d" "p = encode_number_precision cfg"
  shows "models H t v \<Longrightarrow> json_wf t \<Longrightarrow> depth_le (encode_max_depth cfg - depth) t \<Longrightarrow>
    int (length (render p t)) * encode_sparse_ratio cfg < 2147483648 \<Longrightarrow> strbuf_ok s \<Longrightarrow> 0 \<le> depth \<Longrightarrow>
    writes s (render p t) (json_append_data cfg dp ck H depth v s)"
proof (induction t arbitrary: v depth s)
  case (JInt i)
  have "writes s (lua_integer2str i) (json_append_number cfg dp s (LInt i))"
    by (rule appends_writes [OF JInt.prems(5) append_integer_ok]) (use JInt.prems in auto)
  then show ?case using JInt.prems by (simp add: json_append_data.simps [of cfg])
next
  case (JNum d)
  have "writes s (format_g 46 p d) (json_append_double cfg dp s d)"
    unfolding assms(4) by (rule appends_writes [OF JNum.prems(5) append_double_ok]) (use JNum.prems assms in auto)
  moreover have "json_append_number cfg dp s (LNum d) = json_append_double cfg dp s d"
    using JNum.prems(2) by (auto simp: json_append_number_def)
  ultimately show ?case using JNum.prems by (simp add: json_append_data.simps [of cfg])
next
  case (JArr ts)
  let ?xs = "map (render p) ts"
  show ?case
  proof (cases "6 * length (render p (JArr ts)) < 1073741824")
    case True
    obtain r where r: "v = LTable r" "r < length H" "array_keys (H ! r) (length ts)"
      and m: "\<And>k. k < length ts \<Longrightarrow> models H (ts ! k) (lua_rawgeti (H ! r) (int k + 1))"
      using JArr.prems(1) by (auto split: lua.splits)
    have n: "0 < length ts" "length ts \<le> length (render p (JArr ts))"
      using JArr.prems(2) commas_length(2) [of ?xs False] by simp_all
    have d: "0 < encode_max_depth cfg - depth" using JArr.prems(3) by simp
    have i: "i32 (depth + 1) = Inr (depth + 1)" using d JArr.prems(6) assms(1) by (simp add: i32_eq config_ok_def)
    have c: "json_check_encode_depth cfg ck (depth + 1) = Inr ()" using d assms(3) by (simp add: json_check_encode_depth_def)
    have "int (length ts) * encode_sparse_ratio cfg \<le> int (length (render p (JArr ts))) * encode_sparse_ratio cfg"
      by (rule mult_right_mono) (use n assms(1) in \<open>simp_all add: config_ok_def\<close>)
    then have "int (length ts) * encode_sparse_ratio cfg < 2147483648" using JArr.prems(4) by linarith
    then have l: "lua_array_length cfg r (H ! r) = Inr (int (length ts))"
      using lua_array_length_array [OF r(3) n(1) assms(1)] n True by simp
    have "writes s ([91] @ (commas False ?xs @ [93])) (bindR (strbuf_append_char s 91)
        (append_array_loop cfg dp ck H (depth + 1) (H ! r) (1 + int (length ?xs) - 1) 1 False))"
    proof (rule writes_bind [OF writes_char [OF JArr.prems(5)]], rule array_loop_writes, goal_cases)
      case (1 s1 k s2)
      then have k: "k < length ts" "ts ! k \<in> set ts" by simp_all
      have "length (render p (ts ! k)) \<le> length (render p (JArr ts))" using commas_length(1) [of "render p (ts ! k)" ?xs False] k by simp
      then have q: "int (length (render p (ts ! k))) * encode_sparse_ratio cfg \<le> int (length (render p (JArr ts))) * encode_sparse_ratio cfg"
        by (intro mult_right_mono) (use assms(1) in \<open>simp_all add: config_ok_def\<close>)
      have "writes s2 (render p (ts ! k)) (json_append_data cfg dp ck H (depth + 1) (lua_rawgeti (H ! r) (int k + 1)) s2)"
        by (rule JArr.IH [OF k(2) m [OF k(1)]]) (use JArr.prems k q 1 in \<open>auto simp: algebra_simps\<close>)
      then show ?case using k by (simp add: add.commute)
    qed (use n True in auto)
    then show ?thesis using n(1) by (simp add: json_append_data.simps [of cfg] r i c lua_pairs_def l json_append_array.simps [of cfg])
  qed (simp add: writes_def)
next
  case (JObj kvs)
  let ?xs = "map (\<lambda>(k, t). 34 # escape_string k @ [34, 58] @ render p t) kvs"
  obtain r where r: "v = LTable r" "r < length H" "map fst (H ! r) = map (\<lambda>(k, t). LStr k) kvs"
    and m: "\<And>k. k < length kvs \<Longrightarrow> models H (snd (kvs ! k)) (snd (H ! r ! k))"
    using JObj.prems(1) by (auto split: lua.splits)
  have d: "0 < encode_max_depth cfg - depth" using JObj.prems(3) by simp
  have i: "i32 (depth + 1) = Inr (depth + 1)" using d JObj.prems(6) assms(1) by (simp add: i32_eq config_ok_def)
  have c: "json_check_encode_depth cfg ck (depth + 1) = Inr ()" using d assms(3) by (simp add: json_check_encode_depth_def)
  obtain len where l: "len \<le> 0" "lua_array_length cfg r (H ! r) = Inr len" using lua_array_length_object [OF r(3)] by blast
  have "writes s ([123] @ (commas False ?xs @ [125])) (bindR (strbuf_append_char s 123)
        (append_object_loop cfg dp ck H (depth + 1) (H ! r) False))"
  proof (rule writes_bind [OF writes_char [OF JObj.prems(5)]], rule object_loop_writes [OF r(3)], goal_cases)
    case (1 s1 k s2)
    then obtain key t where kt: "kvs ! k = (key, t)" "(key, t) \<in> set kvs" by (metis nth_mem surj_pair)
    have "length (34 # escape_string key @ [34, 58] @ render p t) \<le> length (commas False ?xs)"
      by (rule commas_length(1)) (use kt in force)
    then have "length (render p t) \<le> length (render p (JObj kvs))" by simp
    then have q: "int (length (render p t)) * encode_sparse_ratio cfg \<le> int (length (render p (JObj kvs))) * encode_sparse_ratio cfg"
      by (intro mult_right_mono) (use assms(1) in \<open>simp_all add: config_ok_def\<close>)
    have "writes s2 (render p t) (json_append_data cfg dp ck H (depth + 1) (snd (H ! r ! k)) s2)"
      by (rule JObj.IH [OF kt(2)]) (use JObj.prems m [of k] kt q 1 in \<open>auto simp: algebra_simps\<close>)
    then show ?case using kt by simp
  qed
  then show ?case using l by (simp add: json_append_data.simps [of cfg] r i c lua_pairs_def json_append_object.simps [of cfg])
qed (auto simp: json_append_data.simps [of cfg] writes_mem writes_string)

lemma encode_render:
  assumes "config_ok cfg" "dp \<notin> number_chars" "\<forall>d \<le> encode_max_depth cfg. ck d"
    and "models H t v" "json_wf t" "depth_le (encode_max_depth cfg) t"
    and "length (render (encode_number_precision cfg) t) < 178956964"
    and "int (length (render (encode_number_precision cfg) t)) * encode_sparse_ratio cfg < 2147483648"
  shows "\<exists>cfg'. json_encode cfg dp ck H v = Inr (cfg', render (encode_number_precision cfg) t)"
proof -
  let ?text = "render (encode_number_precision cfg) t"
  obtain s where s: "(if encode_keep_buffer cfg = 0 then strbuf_init 0 else Inr (strbuf_reset (encode_buf cfg))) = Inr s"
    "strbuf_ok s" "content s = []" using encode_buffer [OF assms(1)] by auto
  have "writes s ?text (json_append_data cfg dp ck H 0 v s)"
    by (rule encoder_writes [OF assms(1-3) refl assms(4,5) _ assms(8) s(2)]) (use assms(6) in simp_all)
  then obtain s' where "json_append_data cfg dp ck H 0 v s = Inr s'" "content s' = ?text"
    using s(3) assms(7) by (auto simp: writes_def)
  then show ?thesis using s(1) by (auto simp: json_encode_def strbuf_string_def content_def)
qed

text \<open>
  C9: A Lua value that stands for a JSON value, in whatever order its tables give their pairs, is encoded to exactly the JSON text of
  that value when it is not nested deeper than \<open>encode_max_depth\<close> and the text is short of 178956964 bytes: brackets, commas,
  escapes, numbers and nested values are all in place.
\<close>

theorem json_encode_renders:
  assumes "config_ok cfg" "dp \<notin> number_chars" "\<forall>d \<le> encode_max_depth cfg. ck d"
    and "models H t v" "json_wf t" "depth_le (encode_max_depth cfg) t"
    and "length (render (encode_number_precision cfg) t) < 178956964"
    and "int (length (render (encode_number_precision cfg) t)) * encode_sparse_ratio cfg < 2147483648"
  shows "\<exists>cfg'. json_encode cfg dp ck H v = Inr (cfg', render (encode_number_precision cfg) t)"
  using assms by (rule encode_render)

theorem json_encode_renders_witness:
  "\<exists>cfg cfg'. json_create_config = Inr cfg \<and>
    json_encode cfg 46 (\<lambda>d. True) [[(LStr [97], LTable 1)], [(LInt 2, LNull), (LInt 1, LInt (- 7))]] (LTable 0) =
      Inr (cfg', [123, 34, 97, 34, 58, 91, 45, 55, 44, 110, 117, 108, 108, 93, 125])"
proof -
  obtain cfg where cfg: "json_create_config = Inr cfg" "config_ok cfg" using created_config_ok by blast
  then have d: "encode_max_depth cfg = 1000" "encode_sparse_ratio cfg = 2" by (auto simp: json_create_config_def bindR_Inr_iff)
  let ?t = "JObj [([97], JArr [JInt (- 7), JNull])]"
  have e: "escape_string [97] = [97]" "lua_integer2str (- 7) = [45, 55]" "bytes ''null'' = [110, 117, 108, 108]" by code_simp+
  have m: "models [[(LStr [97], LTable 1)], [(LInt 2, LNull), (LInt 1, LInt (- 7))]] ?t (LTable 0)"
    by (simp add: array_keys_def lua_rawgeti_def lessThan_Suc numeral_2_eq_2 insert_commute)
  show ?thesis
    using json_encode_renders [OF cfg(2) point_no_number_char, of "\<lambda>d. True", OF _ m] d cfg(1) by (auto simp: e)
qed

end
