(* ===== verification/Json_Parse_Props.thy ===== *)
theory Json_Parse_Props
  imports Json_Parse
begin

text \<open>
  What the decoder does with any text: it never reads behind the terminator, never writes outside its buffer, always
  ends, and makes only proper tables.
\<close>

section \<open>Numbers are read inside the text\<close>

lemma takeWhile_drop_length: "length (takeWhile P (drop k p)) + k \<le> length p \<or> length p < k"
  using length_takeWhile_le [of P "drop k p"] by auto

lemma digits_length: "length (digits b p) \<le> length p"
  by (simp add: digits_def length_takeWhile_le)

lemma read_sign_length: "read_sign p = (neg, q, k) \<Longrightarrow> k + length q = length p"
  by (cases p) (auto split: if_splits)

lemma read_base_length: "read_base p = (b, q, k) \<Longrightarrow> k + length q = length p"
  by (auto simp: read_base_def split: list.splits if_splits)

lemma strtoll_length: "strtoll p = (i, n) \<Longrightarrow> n \<le> length p \<and> - (2 ^ 63) \<le> i \<and> i < 2 ^ 63"
proof -
  assume s: "strtoll p = (i, n)"
  define sp where "sp = length (takeWhile is_space p)"
  obtain neg q k1 where 1: "read_sign (drop sp p) = (neg, q, k1)" by (metis surj_pair)
  obtain b r k2 where 2: "read_base q = (b, r, k2)" by (metis surj_pair)
  have "sp \<le> length p" by (simp add: sp_def length_takeWhile_le)
  then have "sp + k1 + k2 + length (digits b r) \<le> length p"
    using read_sign_length [OF 1] read_base_length [OF 2] digits_length [of b r] by simp
  then show ?thesis using s 1 2 by (auto simp: strtoll_def Let_def clamp64_def sp_def split: if_splits)
qed

lemma read_exp_length: "read_exp a b p = (e, k) \<Longrightarrow> k \<le> length p"
proof (cases p)
  case (Cons c r)
  assume h: "read_exp a b p = (e, k)"
  obtain neg q m where s: "read_sign r = (neg, q, m)" by (metis surj_pair)
  from h Cons s show ?thesis using read_sign_length [OF s] digits_length [of 10 q]
    by (auto simp: read_exp_def Let_def split: if_splits)
qed (simp add: read_exp_def)

lemma read_mantissa_length:
  assumes "read_mantissa dp b p = (i, f, n, len, r)"
  shows "len + length r = length p"
proof -
  define ds where "ds = digits b p"
  have l: "length ds \<le> length p" by (simp add: ds_def digits_length)
  show ?thesis
  proof (cases "drop (length ds) p")
    case Nil
    then show ?thesis using assms l by (auto simp: read_mantissa_def Let_def ds_def [symmetric])
  next
    case (Cons c r1)
    have "length ds + Suc (length r1) = length p" using arg_cong [OF Cons, of length] by simp
    with Cons show ?thesis using assms digits_length [of b r1]
      by (auto simp: read_mantissa_def Let_def ds_def [symmetric] split: if_splits)
  qed
qed

lemma prefix_ci_length: "prefix_ci w q \<Longrightarrow> length w \<le> length q"
  unfolding prefix_ci_def by (metis length_map length_take min.cobounded1)

lemma nan_tail_length: "nan_tail p \<le> length p"
  by (auto simp: nan_tail_def Let_def split: list.splits)

lemma strtod_unsigned_length:
  assumes "strtod_unsigned dp neg q = (d, n)"
  shows "n \<le> length q"
proof -
  consider "prefix_ci [105, 110, 102, 105, 110, 105, 116, 121] q" | "prefix_ci [105, 110, 102] q" | "prefix_ci [110, 97, 110] q"
    | "\<not> prefix_ci [105, 110, 102, 105, 110, 105, 116, 121] q" "\<not> prefix_ci [105, 110, 102] q" "\<not> prefix_ci [110, 97, 110] q"
    by blast
  then show ?thesis
  proof cases
    case 4
    define hex where "hex = prefix_ci [48, 120] q"
    obtain i f m len r where h: "(if hex then read_mantissa dp 16 (drop 2 q) else (0, 0, 0, 0, [])) = (i, f, m, len, r)" by (metis prod_cases5)
    obtain i1 f1 m1 len1 r1 where d: "read_mantissa dp 10 q = (i1, f1, m1, len1, r1)" by (metis prod_cases5)
    obtain e k where e: "read_exp 112 80 r = (e, k)" by (metis surj_pair)
    obtain e1 k1 where e1: "read_exp 101 69 r1 = (e1, k1)" by (metis surj_pair)
    have n: "n = (if hex \<and> 0 < i + f then 2 + len + k else if i1 + f1 = 0 then 0 else len1 + k1)"
      using assms 4 h d e e1 by (auto simp: strtod_unsigned_def Let_def hex_def [symmetric] simp del: read_exp_def split: if_splits)
    show ?thesis
    proof (cases "hex \<and> 0 < i + f")
      case True
      then have "2 \<le> length q" using prefix_ci_length [of "[48, 120]" q] by (simp add: hex_def)
      moreover have "len + length r = length (drop 2 q)" using h True read_mantissa_length [of dp 16 "drop 2 q" i f m len r] by simp
      ultimately show ?thesis using n True read_exp_length [OF e] by simp
    next
      case False
      then show ?thesis using n read_mantissa_length [OF d] read_exp_length [OF e1] by auto
    qed
  qed (use assms prefix_ci_length nan_tail_length [of "drop 3 q"] in \<open>force simp: strtod_unsigned_def split: if_splits\<close>)+
qed

lemma strtod_length: "strtod dp p = (d, n) \<Longrightarrow> n \<le> length p"
proof -
  assume s: "strtod dp p = (d, n)"
  define sp where "sp = length (takeWhile is_space p)"
  obtain neg q k1 where 1: "read_sign (drop sp p) = (neg, q, k1)" by (metis surj_pair)
  obtain d2 m where 2: "strtod_unsigned dp neg q = (d2, m)" by (metis surj_pair)
  have "sp \<le> length p" by (simp add: sp_def length_takeWhile_le)
  then have "sp + k1 + m \<le> length p" using read_sign_length [OF 1] strtod_unsigned_length [OF 2] by simp
  then show ?thesis using s 1 2 by (auto simp: strtod_def Let_def sp_def split: if_splits)
qed

lemma replace_first_length: "length (replace_first c d p) = length p"
  by (induction p) simp_all

lemma fpconv_strtod_length:
  assumes "fpconv_strtod dp p = (d, n)"
  shows "n \<le> length p"
proof (cases "dp = 46")
  case True
  then show ?thesis using assms by (simp add: fpconv_strtod_def strtod_length)
next
  case False
  let ?q = "replace_first 46 dp (take (strtod_buffer_size p) p)"
  have "length ?q \<le> length p" by (simp add: replace_first_length)
  moreover have "n = 0 \<or> strtod dp ?q = (d, n)" using assms False by (auto simp: fpconv_strtod_def Let_def split: if_splits)
  ultimately show ?thesis using strtod_length [of dp ?q d n] by auto
qed

section \<open>Tokens\<close>

text \<open>The member of the union that is set belongs to the type of the token.\<close>

fun value_fits :: "json_token_type \<Rightarrow> token_value \<Rightarrow> bool" where
  "value_fits t (VString s) = (t = T_STRING)"
| "value_fits t (VNumber d) = (t = T_NUMBER)"
| "value_fits t (VInteger i) = (t = T_INTEGER \<and> - (2 ^ 63) \<le> i \<and> i < 2 ^ 63)"
| "value_fits t (VBoolean b) = (t = T_BOOLEAN)"
| "value_fits t (VError e) = (t = T_ERROR)"
| "value_fits t NoValue = (t \<notin> {T_STRING, T_NUMBER, T_INTEGER, T_BOOLEAN, T_ERROR})"

definition token_from :: "json_parse \<Rightarrow> (json_parse \<times> json_token) run \<Rightarrow> bool" where
  "token_from j r \<longleftrightarrow> (\<exists>j' t. r = Inr (j', t) \<and> jp_ok j' \<and> follows j j' \<and> value_fits (tk_type t) (tk_value t))"

lemma peek_inside: "k \<le> length p \<Longrightarrow> \<exists>c. peek p k = Inr c"
  by (simp add: peek_def)

lemma peek_nonzero: "peek p k = Inr c \<Longrightarrow> c \<noteq> 0 \<Longrightarrow> k < length p \<and> p ! k = c"
  by (auto simp: peek_def split: if_splits)

lemma advance_ok:
  assumes "jp_ok j" "k \<le> length (jp_ptr j)"
  shows "\<exists>j'. advance k j = Inr j' \<and> jp_ok j' \<and> follows j j'"
  using assms by (auto simp: advance_def jp_ok_def follows_def)

lemma error_token_from [simp]: "jp_ok j \<Longrightarrow> follows j0 j \<Longrightarrow> token_from j0 (Inr (j, json_set_token_error j1 e))"
  by (simp add: token_from_def json_set_token_error_def)

lemma advance_token_from:
  assumes "jp_ok j" "k \<le> length (jp_ptr j)" "value_fits (tk_type t) (tk_value t)"
  shows "token_from j (bindR (advance k j) (\<lambda>j1. Inr (j1, t)))"
  using advance_ok [OF assms(1,2)] assms(3) by (auto simp: token_from_def)

lemma is_invalid_number_returns: "\<exists>b. json_is_invalid_number p = Inr b"
proof -
  obtain c0 where c0: "peek p 0 = Inr c0" using peek_inside [of 0 p] by auto
  define i :: nat where "i = (if c0 = 45 then 1 else 0)"
  have "i \<le> length p" using peek_nonzero [OF c0] by (auto simp: i_def Suc_le_eq)
  then obtain c where c: "peek p i = Inr c" using peek_inside by blast
  have "c = 48 \<Longrightarrow> \<exists>d. peek p (i + 1) = Inr d" using peek_nonzero [OF c] peek_inside [of "i + 1" p] by auto
  then show ?thesis using c0 c by (auto simp: json_is_invalid_number_def i_def Let_def)
qed

lemma next_number_token_ok:
  assumes "jp_ok j"
  shows "token_from j (json_next_number_token dp j)"
proof -
  obtain i n where s: "strtoll (jp_ptr j) = (i, n)" by fastforce
  obtain d m where d: "fpconv_strtod dp (jp_ptr j) = (d, m)" by fastforce
  note sl = strtoll_length [OF s] and dl = fpconv_strtod_length [OF d]
  obtain c where c: "peek (jp_ptr j) n = Inr c" using peek_inside sl by blast
  have "token_from j (bindR (advance m j) (\<lambda>j1. Inr (j1, \<lparr>tk_type = T_NUMBER, tk_index = jp_index j, tk_value = VNumber d\<rparr>)))"
    "token_from j (bindR (advance n j) (\<lambda>j1. Inr (j1, \<lparr>tk_type = T_INTEGER, tk_index = jp_index j, tk_value = VInteger i\<rparr>)))"
    using sl dl assms by (simp_all add: advance_token_from)
  then show ?thesis using s d c assms by (simp add: json_next_number_token_def)
qed

lemma take_length_le: "take k p = w \<Longrightarrow> length w = k \<Longrightarrow> k \<le> length p"
  by (metis length_take min.cobounded1)

lemma next_unknown_token_ok:
  assumes "jp_ok j" "peek (jp_ptr j) 0 = Inr ch"
  shows "token_from j (next_unknown_token cfg dp j ch)"
proof (cases "ch = 34")
  case True
  with peek_nonzero [OF assms(2)] obtain p where "jp_ptr j = 34 # p" by (cases "jp_ptr j") auto
  with string_token_safe [OF assms(1)] obtain j' r where "json_next_string_token j = Inr (j', r)" "jp_ok j'" "follows j j'" by blast
  then show ?thesis using True by (cases r) (simp_all add: next_unknown_token_def token_from_def new_token_def json_set_token_error_def)
next
  case False
  obtain b where b: "json_is_invalid_number (jp_ptr j) = Inr b" using is_invalid_number_returns by blast
  note n = next_number_token_ok [OF assms(1), of dp]
  have w: "take 4 (jp_ptr j) = [116, 114, 117, 101] \<Longrightarrow> 4 \<le> length (jp_ptr j)" "take 5 (jp_ptr j) = [102, 97, 108, 115, 101] \<Longrightarrow> 5 \<le> length (jp_ptr j)"
    "take 4 (jp_ptr j) = [110, 117, 108, 108] \<Longrightarrow> 4 \<le> length (jp_ptr j)" by (erule take_length_le, simp)+
  have a: "token_from j (bindR (advance 4 j) (\<lambda>j1. Inr (j1, new_token j T_BOOLEAN (VBoolean True))))" if "take 4 (jp_ptr j) = [116, 114, 117, 101]"
    by (rule advance_token_from [OF assms(1) w(1) [OF that]]) (simp add: new_token_def)
  have a2: "token_from j (bindR (advance 5 j) (\<lambda>j1. Inr (j1, new_token j T_BOOLEAN (VBoolean False))))" if "take 5 (jp_ptr j) = [102, 97, 108, 115, 101]"
    by (rule advance_token_from [OF assms(1) w(2) [OF that]]) (simp add: new_token_def)
  have a3: "token_from j (bindR (advance 4 j) (\<lambda>j1. Inr (j1, new_token j T_NULL NoValue)))" if "take 4 (jp_ptr j) = [110, 117, 108, 108]"
    by (rule advance_token_from [OF assms(1) w(3) [OF that]]) (simp add: new_token_def)
  show ?thesis unfolding next_unknown_token_def using False b n a a2 a3 assms(1) by simp
qed

lemma next_token_ok:
  assumes "jp_ok j"
  shows "token_from j (json_next_token cfg dp j)"
proof -
  define j0 where "j0 = skip_white j"
  have f: "follows j j0" and ok: "jp_ok j0"
    using assms by (auto simp: j0_def skip_white_def follows_def jp_ok_def dropWhile_eq_drop length_takeWhile_le
      intro: exI [of _ "length (takeWhile (\<lambda>c. ch2token c = T_WHITESPACE) (jp_ptr j))"] order.trans [OF length_dropWhile_le])
  obtain ch where ch: "peek (jp_ptr j0) 0 = Inr ch" using peek_inside [of 0 "jp_ptr j0"] by auto
  have "token_from j0 (next_token_here cfg dp j0)"
  proof (cases "ch2token ch \<in> {T_ERROR, T_END, T_UNKNOWN}")
    case True
    then show ?thesis using ok ch next_unknown_token_ok [OF ok ch, of cfg dp]
      by (auto simp: next_token_here_def token_from_def new_token_def json_set_token_error_def)
  next
    case False
    have t: "ch2token c \<notin> {T_STRING, T_NUMBER, T_INTEGER, T_BOOLEAN}" for c by (simp add: ch2token_def)
    have "ch \<noteq> 0" using False by (auto simp: ch2token_def)
    then have "1 \<le> length (jp_ptr j0)" using peek_nonzero [OF ch] by (cases "jp_ptr j0") simp_all
    from advance_token_from [OF ok this, of "new_token j0 (ch2token ch) NoValue"] show ?thesis
      using False ch t [of ch] by (simp add: next_token_here_def new_token_def)
  qed
  then show ?thesis unfolding json_next_token_def j0_def [symmetric] using follows_trans [OF f] by (auto simp: token_from_def)
qed

section \<open>The parser\<close>

text \<open>
  What a decoded value may be, and what its tables may hold: only tables that were made later, so that the
  tables of a value form a tree.  \<open>extends\<close> says that the first \<open>n\<close> tables are as they were and the later ones well formed.
\<close>

fun decoded_value :: "nat \<Rightarrow> nat \<Rightarrow> lua \<Rightarrow> bool" where
  "decoded_value lo hi (LTable q) = (lo \<le> q \<and> q < hi)"
| "decoded_value lo hi (LInt i) = (- (2 ^ 63) \<le> i \<and> i < 2 ^ 63)"
| "decoded_value lo hi v = (v \<noteq> LNil \<and> (\<forall>s. v \<noteq> LOther s))"

fun decoded_key :: "lua \<Rightarrow> bool" where
  "decoded_key (LStr s) = True"
| "decoded_key (LInt i) = (1 \<le> i)"
| "decoded_key _ = False"

definition table_ok :: "tables \<Rightarrow> nat \<Rightarrow> bool" where
  "table_ok H r \<longleftrightarrow> distinct (map fst (H ! r)) \<and>
     (\<forall>(k, v) \<in> set (H ! r). decoded_key k \<and> decoded_value (Suc r) (length H) v)"

definition extends :: "nat \<Rightarrow> tables \<Rightarrow> tables \<Rightarrow> bool" where
  "extends n H H' \<longleftrightarrow> n \<le> length H \<and> length H \<le> length H' \<and> take n H' = take n H \<and>
     (\<forall>r. n \<le> r \<and> r < length H' \<longrightarrow> table_ok H' r)"

lemma decoded_value_mono: "decoded_value lo hi v \<Longrightarrow> lo' \<le> lo \<Longrightarrow> hi \<le> hi' \<Longrightarrow> decoded_value lo' hi' v"
  by (cases v) auto

lemma extends_refl: "extends (length H) H H"
  unfolding extends_def by auto

text \<open>The inner value keeps the tables that its table has so far; the table is then \<open>n\<close>.\<close>

lemma extends_trans:
  assumes "extends n H H1" "extends (length H1) H1 H2"
  shows "extends n H H2"
proof -
  have t: "take (length H1) H2 = H1" and l: "length H1 \<le> length H2" using assms(2) by (auto simp: extends_def)
  have nth: "H2 ! r = H1 ! r" if "r < length H1" for r using arg_cong [OF t, of "\<lambda>x. x ! r"] that by simp
  have "take n H2 = take n H1" using assms(1) arg_cong [OF t, of "take n"] by (simp add: extends_def)
  moreover have "table_ok H2 r" if "n \<le> r" "r < length H2" for r
  proof (cases "r < length H1")
    case True
    then have "table_ok H1 r" using assms(1) that by (simp add: extends_def)
    then show ?thesis using nth [OF True] decoded_value_mono l by (fastforce simp: table_ok_def)
  next
    case False
    then show ?thesis using assms(2) that by (simp add: extends_def)
  qed
  ultimately show ?thesis using assms l by (auto simp: extends_def)
qed

lemma set_pair_set: "set (set_pair k v ps) \<subseteq> insert (k, v) (set ps)"
  by (induction k v ps rule: set_pair.induct) (auto split: if_splits)

lemma set_pair_keys: "fst ` set (set_pair k v ps) = insert k (fst ` set ps)"
  by (induction k v ps rule: set_pair.induct) (simp_all add: insert_commute)

lemma set_pair_distinct: "distinct (map fst ps) \<Longrightarrow> distinct (map fst (set_pair k v ps))"
proof (induction ps)
  case (Cons p ps)
  obtain k1 v1 where p: "p = (k1, v1)" by fastforce
  have "k1 \<notin> fst ` set (set_pair k v ps)" if "k1 \<noteq> k" using Cons.prems that p by (simp add: set_pair_keys)
  then show ?case using Cons p by auto
qed simp

lemma extends_rawset:
  assumes "extends n H H1" "n \<le> r" "r < length H1" "decoded_key k" "decoded_value (Suc r) (length H1) v"
  shows "extends n H (lua_rawset H1 r k v)"
proof -
  have "table_ok (lua_rawset H1 r k v) q" if "n \<le> q" "q < length H1" for q
  proof (cases "q = r")
    case True
    have "table_ok H1 r" using assms(1-3) by (simp add: extends_def)
    then show ?thesis using True assms(3-5) set_pair_set [of k v "H1 ! r"]
      by (auto simp: table_ok_def lua_rawset_def intro: set_pair_distinct)
  next
    case False
    have "table_ok H1 q" using assms(1) that by (simp add: extends_def)
    then show ?thesis using False by (simp add: table_ok_def lua_rawset_def)
  qed
  then show ?thesis using assms(1-3) by (simp add: extends_def lua_rawset_def)
qed

lemma extends_new: "extends (length H) H (H @ [[]])"
  by (auto simp: extends_def table_ok_def nth_append)

text \<open>
  What a call may do: it throws, or returns with the parser further on at the same depth, the old tables from \<open>n\<close>
  down untouched, and a value made of tables from \<open>m\<close> on.
\<close>

definition parses :: "nat \<Rightarrow> nat \<Rightarrow> int \<Rightarrow> json_parse \<Rightarrow> tables \<Rightarrow> (json_parse \<times> tables \<times> lua) run \<Rightarrow> bool" where
  "parses n m d j H r \<longleftrightarrow> (case r of
     Inl e \<Rightarrow> \<exists>msg. e = Throw msg
   | Inr (j', H', v) \<Rightarrow> jp_ok j' \<and> jp_len j' = jp_len j \<and> jp_depth j' = d \<and> length (jp_ptr j') \<le> length (jp_ptr j) \<and>
       extends n H H' \<and> decoded_value m (length H') v)"

lemma parses_throw [simp]: "parses n m d j H (json_throw_parse_error s t)"
  by (simp add: parses_def json_throw_parse_error_def Let_def)

lemma parses_shift:
  "parses n m d j1 H r \<Longrightarrow> jp_len j1 = jp_len j \<Longrightarrow> length (jp_ptr j1) \<le> length (jp_ptr j) \<Longrightarrow> parses n m d j H r"
  by (auto simp: parses_def split: sum.splits)

lemma parses_token:
  assumes "jp_ok j"
    and "\<And>j' t. json_next_token cfg dp j = Inr (j', t) \<Longrightarrow> jp_ok j' \<Longrightarrow> jp_len j' = jp_len j \<Longrightarrow> jp_depth j' = jp_depth j \<Longrightarrow>
      left j' t \<le> length (jp_ptr j) \<Longrightarrow> tk_type t \<in> {T_STRING, T_COLON, T_COMMA} \<longrightarrow> length (jp_ptr j') < length (jp_ptr j) \<Longrightarrow>
      value_fits (tk_type t) (tk_value t) \<Longrightarrow> parses n m d j' H (f (j', t))"
  shows "parses n m d j H (bindR (json_next_token cfg dp j) f)"
proof -
  from next_token_ok [OF assms(1), of cfg dp] obtain j' t where
    t: "json_next_token cfg dp j = Inr (j', t)" "jp_ok j'" "follows j j'" "value_fits (tk_type t) (tk_value t)"
    by (auto simp: token_from_def)
  have "parses n m d j' H (f (j', t))"
    using next_token_left [OF t(1)] t(3) by (intro assms(2) t) (auto simp: follows_def)
  then have "parses n m d j H (f (j', t))" using next_token_length [OF t(1)] t(3) by (elim parses_shift) (auto simp: follows_def)
  then show ?thesis using t(1) by simp
qed

lemma parses_value:
  assumes "parses (length H1) (length H1) e j H1 r" "extends n H H1"
    and "\<And>j' H' v. r = Inr (j', H', v) \<Longrightarrow> jp_ok j' \<Longrightarrow> jp_len j' = jp_len j \<Longrightarrow> jp_depth j' = e \<Longrightarrow>
      length (jp_ptr j') \<le> length (jp_ptr j) \<Longrightarrow> extends n H H' \<Longrightarrow> length H1 \<le> length H' \<Longrightarrow>
      decoded_value (length H1) (length H') v \<Longrightarrow> parses n m d j' H (f (j', H', v))"
  shows "parses n m d j H (bindR r f)"
proof (cases r)
  case (Inr q)
  obtain j' H' v where q: "q = (j', H', v)" by (metis surj_pair)
  have "parses n m d j' H (f (j', H', v))"
    using assms(1,2) Inr q by (intro assms(3)) (auto simp: parses_def extends_def [of "length H1"] intro: extends_trans)
  moreover have "jp_len j' = jp_len j" "length (jp_ptr j') \<le> length (jp_ptr j)" using assms(1) Inr q by (auto simp: parses_def)
  ultimately have "parses n m d j H (f (j', H', v))" by (rule parses_shift)
  then show ?thesis using Inr q by simp
qed (use assms(1) in \<open>simp add: parses_def\<close>)

lemma descend_cases:
  assumes "jp_ok j" "0 \<le> jp_depth j" "jp_depth j < 2147483647"
  shows "(\<exists>msg. json_decode_descend cfg ck j slots = Inl (Throw msg)) \<or>
    json_decode_descend cfg ck j slots = Inr (j\<lparr>jp_depth := jp_depth j + 1\<rparr>)"
  using assms by (auto simp: json_decode_descend_def i32_eq Let_def)

definition room :: "json_parse \<Rightarrow> int \<Rightarrow> nat \<Rightarrow> bool" where
  "room j d k \<longleftrightarrow> jp_ok j \<and> jp_len j < 2147483647 \<and> 0 \<le> d \<and> d + int k \<le> int (jp_len j)"

lemma parser_safe:
  "room j (jp_depth j) (left j token) \<Longrightarrow> value_fits (tk_type token) (tk_value token) \<Longrightarrow>
     parses (length H) (length H) (jp_depth j) j H (json_process_value cfg dp ck j H token)"
  "room j (jp_depth j) (Suc (length (jp_ptr j))) \<Longrightarrow>
     parses (length H) (length H) (jp_depth j) j H (json_parse_object_context cfg dp ck j H)"
  "room j (jp_depth j) (left j token) \<Longrightarrow> value_fits (tk_type token) (tk_value token) \<Longrightarrow> r < length H \<Longrightarrow> extends r H0 H \<Longrightarrow>
     parses r r (jp_depth j - 1) j H0 (object_loop cfg dp ck j H r token)"
  "room j (jp_depth j) (Suc (length (jp_ptr j))) \<Longrightarrow>
     parses (length H) (length H) (jp_depth j) j H (json_parse_array_context cfg dp ck j H)"
  "room j (jp_depth j) (left j token) \<Longrightarrow> room j i (left j token) \<Longrightarrow> 1 \<le> i \<Longrightarrow> value_fits (tk_type token) (tk_value token) \<Longrightarrow>
     r < length H \<Longrightarrow> extends r H0 H \<Longrightarrow>
     parses r r (jp_depth j - 1) j H0 (array_loop cfg dp ck j H r i token)"
proof (induction cfg dp ck j H token and cfg dp ck j H and cfg dp ck j H r token and cfg dp ck j H and cfg dp ck j H r i token
    arbitrary: and and H0 and and H0
    rule: json_process_value_json_parse_object_context_object_loop_json_parse_array_context_array_loop.induct)
  case (1 cfg dp ck j H token)
  show ?case
  proof (cases "tk_type token \<in> {T_OBJ_BEGIN, T_ARR_BEGIN}")
    case True
    then have "tk_value token = NoValue" using 1(4) by (cases "tk_value token") auto
    with True 1 show ?thesis by (auto simp: json_process_value.simps [of cfg] left_def)
  next
    case False
    then show ?thesis using 1(3,4) extends_refl
      by (cases "tk_type token"; cases "tk_value token") (auto simp: json_process_value.simps [of cfg] parses_def [of _ _ _ _ _ "Inr _"] room_def)
  qed
next
  case (2 cfg dp ck j H)
  have d: "jp_ok j" "0 \<le> jp_depth j" "jp_depth j < 2147483647" using 2(2) by (auto simp: room_def)
  from descend_cases [OF d, of cfg ck 3] show ?case
  proof
    assume h: "json_decode_descend cfg ck j 3 = Inr (j\<lparr>jp_depth := jp_depth j + 1\<rparr>)"
    let ?j = "j\<lparr>jp_depth := jp_depth j + 1\<rparr>"
    have ok: "jp_ok ?j" using d(1) by (simp add: jp_ok_def)
    have "parses (length H) (length H) (jp_depth j) ?j H (bindR (json_next_token cfg dp ?j) (\<lambda>(j, token).
     if tk_type token = T_OBJ_END then Inr (json_decode_ascend j, H @ [[]], LTable (length H))
     else object_loop cfg dp ck j (H @ [[]]) (length H) token))"
    proof (rule parses_token [OF ok], simp only: split_conv, goal_cases)
      case (1 j1 t)
      show ?case
      proof (cases "tk_type t = T_OBJ_END")
        case True
        then show ?thesis using 1 extends_new by (auto simp: parses_def json_decode_ascend_def jp_ok_def)
      next
        case False
        have "room j1 (jp_depth j1) (left j1 t)" using 1 2(2) by (auto simp: room_def)
        from 2(1) [OF h 1(1) refl False this 1(7) _ extends_new] show ?thesis using 1 False by simp
      qed
    qed
    then show ?thesis unfolding json_parse_object_context.simps [of cfg] h bindR_simps by (rule parses_shift) simp_all
  qed (auto simp: json_parse_object_context.simps [of cfg] parses_def)
next
  case (3 cfg dp ck j H r token)
  show ?case
  proof (cases "\<exists>key. tk_value token = VString key")
    case False
    then show ?thesis by (cases "tk_value token") (simp_all add: object_loop.simps [of cfg])
  next
    case True
    then obtain key where key: "tk_value token = VString key" by blast
    then have str: "tk_type token = T_STRING" using 3(4) by simp
    then have l: "left j token = length (jp_ptr j)" by (simp add: left_def)
    note IHv = 3(1) [OF key] and IHl = 3(2) [OF key]
    have "parses r r (jp_depth j - 1) j H0 (bindR (json_next_token cfg dp j) (\<lambda>(j, token).
            if tk_type token \<noteq> T_COLON then json_throw_parse_error ''colon'' token
            else
              bindR (json_next_token cfg dp j) (\<lambda>(j, token).
              bindR (json_process_value cfg dp ck j H token) (\<lambda>(j, H, v).
              let H = lua_rawset H r (LStr key) v in
              bindR (json_next_token cfg dp j) (\<lambda>(j, token).
              if tk_type token = T_OBJ_END then Inr (json_decode_ascend j, H, LTable r)
              else if tk_type token \<noteq> T_COMMA then json_throw_parse_error ''comma or object end'' token
              else bindR (json_next_token cfg dp j) (\<lambda>(j, token). object_loop cfg dp ck j H r token))))))"
    proof (rule parses_token, use 3 in \<open>simp add: room_def\<close>, simp only: split_conv, goal_cases)
      case (1 j1 t1)
      note t1 = this
      show ?case
      proof (cases "tk_type t1 = T_COLON")
        case colon: True
        have "parses r r (jp_depth j - 1) j1 H0 (bindR (json_next_token cfg dp j1) (\<lambda>(j, token).
              bindR (json_process_value cfg dp ck j H token) (\<lambda>(j, H, v).
              let H = lua_rawset H r (LStr key) v in
              bindR (json_next_token cfg dp j) (\<lambda>(j, token).
              if tk_type token = T_OBJ_END then Inr (json_decode_ascend j, H, LTable r)
              else if tk_type token \<noteq> T_COMMA then json_throw_parse_error ''comma or object end'' token
              else bindR (json_next_token cfg dp j) (\<lambda>(j, token). object_loop cfg dp ck j H r token)))))"
        proof (rule parses_token [OF t1(2)], simp only: split_conv, goal_cases)
          case (1 j2 t2)
          note t2 = this
          have "room j2 (jp_depth j2) (left j2 t2)" using t1 t2 3(3) l by (auto simp: room_def left_def split: if_splits)
          then have "parses (length H) (length H) (jp_depth j2) j2 H (json_process_value cfg dp ck j2 H t2)"
            using IHv [OF _ t1(1) refl _ t2(1) refl] t2(7) str colon by simp
          then show ?case
          proof (rule parses_value [OF _ 3(6)], unfold split_conv Let_def, goal_cases)
            case (1 j3 H3 v)
            note v = this
            have e3: "extends r H0 (lua_rawset H3 r (LStr key) v)"
              using v(6,7,8) 3(5,6) by (intro extends_rawset) (auto simp: extends_def elim: decoded_value_mono)
            have l3: "r < length (lua_rawset H3 r (LStr key) v)" using v(7) 3(5) by (simp add: lua_rawset_def)
            show ?case
            proof (rule parses_token [OF v(2)], simp only: split_conv, goal_cases)
              case (1 j4 t4)
              note t4 = this
              consider "tk_type t4 = T_OBJ_END" | "tk_type t4 = T_COMMA" | "tk_type t4 \<noteq> T_OBJ_END" "tk_type t4 \<noteq> T_COMMA" by blast
              then show ?case
              proof cases
                case 1
                then show ?thesis using t4 v t2 t1 e3 l3 by (auto simp: parses_def json_decode_ascend_def jp_ok_def)
              next
                case comma: 2
                have "parses r r (jp_depth j - 1) j4 H0 (bindR (json_next_token cfg dp j4)
                  (\<lambda>(j, token). object_loop cfg dp ck j (lua_rawset H3 r (LStr key) v) r token))"
                proof (rule parses_token [OF t4(2)], simp only: split_conv, goal_cases)
                  case (1 j5 t5)
                  note t5 = this
                  have "room j5 (jp_depth j5) (left j5 t5)"
                    using t1 t2 v t4 t5 3(3) l comma by (auto simp: room_def left_def split: if_splits)
                  from IHl [OF _ t1(1) refl _ t2(1) refl v(1) refl refl refl t4(1) refl _ _ t5(1) refl this t5(7) l3 e3]
                  show ?case using str colon comma t1 t2 v t4 t5 by simp
                qed
                then show ?thesis using comma by simp
              qed simp
            qed
          qed
        qed
        then show ?thesis using colon by simp
      qed simp
    qed
    then show ?thesis using key str by (simp add: object_loop.simps [of cfg])
  qed
next
  case (4 cfg dp ck j H)
  have d: "jp_ok j" "0 \<le> jp_depth j" "jp_depth j < 2147483647" using 4(2) by (auto simp: room_def)
  from descend_cases [OF d, of cfg ck 2] show ?case
  proof
    assume h: "json_decode_descend cfg ck j 2 = Inr (j\<lparr>jp_depth := jp_depth j + 1\<rparr>)"
    let ?j = "j\<lparr>jp_depth := jp_depth j + 1\<rparr>"
    have ok: "jp_ok ?j" using d(1) by (simp add: jp_ok_def)
    have "parses (length H) (length H) (jp_depth j) ?j H (bindR (json_next_token cfg dp ?j) (\<lambda>(j, token).
     if tk_type token = T_ARR_END then Inr (json_decode_ascend j, H @ [[]], LTable (length H))
     else array_loop cfg dp ck j (H @ [[]]) (length H) 1 token))"
    proof (rule parses_token [OF ok], simp only: split_conv, goal_cases)
      case (1 j1 t)
      show ?case
      proof (cases "tk_type t = T_ARR_END")
        case True
        then show ?thesis using 1 extends_new by (auto simp: parses_def json_decode_ascend_def jp_ok_def)
      next
        case False
        have "room j1 (jp_depth j1) (left j1 t)" "room j1 1 (left j1 t)" using 1 4(2) by (auto simp: room_def)
        from 4(1) [OF h 1(1) refl False this _ 1(7) _ extends_new] show ?thesis using 1 False by simp
      qed
    qed
    then show ?thesis unfolding json_parse_array_context.simps [of cfg] h bindR_simps by (rule parses_shift) simp_all
  qed (auto simp: json_parse_array_context.simps [of cfg] parses_def)
next
  case (5 cfg dp ck j H r i token)
  have "parses (length H) (length H) (jp_depth j) j H (json_process_value cfg dp ck j H token)" by (rule 5(1) [OF 5(3,6)])
  then show ?case unfolding array_loop.simps [of cfg dp ck j H r i token]
  proof (rule parses_value [OF _ 5(8)], unfold split_conv Let_def, goal_cases)
    case (1 j1 H1 v)
    note v = this
    have e1: "extends r H0 (lua_rawset H1 r (LInt i) v)"
      using v(6,7,8) 5(5,7,8) by (intro extends_rawset) (auto simp: extends_def elim: decoded_value_mono)
    have l1: "r < length (lua_rawset H1 r (LInt i) v)" using v(7) 5(7) by (simp add: lua_rawset_def)
    show ?case
    proof (rule parses_token [OF v(2)], simp only: split_conv, goal_cases)
      case (1 j2 t2)
      note t2 = this
      consider "tk_type t2 = T_ARR_END" | "tk_type t2 = T_COMMA" | "tk_type t2 \<noteq> T_ARR_END" "tk_type t2 \<noteq> T_COMMA" by blast
      then show ?case
      proof cases
        case 1
        then show ?thesis using t2 v e1 l1 by (auto simp: parses_def json_decode_ascend_def jp_ok_def)
      next
        case comma: 2
        have "parses r r (jp_depth j - 1) j2 H0 (bindR (json_next_token cfg dp j2)
          (\<lambda>(j, token). bindR (i32 (i + 1)) (\<lambda>i'. array_loop cfg dp ck j (lua_rawset H1 r (LInt i) v) r i' token)))"
        proof (rule parses_token [OF t2(2)], simp only: split_conv, goal_cases)
          case (1 j3 t3)
          note t3 = this
          have b: "left j3 t3 < left j token" using t3 t2 v comma by (auto simp: left_def split: if_splits)
          then have m: "room j3 (jp_depth j3) (left j3 t3)" "room j3 (i + 1) (left j3 t3)"
            using t2 v t3 5(3,4) by (auto simp: room_def)
          have i: "i32 (i + 1) = Inr (i + 1)" using 5(4,5) b by (auto simp: i32_eq room_def)
          from 5(2) [OF v(1) refl refl refl t2(1) refl _ _ t3(1) refl i m _ t3(7) l1 e1]
          show ?case using comma 5(5) v t2 t3 i by simp
        qed
        then show ?thesis using comma by simp
      qed simp
    qed
  qed
qed

section \<open>Decoding\<close>

lemma bindR_if: "bindR (if b then x else y) f = (if b then bindR x f else bindR y f)"
  by simp

lemma bindR_throw [simp]: "bindR (json_throw_parse_error s t) f = json_throw_parse_error s t"
  by (simp add: json_throw_parse_error_def)

text \<open>
  C7: Decoding any text of less than 2147483646 bytes, in any configuration, ends with a value or by throwing an
  error: it never looks behind the text, never writes outside its buffer, and no integer overflows.  The tables
  that existed before stay as they are, and those of the value form a tree, hold only strings or positive integers as keys, each once,
  and only values that JSON has.
\<close>

theorem json_decode_safe:
  assumes "length inp < 2147483646"
  shows "case json_decode cfg dp ck inp H of
      Inl e \<Rightarrow> \<exists>msg. e = Throw msg
    | Inr (H', v) \<Rightarrow> extends (length H) H H' \<and> decoded_value (length H) (length H') v"
proof (cases "2 \<le> length inp \<and> (inp ! 0 = 0 \<or> inp ! 1 = 0)")
  case True
  then show ?thesis by (simp add: json_decode_def)
next
  case False
  have "sint (of_nat (length inp) :: u32) = int (length inp)" using assms by (intro sint_of_nat_u32) simp
  with strbuf_new_ok(1) [of "int (length inp)"] assms obtain s where s: "strbuf_new (sint (of_nat (length inp) :: u32)) = Inr s" "strbuf_ok s"
    "int (length inp) \<le> strbuf_empty_length s" "content s = []" by auto
  let ?j = "\<lparr>jp_len = length inp, jp_ptr = inp, jp_tmp = s, jp_depth = 0\<rparr>"
  have ok: "jp_ok ?j" using s empty_length_iff [OF s(2)] by (simp add: jp_ok_def)
  define run where "run = bindR (json_next_token cfg dp ?j) (\<lambda>(j, token).
        bindR (json_process_value cfg dp ck j H token) (\<lambda>(j, H, v).
        bindR (json_next_token cfg dp j) (\<lambda>(j, token).
        if tk_type token \<noteq> T_END then json_throw_parse_error ''the end'' token
        else Inr (j, H, v))))"
  have "parses (length H) (length H) 0 ?j H run"
    unfolding run_def
  proof (rule parses_token [OF ok], simp only: split_conv, goal_cases)
    case (1 j1 t1)
    have "room j1 (jp_depth j1) (left j1 t1)" using 1 assms by (simp add: room_def)
    from parser_safe(1) [OF this 1(7), of H cfg dp ck] show ?case
    proof (rule parses_value [OF _ extends_refl], unfold split_conv, goal_cases)
      case v: (1 j2 H2 v)
      show ?case
      proof (rule parses_token [OF v(2)], simp only: split_conv, goal_cases)
        case (1 j3 t3)
        then show ?case using v \<open>jp_depth j1 = jp_depth ?j\<close>
          by (cases "tk_type t3 = T_END") (simp_all add: parses_def [of _ _ _ _ _ "Inr _"])
      qed
    qed
  qed
  moreover have "json_decode cfg dp ck inp H = bindR run (\<lambda>(j, H, v). Inr (H, v))"
    using False s(1) by (auto simp: json_decode_def run_def bindR_assoc split_def bindR_if cong: if_cong)
  ultimately show ?thesis by (auto simp: parses_def split: sum.splits)
qed


theorem json_decode_safe_witness:
  "\<exists>cfg. json_create_config = Inr cfg \<and>
    (case json_decode cfg 46 (\<lambda>depth slots. True) [91, 123, 93] [[]] of
      Inl e \<Rightarrow> \<exists>msg. e = Throw msg
    | Inr (H', v) \<Rightarrow> extends 1 [[]] H' \<and> decoded_value 1 (length H') v)"
proof -
  from strbuf_new_ok(2) [of 0] obtain cfg where cfg: "json_create_config = Inr cfg" by (auto simp: json_create_config_def)
  show ?thesis
    by (intro exI [of _ cfg] conjI cfg) (use json_decode_safe [where inp = "[91, 123, 93]" and cfg = cfg and dp = 46 and ck = "\<lambda>depth slots. True" and H = "[[]]"]
      in \<open>simp cong: sum.case_cong\<close>)
qed

section \<open>Infinity and NaN\<close>

lemma digits_letter: "digit_val b c = None \<Longrightarrow> digits b (c # p) = []"
  by (simp add: digits_def)

lemma lower_cases: "lower c = l \<Longrightarrow> 97 \<le> l \<Longrightarrow> l \<le> 122 \<Longrightarrow> c = l \<or> c = l - 32"
  by (auto simp: lower_def split: if_splits)

lemma take_starts: "take n l = a # b # r \<Longrightarrow> l ! 0 = a \<and> l ! 1 = b"
proof -
  assume "take n l = a # b # r"
  then have "l = (a # b # r) @ drop n l" by (metis append_take_drop_id)
  then show ?thesis by (metis append_Cons nth_Cons_0 nth_Cons_Suc One_nat_def)
qed

text \<open>
  The words NaN, Inf and Infinity, in upper or lower case and with or without a minus, give an error token in every configuration: the
  integer that is read first has no digits, so they are not read as numbers even where \<open>decode_invalid_numbers\<close> asks for it.
\<close>

theorem invalid_words_rejected:
  assumes "prefix_ci [105, 110, 102] w \<or> prefix_ci [110, 97, 110] w" "jp_ptr j = w \<or> jp_ptr j = 45 # w"
  shows "\<exists>e. json_next_token cfg dp j = Inr (j, \<lparr>tk_type = T_ERROR, tk_index = jp_index j, tk_value = VError e\<rparr>)"
proof -
  have "3 \<le> length w" using assms(1) prefix_ci_length [of "[105, 110, 102]" w] prefix_ci_length [of "[110, 97, 110]" w] by auto
  then obtain c1 c2 c3 p where w: "w = c1 # c2 # c3 # p" by (auto simp: eval_nat_numeral(2,3) Suc_le_length_iff)
  have l: "lower c1 = 105 \<and> lower c2 = 110 \<or> lower c1 = 110 \<and> lower c2 = 97"
    using assms(1) by (auto simp: w prefix_ci_def)
  have c1: "c1 \<in> {105, 73, 110, 78}" and c2: "c2 \<in> {110, 78, 97, 65}" using l lower_cases [of c1] lower_cases [of c2] by auto
  have d: "digit_val 10 c1 = None" "\<not> is_space c1" using c1 by (auto simp: digit_val_def is_space_def Let_def)
  have b: "read_base w = (10, w, 0)" using c1 by (auto simp: w read_base_def)
  have s: "strtoll (jp_ptr j) = (0, 0)"
    using assms(2) d b c1 digits_letter [OF d(1)] by (auto simp: strtoll_def w is_space_def)
  have n: "json_next_number_token dp j = Inr (j, json_set_token_error j ''invalid number'')"
    using s by (simp add: json_next_number_token_def)
  have ct: "\<forall>c \<in> {105, 73, 110, 78, 45}. ch2token c = T_UNKNOWN" by (simp add: ch2token_def)
  have "dropWhile (\<lambda>c. ch2token c = T_WHITESPACE) (jp_ptr j) = jp_ptr j" using assms(2) c1 ct by (elim disjE) (auto simp: w)
  then have sk: "skip_white j = j" by (simp add: skip_white_def)
  obtain bad where bad: "json_is_invalid_number (jp_ptr j) = Inr bad" using is_invalid_number_returns by blast
  obtain ch where ch: "peek (jp_ptr j) 0 = Inr ch" "ch \<in> {105, 73, 110, 78, 45}" using assms(2) c1 by (auto simp: w)
  have u: "ch2token ch = T_UNKNOWN" using ch(2) ct by blast
  have h0: "jp_ptr j ! 0 \<in> {105, 73, 110, 78, 45}" and h1: "jp_ptr j ! 0 = 110 \<Longrightarrow> jp_ptr j ! 1 = c2"
    using assms(2) c1 by (auto simp: w)
  have k: "take 4 (jp_ptr j) \<noteq> [116, 114, 117, 101]" "take 5 (jp_ptr j) \<noteq> [102, 97, 108, 115, 101]" "take 4 (jp_ptr j) \<noteq> [110, 117, 108, 108]"
    using take_starts [of 4 "jp_ptr j" 116] take_starts [of 5 "jp_ptr j" 102] take_starts [of 4 "jp_ptr j" 110] h0 h1 c2 by auto
  have "\<exists>e. next_unknown_token cfg dp j ch = Inr (j, json_set_token_error j e)"
    using ch(2) k n bad by (auto simp: next_unknown_token_def)
  then show ?thesis using ch(1) u by (auto simp: json_next_token_def sk next_token_here_def json_set_token_error_def)
qed

theorem invalid_words_rejected_witness:
  "\<forall>cfg. \<exists>e. json_next_token cfg 46 (ex_parse [45, 73, 110, 102]) = Inr (ex_parse [45, 73, 110, 102], \<lparr>tk_type = T_ERROR, tk_index = 0, tk_value = VError e\<rparr>)"
  using invalid_words_rejected [of "[73, 110, 102]" "ex_parse [45, 73, 110, 102]" _ 46]
  by (simp add: prefix_ci_def lower_def ex_parse_def jp_index_def)

section \<open>The depth limit\<close>

lemma bracket_token:
  "jp_ptr j = 91 # p \<Longrightarrow> json_next_token cfg dp j = Inr (j\<lparr>jp_ptr := p\<rparr>, new_token j T_ARR_BEGIN NoValue)"
  by (simp add: json_next_token_def skip_white_def next_token_here_def ch2token_def advance_def new_token_def jp_index_def)

lemma nested_arrays_throw:
  assumes "jp_ptr j = replicate k 91 @ rest" "0 \<le> jp_depth j" "jp_depth j + int k = decode_max_depth cfg"
    "decode_max_depth cfg < 2147483647" "\<forall>d n. d \<le> decode_max_depth cfg \<longrightarrow> ck d n" "n + length (jp_ptr j) = jp_len j"
  shows "json_parse_array_context cfg dp ck j H =
    Inl (Throw (''Found too many nested data structures ('' @ int_text (decode_max_depth cfg + 1) @ '') at character '' @
      int_text (int (n + k))))"
  using assms
proof (induction k arbitrary: j H n)
  case 0
  then have "jp_index j = n" by (simp add: jp_index_def)
  then show ?case using 0 by (simp add: json_parse_array_context.simps [of cfg] json_decode_descend_def i32_eq Let_def)
next
  case (Suc k)
  let ?j = "j\<lparr>jp_depth := jp_depth j + 1\<rparr>"
  have d: "json_decode_descend cfg ck j 2 = Inr ?j" using Suc.prems by (simp add: json_decode_descend_def i32_eq)
  have t: "json_next_token cfg dp ?j = Inr (?j\<lparr>jp_ptr := replicate k 91 @ rest\<rparr>, new_token ?j T_ARR_BEGIN NoValue)"
    using Suc.prems by (intro bracket_token) simp
  let ?msg = "Inl (Throw (''Found too many nested data structures ('' @ int_text (decode_max_depth cfg + 1) @ '') at character '' @
      int_text (int (n + Suc k))))"
  have "json_parse_array_context cfg dp ck (?j\<lparr>jp_ptr := replicate k 91 @ rest\<rparr>) (H @ [[]]) = ?msg"
    using Suc.IH [of "?j\<lparr>jp_ptr := replicate k 91 @ rest\<rparr>" "Suc n" "H @ [[]]"] Suc.prems by simp
  then have "json_process_value cfg dp ck (?j\<lparr>jp_ptr := replicate k 91 @ rest\<rparr>) (H @ [[]]) (new_token ?j T_ARR_BEGIN NoValue) = ?msg"
    by (simp add: json_process_value.simps [of cfg] new_token_def)
  then show ?case using d t
    by (simp add: json_parse_array_context.simps [of cfg dp ck j H] array_loop.simps [of cfg] new_token_def)
qed

text \<open>
  C32: A text that opens more arrays than \<open>decode_max_depth\<close> allows is refused at the first bracket too many, whatever
  follows; the error names the depth and the place behind that bracket.
\<close>

theorem decode_depth_limit:
  assumes "1 \<le> decode_max_depth cfg" "decode_max_depth cfg < 2147483646 - int (length rest)"
    and "\<forall>d n. d \<le> decode_max_depth cfg \<longrightarrow> ck d n"
  shows "json_decode cfg dp ck (replicate (nat (decode_max_depth cfg) + 1) 91 @ rest) H =
    Inl (Throw (''Found too many nested data structures ('' @ int_text (decode_max_depth cfg + 1) @ '') at character '' @
      int_text (decode_max_depth cfg + 1)))"
proof -
  define k where "k = nat (decode_max_depth cfg)"
  have k: "decode_max_depth cfg = int k" "1 \<le> k" using assms(1) by (simp_all add: k_def)
  let ?text = "91 # replicate k 91 @ rest"
  have "sint (of_nat (length ?text) :: u32) = int (length ?text)" using assms(2) k by (intro sint_of_nat_u32) simp
  with strbuf_new_ok(1) [of "int (length ?text)"] assms(2) k obtain s where
    s: "strbuf_new (sint (of_nat (length ?text) :: u32)) = Inr s" by auto
  let ?j = "\<lparr>jp_len = length ?text, jp_ptr = ?text, jp_tmp = s, jp_depth = 0\<rparr>"
  have t: "json_next_token cfg dp ?j = Inr (?j\<lparr>jp_ptr := replicate k 91 @ rest\<rparr>, new_token ?j T_ARR_BEGIN NoValue)"
    by (rule bracket_token) simp
  have a: "json_parse_array_context cfg dp ck (?j\<lparr>jp_ptr := replicate k 91 @ rest\<rparr>) H =
      Inl (Throw (''Found too many nested data structures ('' @ int_text (decode_max_depth cfg + 1) @ '') at character '' @
      int_text (int (1 + k))))"
    by (rule nested_arrays_throw [of _ k rest]) (use assms k in auto)
  have z: "?text ! 0 \<noteq> 0 \<and> ?text ! 1 \<noteq> 0" using k(2) by (cases k) auto
  have "json_decode cfg dp ck ?text H = Inl (Throw (''Found too many nested data structures ('' @ int_text (decode_max_depth cfg + 1) @
      '') at character '' @ int_text (int (1 + k))))"
    using z s t a unfolding json_decode_def by (simp add: json_process_value.simps [of cfg] new_token_def)
  then show ?thesis using k by (simp add: k_def [symmetric] add.commute)
qed

theorem decode_depth_limit_witness:
  "\<exists>cfg. decode_max_depth cfg = 2 \<and> json_decode cfg 46 (\<lambda>depth slots. True) [91, 91, 91, 49] [] =
    Inl (Throw ''Found too many nested data structures (3) at character 3'')"
proof -
  from strbuf_new_ok(2) [of 0] obtain cfg where "json_create_config = Inr cfg" by (auto simp: json_create_config_def)
  define c where "c = cfg\<lparr>decode_max_depth := 2\<rparr>"
  have i: "int_text 3 = ''3''" by code_simp
  have "replicate (nat (decode_max_depth c) + 1) 91 @ [49] = [91, 91, 91, 49 :: u8]" by (simp add: c_def numeral_eq_Suc)
  with decode_depth_limit [of c "[49]" "\<lambda>depth slots. True" 46 "[]"]
  have "json_decode c 46 (\<lambda>depth slots. True) [91, 91, 91, 49] [] = Inl (Throw ''Found too many nested data structures (3) at character 3'')"
    by (simp add: c_def i)
  then show ?thesis by (intro exI [of _ c]) (simp add: c_def)
qed

end
