(* ===== verification/Json_Roundtrip.thy ===== *)
theory Json_Roundtrip
  imports Json_Render Json_Parse_Props
begin

text \<open>
  The decoder reads the text of a JSON value back, and with the encoder the round trip through both.
\<close>

section \<open>Tables that are not reached\<close>

lemma not_models_nil: "\<not> models H t LNil"
  by (cases t) auto

text \<open>A value keeps its meaning when only tables below \<open>lo\<close> change, which it cannot reach, and new ones are made.\<close>

lemma models_frame:
  assumes "\<And>q. lo \<le> q \<Longrightarrow> q < length H1 \<Longrightarrow> table_ok H1 q \<and> H2 ! q = H1 ! q" "length H1 \<le> length H2"
  shows "models H1 t v \<Longrightarrow> decoded_value lo (length H1) v \<Longrightarrow> models H2 t v"
  using assms(1)
proof (induction t arbitrary: v lo)
  case (JArr ts)
  obtain r where r: "v = LTable r" "lo \<le> r" "r < length H1" "array_keys (H1 ! r) (length ts)"
    and m: "\<And>k. k < length ts \<Longrightarrow> models H1 (ts ! k) (lua_rawgeti (H1 ! r) (int k + 1))"
    using JArr.prems(1,2) by (auto split: lua.splits)
  have t: "table_ok H1 r" "H2 ! r = H1 ! r" using JArr.prems(3) r by auto
  have "models H2 (ts ! k) (lua_rawgeti (H1 ! r) (int k + 1))" if k: "k < length ts" for k
  proof (rule JArr.IH [OF nth_mem [OF k] m [OF k]])
    show "decoded_value (Suc r) (length H1) (lua_rawgeti (H1 ! r) (int k + 1))"
      using m [OF k] t(1) not_models_nil
      by (auto simp: lua_rawgeti_def table_ok_def split: option.splits dest!: map_of_SomeD)
    show "table_ok H1 q \<and> H2 ! q = H1 ! q" if "Suc r \<le> q" "q < length H1" for q using JArr.prems(3) r that by auto
  qed
  then show ?case using r t assms(2) by simp
next
  case (JObj kvs)
  obtain r where r: "v = LTable r" "lo \<le> r" "r < length H1" "map fst (H1 ! r) = map (\<lambda>(k, t). LStr k) kvs"
    and m: "\<And>k. k < length kvs \<Longrightarrow> models H1 (snd (kvs ! k)) (snd (H1 ! r ! k))"
    using JObj.prems(1,2) by (auto split: lua.splits)
  have t: "table_ok H1 r" "H2 ! r = H1 ! r" using JObj.prems(3) r by auto
  have l: "length (H1 ! r) = length kvs" using arg_cong [OF r(4), of length] by simp
  have "models H2 (snd (kvs ! k)) (snd (H1 ! r ! k))" if k: "k < length kvs" for k
  proof (rule JObj.IH [OF _ _ m [OF k]])
    show "kvs ! k \<in> set kvs" using k by simp
    show "snd (kvs ! k) \<in> Basic_BNFs.snds (kvs ! k)" by (simp add: snds.simps prod_set_simps)
    have "H1 ! r ! k \<in> set (H1 ! r)" using k l by simp
    then show "decoded_value (Suc r) (length H1) (snd (H1 ! r ! k))" using t(1) by (auto simp: table_ok_def)
    show "table_ok H1 q \<and> H2 ! q = H1 ! q" if "Suc r \<le> q" "q < length H1" for q using JObj.prems(3) r that by auto
  qed
  then show ?case using r t assms(2) by simp
qed auto

section \<open>Tokens of the text\<close>

fun exact :: "json \<Rightarrow> bool" where
  "exact (JNum d) = False"
| "exact (JArr ts) = (\<forall>t \<in> set ts. exact t)"
| "exact (JObj kvs) = (\<forall>(k, t) \<in> set kvs. exact t)"
| "exact t = True"

lemma single_token:
  assumes "jp_ptr j = c # p" "ch2token c \<notin> {T_ERROR, T_END, T_UNKNOWN, T_WHITESPACE}"
  shows "json_next_token cfg dp j = Inr (j\<lparr>jp_ptr := p\<rparr>, new_token j (ch2token c) NoValue)"
proof -
  have s: "skip_white j = j" using assms by (cases j) (simp add: skip_white_def)
  show ?thesis using assms by (simp add: json_next_token_def s next_token_here_def advance_def)
qed

lemma string_token:
  assumes "jp_ok j" "jp_ptr j = 34 # escape_string str @ 34 # rest"
  shows "\<exists>j'. json_next_token cfg dp j = Inr (j', new_token j T_STRING (VString str)) \<and> jp_ptr j' = rest"
proof -
  have s: "skip_white j = j" using assms(2) by (cases j) (simp add: skip_white_def ch2token_def)
  from string_token_roundtrip [OF assms] obtain j' where "json_next_string_token j = Inr (j', Inr str)" "jp_ptr j' = rest" by blast
  then show ?thesis using assms(2)
    by (simp add: json_next_token_def s next_token_here_def ch2token_def next_unknown_token_def)
qed

text \<open>The words and the integers.\<close>

lemma ch2token_words: "ch2token 116 = T_UNKNOWN" "ch2token 102 = T_UNKNOWN" "ch2token 110 = T_UNKNOWN" "ch2token 45 = T_UNKNOWN"
  by (simp_all add: ch2token_def)

lemma unknown_token:
  assumes "jp_ptr j = c # p" "ch2token c = T_UNKNOWN"
  shows "json_next_token cfg dp j = next_unknown_token cfg dp j c"
proof -
  have "skip_white j = j" using assms by (cases j) (simp add: skip_white_def)
  then show ?thesis using assms by (simp add: json_next_token_def next_token_here_def)
qed

lemma word_token:
  "jp_ptr j = bytes ''true'' @ rest \<Longrightarrow>
     json_next_token cfg dp j = Inr (j\<lparr>jp_ptr := rest\<rparr>, new_token j T_BOOLEAN (VBoolean True))"
  "jp_ptr j = bytes ''false'' @ rest \<Longrightarrow>
     json_next_token cfg dp j = Inr (j\<lparr>jp_ptr := rest\<rparr>, new_token j T_BOOLEAN (VBoolean False))"
  "jp_ptr j = bytes ''null'' @ rest \<Longrightarrow>
     json_next_token cfg dp j = Inr (j\<lparr>jp_ptr := rest\<rparr>, new_token j T_NULL NoValue)"
proof -
  have b: "bytes ''true'' = [116, 114, 117, 101]" "bytes ''false'' = [102, 97, 108, 115, 101]" "bytes ''null'' = [110, 117, 108, 108]"
    by code_simp+
  show "json_next_token cfg dp j = Inr (j\<lparr>jp_ptr := rest\<rparr>, new_token j T_BOOLEAN (VBoolean True))" if "jp_ptr j = bytes ''true'' @ rest"
    using that by (simp add: b unknown_token [OF _ ch2token_words(1)] next_unknown_token_def advance_def)
  show "json_next_token cfg dp j = Inr (j\<lparr>jp_ptr := rest\<rparr>, new_token j T_BOOLEAN (VBoolean False))" if "jp_ptr j = bytes ''false'' @ rest"
    using that by (simp add: b unknown_token [OF _ ch2token_words(2)] next_unknown_token_def advance_def)
  show "json_next_token cfg dp j = Inr (j\<lparr>jp_ptr := rest\<rparr>, new_token j T_NULL NoValue)" if "jp_ptr j = bytes ''null'' @ rest"
    using that by (simp add: b unknown_token [OF _ ch2token_words(3)] next_unknown_token_def advance_def)
qed

text \<open>The first byte of an integer, and that it is not refused where numbers are checked strictly.\<close>

lemma digit_range: "d < 10 \<Longrightarrow> 48 \<le> digit_char d \<and> digit_char d \<le> 57"
  by (simp add: word_le_def uint_digit_char)

lemma digit_unknown:
  assumes "48 \<le> c" "c \<le> 57"
  shows "ch2token c = T_UNKNOWN"
proof -
  have "uint c \<in> set [48..57]" unfolding set_upto using assms by (simp add: word_le_def)
  moreover have "\<forall>x \<in> set [48..57]. ch2token (word_of_int x) = T_UNKNOWN" by code_simp
  ultimately have "ch2token (word_of_int (uint c)) = T_UNKNOWN" by blast
  then show ?thesis by simp
qed

lemma nat_digits_first:
  obtains c ds where "nat_digits n = c # ds" "48 \<le> c" "c \<le> 57" "c = 48 \<longrightarrow> ds = []"
proof -
  obtain c ds where n: "nat_digits n = c # ds" using nat_digits_not_Nil by (metis list.exhaust)
  then obtain d where "d < 10" "c = digit_char d" using nat_digits_digits [of c n] by auto
  then have "48 \<le> c" "c \<le> 57" using digit_range by auto
  moreover have "c = 48 \<longrightarrow> ds = []"
    using nat_digits_head [of n] nat_digits_0 n by (cases "n = 0") auto
  ultimately show ?thesis using n that by blast
qed

lemma integer_starts:
  obtains c ds where "lua_integer2str i = (if i < 0 then [45] else []) @ c # ds" "48 \<le> c" "c \<le> 57" "c = 48 \<longrightarrow> ds = []"
proof (cases "i < 0")
  case True
  obtain c ds where "nat_digits (nat (- i)) = c # ds" "48 \<le> c" "c \<le> 57" "c = 48 \<longrightarrow> ds = []" by (rule nat_digits_first)
  with True that [of c ds] show ?thesis by (simp add: lua_integer2str_def)
next
  case False
  obtain c ds where "nat_digits (nat i) = c # ds" "48 \<le> c" "c \<le> 57" "c = 48 \<longrightarrow> ds = []" by (rule nat_digits_first)
  with False that [of c ds] show ?thesis by (simp add: lua_integer2str_def)
qed

lemma integer_not_invalid:
  assumes "number_ends rest"
  shows "json_is_invalid_number (lua_integer2str i @ rest) = Inr False"
proof -
  obtain c ds where s: "lua_integer2str i = (if i < 0 then [45] else []) @ c # ds" and c: "48 \<le> c" "c \<le> 57" "c = 48 \<longrightarrow> ds = []"
    by (rule integer_starts)
  have n: "c \<noteq> 43" "c \<noteq> 45" using c(1) by (auto simp: word_le_def)
  have "\<exists>d. peek (c # rest) 1 = Inr d \<and> \<not> (d OR 0x20 = 120 \<or> (48 \<le> d \<and> d \<le> 57))"
  proof (cases rest)
    case (Cons d r)
    then have "d = 44 \<or> d = 93 \<or> d = 125" using assms by (simp add: number_ends_def)
    then show ?thesis using Cons by auto
  qed (simp add: peek_def)
  then obtain d where "peek (c # rest) 1 = Inr d" "\<not> (d OR 0x20 = 120 \<or> (48 \<le> d \<and> d \<le> 57))" by blast
  then show ?thesis using c n by (auto simp: s json_is_invalid_number_def Let_def)
qed

lemma integer_token:
  assumes "jp_ptr j = lua_integer2str i @ rest" "- (2 ^ 63) \<le> i" "i < 2 ^ 63" "number_ends rest"
  shows "json_next_token cfg dp j = Inr (j\<lparr>jp_ptr := rest\<rparr>, \<lparr>tk_type = T_INTEGER, tk_index = jp_index j, tk_value = VInteger i\<rparr>)"
proof -
  obtain c ds where s: "lua_integer2str i = (if i < 0 then [45] else []) @ c # ds" and c: "48 \<le> c" "c \<le> 57" "c = 48 \<longrightarrow> ds = []"
    by (rule integer_starts)
  define ch where "ch = (if i < 0 then 45 else c)"
  have p: "jp_ptr j = ch # (if i < 0 then c # ds @ rest else ds @ rest)" using assms(1) by (simp add: s ch_def)
  have u: "ch2token ch = T_UNKNOWN" using digit_unknown [OF c(1,2)] ch2token_words(4) by (simp add: ch_def)
  have ch: "ch = 45 \<or> (48 \<le> ch \<and> ch \<le> 57)" "ch \<noteq> 34" using c by (auto simp: ch_def word_le_def)
  have e: "\<exists>x. peek (jp_ptr j) (length (lua_integer2str i)) = Inr x \<and> \<not> (x = 46 \<or> x = 101 \<or> x = 69)"
  proof (cases rest)
    case (Cons x r)
    then show ?thesis using number_ends_no_digit [of x r] assms(1,4) by (auto simp: peek_def nth_append)
  qed (simp add: peek_def assms(1))
  have n: "json_next_number_token dp j =
      Inr (j\<lparr>jp_ptr := rest\<rparr>, \<lparr>tk_type = T_INTEGER, tk_index = jp_index j, tk_value = VInteger i\<rparr>)"
    using strtoll_integer2str [OF assms(2-4)] e s by (auto simp: json_next_number_token_def assms(1) advance_def)
  have b: "(if decode_invalid_numbers cfg = 0 then json_is_invalid_number (jp_ptr j) else Inr False) = Inr False"
    using integer_not_invalid [OF assms(4)] by (simp add: assms(1))
  show ?thesis unfolding unknown_token [OF p u] next_unknown_token_def b using ch n by simp
qed

section \<open>Reading a value back\<close>

text \<open>What the next token leaves, when the text is long enough for the depth.\<close>

lemma token_room:
  assumes "json_next_token cfg dp j = Inr (j1, t)" "room j (jp_depth j) (length (jp_ptr j))"
  shows "room j1 (jp_depth j1) (left j1 t)" "jp_len j1 = jp_len j" "jp_depth j1 = jp_depth j" "value_fits (tk_type t) (tk_value t)"
    "jp_ok j1" "left j1 t \<le> length (jp_ptr j)"
proof -
  have ok: "jp_ok j" using assms(2) by (simp add: room_def)
  have f: "jp_ok j1" "follows j j1" "value_fits (tk_type t) (tk_value t)" using next_token_ok [OF ok, of cfg dp] assms(1) by (auto simp: token_from_def)
  have l: "left j1 t \<le> length (jp_ptr j)" using next_token_left [OF assms(1)] by simp
  show "jp_len j1 = jp_len j" "jp_depth j1 = jp_depth j" "value_fits (tk_type t) (tk_value t)" "jp_ok j1" "left j1 t \<le> length (jp_ptr j)"
    using f l by (auto simp: follows_def)
  then show "room j1 (jp_depth j1) (left j1 t)" using assms(2) by (simp add: room_def)
qed

text \<open>Reading the value at the front of the text, up to \<open>rest\<close>.\<close>

definition reads :: "json_config \<Rightarrow> u8 \<Rightarrow> (int \<Rightarrow> nat \<Rightarrow> bool) \<Rightarrow> json_parse \<Rightarrow> tables \<Rightarrow> json \<Rightarrow> u8 list \<Rightarrow> bool" where
  "reads cfg dp ck j H t rest \<longleftrightarrow> (\<exists>j1 tok j' H' v.
     json_next_token cfg dp j = Inr (j1, tok) \<and> tk_type tok \<noteq> T_ARR_END \<and>
     json_process_value cfg dp ck j1 H tok = Inr (j', H', v) \<and> jp_ptr j' = rest \<and> models H' t v)"

lemma reads_facts:
  assumes "reads cfg dp ck j H t rest" "room j (jp_depth j) (length (jp_ptr j))"
  obtains j1 tok j' H' v where "json_next_token cfg dp j = Inr (j1, tok)" "tk_type tok \<noteq> T_ARR_END"
    "json_process_value cfg dp ck j1 H tok = Inr (j', H', v)" "jp_ptr j' = rest" "models H' t v"
    "jp_ok j'" "jp_len j' = jp_len j" "jp_depth j' = jp_depth j" "extends (length H) H H'" "decoded_value (length H) (length H') v"
    "length rest \<le> length (jp_ptr j)"
proof -
  from assms(1) obtain j1 tok j' H' v where r: "json_next_token cfg dp j = Inr (j1, tok)" "tk_type tok \<noteq> T_ARR_END"
    "json_process_value cfg dp ck j1 H tok = Inr (j', H', v)" "jp_ptr j' = rest" "models H' t v" by (auto simp: reads_def)
  note t = token_room [OF r(1) assms(2)]
  have "parses (length H) (length H) (jp_depth j1) j1 H (json_process_value cfg dp ck j1 H tok)"
    by (rule parser_safe(1) [OF t(1,4)])
  then show ?thesis using that [OF r] r(3,4) t(2,3,6) by (auto simp: parses_def left_def)
qed

lemma set_pair_new: "k \<notin> fst ` set ps \<Longrightarrow> set_pair k v ps = ps @ [(k, v)]"
  by (induction ps) (auto split: if_splits)

lemma extends_nth: "extends (length H) H H' \<Longrightarrow> q < length H \<Longrightarrow> H' ! q = H ! q"
  by (metis extends_def nth_take order_refl take_all)

text \<open>After a value \<open>v\<close> has been read and put into table \<open>r\<close>, and whatever follows has changed only that table and made new ones.\<close>

lemma models_later:
  assumes "models H1 t v" "decoded_value (length H) (length H1) v" "extends (length H) H H1" "r < length H"
    and "length H1 \<le> length H'" "\<And>q. q < length H1 \<Longrightarrow> q \<noteq> r \<Longrightarrow> H' ! q = H1 ! q"
  shows "models H' t v"
proof (rule models_frame [OF _ assms(5,1,2)])
  show "table_ok H1 q \<and> H' ! q = H1 ! q" if "length H \<le> q" "q < length H1" for q
    using assms(3,4,6) that by (auto simp: extends_def)
qed

lemma array_loop_reads:
  assumes "\<And>t j H rest. t \<in> set ts \<Longrightarrow> room j (jp_depth j) (length (jp_ptr j)) \<Longrightarrow> jp_ptr j = f t @ rest \<Longrightarrow> number_ends rest \<Longrightarrow>
      jp_depth j = d \<Longrightarrow> reads cfg dp ck j H t rest"
    and "ts \<noteq> []" "room j (jp_depth j) (length (jp_ptr j))" "room j i (length (jp_ptr j))" "1 \<le> i" "jp_depth j = d"
    and "jp_ptr j = commas False (map f ts) @ 93 # rest" "r < length H" "\<And>k v. (LInt k, v) \<in> set (H ! r) \<Longrightarrow> k < i"
  shows "\<exists>j1 tok j' H' vs. json_next_token cfg dp j = Inr (j1, tok) \<and> tk_type tok \<noteq> T_ARR_END \<and>
    array_loop cfg dp ck j1 H r i tok = Inr (j', H', LTable r) \<and> jp_ptr j' = rest \<and> length vs = length ts \<and>
    H' ! r = H ! r @ zip (map (\<lambda>k. LInt (i + int k)) [0..<length ts]) vs \<and> length H \<le> length H' \<and>
    (\<forall>q. q < length H \<and> q \<noteq> r \<longrightarrow> H' ! q = H ! q) \<and> (\<forall>k < length ts. models H' (ts ! k) (vs ! k))"
  using assms
proof (induction ts arbitrary: j H i)
  case (Cons t ts)
  define rest1 where "rest1 = commas True (map f ts) @ 93 # rest"
  have ptr: "jp_ptr j = f t @ rest1" using Cons.prems(7) by (simp add: rest1_def)
  have "number_ends rest1" by (cases ts) (simp_all add: rest1_def number_ends_def)
  then have "reads cfg dp ck j H t rest1" using Cons.prems ptr by (intro Cons.prems(1)) auto
  then obtain j1 tok j2 H1 v where v: "json_next_token cfg dp j = Inr (j1, tok)" "tk_type tok \<noteq> T_ARR_END"
    "json_process_value cfg dp ck j1 H tok = Inr (j2, H1, v)" "jp_ptr j2 = rest1" "models H1 t v"
    "jp_ok j2" "jp_len j2 = jp_len j" "jp_depth j2 = jp_depth j" "extends (length H) H H1" "decoded_value (length H) (length H1) v"
    "length rest1 \<le> length (jp_ptr j)" using reads_facts Cons.prems(3) by blast
  define H2 where "H2 = lua_rawset H1 r (LInt i) v"
  have r1: "r < length H1" "H1 ! r = H ! r" using v(9) Cons.prems(8) extends_nth [OF v(9)] by (auto simp: extends_def)
  have "LInt i \<notin> fst ` set (H ! r)" using Cons.prems(9) [of i] by force
  then have h2: "H2 ! r = H ! r @ [(LInt i, v)]" "length H2 = length H1" "\<And>q. q \<noteq> r \<Longrightarrow> H2 ! q = H1 ! q"
    using r1 by (simp_all add: H2_def lua_rawset_def set_pair_new)
  show ?case
  proof (cases "ts = []")
    case True
    have "json_next_token cfg dp j2 = Inr (j2\<lparr>jp_ptr := rest\<rparr>, new_token j2 (ch2token 93) NoValue)"
      using v(4) True by (intro single_token) (auto simp: rest1_def ch2token_def)
    then have "array_loop cfg dp ck j1 H r i tok = Inr (json_decode_ascend (j2\<lparr>jp_ptr := rest\<rparr>), H2, LTable r)"
      using v(3) by (simp add: array_loop.simps [of cfg] H2_def new_token_def ch2token_def)
    moreover have "models H2 t v" by (rule models_later [OF v(5,10,9) Cons.prems(8)]) (use h2 in auto)
    ultimately show ?thesis using v(1,2,9) h2 r1 True extends_nth [OF v(9)]
      by (intro exI [of _ j1] exI [of _ tok] exI [of _ "json_decode_ascend (j2\<lparr>jp_ptr := rest\<rparr>)"] exI [of _ H2] exI [of _ "[v]"])
        (auto simp: extends_def)
  next
    case False
    then obtain t1 ts1 where ts: "ts = t1 # ts1" by (cases ts) auto
    define j3 where "j3 = j2\<lparr>jp_ptr := commas False (map f ts) @ 93 # rest\<rparr>"
    have comma: "json_next_token cfg dp j2 = Inr (j3, new_token j2 (ch2token 44) NoValue)"
      unfolding j3_def using v(4) by (intro single_token) (auto simp: rest1_def ts ch2token_def)
    have len: "Suc (length (jp_ptr j3)) = length rest1" by (simp add: j3_def rest1_def ts)
    have rm: "room j3 (jp_depth j3) (length (jp_ptr j3))" "room j3 (i + 1) (length (jp_ptr j3))" "jp_depth j3 = d"
      using v(6,7,8,11) len Cons.prems(3,4,6) by (auto simp: room_def j3_def jp_ok_def)
    have i: "i32 (i + 1) = Inr (i + 1)" using rm(2) Cons.prems(5) by (auto simp: room_def i32_eq)
    have "\<exists>j1 tok j' H' vs. json_next_token cfg dp j3 = Inr (j1, tok) \<and> tk_type tok \<noteq> T_ARR_END \<and>
      array_loop cfg dp ck j1 H2 r (i + 1) tok = Inr (j', H', LTable r) \<and> jp_ptr j' = rest \<and> length vs = length ts \<and>
      H' ! r = H2 ! r @ zip (map (\<lambda>k. LInt (i + 1 + int k)) [0..<length ts]) vs \<and> length H2 \<le> length H' \<and>
      (\<forall>q. q < length H2 \<and> q \<noteq> r \<longrightarrow> H' ! q = H2 ! q) \<and> (\<forall>k < length ts. models H' (ts ! k) (vs ! k))"
    proof (rule Cons.IH)
      show "k < i + 1" if "(LInt k, w) \<in> set (H2 ! r)" for k w using that Cons.prems(9) [of k w] by (auto simp: h2)
    qed (use Cons.prems rm False r1 h2 in \<open>auto simp: j3_def\<close>)
    then obtain j4 tok4 j' H' vs where a: "json_next_token cfg dp j3 = Inr (j4, tok4)"
      "array_loop cfg dp ck j4 H2 r (i + 1) tok4 = Inr (j', H', LTable r)" "jp_ptr j' = rest" "length vs = length ts"
      "H' ! r = H2 ! r @ zip (map (\<lambda>k. LInt (i + 1 + int k)) [0..<length ts]) vs" "length H2 \<le> length H'"
      "\<And>q. q < length H2 \<Longrightarrow> q \<noteq> r \<Longrightarrow> H' ! q = H2 ! q" "\<And>k. k < length ts \<Longrightarrow> models H' (ts ! k) (vs ! k)" by blast
    have "array_loop cfg dp ck j1 H r i tok = Inr (j', H', LTable r)"
      using v(3) comma a(1,2) i by (simp add: array_loop.simps [of cfg dp ck j1] H2_def new_token_def ch2token_def)
    moreover have "H' ! r = H ! r @ zip (map (\<lambda>k. LInt (i + int k)) [0..<length (t # ts)]) (v # vs)"
    proof -
      have "map (\<lambda>k. LInt (i + int k)) [0..<length (t # ts)] = LInt i # map (\<lambda>k. LInt (i + 1 + int k)) [0..<length ts]"
        by (simp add: map_upt_Suc algebra_simps del: upt_Suc)
      then show ?thesis unfolding a(5) h2(1) by simp
    qed
    moreover have "models H' t v" by (rule models_later [OF v(5,10,9) Cons.prems(8)]) (use h2 a(6,7) in auto)
    ultimately show ?thesis using v(1,2,9) h2 a extends_nth [OF v(9)]
      by (intro exI [of _ j1] exI [of _ tok] exI [of _ j'] exI [of _ H'] exI [of _ "v # vs"])
        (auto simp: extends_def nth_Cons split: nat.splits)
  qed
qed simp

lemma object_loop_reads:
  assumes "\<And>k t j H rest. (k, t) \<in> set kvs \<Longrightarrow> room j (jp_depth j) (length (jp_ptr j)) \<Longrightarrow> jp_ptr j = f t @ rest \<Longrightarrow>
      number_ends rest \<Longrightarrow> jp_depth j = d \<Longrightarrow> reads cfg dp ck j H t rest"
    and "kvs \<noteq> []" "room j (jp_depth j) (length (jp_ptr j))" "jp_depth j = d"
    and "jp_ptr j = commas False (map (\<lambda>(k, t). 34 # escape_string k @ [34, 58] @ f t) kvs) @ 125 # rest" "r < length H"
    and "distinct (map fst kvs)" "\<And>k v. (LStr k, v) \<in> set (H ! r) \<Longrightarrow> k \<notin> fst ` set kvs"
  shows "\<exists>j1 tok j' H' vs. json_next_token cfg dp j = Inr (j1, tok) \<and> tk_type tok = T_STRING \<and>
    object_loop cfg dp ck j1 H r tok = Inr (j', H', LTable r) \<and> jp_ptr j' = rest \<and> length vs = length kvs \<and>
    H' ! r = H ! r @ zip (map (\<lambda>(k, t). LStr k) kvs) vs \<and> length H \<le> length H' \<and>
    (\<forall>q. q < length H \<and> q \<noteq> r \<longrightarrow> H' ! q = H ! q) \<and> (\<forall>k < length kvs. models H' (snd (kvs ! k)) (vs ! k))"
  using assms
proof (induction kvs arbitrary: j H)
  case (Cons kv kvs)
  obtain key t where kv: "kv = (key, t)" by fastforce
  let ?g = "\<lambda>(k, t). 34 # escape_string k @ [34, 58] @ f t"
  define rest1 where "rest1 = commas True (map ?g kvs) @ 125 # rest"
  have ptr: "jp_ptr j = 34 # escape_string key @ 34 # 58 # f t @ rest1" using Cons.prems(5) by (simp add: rest1_def kv)
  have ends: "number_ends rest1" by (cases kvs) (auto simp: rest1_def number_ends_def)
  have "jp_ok j" using Cons.prems(3) by (simp add: room_def)
  from string_token [OF this ptr] obtain ja where ja: "json_next_token cfg dp j = Inr (ja, new_token j T_STRING (VString key))"
    "jp_ptr ja = 58 # f t @ rest1" by blast
  note ta = token_room [OF ja(1) Cons.prems(3)]
  define jb where "jb = ja\<lparr>jp_ptr := f t @ rest1\<rparr>"
  have colon: "json_next_token cfg dp ja = Inr (jb, new_token ja (ch2token 58) NoValue)"
    unfolding jb_def by (rule single_token [OF ja(2)]) (simp add: ch2token_def)
  have rb: "room jb (jp_depth jb) (length (jp_ptr jb))" "jp_depth jb = d" "jp_len jb = jp_len j" "length (jp_ptr jb) < length (jp_ptr j)"
    using ta Cons.prems(3,4) ja(2) ptr by (auto simp: jb_def room_def left_def jp_ok_def)
  have "reads cfg dp ck jb H t rest1" by (rule Cons.prems(1) [of key t]) (use rb ends kv in \<open>auto simp: jb_def\<close>)
  then obtain j1 tok j2 H1 v where v: "json_next_token cfg dp jb = Inr (j1, tok)" "tk_type tok \<noteq> T_ARR_END"
    "json_process_value cfg dp ck j1 H tok = Inr (j2, H1, v)" "jp_ptr j2 = rest1" "models H1 t v"
    "jp_ok j2" "jp_len j2 = jp_len jb" "jp_depth j2 = jp_depth jb" "extends (length H) H H1" "decoded_value (length H) (length H1) v"
    "length rest1 \<le> length (jp_ptr jb)" using reads_facts rb(1) by blast
  define H2 where "H2 = lua_rawset H1 r (LStr key) v"
  have r1: "r < length H1" "H1 ! r = H ! r" using v(9) Cons.prems(6) extends_nth [OF v(9)] by (auto simp: extends_def)
  have "LStr key \<notin> fst ` set (H ! r)" using Cons.prems(8) [of key] kv by force
  then have h2: "H2 ! r = H ! r @ [(LStr key, v)]" "length H2 = length H1" "\<And>q. q \<noteq> r \<Longrightarrow> H2 ! q = H1 ! q"
    using r1 by (simp_all add: H2_def lua_rawset_def set_pair_new)
  show ?case
  proof (cases "kvs = []")
    case True
    have "json_next_token cfg dp j2 = Inr (j2\<lparr>jp_ptr := rest\<rparr>, new_token j2 (ch2token 125) NoValue)"
      using v(4) True by (intro single_token) (auto simp: rest1_def ch2token_def)
    then have "object_loop cfg dp ck ja H r (new_token j T_STRING (VString key)) =
        Inr (json_decode_ascend (j2\<lparr>jp_ptr := rest\<rparr>), H2, LTable r)"
      using v(1,3) colon by (simp add: object_loop.simps [of cfg dp ck ja] H2_def new_token_def ch2token_def)
    moreover have "models H2 t v" by (rule models_later [OF v(5,10,9) Cons.prems(6)]) (use h2 in auto)
    ultimately show ?thesis using ja(1) v(9) h2 r1 True extends_nth [OF v(9)]
      by (intro exI [of _ ja] exI [of _ "new_token j T_STRING (VString key)"] exI [of _ "json_decode_ascend (j2\<lparr>jp_ptr := rest\<rparr>)"]
          exI [of _ H2] exI [of _ "[v]"]) (auto simp: extends_def kv new_token_def)
  next
    case False
    define j3 where "j3 = j2\<lparr>jp_ptr := commas False (map ?g kvs) @ 125 # rest\<rparr>"
    have comma: "json_next_token cfg dp j2 = Inr (j3, new_token j2 (ch2token 44) NoValue)"
      unfolding j3_def using v(4) False by (intro single_token) (auto simp: rest1_def ch2token_def neq_Nil_conv)
    have len: "Suc (length (jp_ptr j3)) = length rest1" using False by (auto simp: j3_def rest1_def neq_Nil_conv)
    have rm: "room j3 (jp_depth j3) (length (jp_ptr j3))" "jp_depth j3 = d"
      using v(6,7,8,11) len rb by (auto simp: room_def j3_def jp_ok_def)
    have "\<exists>j1 tok j' H' vs. json_next_token cfg dp j3 = Inr (j1, tok) \<and> tk_type tok = T_STRING \<and>
      object_loop cfg dp ck j1 H2 r tok = Inr (j', H', LTable r) \<and> jp_ptr j' = rest \<and> length vs = length kvs \<and>
      H' ! r = H2 ! r @ zip (map (\<lambda>(k, t). LStr k) kvs) vs \<and> length H2 \<le> length H' \<and>
      (\<forall>q. q < length H2 \<and> q \<noteq> r \<longrightarrow> H' ! q = H2 ! q) \<and> (\<forall>k < length kvs. models H' (snd (kvs ! k)) (vs ! k))"
    proof (rule Cons.IH)
      show "reads cfg dp ck jx Hx tx restx" if "(kx, tx) \<in> set kvs" "room jx (jp_depth jx) (length (jp_ptr jx))" "jp_ptr jx = f tx @ restx"
          "number_ends restx" "jp_depth jx = d" for kx tx jx Hx restx
        by (rule Cons.prems(1) [of kx]) (use that in auto)
      show "k \<notin> fst ` set kvs" if "(LStr k, w) \<in> set (H2 ! r)" for k w
        using that Cons.prems(7) Cons.prems(8) [of k w] by (auto simp: h2 kv)
    qed (use Cons.prems rm False r1 h2 in \<open>auto simp: j3_def kv\<close>)
    then obtain j4 tok4 j' H' vs where a: "json_next_token cfg dp j3 = Inr (j4, tok4)"
      "object_loop cfg dp ck j4 H2 r tok4 = Inr (j', H', LTable r)" "jp_ptr j' = rest" "length vs = length kvs"
      "H' ! r = H2 ! r @ zip (map (\<lambda>(k, t). LStr k) kvs) vs" "length H2 \<le> length H'"
      "\<And>q. q < length H2 \<Longrightarrow> q \<noteq> r \<Longrightarrow> H' ! q = H2 ! q" "\<And>k. k < length kvs \<Longrightarrow> models H' (snd (kvs ! k)) (vs ! k)" by blast
    have "object_loop cfg dp ck ja H r (new_token j T_STRING (VString key)) = Inr (j', H', LTable r)"
      using v(1,3) colon comma a(1,2) by (simp add: object_loop.simps [of cfg dp ck ja] H2_def new_token_def ch2token_def)
    moreover have "models H' t v" by (rule models_later [OF v(5,10,9) Cons.prems(6)]) (use h2 a(6,7) in auto)
    ultimately show ?thesis using ja(1) v(9) h2 a extends_nth [OF v(9)]
      by (intro exI [of _ ja] exI [of _ "new_token j T_STRING (VString key)"] exI [of _ j'] exI [of _ H'] exI [of _ "v # vs"])
        (auto simp: extends_def kv new_token_def nth_Cons split: nat.splits)
  qed
qed simp

lemma descend_ok:
  assumes "0 < decode_max_depth cfg - jp_depth j" "\<forall>d n. d \<le> decode_max_depth cfg \<longrightarrow> ck d n" "room j (jp_depth j) (Suc (length p))"
  shows "json_decode_descend cfg ck (j\<lparr>jp_ptr := p\<rparr>) slots = Inr (j\<lparr>jp_ptr := p, jp_depth := jp_depth j + 1\<rparr>)"
    "room (j\<lparr>jp_ptr := p, jp_depth := jp_depth j + 1\<rparr>) (jp_depth j + 1) (length p)"
  using assms by (auto simp: json_decode_descend_def i32_eq room_def jp_ok_def)

lemma rawgeti_zip:
  assumes "k < n" "length vs = n"
  shows "lua_rawgeti (zip (map (\<lambda>k. LInt (1 + int k)) [0..<n]) vs) (int k + 1) = vs ! k"
proof -
  have "map_of (zip (map (\<lambda>k. LInt (1 + int k)) [0..<n]) vs) (map (\<lambda>k. LInt (1 + int k)) [0..<n] ! k) = Some (vs ! k)"
    by (rule map_of_zip_nth) (use assms in \<open>auto simp: distinct_map inj_on_def\<close>)
  then show ?thesis using assms by (simp add: lua_rawgeti_def add.commute)
qed

lemma render_reads:
  assumes "\<forall>d n. d \<le> decode_max_depth cfg \<longrightarrow> ck d n"
  shows "json_wf t \<Longrightarrow> exact t \<Longrightarrow> depth_le (decode_max_depth cfg - jp_depth j) t \<Longrightarrow> room j (jp_depth j) (length (jp_ptr j)) \<Longrightarrow>
    jp_ptr j = render p t @ rest \<Longrightarrow> number_ends rest \<Longrightarrow> reads cfg dp ck j H t rest"
proof (induction t arbitrary: j rest H)
  case JNull
  then show ?case using word_token(3) [of j rest cfg dp]
    by (auto simp: reads_def json_process_value.simps [of cfg] new_token_def)
next
  case (JBool b)
  then show ?case using word_token(1,2) [of j rest cfg dp]
    by (cases b) (auto simp: reads_def json_process_value.simps [of cfg] new_token_def)
next
  case (JInt i)
  then show ?case using integer_token [of j i rest cfg dp]
    by (auto simp: reads_def json_process_value.simps [of cfg])
next
  case (JNum d)
  then show ?case by simp
next
  case (JStr s)
  then have "jp_ok j" "jp_ptr j = 34 # escape_string s @ 34 # rest" by (simp_all add: room_def)
  from string_token [OF this, of cfg dp] show ?case
    by (auto simp: reads_def json_process_value.simps [of cfg] new_token_def)
next
  case (JArr ts)
  let ?p = "commas False (map (render p) ts) @ 93 # rest"
  have ptr: "jp_ptr j = 91 # ?p" using JArr.prems(5) by simp
  let ?j = "j\<lparr>jp_ptr := ?p, jp_depth := jp_depth j + 1\<rparr>"
  have tok: "json_next_token cfg dp j = Inr (j\<lparr>jp_ptr := ?p\<rparr>, new_token j T_ARR_BEGIN NoValue)"
    by (rule bracket_token [OF ptr])
  have d: "json_decode_descend cfg ck (j\<lparr>jp_ptr := ?p\<rparr>) 2 = Inr ?j" "room ?j (jp_depth j + 1) (length ?p)"
    using descend_ok [OF _ assms, of j ?p] JArr.prems(3,4) ptr by simp_all
  have "\<exists>j1 tok j' H' vs. json_next_token cfg dp ?j = Inr (j1, tok) \<and> tk_type tok \<noteq> T_ARR_END \<and>
    array_loop cfg dp ck j1 (H @ [[]]) (length H) 1 tok = Inr (j', H', LTable (length H)) \<and> jp_ptr j' = rest \<and> length vs = length ts \<and>
    H' ! length H = (H @ [[]]) ! length H @ zip (map (\<lambda>k. LInt (1 + int k)) [0..<length ts]) vs \<and> length (H @ [[]]) \<le> length H' \<and>
    (\<forall>q. q < length (H @ [[]]) \<and> q \<noteq> length H \<longrightarrow> H' ! q = (H @ [[]]) ! q) \<and> (\<forall>k < length ts. models H' (ts ! k) (vs ! k))"
  proof (rule array_loop_reads [where d = "jp_depth j + 1" and f = "render p"])
    show "reads cfg dp ck jx Hx t restx" if "t \<in> set ts" "room jx (jp_depth jx) (length (jp_ptr jx))" "jp_ptr jx = render p t @ restx"
        "number_ends restx" "jp_depth jx = jp_depth j + 1" for t jx Hx restx
      by (rule JArr.IH [OF that(1)]) (use that JArr.prems in \<open>auto simp: algebra_simps\<close>)
    show "room ?j 1 (length (jp_ptr ?j))" using d(2) JArr.prems(4) ptr by (auto simp: room_def)
  qed (use JArr.prems d in auto)
  then obtain j1 tok j' H' vs where a: "json_next_token cfg dp ?j = Inr (j1, tok)" "tk_type tok \<noteq> T_ARR_END"
    "array_loop cfg dp ck j1 (H @ [[]]) (length H) 1 tok = Inr (j', H', LTable (length H))" "jp_ptr j' = rest" "length vs = length ts"
    "H' ! length H = zip (map (\<lambda>k. LInt (1 + int k)) [0..<length ts]) vs" "length H < length H'"
    "\<And>k. k < length ts \<Longrightarrow> models H' (ts ! k) (vs ! k)" by auto
  have "array_keys (H' ! length H) (length ts)"
    using a(5) by (auto simp: a(6) array_keys_def distinct_map inj_on_def add.commute)
  then have "models H' (JArr ts) (LTable (length H))" using a(5-8) rawgeti_zip by simp
  then show ?case unfolding reads_def using tok d(1) a(1-4)
    by (intro exI [of _ "j\<lparr>jp_ptr := ?p\<rparr>"] exI [of _ "new_token j T_ARR_BEGIN NoValue"] exI [of _ j'] exI [of _ H'] exI [of _ "LTable (length H)"])
      (simp add: json_process_value.simps [of cfg] json_parse_array_context.simps [of cfg] new_token_def)
next
  case (JObj kvs)
  let ?g = "\<lambda>(k, t). 34 # escape_string k @ [34, 58] @ render p t"
  let ?p = "commas False (map ?g kvs) @ 125 # rest"
  have ptr: "jp_ptr j = 123 # ?p" using JObj.prems(5) by simp
  let ?j = "j\<lparr>jp_ptr := ?p, jp_depth := jp_depth j + 1\<rparr>"
  have tok: "json_next_token cfg dp j = Inr (j\<lparr>jp_ptr := ?p\<rparr>, new_token j T_OBJ_BEGIN NoValue)"
    using single_token [OF ptr] by (simp add: ch2token_def)
  have d: "json_decode_descend cfg ck (j\<lparr>jp_ptr := ?p\<rparr>) 3 = Inr ?j" "room ?j (jp_depth j + 1) (length ?p)"
    using descend_ok [OF _ assms, of j ?p] JObj.prems(3,4) ptr by simp_all
  have "\<exists>j' H'. json_parse_object_context cfg dp ck (j\<lparr>jp_ptr := ?p\<rparr>) H = Inr (j', H', LTable (length H)) \<and> jp_ptr j' = rest \<and>
    models H' (JObj kvs) (LTable (length H))"
  proof (cases "kvs = []")
    case True
    have "json_next_token cfg dp ?j = Inr (?j\<lparr>jp_ptr := rest\<rparr>, new_token ?j (ch2token 125) NoValue)"
      using True by (intro single_token) (simp_all add: ch2token_def)
    then show ?thesis using d(1) True
      by (simp add: json_parse_object_context.simps [of cfg] new_token_def ch2token_def)
  next
    case False
    have "\<exists>j1 tok j' H' vs. json_next_token cfg dp ?j = Inr (j1, tok) \<and> tk_type tok = T_STRING \<and>
      object_loop cfg dp ck j1 (H @ [[]]) (length H) tok = Inr (j', H', LTable (length H)) \<and> jp_ptr j' = rest \<and> length vs = length kvs \<and>
      H' ! length H = (H @ [[]]) ! length H @ zip (map (\<lambda>(k, t). LStr k) kvs) vs \<and> length (H @ [[]]) \<le> length H' \<and>
      (\<forall>q. q < length (H @ [[]]) \<and> q \<noteq> length H \<longrightarrow> H' ! q = (H @ [[]]) ! q) \<and> (\<forall>k < length kvs. models H' (snd (kvs ! k)) (vs ! k))"
    proof (rule object_loop_reads [where d = "jp_depth j + 1" and f = "render p"])
      show "reads cfg dp ck jx Hx t restx" if "(k, t) \<in> set kvs" "room jx (jp_depth jx) (length (jp_ptr jx))" "jp_ptr jx = render p t @ restx"
          "number_ends restx" "jp_depth jx = jp_depth j + 1" for k t jx Hx restx
        by (rule JObj.IH [OF that(1)]) (use that JObj.prems in \<open>auto simp: algebra_simps\<close>)
    qed (use JObj.prems d False in auto)
    then obtain j1 tok j' H' vs where a: "json_next_token cfg dp ?j = Inr (j1, tok)" "tk_type tok = T_STRING"
      "object_loop cfg dp ck j1 (H @ [[]]) (length H) tok = Inr (j', H', LTable (length H))" "jp_ptr j' = rest" "length vs = length kvs"
      "H' ! length H = zip (map (\<lambda>(k, t). LStr k) kvs) vs" "length H < length H'"
      "\<And>k. k < length kvs \<Longrightarrow> models H' (snd (kvs ! k)) (vs ! k)" by auto
    then have "models H' (JObj kvs) (LTable (length H))" by simp
    then show ?thesis using d(1) a by (simp add: json_parse_object_context.simps [of cfg])
  qed
  then obtain j' H' where o: "json_parse_object_context cfg dp ck (j\<lparr>jp_ptr := ?p\<rparr>) H = Inr (j', H', LTable (length H))" "jp_ptr j' = rest"
    "models H' (JObj kvs) (LTable (length H))" by blast
  have v: "json_process_value cfg dp ck (j\<lparr>jp_ptr := ?p\<rparr>) H (new_token j T_OBJ_BEGIN NoValue) = Inr (j', H', LTable (length H))"
    using o(1) by (simp add: json_process_value.simps [of cfg] new_token_def)
  have n: "tk_type (new_token j T_OBJ_BEGIN NoValue) \<noteq> T_ARR_END" by (simp add: new_token_def)
  show ?case unfolding reads_def using tok n v o(2,3) by blast
qed

text \<open>No zero byte is written, so the text is not taken for UTF-16.\<close>

lemma escape_string_nonzero: "0 \<notin> set (escape_string s)"
proof (induction s)
  case (Cons c s)
  have "0 \<notin> set (escape1 c)"
  proof (cases "char2escape ! unat c")
    case None
    have "char2escape ! unat (0 :: u8) \<noteq> None" by (simp add: char2escape_def)
    with None have "c \<noteq> 0" by auto
    then show ?thesis using None by (simp add: escape1_def)
  next
    case (Some e)
    then show ?thesis using escape1_facts(1) [of c] by (simp add: escape1_def)
  qed
  then show ?case using Cons by (simp add: escape_string_def)
qed (simp add: escape_string_def)

lemma commas_nonzero: "\<forall>x \<in> set xs. 0 \<notin> set x \<Longrightarrow> 0 \<notin> set (commas comma xs)"
  by (induction xs arbitrary: comma) auto

lemma render_nonzero: "exact t \<Longrightarrow> 0 \<notin> set (render p t)"
proof (induction t)
  case (JInt i)
  have "0 \<notin> set (nat_digits n)" for n
    using nat_digits_digits [of 0 n] digit_range by (force simp: word_le_def)
  then show ?case by (simp add: lua_integer2str_def)
next
  case (JArr ts)
  then show ?case using commas_nonzero [of "map (render p) ts" False] by auto
next
  case (JObj kvs)
  have "0 \<notin> set (commas False (map (\<lambda>(k, t). 34 # escape_string k @ [34, 58] @ render p t) kvs))"
  proof (rule commas_nonzero, rule ballI)
    fix x assume "x \<in> set (map (\<lambda>(k, t). 34 # escape_string k @ [34, 58] @ render p t) kvs)"
    then obtain k t where k: "(k, t) \<in> set kvs" "x = 34 # escape_string k @ [34, 58] @ render p t" by auto
    then have "0 \<notin> set (render p t)" using JObj.IH [of "(k, t)" t] JObj.prems by auto
    then show "0 \<notin> set x" using escape_string_nonzero [of k] k(2) by simp
  qed
  then show ?case by simp
qed (simp_all add: bytes_def of_char_def escape_string_nonzero)

lemma decode_render:
  assumes "\<forall>d n. d \<le> decode_max_depth cfg \<longrightarrow> ck d n" "json_wf t" "exact t" "depth_le (decode_max_depth cfg) t"
    and "length (render p t) < 2147483646"
  shows "\<exists>H' v. json_decode cfg dp ck (render p t) H = Inr (H', v) \<and> models H' t v \<and> extends (length H) H H'"
proof -
  let ?text = "render p t"
  have "sint (of_nat (length ?text) :: u32) = int (length ?text)" using assms(5) by (intro sint_of_nat_u32) simp
  with strbuf_new_ok(1) [of "int (length ?text)"] assms(5) obtain s where
    s: "strbuf_new (sint (of_nat (length ?text) :: u32)) = Inr s" "strbuf_ok s" "int (length ?text) \<le> strbuf_empty_length s"
    "content s = []" by auto
  let ?j = "\<lparr>jp_len = length ?text, jp_ptr = ?text, jp_tmp = s, jp_depth = 0\<rparr>"
  have ok: "jp_ok ?j" using s empty_length_iff [OF s(2)] by (simp add: jp_ok_def)
  have rm: "room ?j (jp_depth ?j) (length (jp_ptr ?j))" using ok assms(5) by (simp add: room_def)
  have rd: "reads cfg dp ck ?j H t []"
    by (rule render_reads [OF assms(1-3) _ rm]) (use assms(4) in \<open>simp_all add: number_ends_def\<close>)
  obtain j1 tok j' H' v where v: "json_next_token cfg dp ?j = Inr (j1, tok)" "tk_type tok \<noteq> T_ARR_END"
    "json_process_value cfg dp ck j1 H tok = Inr (j', H', v)" "jp_ptr j' = []" "models H' t v"
    "jp_ok j'" "jp_len j' = jp_len ?j" "jp_depth j' = jp_depth ?j" "extends (length H) H H'" "decoded_value (length H) (length H') v"
    "length ([] :: u8 list) \<le> length (jp_ptr ?j)" by (rule reads_facts [OF rd rm])
  have e: "json_next_token cfg dp j' = Inr (j', new_token j' T_END NoValue)"
  proof -
    have "skip_white j' = j'" using v(4) by (cases j') (simp add: skip_white_def)
    then show ?thesis by (simp add: json_next_token_def next_token_here_def v(4) peek_def ch2token_def)
  qed
  have z: "\<not> (2 \<le> length ?text \<and> (?text ! 0 = 0 \<or> ?text ! 1 = 0))"
  proof
    assume h: "2 \<le> length ?text \<and> (?text ! 0 = 0 \<or> ?text ! 1 = 0)"
    then have "0 < length ?text" "1 < length ?text" by linarith+
    then have "?text ! 0 \<noteq> 0" "?text ! 1 \<noteq> 0" using render_nonzero [OF assms(3), of p] nth_mem by metis+
    then show False using h by simp
  qed
  show ?thesis unfolding json_decode_def if_not_P [OF z] using s(1) v e by (simp add: new_token_def)
qed

text \<open>
  C6: What is encoded is decoded to the same value: for every Lua value that stands for a JSON value without fractions, nested at most as deep as
  both limits allow, encoding succeeds, decoding the text succeeds, and the new tables stand for the same JSON
  value; the tables that existed are left as they were.
\<close>

theorem json_roundtrip:
  assumes "config_ok cfg" "dp \<notin> number_chars" "\<forall>d \<le> encode_max_depth cfg. ck d"
    and "\<forall>d n. d \<le> decode_max_depth cfg \<longrightarrow> ck2 d n"
    and "models H t v" "json_wf t" "exact t" "depth_le (encode_max_depth cfg) t" "depth_le (decode_max_depth cfg) t"
    and "length (render (encode_number_precision cfg) t) < 178956964"
    and "int (length (render (encode_number_precision cfg) t)) * encode_sparse_ratio cfg < 2147483648"
  shows "\<exists>cfg' json H' v'. json_encode cfg dp ck H v = Inr (cfg', json) \<and> json_decode cfg dp ck2 json H = Inr (H', v') \<and>
    models H' t v' \<and> extends (length H) H H'"
proof -
  from encode_render [OF assms(1-3,5,6,8,10,11)] obtain cfg' where
    e: "json_encode cfg dp ck H v = Inr (cfg', render (encode_number_precision cfg) t)" by blast
  have "length (render (encode_number_precision cfg) t) < 2147483646" using assms(10) by simp
  from decode_render [OF assms(4,6,7,9) this, of dp H] e show ?thesis by blast
qed

theorem json_roundtrip_witness:
  "\<exists>cfg cfg' json H' v'. json_create_config = Inr cfg \<and>
    json_encode cfg 46 (\<lambda>d. True) [[(LStr [97, 0], LTable 1)], [(LInt 2, LNull), (LInt 1, LInt (- 7))]] (LTable 0) = Inr (cfg', json) \<and>
    json_decode cfg 46 (\<lambda>d n. True) json [[(LStr [97, 0], LTable 1)], [(LInt 2, LNull), (LInt 1, LInt (- 7))]] = Inr (H', v') \<and>
    models H' (JObj [([97, 0], JArr [JInt (- 7), JNull])]) v'"
proof -
  obtain cfg where cfg: "json_create_config = Inr cfg" "config_ok cfg" using created_config_ok by blast
  then have d: "encode_max_depth cfg = 1000" "decode_max_depth cfg = 1000" "encode_sparse_ratio cfg = 2"
    by (auto simp: json_create_config_def bindR_Inr_iff)
  let ?t = "JObj [([97, 0], JArr [JInt (- 7), JNull])]"
  let ?H = "[[(LStr [97, 0], LTable 1)], [(LInt 2, LNull), (LInt 1, LInt (- 7))]]"
  have e: "length (render p ?t) < 1000" for p
  proof -
    have "length (escape_string [97, 0]) = 7" "length (lua_integer2str (- 7)) = 2" by code_simp+
    then show ?thesis by (simp add: bytes_def)
  qed
  have m: "models ?H ?t (LTable 0)"
    by (simp add: array_keys_def lua_rawgeti_def lessThan_Suc numeral_2_eq_2 insert_commute)
  from e [of "encode_number_precision cfg"] have l: "length (render (encode_number_precision cfg) ?t) < 178956964"
    "int (length (render (encode_number_precision cfg) ?t)) * encode_sparse_ratio cfg < 2147483648" unfolding d by linarith+
  from json_roundtrip [OF cfg(2) point_no_number_char _ _ m _ _ _ _ l, of "\<lambda>d. True" "\<lambda>d n. True"] obtain cfg' json H' v' where
    "json_encode cfg 46 (\<lambda>d. True) ?H (LTable 0) = Inr (cfg', json)" "json_decode cfg 46 (\<lambda>d n. True) json ?H = Inr (H', v')"
    "models H' ?t v'" unfolding d by auto
  with cfg(1) show ?thesis by blast
qed

end
