(* ===== verification/Hlogger.thy ===== *)
theory Hlogger
  imports Run
begin

text \<open>
  The logging service of \<^verbatim>\<open>src/depends/hlogger/hlogger.c\<close>: three levels with a file each, which is opened when it is needed, replaced
  when it has grown too large, and closed at the change of the day.  The file system is a part of the model: which directories and files
  there are, and everything that has been appended, in order.  What the system says during a call (time, permissions, full disks) is an
  argument.
\<close>

section \<open>The file system\<close>

text \<open>
  A path is absolute or not, and has components; doubled slashes, a slash at the end and the component \<open>.\<close> do not count.  The paths
  here have no component \<open>..\<close> and no symbolic links.
\<close>

type_synonym path = "bool \<times> string list"

fun split_slash :: "string \<Rightarrow> string list" where
  "split_slash [] = [[]]"
| "split_slash (c # s) =
     (if c = CHR ''/'' then [] # split_slash s
      else case split_slash s of [] \<Rightarrow> [[c]] | w # ws \<Rightarrow> (c # w) # ws)"

definition comps :: "string \<Rightarrow> string list" where
  "comps s = filter (\<lambda>w. w \<notin> {[], ''.''}) (split_slash s)"

definition resolve :: "string \<Rightarrow> path" where
  "resolve s = (s \<noteq> [] \<and> hd s = CHR ''/'', comps s)"

record world =
  w_dirs :: "path list"
  w_files :: "path list"
  w_log :: "(string \<times> string) list"

text \<open>
  The system during one call: the time as \<open>%.3f\<close> prints it, the date and the process number in file names, the day of the month, the paths
  that may not be made, and what becomes of the three writes: whether \<open>fprintf\<close> succeeds, and how much \<open>fwrite\<close> can write.
\<close>

record io =
  io_time :: string
  io_date :: string
  io_pid :: string
  io_mday :: int
  io_denied :: "path \<Rightarrow> bool"
  io_write1 :: bool
  io_write2 :: nat
  io_write3 :: bool

datatype errno = ENOENT | EOTHER

definition is_dir :: "world \<Rightarrow> path \<Rightarrow> bool" where
  "is_dir w p \<longleftrightarrow> snd p = [] \<or> p \<in> set (w_dirs w)"

definition parent :: "path \<Rightarrow> path" where
  "parent p = (fst p, butlast (snd p))"

definition access_ok :: "world \<Rightarrow> string \<Rightarrow> bool" where
  "access_ok w s \<longleftrightarrow> s \<noteq> [] \<and> (is_dir w (resolve s) \<or> resolve s \<in> set (w_files w))"

definition mkdir :: "io \<Rightarrow> world \<Rightarrow> string \<Rightarrow> world option" where
  "mkdir sys w s =
     (let p = resolve s in
      if s = [] \<or> access_ok w s \<or> io_denied sys p \<or> \<not> is_dir w (parent p) then None
      else Some (w\<lparr>w_dirs := p # w_dirs w\<rparr>))"

text \<open>
  Opening for appending makes the file if there is none.  It fails in one way when a directory on the way is missing, and in another when
  there is a file in its place, or a directory in the place of the file.
\<close>

definition below_file :: "world \<Rightarrow> path \<Rightarrow> bool" where
  "below_file w p \<longleftrightarrow> list_ex (\<lambda>i. (fst p, take i (snd p)) \<in> set (w_files w)) [0..<length (snd p)]"

definition fopen_append :: "io \<Rightarrow> world \<Rightarrow> string \<Rightarrow> errno + world" where
  "fopen_append sys w s =
     (let p = resolve s in
      if s = [] then Inl ENOENT
      else if below_file w p then Inl EOTHER
      else if \<not> is_dir w (parent p) then Inl ENOENT
      else if io_denied sys p \<or> is_dir w p \<or> last s = CHR ''/'' then Inl EOTHER
      else Inr (w\<lparr>w_files := (if p \<in> set (w_files w) then w_files w else p # w_files w)\<rparr>))"

definition append_file :: "world \<Rightarrow> string \<Rightarrow> string \<Rightarrow> world" where
  "append_file w s t = w\<lparr>w_log := w_log w @ [(s, t)]\<rparr>"

section \<open>The logger\<close>

text \<open>A null pointer, the standard output, which marks a closed file, and an open file.\<close>

datatype handle = Null | Stdout | Open string

record logger_item =
  li_file :: handle
  li_fwrited :: int
  li_fnamepre :: string
  li_filepath :: string

record happy_logger =
  hl_fsize :: int
  hl_mday :: int
  hl_dir :: string
  hl_loggers :: "logger_item list"

definition logger_names :: "string list" where
  "logger_names = [''error'', ''warn'', ''info'', ''debug'']"

abbreviation (input) ERROR :: nat where "ERROR \<equiv> 0"
abbreviation (input) WARN :: nat where "WARN \<equiv> 1"
abbreviation (input) INFO :: nat where "INFO \<equiv> 2"
abbreviation (input) LoggerLevelNull :: nat where "LoggerLevelNull \<equiv> 3"

definition valid_file :: "handle \<Rightarrow> bool" where
  "valid_file f \<longleftrightarrow> f \<noteq> Null \<and> f \<noteq> Stdout"

fun file_name :: "handle \<Rightarrow> string" where
  "file_name (Open s) = s"
| "file_name _ = []"

definition closeFile :: "logger_item \<Rightarrow> logger_item" where
  "closeFile l = l\<lparr>li_file := Stdout\<rparr>"

definition closeAllFiles :: "happy_logger \<Rightarrow> happy_logger" where
  "closeAllFiles inst = inst\<lparr>hl_loggers := map closeFile (hl_loggers inst)\<rparr>"

definition set_item :: "happy_logger \<Rightarrow> nat \<Rightarrow> logger_item \<Rightarrow> happy_logger" where
  "set_item inst k l = inst\<lparr>hl_loggers := (hl_loggers inst)[k := l]\<rparr>"

section \<open>Directories\<close>

text \<open>The parts of the name in front of a slash, but for one at the start; each is made if there is nothing of that name.\<close>

definition slash_prefixes :: "string \<Rightarrow> string list" where
  "slash_prefixes s = map (\<lambda>i. take i s) (filter (\<lambda>i. s ! i = CHR ''/'') [1..<length s])"

fun make_prefixes :: "io \<Rightarrow> world \<Rightarrow> string list \<Rightarrow> world \<times> bool" where
  "make_prefixes sys w [] = (w, True)"
| "make_prefixes sys w (s # ss) =
     (if access_ok w s then make_prefixes sys w ss
      else case mkdir sys w s of Some w1 \<Rightarrow> make_prefixes sys w1 ss | None \<Rightarrow> (w, False))"

definition newDir :: "io \<Rightarrow> happy_logger \<Rightarrow> world \<Rightarrow> string \<Rightarrow> (happy_logger \<times> world \<times> bool) run" where
  "newDir sys inst w strdir =
     (if access_ok w strdir then Inr (inst, w, True)
      else if 256 < length strdir then Inl OutOfBounds
      else
        case make_prefixes sys w (slash_prefixes strdir) of
          (w1, False) \<Rightarrow> Inr (closeAllFiles inst, w1, False)
        | (w1, True) \<Rightarrow>
            (case mkdir sys w1 strdir of
               None \<Rightarrow> Inr (closeAllFiles inst, w1, False)
             | Some w2 \<Rightarrow> Inr (inst, w2, True)))"

section \<open>Files\<close>

definition completeFilePath :: "io \<Rightarrow> happy_logger \<Rightarrow> logger_item \<Rightarrow> logger_item" where
  "completeFilePath sys inst l =
     l\<lparr>li_filepath := take 255 (hl_dir inst @ ''/'' @ li_fnamepre l @ ''_'' @ io_date sys @ ''_'' @ io_pid sys @ ''.log'')\<rparr>"

text \<open>
  The result is whether it failed.  The file is closed whenever this is called, so that the branch of the code with \<open>freopen\<close> is never
  taken.
\<close>

definition createLoggerFile :: "io \<Rightarrow> happy_logger \<Rightarrow> world \<Rightarrow> nat \<Rightarrow> (happy_logger \<times> world \<times> bool) run" where
  "createLoggerFile sys inst w k =
     (let l = completeFilePath sys inst (hl_loggers inst ! k);
          opened = l\<lparr>li_file := Open (li_filepath l), li_fwrited := 0\<rparr>;
          failed = set_item inst k (l\<lparr>li_file := Null\<rparr>)
      in case fopen_append sys w (li_filepath l) of
           Inr w1 \<Rightarrow> Inr (set_item inst k opened, w1, False)
         | Inl EOTHER \<Rightarrow> Inr (closeAllFiles failed, w, True)
         | Inl ENOENT \<Rightarrow>
             bindR (newDir sys failed w (hl_dir inst)) (\<lambda>(inst1, w1, made).
             if \<not> made then Inr (inst1, w1, True)
             else case fopen_append sys w1 (li_filepath l) of
                 Inr w2 \<Rightarrow> Inr (set_item inst1 k opened, w2, False)
               | Inl e \<Rightarrow> Inr (closeAllFiles inst1, w1, True)))"

definition rollFile :: "io \<Rightarrow> happy_logger \<Rightarrow> world \<Rightarrow> nat \<Rightarrow> (happy_logger \<times> world \<times> bool) run" where
  "rollFile sys inst w k = createLoggerFile sys (set_item inst k (closeFile (hl_loggers inst ! k))) w k"

section \<open>Writing\<close>

definition hex_digit :: "nat \<Rightarrow> char" where
  "hex_digit d = ''0123456789abcdef'' ! d"

text \<open>The format \<open>%08x\<close>.\<close>

definition hex8 :: "u32 \<Rightarrow> string" where
  "hex8 n = map (\<lambda>i. hex_digit (unat n div 16 ^ (7 - i) mod 16)) [0..<8]"

definition log_header :: "io \<Rightarrow> u32 \<Rightarrow> string" where
  "log_header sys source = ''[:'' @ hex8 source @ ''] ('' @ io_time sys @ '')''"

text \<open>
  The message is a block of memory, of which the first \<open>sz\<close> bytes are written.  A short count of \<open>fwrite\<close> is not noticed; a count
  from 2147483648 on would be negative.
\<close>

definition write_message :: "io \<Rightarrow> happy_logger \<Rightarrow> world \<Rightarrow> nat \<Rightarrow> u32 \<Rightarrow> string \<Rightarrow> nat \<Rightarrow> (happy_logger \<times> world \<times> bool) run" where
  "write_message sys inst w k source msg sz =
     (let l = hl_loggers inst ! k;
          closed = set_item inst k (closeFile l);
          hdr = log_header sys source;
          n = min sz (io_write2 sys)
      in
      if \<not> io_write1 sys then Inr (closed, w, False)
      else if length msg < sz then Inl OutOfBounds
      else
        let w2 = append_file (append_file w (file_name (li_file l)) hdr) (file_name (li_file l)) (take n msg) in
        if sint (of_nat n :: u32) < 0 then Inr (closed, w2, False)
        else if \<not> io_write3 sys then Inr (closed, w2, False)
        else
          bindR (i32 (int (length hdr) + sint (of_nat n :: u32))) (\<lambda>s.
          bindR (i32 (s + 1)) (\<lambda>s.
          bindR (i32 (li_fwrited l + s)) (\<lambda>f.
          Inr (set_item inst k (l\<lparr>li_fwrited := f\<rparr>), append_file w2 (file_name (li_file l)) [CHR 0x0A], False)))))"

definition logger_output ::
    "io \<Rightarrow> happy_logger \<Rightarrow> world \<Rightarrow> nat \<Rightarrow> u32 \<Rightarrow> string \<Rightarrow> nat \<Rightarrow> (happy_logger \<times> world \<times> bool) run" where
  "logger_output sys inst w eValue source msg sz =
     (if eValue \<ge> LoggerLevelNull then Inr (inst, w, True)
      else
        bindR (if valid_file (li_file (hl_loggers inst ! eValue)) then Inr (inst, w, False)
               else createLoggerFile sys inst w eValue) (\<lambda>(inst, w, err).
        if err then Inr (inst, w, True)
        else
          bindR (if li_fwrited (hl_loggers inst ! eValue) > hl_fsize inst then rollFile sys inst w eValue
                 else Inr (inst, w, False)) (\<lambda>(inst, w, err).
          if err then Inr (inst, w, True)
          else write_message sys inst w eValue source msg sz)))"

section \<open>The service\<close>

definition hlogger_create :: happy_logger where
  "hlogger_create = \<lparr>hl_fsize = 0, hl_mday = 0, hl_dir = [],
     hl_loggers = replicate 4 \<lparr>li_file = Null, li_fwrited = 0, li_fnamepre = [], li_filepath = []\<rparr>\<rparr>"

definition hlogger_release :: "happy_logger \<Rightarrow> happy_logger" where
  "hlogger_release inst = closeAllFiles inst"

datatype msg_type = PTYPE_SYSTEM | PTYPE_TEXT | PTYPE_LOG_ERROR | PTYPE_LOG_WARN | PTYPE_LOG_INFO | PTYPE_LOG_DEBUG | PTYPE_OTHER

text \<open>What \<open>%s\<close> prints is read up to a zero byte.\<close>

definition c_string :: "string \<Rightarrow> string run" where
  "c_string block =
     (if CHR 0x00 \<in> set block then Inr (takeWhile (\<lambda>c. c \<noteq> CHR 0x00) block) else Inl OutOfBounds)"

text \<open>The message on the terminal, and the levels it is written to.\<close>

fun levels :: "msg_type \<Rightarrow> nat list" where
  "levels PTYPE_TEXT = [INFO]"
| "levels PTYPE_LOG_DEBUG = [INFO]"
| "levels PTYPE_LOG_INFO = [INFO]"
| "levels PTYPE_LOG_WARN = [WARN, INFO]"
| "levels PTYPE_LOG_ERROR = [ERROR, INFO]"
| "levels _ = []"

fun output_levels :: "io \<Rightarrow> happy_logger \<Rightarrow> world \<Rightarrow> nat list \<Rightarrow> u32 \<Rightarrow> string \<Rightarrow> nat \<Rightarrow> (happy_logger \<times> world) run" where
  "output_levels sys inst w [] source msg sz = Inr (inst, w)"
| "output_levels sys inst w (k # ks) source msg sz =
     bindR (logger_output sys inst w k source msg sz) (\<lambda>(inst, w, _). output_levels sys inst w ks source msg sz)"

definition hlogger_cb :: "io \<Rightarrow> happy_logger \<Rightarrow> world \<Rightarrow> msg_type \<Rightarrow> u32 \<Rightarrow> string \<Rightarrow> nat \<Rightarrow> (happy_logger \<times> world) run" where
  "hlogger_cb sys inst w type source msg sz =
     (let inst = (if hl_mday inst \<noteq> io_mday sys then closeAllFiles (inst\<lparr>hl_mday := io_mday sys\<rparr>) else inst) in
      if levels type = [] then Inr (inst, w)
      else bindR (c_string msg) (\<lambda>_. output_levels sys inst w (levels type) source msg sz))"

section \<open>Starting\<close>

text \<open>\<open>fgets\<close> reads a line, or the first 127 bytes of it.\<close>

fun fgets :: "nat \<Rightarrow> string \<Rightarrow> string \<times> string" where
  "fgets 0 s = ([], s)"
| "fgets (Suc n) [] = ([], [])"
| "fgets (Suc n) (c # s) = (if c = CHR 0x0A then ([c], s) else let (l, r) = fgets n s in (c # l, r))"

lemma fgets_length: "fgets n s = (l, r) \<Longrightarrow> length l + length r = length s \<and> (0 < n \<longrightarrow> s \<noteq> [] \<longrightarrow> l \<noteq> [])"
  by (induction n s arbitrary: l r rule: fgets.induct) (auto split: if_splits prod.splits)

function find_line :: "string \<Rightarrow> string \<Rightarrow> string option" where
  "find_line patten s =
     (if s = [] then None
      else let (line, rest) = fgets 127 s; str = takeWhile (\<lambda>c. c \<noteq> CHR 0x00) line in
           if take (length patten) str = patten then Some (drop (length patten) str) else find_line patten rest)"
  by pat_completeness auto
termination
  by (relation "measure (\<lambda>(p, s). length s)") (auto dest!: fgets_length [OF sym] simp: neq_Nil_conv)

declare find_line.simps [simp del]

text \<open>The settings of the process and the files it reads, as far as they exist.\<close>

record env =
  env_node_type :: "string option"
  env_config :: "string option"
  env_logpath :: "string option"
  env_cwd :: "string option"

text \<open>\<open>None\<close> when there is no directory for the type of the node.\<close>

definition hlogger_read_config :: "env \<Rightarrow> string option run" where
  "hlogger_read_config e =
     (case (env_node_type e, env_config e) of
        (Some servertype, Some config) \<Rightarrow>
          let patten = servertype @ ''_logpath='' in
          if 64 < length patten + 1 then Inl OutOfBounds
          else Inr (map_option (takeWhile (\<lambda>c. c \<noteq> CHR 0x0A)) (find_line patten config))
      | _ \<Rightarrow> Inr None)"

definition last_part :: "string \<Rightarrow> string" where
  "last_part cwd = (if CHR ''/'' \<in> set cwd then CHR ''/'' # rev (takeWhile (\<lambda>c. c \<noteq> CHR ''/'') (rev cwd)) else [])"

text \<open>The directory: from the configuration, or the log path with the last part of the working directory.\<close>

definition log_dir :: "env \<Rightarrow> string option run" where
  "log_dir e =
     bindR (hlogger_read_config e) (\<lambda>r.
     case r of
       Some d \<Rightarrow> Inr (Some d)
     | None \<Rightarrow>
         (case (env_logpath e, env_cwd e) of
            (Some logpath, Some cwd) \<Rightarrow>
              let d = logpath @ last_part cwd in if 256 < length d + 1 then Inl OutOfBounds else Inr (Some d)
          | _ \<Rightarrow> Inr None))"

text \<open>The result is whether it failed.  The message for a directory that cannot be made is put together in 256 bytes.\<close>

definition hlogger_init :: "io \<Rightarrow> env \<Rightarrow> happy_logger \<Rightarrow> world \<Rightarrow> (happy_logger \<times> world \<times> bool) run" where
  "hlogger_init sys e inst w =
     bindR (log_dir e) (\<lambda>d.
     case d of
       None \<Rightarrow> Inr (inst, w, True)
     | Some dir \<Rightarrow>
         bindR (newDir sys (inst\<lparr>hl_dir := dir\<rparr>) w dir) (\<lambda>(inst, w, made).
         if \<not> made then
           (if 256 < length dir + length ''create dir  error'' + 1 then Inl OutOfBounds else Inr (inst, w, True))
         else
           Inr (inst\<lparr>hl_fsize := 1024 * 1024 * 1024, hl_mday := io_mday sys,
             hl_loggers := map2 (\<lambda>l s. l\<lparr>li_fnamepre := s\<rparr>) (hl_loggers inst) logger_names\<rparr>, w, False)))"

end
