(* ===== verification/Hlogger_Files.thy ===== *)
theory Hlogger_Files
  imports Hlogger
begin

text \<open>
  The file system under the log service of the theory Hlogger: which directories \<open>newDir\<close> makes, also for a name with a slash at the end,
  and that a log file can be opened in a directory that exists or can be made.
\<close>

section \<open>Paths\<close>

definition proper :: "string \<Rightarrow> bool" where
  "proper w \<longleftrightarrow> w \<notin> {[], ''.''}"

lemma proper_Nil [simp]: "\<not> proper []"
  by (simp add: proper_def)

lemma comps_proper: "comps s = filter proper (split_slash s)"
  by (simp add: comps_def proper_def [abs_def])

lemma split_not_Nil [simp]: "split_slash s \<noteq> []"
  by (induction s) (auto split: list.splits)

lemma split_snoc:
  "split_slash (s @ [c]) =
     (if c = CHR ''/'' then split_slash s @ [[]] else butlast (split_slash s) @ [last (split_slash s) @ [c]])"
proof (induction s)
  case (Cons a s)
  then show ?case by (cases "split_slash s") (auto split: list.splits)
qed simp

lemma split_append_slash: "split_slash (s @ CHR ''/'' # t) = split_slash s @ split_slash t"
proof (induction s)
  case (Cons a s)
  then show ?case by (cases "split_slash s") (auto split: list.splits)
qed simp

lemma split_no_slash: "CHR ''/'' \<notin> set s \<Longrightarrow> split_slash s = [s]"
  by (induction s) auto

text \<open>The components in front of the last slash, and the path that leads there.\<close>

definition upper :: "string \<Rightarrow> path" where
  "upper s = (fst (resolve s), filter proper (butlast (split_slash s)))"

lemma resolve_upper: "resolve s = (fst (upper s), snd (upper s) @ (if proper (last (split_slash s)) then [last (split_slash s)] else []))"
proof -
  have "filter proper (split_slash s) = filter proper (butlast (split_slash s) @ [last (split_slash s)])" by simp
  then show ?thesis by (simp only: filter_append upper_def resolve_def comps_proper fst_conv snd_conv filter.simps)
qed

lemma parent_resolve: "proper (last (split_slash s)) \<Longrightarrow> parent (resolve s) = upper s"
  by (subst resolve_upper) (simp add: parent_def upper_def)

lemma upper_snoc: "s \<noteq> [] \<Longrightarrow> upper (s @ [c]) = (if c = CHR ''/'' then resolve s else upper s)"
  by (simp add: upper_def resolve_def comps_proper split_snoc)

lemma upper_single [simp]: "snd (upper [c]) = []" "snd (upper []) = []"
  by (simp_all add: upper_def)

lemma slash_prefixes_snoc:
  "slash_prefixes (s @ [c]) = slash_prefixes s @ (if c = CHR ''/'' \<and> s \<noteq> [] then [s] else [])"
proof -
  have "filter (\<lambda>i. (s @ [c]) ! i = CHR ''/'') [1..<length s] = filter (\<lambda>i. s ! i = CHR ''/'') [1..<length s]"
    by (intro filter_cong) (auto simp: nth_append)
  moreover have "map (\<lambda>i. take i (s @ [c])) (filter P [1..<length s]) = map (\<lambda>i. take i s) (filter P [1..<length s])" for P
    by auto
  moreover have "[1..<length (s @ [c])] = [1..<length s] @ (if s = [] then [] else [length s])"
    by (cases s) simp_all
  ultimately show ?thesis by (simp add: slash_prefixes_def)
qed

lemma slash_prefixes_Nil [simp]: "slash_prefixes [] = []" "slash_prefixes [c] = []" "[] \<notin> set (slash_prefixes s)"
  by (auto simp: slash_prefixes_def)

lemma slash_prefixes_above:
  "p \<in> set (slash_prefixes s) \<Longrightarrow> length (comps p) \<le> length (snd (upper s))"
proof (induction s rule: rev_induct)
  case (snoc c s)
  have "length (snd (upper s)) \<le> length (snd (resolve s))" by (subst resolve_upper [of s]) simp
  with snoc show ?case by (cases "s = []") (auto simp: slash_prefixes_snoc upper_snoc resolve_def split: if_splits)
qed simp

section \<open>The file system\<close>

text \<open>Directories and files lie in directories, and nothing is both.\<close>

definition wf_world :: "world \<Rightarrow> bool" where
  "wf_world w \<longleftrightarrow> (\<forall>p \<in> set (w_dirs w) \<union> set (w_files w). is_dir w (parent p)) \<and> (\<forall>p \<in> set (w_files w). \<not> is_dir w p)"

definition same_files :: "world \<Rightarrow> world \<Rightarrow> bool" where
  "same_files w w1 \<longleftrightarrow> wf_world w1 \<and> w_files w1 = w_files w \<and> w_log w1 = w_log w \<and> set (w_dirs w) \<subseteq> set (w_dirs w1)"

lemma same_files_trans: "same_files w w1 \<Longrightarrow> same_files w1 w2 \<Longrightarrow> same_files w w2"
  by (auto simp: same_files_def)

lemma same_files_refl [simp]: "same_files w w \<longleftrightarrow> wf_world w"
  by (simp add: same_files_def)

lemma same_files_wf: "same_files w w1 \<Longrightarrow> wf_world w1"
  by (simp add: same_files_def)

lemma same_files_dir: "same_files w w1 \<Longrightarrow> is_dir w p \<Longrightarrow> is_dir w1 p"
  by (auto simp: same_files_def is_dir_def)

lemma mkdir_ok:
  assumes "wf_world w" "s \<noteq> []" "\<not> access_ok w s" "\<not> io_denied sys (resolve s)" "is_dir w (parent (resolve s))"
  shows "\<exists>w1. mkdir sys w s = Some w1 \<and> same_files w w1 \<and> is_dir w1 (resolve s) \<and> w_dirs w1 = resolve s # w_dirs w"
  using assms by (auto simp: mkdir_def Let_def same_files_def wf_world_def is_dir_def access_ok_def)

lemma mkdir_exists: "access_ok w s \<Longrightarrow> mkdir sys w s = None"
  by (simp add: mkdir_def)

section \<open>Making a directory\<close>

text \<open>Nothing is denied, and there is no file where a directory has to be.\<close>

definition dir_free :: "io \<Rightarrow> world \<Rightarrow> string \<Rightarrow> bool" where
  "dir_free sys w s \<longleftrightarrow> (\<forall>p. \<not> io_denied sys p) \<and> (\<forall>i \<le> length (comps s). (fst (resolve s), take i (comps s)) \<notin> set (w_files w))"

lemma slash_prefix_take:
  assumes "p \<in> set (slash_prefixes s)"
  shows "\<exists>i \<le> length (comps s). resolve p = (fst (resolve s), take i (comps s))"
proof -
  from assms obtain i where i: "1 \<le> i" "i < length s" "s ! i = CHR ''/''" and p: "p = take i s" by (auto simp: slash_prefixes_def)
  then have s: "s = p @ CHR ''/'' # drop (Suc i) s" by (metis id_take_nth_drop)
  have "p \<noteq> []" using p i by auto
  then have "fst (resolve p) = fst (resolve s)" by (subst s) (simp add: resolve_def)
  moreover have "comps s = comps p @ comps (drop (Suc i) s)" by (subst s) (simp add: comps_proper split_append_slash)
  ultimately have "length (comps p) \<le> length (comps s) \<and> resolve p = (fst (resolve s), take (length (comps p)) (comps s))"
    by (simp add: resolve_def)
  then show ?thesis by blast
qed

lemma dir_freeD:
  assumes "dir_free sys w s"
  shows "\<forall>p. \<not> io_denied sys p" "\<forall>p \<in> set (slash_prefixes s). resolve p \<notin> set (w_files w)" "resolve s \<notin> set (w_files w)"
proof -
  show "\<forall>p. \<not> io_denied sys p" using assms by (simp add: dir_free_def)
  show "\<forall>p \<in> set (slash_prefixes s). resolve p \<notin> set (w_files w)" using assms slash_prefix_take unfolding dir_free_def by metis
  show "resolve s \<notin> set (w_files w)" using assms unfolding dir_free_def by (metis fst_conv le_refl resolve_def take_all)
qed

lemma make_prefixes_append:
  "make_prefixes sys w (ps @ qs) = (case make_prefixes sys w ps of (w1, True) \<Rightarrow> make_prefixes sys w1 qs | r \<Rightarrow> r)"
  by (induction ps arbitrary: w) (auto split: option.splits prod.splits bool.splits)

lemma make_one:
  assumes "wf_world w" "s \<noteq> []" "\<not> io_denied sys (resolve s)" "resolve s \<notin> set (w_files w)" "is_dir w (upper s)"
  shows "\<exists>w1. make_prefixes sys w [s] = (w1, True) \<and> same_files w w1 \<and> is_dir w1 (resolve s) \<and> set (w_dirs w1) \<subseteq> insert (resolve s) (set (w_dirs w))"
proof (cases "access_ok w s")
  case True
  with assms show ?thesis by (auto simp: access_ok_def)
next
  case False
  then have "\<not> is_dir w (resolve s)" using assms(2) by (simp add: access_ok_def)
  then have "proper (last (split_slash s))" using assms(5) resolve_upper [of s] by (auto split: if_splits)
  then have "is_dir w (parent (resolve s))" using assms(5) by (simp add: parent_resolve)
  with mkdir_ok [OF assms(1,2) False assms(3)] False show ?thesis by auto
qed

lemma make_prefixes_ok:
  assumes "wf_world w" "\<forall>p. \<not> io_denied sys p" "\<forall>p \<in> set (slash_prefixes s). resolve p \<notin> set (w_files w)"
  shows "\<exists>w1. make_prefixes sys w (slash_prefixes s) = (w1, True) \<and> same_files w w1 \<and> is_dir w1 (upper s) \<and>
    set (w_dirs w1) \<subseteq> set (w_dirs w) \<union> resolve ` set (slash_prefixes s)"
  using assms(3)
proof (induction s rule: rev_induct)
  case Nil
  show ?case using assms(1) by (simp add: is_dir_def)
next
  case (snoc c s)
  then obtain w1 where w1: "make_prefixes sys w (slash_prefixes s) = (w1, True)" "same_files w w1" "is_dir w1 (upper s)"
      "set (w_dirs w1) \<subseteq> set (w_dirs w) \<union> resolve ` set (slash_prefixes s)"
    by (auto simp: slash_prefixes_snoc)
  show ?case
  proof (cases "c = CHR ''/'' \<and> s \<noteq> []")
    case False
    with w1 show ?thesis
      by (cases "s = []") (auto simp: slash_prefixes_snoc upper_snoc is_dir_def)
  next
    case True
    then have "resolve s \<notin> set (w_files w1)" using snoc.prems w1(2) by (auto simp: slash_prefixes_snoc same_files_def)
    then obtain w2 where "make_prefixes sys w1 [s] = (w2, True)" "same_files w1 w2" "is_dir w2 (resolve s)"
        "set (w_dirs w2) \<subseteq> insert (resolve s) (set (w_dirs w1))"
      using make_one [OF same_files_wf [OF w1(2)], of s sys] True assms(2) w1(3) by blast
    with w1 True same_files_trans show ?thesis
      by (auto simp: slash_prefixes_snoc upper_snoc make_prefixes_append)
  qed
qed

text \<open>A name that can be the name of a directory to be made.\<close>

definition dir_name :: "string \<Rightarrow> bool" where
  "dir_name s \<longleftrightarrow> length s \<le> 256 \<and> proper (last (split_slash s))"

lemma dir_name_not_Nil: "dir_name s \<Longrightarrow> s \<noteq> []"
  by (auto simp: dir_name_def proper_def)

lemma newDir_makes:
  assumes "wf_world w" "dir_name s" "dir_free sys w s"
  shows "\<exists>w1. newDir sys inst w s = Inr (inst, w1, True) \<and> same_files w w1 \<and> is_dir w1 (resolve s) \<and>
    set (w_dirs w1) \<subseteq> set (w_dirs w) \<union> insert (resolve s) (resolve ` set (slash_prefixes s))"
proof (cases "access_ok w s")
  case True
  then show ?thesis using assms by (auto simp: newDir_def access_ok_def dest: dir_freeD(3))
next
  case False
  have s: "s \<noteq> []" by (rule dir_name_not_Nil [OF assms(2)])
  have pr: "proper (last (split_slash s))" using assms(2) by (simp add: dir_name_def)
  from make_prefixes_ok [OF assms(1) dir_freeD(1,2) [OF assms(3)]] obtain w1 where w1: "make_prefixes sys w (slash_prefixes s) = (w1, True)" "same_files w w1"
      "is_dir w1 (upper s)" "set (w_dirs w1) \<subseteq> set (w_dirs w) \<union> resolve ` set (slash_prefixes s)"
    by blast
  have len: "length (snd (resolve s)) = Suc (length (snd (upper s)))" using pr by (subst resolve_upper) simp
  have "\<not> is_dir w1 (resolve s)"
  proof
    assume "is_dir w1 (resolve s)"
    then have "resolve s \<in> set (w_dirs w1)" using len by (auto simp: is_dir_def)
    moreover have "resolve s \<notin> set (w_dirs w)" using False s by (simp add: access_ok_def is_dir_def)
    ultimately obtain p where p: "p \<in> set (slash_prefixes s)" "resolve p = resolve s" using w1(4) by fastforce
    from slash_prefixes_above [OF p(1)] len p(2) show False by (simp add: resolve_def)
  qed
  moreover have "resolve s \<notin> set (w_files w1)" using dir_freeD(3) [OF assms(3)] w1(2) by (simp add: same_files_def)
  ultimately have na: "\<not> access_ok w1 s" by (simp add: access_ok_def)
  obtain w2 where w2: "mkdir sys w1 s = Some w2" "same_files w1 w2" "is_dir w2 (resolve s)" "w_dirs w2 = resolve s # w_dirs w1"
    using mkdir_ok [OF same_files_wf [OF w1(2)] s na, of sys] dir_freeD(1) [OF assms(3)] w1(3) unfolding parent_resolve [OF pr] by blast
  have "newDir sys inst w s = Inr (inst, w2, True)"
    using assms(2) False w1(1) w2(1) by (simp add: newDir_def dir_name_def)
  with w1 w2 same_files_trans show ?thesis by auto
qed

text \<open>The same name with a slash at the end: the directory is made by the loop, and then the last step, which finds it there, fails.\<close>

lemma newDir_slash:
  assumes "wf_world w" "dir_name s" "length s < 256" "dir_free sys w s" "\<not> is_dir w (resolve s)"
  shows "\<exists>w1. newDir sys inst w (s @ ''/'') = Inr (closeAllFiles inst, w1, False) \<and> same_files w w1 \<and> is_dir w1 (resolve (s @ ''/''))"
proof -
  have s: "s \<noteq> []" by (rule dir_name_not_Nil [OF assms(2)])
  have e: "resolve (s @ ''/'') = resolve s" using s by (simp add: resolve_def comps_proper split_snoc proper_def)
  have "\<forall>p \<in> set (slash_prefixes (s @ ''/'')). resolve p \<notin> set (w_files w)"
    using dir_freeD(2,3) [OF assms(4)] by (auto simp: slash_prefixes_snoc)
  with make_prefixes_ok [OF assms(1) dir_freeD(1) [OF assms(4)]] obtain w1 where w1: "make_prefixes sys w (slash_prefixes (s @ ''/'')) = (w1, True)"
      "same_files w w1" "is_dir w1 (upper (s @ ''/''))"
    by blast
  have d: "is_dir w1 (resolve s)" using w1(3) s by (simp add: upper_snoc)
  have "\<not> access_ok w (s @ ''/'')" using dir_freeD(3) [OF assms(4)] assms(5) s by (simp add: access_ok_def e)
  moreover have "mkdir sys w1 (s @ ''/'') = None" by (rule mkdir_exists) (use d s in \<open>simp add: access_ok_def e\<close>)
  ultimately have "newDir sys inst w (s @ ''/'') = Inr (closeAllFiles inst, w1, False)"
    using w1(1) assms(3) by (simp add: newDir_def)
  with w1 d e show ?thesis by simp
qed

section \<open>Opening a file\<close>

definition log_name :: "io \<Rightarrow> string \<Rightarrow> string" where
  "log_name sys pre = pre @ ''_'' @ io_date sys @ ''_'' @ io_pid sys @ ''.log''"

definition full_path :: "io \<Rightarrow> string \<Rightarrow> string \<Rightarrow> string" where
  "full_path sys dir pre = dir @ CHR ''/'' # log_name sys pre"

text \<open>
  What the service needs of its surroundings: nothing is denied, nothing is in the way of the directory or of the new files, and their
  names fit.
\<close>

definition name_ok :: "io \<Rightarrow> world \<Rightarrow> string \<Rightarrow> string \<Rightarrow> bool" where
  "name_ok sys w dir pre \<longleftrightarrow> length (full_path sys dir pre) \<le> 255 \<and> CHR ''/'' \<notin> set (log_name sys pre) \<and>
     resolve (full_path sys dir pre) \<notin> set (w_dirs w)"

definition ready :: "io \<Rightarrow> happy_logger \<Rightarrow> world \<Rightarrow> bool" where
  "ready sys inst w \<longleftrightarrow> wf_world w \<and> dir_name (hl_dir inst) \<and> dir_free sys w (hl_dir inst) \<and>
     (\<forall>pre \<in> set (map li_fnamepre (hl_loggers inst)). name_ok sys w (hl_dir inst) pre)"

lemma ready_cong:
  "hl_dir inst1 = hl_dir inst \<Longrightarrow> map li_fnamepre (hl_loggers inst1) = map li_fnamepre (hl_loggers inst) \<Longrightarrow> ready sys inst1 w \<longleftrightarrow> ready sys inst w"
  by (simp only: ready_def)

lemma completeFilePath_path:
  "length (full_path sys (hl_dir inst) (li_fnamepre l)) \<le> 255 \<Longrightarrow> completeFilePath sys inst l = l\<lparr>li_filepath := full_path sys (hl_dir inst) (li_fnamepre l)\<rparr>"
  by (simp add: completeFilePath_def full_path_def log_name_def)

lemma resolve_full:
  assumes "dir_name dir" "CHR ''/'' \<notin> set (log_name sys pre)"
  shows "resolve (full_path sys dir pre) = (fst (resolve dir), comps dir @ [log_name sys pre])"
    and "parent (resolve (full_path sys dir pre)) = resolve dir"
    and "last (full_path sys dir pre) \<noteq> CHR ''/''" "full_path sys dir pre \<noteq> []"
proof -
  have "proper (log_name sys pre)" by (simp add: proper_def log_name_def append_eq_Cons_conv)
  then show r: "resolve (full_path sys dir pre) = (fst (resolve dir), comps dir @ [log_name sys pre])"
    using dir_name_not_Nil [OF assms(1)] assms(2) by (simp add: full_path_def resolve_def comps_proper split_append_slash split_no_slash)
  show "parent (resolve (full_path sys dir pre)) = resolve dir" by (simp add: r parent_def) (simp add: resolve_def)
  show "last (full_path sys dir pre) \<noteq> CHR ''/''" "full_path sys dir pre \<noteq> []" by (simp_all add: full_path_def log_name_def)
qed

lemma wf_world_above:
  assumes "wf_world w" "is_dir w (a, xs)"
  shows "is_dir w (a, take i xs)"
  using assms(2)
proof (induction xs rule: rev_induct)
  case (snoc x xs)
  then have "(a, xs @ [x]) \<in> set (w_dirs w)" by (simp add: is_dir_def)
  then have "is_dir w (parent (a, xs @ [x]))" using assms(1) unfolding wf_world_def by blast
  then have "is_dir w (a, xs)" by (simp add: parent_def)
  with snoc show ?case by (cases "i \<le> length xs") simp_all
qed simp

text \<open>The world after a file has been opened in the directory.\<close>

definition opened_in :: "world \<Rightarrow> string \<Rightarrow> world \<Rightarrow> bool" where
  "opened_in w p w1 \<longleftrightarrow> w_log w1 = w_log w \<and> set (w_files w) \<subseteq> set (w_files w1) \<and> resolve p \<in> set (w_files w1)"

lemma fopen_append_ok:
  assumes "ready sys inst w" "pre \<in> set (map li_fnamepre (hl_loggers inst))" "is_dir w (resolve (hl_dir inst))"
  shows "\<exists>w1. fopen_append sys w (full_path sys (hl_dir inst) pre) = Inr w1 \<and> opened_in w (full_path sys (hl_dir inst) pre) w1 \<and> ready sys inst w1"
proof -
  let ?d = "hl_dir inst" and ?p = "full_path sys (hl_dir inst) pre"
  have d: "dir_name ?d" "wf_world w" "dir_free sys w ?d" and n: "\<forall>pre \<in> set (map li_fnamepre (hl_loggers inst)). name_ok sys w ?d pre"
    using assms(1) unfolding ready_def by blast+
  with assms(2) have ns: "CHR ''/'' \<notin> set (log_name sys pre)" and nd: "resolve ?p \<notin> set (w_dirs w)"
    by (auto simp: name_ok_def)
  note rf = resolve_full [OF d(1) ns]
  let ?w = "w\<lparr>w_files := if resolve ?p \<in> set (w_files w) then w_files w else resolve ?p # w_files w\<rparr>"
  have f: "set (w_files ?w) = insert (resolve ?p) (set (w_files w))" by auto
  have isd: "is_dir ?w = is_dir w" by (simp add: is_dir_def fun_eq_iff)
  have ndp: "\<not> is_dir w (resolve ?p)" using nd by (simp add: is_dir_def rf(1))
  have "is_dir w (fst (resolve ?d), take i (comps ?d))" for i
    by (rule wf_world_above [OF d(2)]) (use assms(3) in \<open>simp add: resolve_def\<close>)
  moreover have "\<forall>q \<in> set (w_files w). \<not> is_dir w q" using d(2) by (simp add: wf_world_def)
  ultimately have "\<not> below_file w (resolve ?p)"
    by (auto simp: below_file_def rf(1) list_ex_iff) (metis order_refl take_all)
  then have "fopen_append sys w ?p = Inr ?w"
    using rf(2-4) assms(3) ndp dir_freeD(1) [OF d(3), rule_format] by (simp add: fopen_append_def Let_def)
  moreover have "opened_in w ?p ?w" using f by (simp add: opened_in_def subset_insertI)
  moreover have "ready sys inst ?w"
  proof -
    have "wf_world ?w" using d(2) ndp rf(2) assms(3) unfolding wf_world_def isd f by auto
    moreover have "dir_free sys ?w ?d"
      using d(3) unfolding dir_free_def f by (auto simp: rf(1) dest: arg_cong [where f = length])
    ultimately show ?thesis using d(1) n by (simp add: ready_def name_ok_def)
  qed
  ultimately show ?thesis by blast
qed

lemma ready_newDir:
  assumes "ready sys inst w"
  shows "\<exists>w1. newDir sys inst w (hl_dir inst) = Inr (inst, w1, True) \<and> ready sys inst w1 \<and> is_dir w1 (resolve (hl_dir inst)) \<and> same_files w w1"
proof -
  let ?d = "hl_dir inst"
  have d: "wf_world w" "dir_name ?d" "dir_free sys w ?d" and n: "\<forall>pre \<in> set (map li_fnamepre (hl_loggers inst)). name_ok sys w ?d pre"
    using assms unfolding ready_def by blast+
  from newDir_makes [OF d, of inst] obtain w1 where w1: "newDir sys inst w ?d = Inr (inst, w1, True)" "same_files w w1" "is_dir w1 (resolve ?d)"
      "set (w_dirs w1) \<subseteq> set (w_dirs w) \<union> insert (resolve ?d) (resolve ` set (slash_prefixes ?d))" by blast
  have "name_ok sys w1 ?d pre" if "pre \<in> set (map li_fnamepre (hl_loggers inst))" for pre
  proof -
    have no: "name_ok sys w ?d pre" using n that by blast
    then have "CHR ''/'' \<notin> set (log_name sys pre)" by (simp add: name_ok_def)
    note rf = resolve_full [OF d(2) this]
    have "resolve (full_path sys ?d pre) \<noteq> resolve ?d" unfolding rf by (simp add: resolve_def)
    moreover have "resolve (full_path sys ?d pre) \<noteq> resolve p" if "p \<in> set (slash_prefixes ?d)" for p
      using slash_prefix_take [OF that] unfolding rf by (metis length_append_singleton length_take min.cobounded1 not_less_eq_eq order_refl snd_conv min.commute)
    ultimately show ?thesis using no w1(4) unfolding name_ok_def by blast
  qed
  moreover have "dir_free sys w1 ?d" using d(3) w1(2) by (simp add: dir_free_def same_files_def)
  ultimately have "ready sys inst w1" using d(2) same_files_wf [OF w1(2)] by (simp add: ready_def)
  with w1 show ?thesis by blast
qed

lemma set_item_simps [simp]:
  "hl_loggers (set_item inst k l) = (hl_loggers inst)[k := l]" "hl_dir (set_item inst k l) = hl_dir inst"
  "hl_fsize (set_item inst k l) = hl_fsize inst" "hl_mday (set_item inst k l) = hl_mday inst"
  "set_item (set_item inst k l) k l1 = set_item inst k l1"
  by (simp_all add: set_item_def)

lemma ready_set_item:
  "k < length (hl_loggers inst) \<Longrightarrow> li_fnamepre l = li_fnamepre (hl_loggers inst ! k) \<Longrightarrow> ready sys (set_item inst k l) w \<longleftrightarrow> ready sys inst w"
  by (rule ready_cong) (simp_all add: map_update, metis length_map list_update_id nth_map)

lemma fopen_append_cases:
  assumes "ready sys inst w" "pre \<in> set (map li_fnamepre (hl_loggers inst))" "\<not> is_dir w (resolve (hl_dir inst))"
  shows "fopen_append sys w (full_path sys (hl_dir inst) pre) = Inl ENOENT"
proof -
  have d: "dir_name (hl_dir inst)" "dir_free sys w (hl_dir inst)" "CHR ''/'' \<notin> set (log_name sys pre)"
    using assms(1,2) by (auto simp: ready_def name_ok_def)
  note rf = resolve_full [OF d(1,3)]
  have "\<not> below_file w (resolve (full_path sys (hl_dir inst) pre))"
    using d(2) by (auto simp: below_file_def rf(1) list_ex_iff dir_free_def)
  then show ?thesis using assms(3) rf(2,4) by (simp add: fopen_append_def)
qed

lemma createLoggerFile_ok:
  assumes "ready sys inst w" "k < length (hl_loggers inst)"
  defines "p \<equiv> full_path sys (hl_dir inst) (li_fnamepre (hl_loggers inst ! k))"
  shows "\<exists>w1. createLoggerFile sys inst w k =
      Inr (set_item inst k ((hl_loggers inst ! k)\<lparr>li_filepath := p, li_file := Open p, li_fwrited := 0\<rparr>), w1, False) \<and>
    opened_in w p w1 \<and> ready sys inst w1"
proof -
  let ?l = "hl_loggers inst ! k"
  have m: "li_fnamepre ?l \<in> set (map li_fnamepre (hl_loggers inst))" using assms(2) by auto
  then have "length p \<le> 255" using assms(1) unfolding ready_def name_ok_def p_def by blast
  then have c: "completeFilePath sys inst ?l = ?l\<lparr>li_filepath := p\<rparr>" unfolding p_def by (rule completeFilePath_path)
  show ?thesis
  proof (cases "is_dir w (resolve (hl_dir inst))")
    case True
    from fopen_append_ok [OF assms(1) m True] show ?thesis
      unfolding p_def [symmetric] by (auto simp: createLoggerFile_def c)
  next
    case False
    let ?f = "set_item inst k (?l\<lparr>li_filepath := p, li_file := Null\<rparr>)"
    have rs: "ready sys ?f w1 = ready sys inst w1" for w1 by (rule ready_set_item [OF assms(2)]) simp
    have f: "fopen_append sys w p = Inl ENOENT" unfolding p_def by (rule fopen_append_cases [OF assms(1) m False])
    from ready_newDir [of sys ?f w] assms(1) obtain w1 where w1: "newDir sys ?f w (hl_dir inst) = Inr (?f, w1, True)"
        "ready sys inst w1" "is_dir w1 (resolve (hl_dir inst))" "same_files w w1" by (auto simp: rs)
    from fopen_append_ok [OF w1(2) m w1(3)] obtain w2 where w2: "fopen_append sys w1 p = Inr w2" "opened_in w1 p w2" "ready sys inst w2"
      unfolding p_def by blast
    have "opened_in w p w2" using w2(2) w1(4) by (auto simp: opened_in_def same_files_def)
    with w1(1) w2 f show ?thesis by (auto simp: createLoggerFile_def c)
  qed
qed

end
