(* ===== verification/Hlogger_Props.thy ===== *)
theory Hlogger_Props
  imports Hlogger_Files
begin

text \<open>
  What the callback of the log service writes, and where: every message becomes one line in the file of each of its levels, the invariant of
  the loggers is kept, and the service is ready for the next message.  Then how the service starts.
\<close>

section \<open>Writing\<close>

text \<open>The invariant of the loggers: the counts are not negative and fit, and every open file exists.\<close>

definition logger_ok :: "happy_logger \<Rightarrow> world \<Rightarrow> bool" where
  "logger_ok inst w \<longleftrightarrow> length (hl_loggers inst) = 4 \<and> hl_fsize inst = 1024 * 1024 * 1024 \<and>
     (\<forall>l \<in> set (hl_loggers inst). 0 \<le> li_fwrited l \<and> li_fwrited l < 2147483648 \<and>
        (\<forall>p. li_file l = Open p \<longrightarrow> resolve p \<in> set (w_files w)))"

text \<open>The writes go through, and the message with its header is shorter than a gigabyte.\<close>

definition writes_ok :: "io \<Rightarrow> nat \<Rightarrow> bool" where
  "writes_ok sys sz \<longleftrightarrow> io_write1 sys \<and> io_write3 sys \<and> sz \<le> io_write2 sys \<and> length (io_time sys) + sz < 2 ^ 30 - 15"

text \<open>Whether the next line of a level goes to the file that is open, which file it goes to, and how much that file then has.\<close>

definition keeps :: "io \<Rightarrow> happy_logger \<Rightarrow> nat \<Rightarrow> bool" where
  "keeps sys inst k \<longleftrightarrow> hl_mday inst = io_mday sys \<and> valid_file (li_file (hl_loggers inst ! k)) \<and> li_fwrited (hl_loggers inst ! k) \<le> hl_fsize inst"

definition target :: "io \<Rightarrow> happy_logger \<Rightarrow> nat \<Rightarrow> string" where
  "target sys inst k =
     (if keeps sys inst k then file_name (li_file (hl_loggers inst ! k)) else full_path sys (hl_dir inst) (li_fnamepre (hl_loggers inst ! k)))"

definition line_parts :: "io \<Rightarrow> u32 \<Rightarrow> string \<Rightarrow> nat \<Rightarrow> string list" where
  "line_parts sys source msg sz = [log_header sys source, take sz msg, [CHR 0x0A]]"

definition written :: "io \<Rightarrow> happy_logger \<Rightarrow> nat \<Rightarrow> nat \<Rightarrow> int" where
  "written sys inst k sz = (if keeps sys inst k then li_fwrited (hl_loggers inst ! k) else 0) + int (length (io_time sys) + sz + 15)"

lemma log_header_length: "length (log_header sys source) = length (io_time sys) + 14"
  by (simp add: log_header_def hex8_def)

lemma valid_file_Open: "valid_file f \<longleftrightarrow> (\<exists>p. f = Open p)"
  by (cases f) (auto simp: valid_file_def)

text \<open>What one level has become.\<close>

definition level_done :: "io \<Rightarrow> happy_logger \<Rightarrow> nat \<Rightarrow> nat \<Rightarrow> logger_item \<Rightarrow> bool" where
  "level_done sys inst k sz l \<longleftrightarrow> li_file l = Open (target sys inst k) \<and> li_fwrited l = written sys inst k sz \<and>
     li_fnamepre l = li_fnamepre (hl_loggers inst ! k)"

lemma write_message_ok:
  assumes "writes_ok sys sz" "sz \<le> length msg" "li_file (hl_loggers inst ! k) = Open p"
    and "0 \<le> li_fwrited (hl_loggers inst ! k)" "li_fwrited (hl_loggers inst ! k) \<le> 1024 * 1024 * 1024"
  shows "write_message sys inst w k source msg sz =
    Inr (set_item inst k ((hl_loggers inst ! k)\<lparr>li_fwrited := li_fwrited (hl_loggers inst ! k) + int (length (io_time sys) + sz + 15)\<rparr>),
      w\<lparr>w_log := w_log w @ map (Pair p) (line_parts sys source msg sz)\<rparr>, False)"
proof -
  have sz: "sz < 2 ^ 30" and h: "length (io_time sys) + sz < 2 ^ 30 - 15" using assms(1) by (auto simp: writes_ok_def)
  have "sint (of_nat sz :: u32) = int sz" using sz by (simp add: signed_of_nat signed_take_bit_int_eq_self)
  with assms h show ?thesis
    by (simp add: write_message_def Let_def writes_ok_def min_absorb1 log_header_length i32_eq append_file_def line_parts_def algebra_simps)
qed

lemma logger_ok_item: "logger_ok inst w \<Longrightarrow> k < 4 \<Longrightarrow> 0 \<le> li_fwrited (hl_loggers inst ! k) \<and> li_fwrited (hl_loggers inst ! k) < 2147483648"
  by (simp add: logger_ok_def)

lemma logger_ok_set:
  assumes "logger_ok inst w" "set (w_files w) \<subseteq> set (w_files w1)" "0 \<le> li_fwrited l" "li_fwrited l < 2147483648"
    "\<forall>p. li_file l = Open p \<longrightarrow> resolve p \<in> set (w_files w1)"
  shows "logger_ok (set_item inst k l) w1"
  using assms unfolding logger_ok_def by (auto dest!: set_update_subset_insert [THEN subsetD])

lemma logger_output_ok:
  assumes "ready sys inst w" "logger_ok inst w" "k < 3" "writes_ok sys sz" "sz \<le> length msg" "hl_mday inst = io_mday sys"
  shows "\<exists>l w1. logger_output sys inst w k source msg sz = Inr (set_item inst k l, w1, False) \<and> level_done sys inst k sz l \<and>
    w_log w1 = w_log w @ map (Pair (target sys inst k)) (line_parts sys source msg sz) \<and>
    ready sys (set_item inst k l) w1 \<and> logger_ok (set_item inst k l) w1"
proof -
  let ?l = "hl_loggers inst ! k"
  have k: "k < length (hl_loggers inst)" "k < 4" using assms(2,3) by (auto simp: logger_ok_def)
  have fs: "hl_fsize inst = 1024 * 1024 * 1024" using assms(2) by (simp add: logger_ok_def)
  have small: "length (io_time sys) + sz < 2 ^ 30 - 15" using assms(4) by (simp add: writes_ok_def)
  let ?n = "int (length (io_time sys) + sz + 15)"
  let ?add = "\<lambda>w1. w1\<lparr>w_log := w_log w1 @ map (Pair (target sys inst k)) (line_parts sys source msg sz)\<rparr>"
  have rd: "ready sys i (?add w1) = ready sys i w1" for i w1
    by (simp add: ready_def wf_world_def dir_free_def name_ok_def is_dir_def)
  have lo: "logger_ok i (?add w1) = logger_ok i w1" for i w1 by (simp add: logger_ok_def)
  show ?thesis
  proof (cases "keeps sys inst k")
    case True
    then obtain p where p: "li_file ?l = Open p" and le: "li_fwrited ?l \<le> 1024 * 1024 * 1024"
      by (auto simp: keeps_def valid_file_Open fs)
    have t: "target sys inst k = p" by (simp add: target_def True p)
    let ?fin = "?l\<lparr>li_fwrited := li_fwrited ?l + ?n\<rparr>"
    have "logger_output sys inst w k source msg sz = write_message sys inst w k source msg sz"
      using assms(3) True by (simp add: logger_output_def keeps_def)
    also have "\<dots> = Inr (set_item inst k ?fin, ?add w, False)"
      unfolding t by (rule write_message_ok [OF assms(4,5) p]) (use logger_ok_item [OF assms(2) k(2)] le in simp_all)
    finally have "logger_output sys inst w k source msg sz = Inr (set_item inst k ?fin, ?add w, False)" .
    moreover have "level_done sys inst k sz ?fin" by (simp add: level_done_def t p written_def True)
    moreover have "logger_ok (set_item inst k ?fin) (?add w)" unfolding lo
      by (rule logger_ok_set [OF assms(2) order_refl])
        (use logger_ok_item [OF assms(2) k(2)] le small assms(2) k in \<open>auto simp: logger_ok_def\<close>)
    moreover have "ready sys (set_item inst k ?fin) (?add w)" unfolding rd using ready_set_item [OF k(1)] assms(1) by simp
    ultimately show ?thesis by (intro exI [of _ ?fin] exI [of _ "?add w"]) simp
  next
    case False
    let ?p = "full_path sys (hl_dir inst) (li_fnamepre ?l)"
    have t: "target sys inst k = ?p" by (simp add: target_def False)
    let ?new = "?l\<lparr>li_filepath := ?p, li_file := Open ?p, li_fwrited := 0\<rparr>" and ?fin = "?l\<lparr>li_filepath := ?p, li_file := Open ?p, li_fwrited := ?n\<rparr>"
    have open_new: "\<exists>w1. logger_output sys inst w k source msg sz = write_message sys (set_item inst k ?new) w1 k source msg sz \<and>
        opened_in w ?p w1 \<and> ready sys inst w1"
    proof (cases "valid_file (li_file ?l)")
      case True
      then have gt: "li_fwrited ?l > hl_fsize inst" using False True assms(6) by (simp add: keeps_def)
      let ?i = "set_item inst k (closeFile ?l)"
      have "ready sys ?i w1 = ready sys inst w1" for w1 by (rule ready_set_item [OF k(1)]) (simp add: closeFile_def)
      with createLoggerFile_ok [of sys ?i w k] assms(1) k(1) True gt assms(3) show ?thesis
        by (auto simp: logger_output_def rollFile_def closeFile_def)
    next
      case False
      with createLoggerFile_ok [OF assms(1) k(1)] k(1) assms(3) show ?thesis
        by (auto simp: logger_output_def fs)
    qed
    then obtain w1 where w1: "logger_output sys inst w k source msg sz = write_message sys (set_item inst k ?new) w1 k source msg sz"
        "opened_in w ?p w1" "ready sys inst w1" by blast
    have "write_message sys (set_item inst k ?new) w1 k source msg sz = Inr (set_item inst k ?fin, ?add w1, False)"
      unfolding t using write_message_ok [OF assms(4,5), of "set_item inst k ?new" k ?p w1 source] k by simp
    with w1(1) have "logger_output sys inst w k source msg sz = Inr (set_item inst k ?fin, ?add w1, False)" by simp
    moreover have "level_done sys inst k sz ?fin" by (simp add: level_done_def t written_def False)
    moreover have "logger_ok (set_item inst k ?fin) (?add w1)" unfolding lo
      by (rule logger_ok_set [OF assms(2)]) (use w1(2) small in \<open>auto simp: opened_in_def\<close>)
    moreover have "ready sys (set_item inst k ?fin) (?add w1)" unfolding rd using ready_set_item [OF k(1)] w1(3) by simp
    moreover have "w_log w1 = w_log w" using w1(2) by (simp add: opened_in_def)
    ultimately show ?thesis by (intro exI [of _ ?fin] exI [of _ "?add w1"]) simp
  qed
qed

text \<open>Several levels, one after the other.\<close>

lemma level_done_other: "j \<noteq> k \<Longrightarrow> level_done sys (set_item inst k l) j sz l1 = level_done sys inst j sz l1"
  and target_other: "j \<noteq> k \<Longrightarrow> target sys (set_item inst k l) j = target sys inst j"
  by (simp_all add: level_done_def target_def written_def keeps_def)

lemma output_levels_ok:
  assumes "ready sys inst w" "logger_ok inst w" "set ks \<subseteq> {..<3}" "distinct ks" "writes_ok sys sz" "sz \<le> length msg" "hl_mday inst = io_mday sys"
  shows "\<exists>inst1 w1. output_levels sys inst w ks source msg sz = Inr (inst1, w1) \<and>
    (\<forall>k \<in> set ks. level_done sys inst k sz (hl_loggers inst1 ! k)) \<and>
    (\<forall>k. k \<notin> set ks \<longrightarrow> hl_loggers inst1 ! k = hl_loggers inst ! k) \<and>
    w_log w1 = w_log w @ concat (map (\<lambda>k. map (Pair (target sys inst k)) (line_parts sys source msg sz)) ks) \<and>
    ready sys inst1 w1 \<and> logger_ok inst1 w1 \<and> hl_mday inst1 = io_mday sys"
  using assms
proof (induction ks arbitrary: inst w)
  case (Cons k ks)
  have k3: "k < 3" and kl: "k < length (hl_loggers inst)" using Cons.prems by (auto simp: logger_ok_def)
  obtain l w1 where 1: "logger_output sys inst w k source msg sz = Inr (set_item inst k l, w1, False)" "level_done sys inst k sz l"
      "w_log w1 = w_log w @ map (Pair (target sys inst k)) (line_parts sys source msg sz)"
      "ready sys (set_item inst k l) w1" "logger_ok (set_item inst k l) w1"
    using logger_output_ok [OF Cons.prems(1,2) k3 Cons.prems(5,6,7)] by blast
  have ks: "set ks \<subseteq> {..<3}" "distinct ks" "k \<notin> set ks" using Cons.prems(3,4) by auto
  from Cons.IH [OF 1(4,5) ks(1,2) Cons.prems(5,6)] Cons.prems(7)
  obtain inst2 w2 where 2: "output_levels sys (set_item inst k l) w1 ks source msg sz = Inr (inst2, w2)"
      "\<forall>j \<in> set ks. level_done sys (set_item inst k l) j sz (hl_loggers inst2 ! j)"
      "\<forall>j. j \<notin> set ks \<longrightarrow> hl_loggers inst2 ! j = hl_loggers (set_item inst k l) ! j"
      "w_log w2 = w_log w1 @ concat (map (\<lambda>j. map (Pair (target sys (set_item inst k l) j)) (line_parts sys source msg sz)) ks)"
      "ready sys inst2 w2" "logger_ok inst2 w2" "hl_mday inst2 = io_mday sys" by auto
  have t: "map (\<lambda>j. map (Pair (target sys (set_item inst k l) j)) (line_parts sys source msg sz)) ks =
      map (\<lambda>j. map (Pair (target sys inst j)) (line_parts sys source msg sz)) ks"
    using ks(3) by (intro map_cong refl) (metis target_other)
  have "\<forall>j \<in> set (k # ks). level_done sys inst j sz (hl_loggers inst2 ! j)"
  proof
    fix j assume "j \<in> set (k # ks)"
    show "level_done sys inst j sz (hl_loggers inst2 ! j)"
    proof (cases "j = k")
      case True
      then show ?thesis using 1(2) 2(3) ks(3) kl by simp
    next
      case False
      then show ?thesis using 2(2) level_done_other [OF False] \<open>j \<in> set (k # ks)\<close> by auto
    qed
  qed
  moreover have "\<forall>j. j \<notin> set (k # ks) \<longrightarrow> hl_loggers inst2 ! j = hl_loggers inst ! j" using 2(3) by simp
  ultimately show ?case using 1(1,3) 2(1,4-7) unfolding t by (intro exI [of _ inst2] exI [of _ w2]) simp
qed auto

lemma levels_distinct: "distinct (levels type)" "set (levels type) \<subseteq> {..<3}"
  by (cases type; simp)+

text \<open>At the change of the day all files are closed.\<close>

definition today :: "io \<Rightarrow> happy_logger \<Rightarrow> happy_logger" where
  "today sys inst = (if hl_mday inst \<noteq> io_mday sys then closeAllFiles (inst\<lparr>hl_mday := io_mday sys\<rparr>) else inst)"

lemma today_facts:
  assumes "length (hl_loggers inst) = 4"
  shows "hl_mday (today sys inst) = io_mday sys" "ready sys (today sys inst) w = ready sys inst w"
    "logger_ok inst w \<Longrightarrow> logger_ok (today sys inst) w"
    "k < 4 \<Longrightarrow> target sys (today sys inst) k = target sys inst k" "k < 4 \<Longrightarrow> level_done sys (today sys inst) k sz l = level_done sys inst k sz l"
proof -
  show "ready sys (today sys inst) w = ready sys inst w"
    by (rule ready_cong) (simp_all add: today_def closeAllFiles_def closeFile_def)
  show "logger_ok inst w \<Longrightarrow> logger_ok (today sys inst) w"
    by (auto simp: today_def closeAllFiles_def closeFile_def logger_ok_def)
qed (use assms in \<open>simp_all add: today_def closeAllFiles_def closeFile_def target_def keeps_def level_done_def written_def valid_file_def\<close>)

lemma hlogger_cb_writes:
  assumes "ready sys inst w" "logger_ok inst w" "writes_ok sys sz" "sz \<le> length msg" "CHR 0x00 \<in> set msg"
  shows "\<exists>inst1 w1. hlogger_cb sys inst w type source msg sz = Inr (inst1, w1) \<and>
    w_log w1 = w_log w @ concat (map (\<lambda>k. map (Pair (target sys inst k)) (line_parts sys source msg sz)) (levels type)) \<and>
    (\<forall>k \<in> set (levels type). level_done sys inst k sz (hl_loggers inst1 ! k)) \<and>
    ready sys inst1 w1 \<and> logger_ok inst1 w1 \<and> hl_mday inst1 = io_mday sys"
proof -
  have l4: "length (hl_loggers inst) = 4" using assms(2) by (simp add: logger_ok_def)
  have k4: "k < 4" if "k \<in> set (levels type)" for k using levels_distinct(2) [of type] that by fastforce
  obtain inst1 w1 where r: "output_levels sys (today sys inst) w (levels type) source msg sz = Inr (inst1, w1)"
      "\<forall>k \<in> set (levels type). level_done sys (today sys inst) k sz (hl_loggers inst1 ! k)"
      "w_log w1 = w_log w @ concat (map (\<lambda>k. map (Pair (target sys (today sys inst) k)) (line_parts sys source msg sz)) (levels type))"
      "ready sys inst1 w1" "logger_ok inst1 w1" "hl_mday inst1 = io_mday sys"
    using output_levels_ok [of sys "today sys inst" w "levels type" sz msg source] assms levels_distinct today_facts(1,2,3) [OF l4] by blast
  have m: "map (\<lambda>k. map (Pair (target sys (today sys inst) k)) (line_parts sys source msg sz)) (levels type) =
      map (\<lambda>k. map (Pair (target sys inst k)) (line_parts sys source msg sz)) (levels type)"
    using k4 today_facts(4) [OF l4] by simp
  have d: "\<forall>k \<in> set (levels type). level_done sys inst k sz (hl_loggers inst1 ! k)" using r(2) k4 today_facts(5) [OF l4] by blast
  have "hlogger_cb sys inst w type source msg sz = output_levels sys (today sys inst) w (levels type) source msg sz"
    using assms(5) by (simp add: hlogger_cb_def c_string_def today_def)
  with r(1) r(3-6) d show ?thesis unfolding m by (intro exI [of _ inst1] exI [of _ w1]) simp
qed

section \<open>Starting\<close>

lemma logger_names_set: "set logger_names = {''error'', ''warn'', ''info'', ''debug''}"
  by (simp add: logger_names_def)

lemma hlogger_init_makes:
  assumes "log_dir e = Inr (Some dir)" "wf_world w" "dir_name dir" "dir_free sys w dir" "\<forall>pre \<in> set logger_names. name_ok sys w dir pre"
  shows "\<exists>inst w1. hlogger_init sys e hlogger_create w = Inr (inst, w1, False) \<and> logger_ok inst w1 \<and> ready sys inst w1 \<and>
    is_dir w1 (resolve dir) \<and> hl_dir inst = dir \<and> hl_mday inst = io_mday sys \<and> map li_fnamepre (hl_loggers inst) = logger_names \<and>
    w_log w1 = w_log w \<and> w_files w1 = w_files w"
proof -
  let ?i = "hlogger_create\<lparr>hl_dir := dir\<rparr>"
  let ?named = "\<lambda>i. map2 (\<lambda>l s. l\<lparr>li_fnamepre := s\<rparr>) (hl_loggers i) logger_names"
  let ?inst = "?i\<lparr>hl_fsize := 1024 * 1024 * 1024, hl_mday := io_mday sys, hl_loggers := ?named ?i\<rparr>"
  have n: "map li_fnamepre (hl_loggers ?inst) = logger_names"
    by (simp add: hlogger_create_def logger_names_def numeral_eq_Suc)
  have "ready sys ?inst w" using assms(2-5) unfolding ready_def n by simp
  from ready_newDir [OF this] obtain w1 where w1: "newDir sys ?inst w dir = Inr (?inst, w1, True)" "ready sys ?inst w1" "is_dir w1 (resolve dir)" "same_files w w1"
    by auto
  have w2: "newDir sys ?i w dir = Inr (?i, w1, True)"
    using w1(1) by (auto simp: newDir_def split: if_splits prod.splits bool.splits option.splits)
  have "hlogger_init sys e hlogger_create w = Inr (?inst, w1, False)"
    using assms(1) w2 by (simp add: hlogger_init_def)
  moreover have "logger_ok ?inst w1" by (auto simp: logger_ok_def hlogger_create_def logger_names_def numeral_eq_Suc)
  ultimately show ?thesis using w1(2-4) n by (intro exI [of _ ?inst] exI [of _ w1]) (simp add: same_files_def)
qed

section \<open>Theorems\<close>

definition ex_io :: io where
  "ex_io = \<lparr>io_time = ''7.250'', io_date = ''2023-03-25_09-02-43'', io_pid = ''12'', io_mday = 25, io_denied = (\<lambda>_. False),
     io_write1 = True, io_write2 = 1000, io_write3 = True\<rparr>"

definition ex_world :: world where
  "ex_world = \<lparr>w_dirs = [], w_files = [], w_log = []\<rparr>"

lemma ex_world_ok: "wf_world ex_world" "dir_free ex_io ex_world dir"
  by (simp_all add: ex_world_def wf_world_def dir_free_def ex_io_def)

lemma ex_dir: "dir_name ''./log/game''"
  by (simp add: dir_name_def proper_def)



text \<open>
  C37: With a slash at the end of the name of a directory that is not there yet, the loop makes the directory, and the call then reports a
  failure and closes all files because the directory exists: a log path that ends in a slash makes the first start of the service fail.
\<close>

theorem newDir_trailing_slash:
  assumes "wf_world w" "dir_name s" "length s < 256" "dir_free sys w s" "\<not> is_dir w (resolve s)"
  shows "\<exists>w1. newDir sys inst w (s @ ''/'') = Inr (closeAllFiles inst, w1, False) \<and> is_dir w1 (resolve (s @ ''/'')) \<and>
    newDir sys inst w1 (s @ ''/'') = Inr (inst, w1, True)"
proof -
  from newDir_slash [OF assms, of inst] obtain w1 where
      w1: "newDir sys inst w (s @ ''/'') = Inr (closeAllFiles inst, w1, False)" "is_dir w1 (resolve (s @ ''/''))" by blast
  then have "newDir sys inst w1 (s @ ''/'') = Inr (inst, w1, True)" by (simp add: newDir_def access_ok_def)
  with w1 show ?thesis by blast
qed

theorem newDir_trailing_slash_witness:
  "\<exists>w1. newDir ex_io hlogger_create ex_world ''./log/game/'' = Inr (closeAllFiles hlogger_create, w1, False)"
  using newDir_trailing_slash [OF ex_world_ok(1) ex_dir _ ex_world_ok(2), of hlogger_create]
  by (auto simp: ex_world_def is_dir_def resolve_def comps_def)

text \<open>
  With a directory from the configuration, or from the settings and the working directory, that can be made, and with names of files that
  fit, the service starts: the directory exists, the loggers have their names and no open file, and the service is ready for messages.
\<close>

theorem hlogger_init_starts:
  assumes "log_dir e = Inr (Some dir)" "wf_world w" "dir_name dir" "dir_free sys w dir" "\<forall>pre \<in> set logger_names. name_ok sys w dir pre"
  shows "\<exists>inst w1. hlogger_init sys e hlogger_create w = Inr (inst, w1, False) \<and> logger_ok inst w1 \<and> ready sys inst w1 \<and>
    is_dir w1 (resolve dir) \<and> hl_dir inst = dir \<and> map li_fnamepre (hl_loggers inst) = logger_names \<and> w_log w1 = w_log w"
  using hlogger_init_makes [OF assms] by blast

definition ex_env :: env where
  "ex_env = \<lparr>env_node_type = Some ''game'', env_config = Some (''webserver_logpath=./log/web'' @ [CHR 0x0A] @ ''game_logpath=./log/game'' @ [CHR 0x0A]),
     env_logpath = None, env_cwd = None\<rparr>"

lemma ex_env_dir: "log_dir ex_env = Inr (Some ''./log/game'')"
proof -
  have "find_line ''game_logpath='' (''webserver_logpath=./log/web'' @ [CHR 0x0A] @ ''game_logpath=./log/game'' @ [CHR 0x0A]) =
      Some (''./log/game'' @ [CHR 0x0A])"
    by (subst find_line.simps, simp add: numeral_eq_Suc, subst find_line.simps, simp add: numeral_eq_Suc)
  then show ?thesis by (simp add: log_dir_def hlogger_read_config_def ex_env_def)
qed

lemma ex_names: "\<forall>pre \<in> set logger_names. name_ok ex_io ex_world ''./log/game'' pre"
  by (simp add: logger_names_def name_ok_def full_path_def log_name_def ex_io_def ex_world_def)

theorem hlogger_init_starts_witness:
  "\<exists>inst w1. hlogger_init ex_io ex_env hlogger_create ex_world = Inr (inst, w1, False) \<and> ready ex_io inst w1"
  using hlogger_init_starts [OF ex_env_dir ex_world_ok(1) ex_dir ex_world_ok(2) ex_names] by blast

text \<open>
  C10: A message that ends with a zero byte is appended, as header, message and newline, to the file of each of its levels and to nothing
  else, in the order of the levels: the open file if it is of today and has not grown above the limit, or else a new one with the date in
  its name.  The counts of bytes are those of the files since they were opened and never overflow, every open file exists, and the service is
  ready for the next message.  So from any state that satisfies the invariant, also after the directory has been removed.
\<close>

theorem hlogger_cb_appends:
  assumes "ready sys inst w" "logger_ok inst w" "writes_ok sys sz" "sz \<le> length msg" "CHR 0x00 \<in> set msg"
  shows "\<exists>inst1 w1. hlogger_cb sys inst w type source msg sz = Inr (inst1, w1) \<and>
    w_log w1 = w_log w @ concat (map (\<lambda>k. map (Pair (target sys inst k)) (line_parts sys source msg sz)) (levels type)) \<and>
    (\<forall>k \<in> set (levels type). li_file (hl_loggers inst1 ! k) = Open (target sys inst k) \<and> li_fwrited (hl_loggers inst1 ! k) = written sys inst k sz) \<and>
    ready sys inst1 w1 \<and> logger_ok inst1 w1"
  using hlogger_cb_writes [OF assms, of type source] unfolding level_done_def by blast

theorem hlogger_cb_appends_witness:
  "\<exists>inst w inst1 w1. hlogger_init ex_io ex_env hlogger_create ex_world = Inr (inst, w, False) \<and>
    hlogger_cb ex_io inst w PTYPE_LOG_WARN 0x1f (''disk'' @ [CHR 0x00]) 4 = Inr (inst1, w1) \<and>
    w_log w1 = [(''./log/game/warn_2023-03-25_09-02-43_12.log'', ''[:0000001f] (7.250)''),
      (''./log/game/warn_2023-03-25_09-02-43_12.log'', ''disk''), (''./log/game/warn_2023-03-25_09-02-43_12.log'', [CHR 0x0A]),
      (''./log/game/info_2023-03-25_09-02-43_12.log'', ''[:0000001f] (7.250)''),
      (''./log/game/info_2023-03-25_09-02-43_12.log'', ''disk''), (''./log/game/info_2023-03-25_09-02-43_12.log'', [CHR 0x0A])]"
proof -
  obtain inst w where i: "hlogger_init ex_io ex_env hlogger_create ex_world = Inr (inst, w, False)" "logger_ok inst w" "ready ex_io inst w"
      "hl_dir inst = ''./log/game''" "map li_fnamepre (hl_loggers inst) = logger_names" "w_log w = []" "w_files w = []"
    using hlogger_init_makes [OF ex_env_dir ex_world_ok(1) ex_dir ex_world_ok(2) ex_names] by (auto simp: ex_world_def)
  have "writes_ok ex_io 4" by (simp add: writes_ok_def ex_io_def)
  from hlogger_cb_appends [OF i(3,2) this, of "''disk'' @ [CHR 0x00]" PTYPE_LOG_WARN "0x1f"] obtain inst1 w1
    where c: "hlogger_cb ex_io inst w PTYPE_LOG_WARN 0x1f (''disk'' @ [CHR 0x00]) 4 = Inr (inst1, w1)"
      "w_log w1 = w_log w @ concat (map (\<lambda>k. map (Pair (target ex_io inst k)) (line_parts ex_io 0x1f (''disk'' @ [CHR 0x00]) 4)) (levels PTYPE_LOG_WARN))"
    by auto
  have t: "target ex_io inst k = full_path ex_io ''./log/game'' (logger_names ! k)" if "k < 4" for k
  proof -
    have "length (hl_loggers inst) = 4" using i(2) by (simp add: logger_ok_def)
    then have "li_fnamepre (hl_loggers inst ! k) = logger_names ! k" using that i(5) by (metis nth_map)
    moreover have "\<not> valid_file (li_file (hl_loggers inst ! k))"
      using i(2,7) that \<open>length _ = 4\<close> by (auto simp: logger_ok_def valid_file_Open)
    ultimately show ?thesis by (simp add: target_def keeps_def i(4))
  qed
  have "hex8 0x1f = ''0000001f''" by (simp add: hex8_def hex_digit_def upt_rec)
  then have "line_parts ex_io 0x1f (''disk'' @ [CHR 0x00]) 4 = [''[:0000001f] (7.250)'', ''disk'', [CHR 0x0A]]"
    by (simp add: line_parts_def log_header_def ex_io_def)
  moreover have "target ex_io inst 1 = ''./log/game/warn_2023-03-25_09-02-43_12.log''" "target ex_io inst 2 = ''./log/game/info_2023-03-25_09-02-43_12.log''"
    using t [of 1] t [of 2] by (simp_all add: full_path_def log_name_def ex_io_def logger_names_def)
  ultimately have "w_log w1 = [(''./log/game/warn_2023-03-25_09-02-43_12.log'', ''[:0000001f] (7.250)''),
      (''./log/game/warn_2023-03-25_09-02-43_12.log'', ''disk''), (''./log/game/warn_2023-03-25_09-02-43_12.log'', [CHR 0x0A]),
      (''./log/game/info_2023-03-25_09-02-43_12.log'', ''[:0000001f] (7.250)''),
      (''./log/game/info_2023-03-25_09-02-43_12.log'', ''disk''), (''./log/game/info_2023-03-25_09-02-43_12.log'', [CHR 0x0A])]"
    by (simp only: c(2) i(6) levels.simps list.map concat.simps append.simps)
  with c(1) i(1) show ?thesis by blast
qed

end
