(* ===== verification/Hloggerlib.thy ===== *)
theory Hloggerlib
  imports Hlogger_Props
begin

text \<open>
  The Lua functions of \<^verbatim>\<open>src/depends/hloggerlib/hloggerlib.c\<close>: \<open>error\<close>, \<open>warn\<close>, \<open>info\<close> and \<open>debug\<close> put their arguments together to a text, and send
  it to the log service of the theory Hlogger.  What belongs to Lua and to skynet is an argument: the texts of values, the numbers of the
  types of messages, and the handle that the name of the service gives.
\<close>

section \<open>The text\<close>

text \<open>\<open>luaL_tolstring\<close> gives a text for every value, \<open>lua_tolstring\<close> only for strings and numbers.\<close>

record 'v lua_api =
  luaL_tolstring :: "'v \<Rightarrow> string"
  lua_tolstring :: "'v \<Rightarrow> string option"

fun join_loop :: "('v \<Rightarrow> string) \<Rightarrow> 'v list \<Rightarrow> string" where
  "join_loop f [] = []"
| "join_loop f [v] = f v"
| "join_loop f (v # vs) = f v @ CHR '' '' # join_loop f vs"

text \<open>What is on top of the stack afterwards: one argument is left as it is.\<close>

datatype 'v top = Empty | Argument 'v | Text string

fun ljoinargs :: "'v lua_api \<Rightarrow> 'v list \<Rightarrow> 'v top" where
  "ljoinargs L [] = Empty"
| "ljoinargs L [v] = Argument v"
| "ljoinargs L vs = Text (join_loop (luaL_tolstring L) vs)"

text \<open>The message and its length.  The stack of a call without arguments has nothing to read.\<close>

fun top_message :: "'v lua_api \<Rightarrow> 'v top \<Rightarrow> string run" where
  "top_message L Empty = Inl OutOfBounds"
| "top_message L (Argument v) = Inr (case lua_tolstring L v of Some s \<Rightarrow> s | None \<Rightarrow> [])"
| "top_message L (Text s) = Inr s"

section \<open>Sending\<close>

record skynet =
  sk_shift :: nat
  sk_ptype :: "msg_type \<Rightarrow> nat"

record skynet_message =
  sm_source :: u32
  sm_session :: int
  sm_data :: string
  sm_sz :: u64

text \<open>
  The handle of the service is looked up until it is found, and kept.  Without it the message is lost.  The data is a new block with exactly
  the bytes of the message.
\<close>

definition send_logger :: "skynet \<Rightarrow> u32 \<Rightarrow> u32 \<Rightarrow> u32 option \<Rightarrow> msg_type \<Rightarrow> string \<Rightarrow> u32 \<times> (u32 \<times> skynet_message) option" where
  "send_logger sk found logger ctx type msg =
     (let logger = (if logger = 0 then found else logger) in
      if logger = 0 then (logger, None)
      else (logger, Some (logger,
        \<lparr>sm_source = (case ctx of None \<Rightarrow> 0 | Some h \<Rightarrow> h), sm_session = 0, sm_data = msg,
         sm_sz = of_nat (length msg) OR push_bit (sk_shift sk) (of_nat (sk_ptype sk type))\<rparr>)))"

definition log_call :: "'v lua_api \<Rightarrow> skynet \<Rightarrow> u32 \<Rightarrow> u32 \<Rightarrow> u32 option \<Rightarrow> msg_type \<Rightarrow> 'v list \<Rightarrow> (u32 \<times> (u32 \<times> skynet_message) option) run" where
  "log_call L sk found logger ctx type args =
     bindR (top_message L (ljoinargs L args)) (\<lambda>msg. Inr (send_logger sk found logger ctx type msg))"

definition lerror :: "'v lua_api \<Rightarrow> skynet \<Rightarrow> u32 \<Rightarrow> u32 \<Rightarrow> u32 option \<Rightarrow> 'v list \<Rightarrow> (u32 \<times> (u32 \<times> skynet_message) option) run" where
  "lerror L sk found logger ctx args = log_call L sk found logger ctx PTYPE_LOG_ERROR args"

definition lwarn :: "'v lua_api \<Rightarrow> skynet \<Rightarrow> u32 \<Rightarrow> u32 \<Rightarrow> u32 option \<Rightarrow> 'v list \<Rightarrow> (u32 \<times> (u32 \<times> skynet_message) option) run" where
  "lwarn L sk found logger ctx args = log_call L sk found logger ctx PTYPE_LOG_WARN args"

definition linfo :: "'v lua_api \<Rightarrow> skynet \<Rightarrow> u32 \<Rightarrow> u32 \<Rightarrow> u32 option \<Rightarrow> 'v list \<Rightarrow> (u32 \<times> (u32 \<times> skynet_message) option) run" where
  "linfo L sk found logger ctx args = log_call L sk found logger ctx PTYPE_LOG_INFO args"

definition ldebug :: "'v lua_api \<Rightarrow> skynet \<Rightarrow> u32 \<Rightarrow> u32 \<Rightarrow> u32 option \<Rightarrow> 'v list \<Rightarrow> (u32 \<times> (u32 \<times> skynet_message) option) run" where
  "ldebug L sk found logger ctx args = log_call L sk found logger ctx PTYPE_LOG_DEBUG args"

section \<open>The word with size and type\<close>

lemma size_word:
  assumes "k < 64" "n < 2 ^ k" "t < 2 ^ (64 - k)"
  shows "unat (take_bit k (of_nat n OR push_bit k (of_nat t) :: u64)) = n" "unat (drop_bit k (of_nat n OR push_bit k (of_nat t) :: u64)) = t"
proof -
  have n64: "n < 2 ^ 64" using assms(1,2) by (meson less_le_trans less_imp_le power_increasing one_le_numeral)
  have un: "unat (of_nat n :: u64) = n" using n64 by (simp add: unsigned_of_nat take_bit_nat_eq_self)
  have t64: "t < 2 ^ 64" using assms(3) by (meson less_le_trans diff_le_self power_increasing one_le_numeral)
  have ut: "unat (of_nat t :: u64) = t" using t64 by (simp add: unsigned_of_nat take_bit_nat_eq_self)
  have bn: "i < k" if "bit n i" for i
    using that take_bit_nat_eq_self [OF assms(2)] bit_take_bit_iff [of k n i] by simp
  have bt: "i < 64 - k" if "bit t i" for i
    using that take_bit_nat_eq_self [OF assms(3)] bit_take_bit_iff [of "64 - k" t i] by simp
  have "take_bit k (of_nat n OR push_bit k (of_nat t) :: u64) = of_nat n"
    by (rule bit_word_eqI) (auto simp: bit_simps dest: bn)
  then show "unat (take_bit k (of_nat n OR push_bit k (of_nat t) :: u64)) = n" using un by simp
  have "drop_bit k (of_nat n OR push_bit k (of_nat t) :: u64) = of_nat t"
    by (rule bit_word_eqI) (auto simp: bit_simps dest: bn bt)
  then show "unat (drop_bit k (of_nat n OR push_bit k (of_nat t) :: u64)) = t" using ut by simp
qed

section \<open>Theorems\<close>

lemma log_call_sends:
  assumes "2 \<le> length args" "logger = 0 \<longrightarrow> found \<noteq> 0"
  shows "log_call L sk found logger ctx type args =
    (let h = if logger = 0 then found else logger in Inr (h, Some (h,
      \<lparr>sm_source = (case ctx of None \<Rightarrow> 0 | Some c \<Rightarrow> c), sm_session = 0, sm_data = join_loop (luaL_tolstring L) args,
       sm_sz = of_nat (length (join_loop (luaL_tolstring L) args)) OR push_bit (sk_shift sk) (of_nat (sk_ptype sk type))\<rparr>)))"
  using assms by (cases "(L, args)" rule: ljoinargs.cases) (auto simp: log_call_def send_logger_def Let_def)

lemma join_loop_set: "set (join_loop f vs) \<subseteq> insert (CHR '' '') (\<Union>v \<in> set vs. set (f v))"
  by (induction f vs rule: join_loop.induct) auto

lemma no_terminator: "levels type \<noteq> [] \<Longrightarrow> CHR 0x00 \<notin> set msg \<Longrightarrow> hlogger_cb sys inst w type source msg sz = Inl OutOfBounds"
  by (simp add: hlogger_cb_def c_string_def)

text \<open>
  C25: The message of \<open>info\<close> with two or more arguments holds their texts with a space between, and skynet can take the length and the type of the
  message out of the word for the size.  But the block ends with the last byte of the text: if the texts have no zero byte, the callback of
  the log service, which prints the message as a C string, reads beyond its end, in every state and whatever the system does.
\<close>

theorem info_unterminated:
  assumes "2 \<le> length args" "found \<noteq> 0" "\<forall>v \<in> set args. CHR 0x00 \<notin> set (luaL_tolstring L v)"
    and "sk_shift sk < 64" "length (join_loop (luaL_tolstring L) args) < 2 ^ sk_shift sk" "sk_ptype sk PTYPE_LOG_INFO < 2 ^ (64 - sk_shift sk)"
  shows "\<exists>m. linfo L sk found 0 (Some source) args = Inr (found, Some (found, m)) \<and> sm_data m = join_loop (luaL_tolstring L) args \<and>
    unat (take_bit (sk_shift sk) (sm_sz m)) = length (sm_data m) \<and> unat (drop_bit (sk_shift sk) (sm_sz m)) = sk_ptype sk PTYPE_LOG_INFO \<and>
    (\<forall>sys inst w. hlogger_cb sys inst w PTYPE_LOG_INFO (sm_source m) (sm_data m) (length (sm_data m)) = Inl OutOfBounds)"
proof -
  let ?t = "join_loop (luaL_tolstring L) args"
  have "CHR 0x00 \<notin> set ?t" using assms(3) join_loop_set [of "luaL_tolstring L" args] by auto
  then have "hlogger_cb sys inst w PTYPE_LOG_INFO s ?t n = Inl OutOfBounds" for sys inst w s n by (intro no_terminator) simp_all
  with size_word [OF assms(4-6)] log_call_sends [OF assms(1), of 0 found L sk "Some source" PTYPE_LOG_INFO] assms(2) show ?thesis
    by (simp add: linfo_def)
qed

theorem info_unterminated_witness:
  "\<exists>m. linfo \<lparr>luaL_tolstring = id, lua_tolstring = Some\<rparr> \<lparr>sk_shift = 56, sk_ptype = (\<lambda>_. 20)\<rparr> 4 0 (Some 7) [''room'', ''full''] = Inr (4, Some (4, m)) \<and>
    sm_data m = ''room full'' \<and> hlogger_cb ex_io hlogger_create ex_world PTYPE_LOG_INFO (sm_source m) (sm_data m) (length (sm_data m)) = Inl OutOfBounds"
  using info_unterminated [of "[''room'', ''full'']" 4 "\<lparr>luaL_tolstring = id, lua_tolstring = Some\<rparr>" "\<lparr>sk_shift = 56, sk_ptype = (\<lambda>_. 20)\<rparr>" 7]
  by auto

end
