(* ===== verification/Luacfg.thy ===== *)
theory Luacfg
  imports Main
begin

text \<open>
  The configuration of the process, \<^verbatim>\<open>src/depends/lua-cfg/luacfg.c\<close>: one Lua state that all services share behind a lock, filled from a file
  that is a Lua program.  What the program does is an argument: opening the file, and running its text.  Calls do not overlap, because of the
  lock, so that a lock that is held when a call starts has been left by an earlier one and is never released.  The path that is kept for
  reloading is taken to stay valid.
\<close>

section \<open>The Lua state\<close>

text \<open>Values as \<open>lua_isstring\<close> and \<open>lua_tostring\<close> see them: a number has a text too.\<close>

datatype cval = CString string | CNumber string | COther

datatype ckey = KString string | KOther

type_synonym globals = "string \<Rightarrow> cval option"

text \<open>What the file gives: it cannot be opened, it is no file with a text, as a directory, or it has a text.\<close>

datatype opened = OpenError | NoText | FileText string

text \<open>The last value that the text returns, if it does not fail.\<close>

datatype returned = Table "(ckey \<times> cval) list" | NotTable

text \<open>
  The libraries of a new state, what the file of a name is at the time of the call, and what running a text makes of the globals and returns.
\<close>

record lua =
  lu_libs :: globals
  lu_open :: "string \<Rightarrow> opened"
  lu_run :: "globals \<Rightarrow> string \<Rightarrow> (globals \<times> returned) option"

definition c_str :: "string \<Rightarrow> string" where
  "c_str s = takeWhile (\<lambda>c. c \<noteq> CHR 0x00) s"

section \<open>Loading\<close>

text \<open>The table becomes global variables, up to a key that is not a string.\<close>

fun init_path_to_global :: "globals \<Rightarrow> (ckey \<times> cval) list \<Rightarrow> globals option" where
  "init_path_to_global g [] = Some g"
| "init_path_to_global g ((KString k, v) # r) = init_path_to_global (g(c_str k \<mapsto> v)) r"
| "init_path_to_global g ((KOther, v) # r) = None"

record cfg =
  cf_L :: "globals option"
  cf_init :: bool
  cf_file :: "string option"
  cf_lock :: bool

definition cfg_start :: cfg where
  "cfg_start = \<lparr>cf_L = None, cf_init = False, cf_file = None, cf_lock = False\<rparr>"

text \<open>A call returns values, throws an error to Lua, waits for the lock for ever, or reads through a null pointer.\<close>

datatype rval = RString string | RBool bool

datatype reply = Returns "rval list" | Throws | Hangs | Crash

text \<open>The new state, \<open>None\<close> if something failed; the flag is for the crash.\<close>

definition load_new :: "lua \<Rightarrow> string \<Rightarrow> globals option \<times> bool" where
  "load_new U file_path =
     (case lu_open U (c_str file_path) of
        OpenError \<Rightarrow> (None, False)
      | NoText \<Rightarrow> (None, True)
      | FileText content \<Rightarrow>
          (case lu_run U ((lu_libs U)(''file'' \<mapsto> COther, ''content'' \<mapsto> CString content)) (c_str content) of
             None \<Rightarrow> (None, False)
           | Some (g, NotTable) \<Rightarrow> (None, False)
           | Some (g, Table es) \<Rightarrow> (init_path_to_global g es, False)))"

text \<open>The old state is closed only when the new one is complete.\<close>

definition load_config :: "lua \<Rightarrow> string \<Rightarrow> cfg \<Rightarrow> cfg \<times> bool option" where
  "load_config U file_path C =
     (case load_new U file_path of
        (_, True) \<Rightarrow> (C, None)
      | (None, False) \<Rightarrow> (C, Some False)
      | (Some g, False) \<Rightarrow> (C\<lparr>cf_L := Some g\<rparr>, Some True))"

section \<open>The functions of the library\<close>

text \<open>\<open>luaL_checkstring\<close>: the argument if it is there and is a string or a number.\<close>

definition checkstring :: "string option list \<Rightarrow> nat \<Rightarrow> string option" where
  "checkstring args i = (if i < length args then args ! i else None)"

definition l_config_init :: "lua \<Rightarrow> string option list \<Rightarrow> cfg \<Rightarrow> cfg \<times> reply" where
  "l_config_init U args C =
     (case checkstring args 0 of
        None \<Rightarrow> (C, Throws)
      | Some service_name \<Rightarrow>
          if cf_lock C then (C, Hangs)
          else
            let C = C\<lparr>cf_lock := True\<rparr> in
            if cf_init C then (C\<lparr>cf_lock := False\<rparr>, Returns [])
            else
              (case checkstring args 1 of
                 None \<Rightarrow> (C, Throws)
               | Some file_path \<Rightarrow>
                   (case load_config U file_path (C\<lparr>cf_file := Some file_path\<rparr>) of
                      (C, None) \<Rightarrow> (C, Crash)
                    | (C, Some ok) \<Rightarrow> (C\<lparr>cf_init := True, cf_lock := False\<rparr>, Returns [RBool ok]))))"

definition l_config_reload :: "lua \<Rightarrow> cfg \<Rightarrow> cfg \<times> reply" where
  "l_config_reload U C =
     (case cf_file C of
        None \<Rightarrow> (C, Returns [])
      | Some file_path \<Rightarrow>
          if cf_lock C then (C, Hangs)
          else
            (case load_config U file_path (C\<lparr>cf_lock := True\<rparr>) of
               (C, None) \<Rightarrow> (C, Crash)
             | (C, Some ok) \<Rightarrow> (C\<lparr>cf_lock := False\<rparr>, Returns [RBool ok])))"

definition get_config_value :: "cfg \<Rightarrow> string \<Rightarrow> string option" where
  "get_config_value C key =
     (case cf_L C of
        None \<Rightarrow> None
      | Some g \<Rightarrow> (case g (c_str key) of Some (CString s) \<Rightarrow> Some s | Some (CNumber s) \<Rightarrow> Some s | _ \<Rightarrow> None))"

definition l_config_get :: "string option list \<Rightarrow> cfg \<Rightarrow> cfg \<times> reply" where
  "l_config_get args C =
     (case checkstring args 0 of
        None \<Rightarrow> (C, Throws)
      | Some key \<Rightarrow>
          if cf_lock C then (C, Hangs)
          else (C, Returns (case get_config_value C key of None \<Rightarrow> [] | Some s \<Rightarrow> [RString (c_str s)])))"

text \<open>A sequence of calls, each with what the file is at that time; after a crash there are no more.\<close>

datatype call = Init "string option list" | Reload | Get "string option list"

fun do_call :: "lua \<times> call \<Rightarrow> cfg \<Rightarrow> cfg \<times> reply" where
  "do_call (U, Init args) C = l_config_init U args C"
| "do_call (U, Reload) C = l_config_reload U C"
| "do_call (U, Get args) C = l_config_get args C"

fun do_calls :: "(lua \<times> call) list \<Rightarrow> cfg \<Rightarrow> cfg \<times> reply list" where
  "do_calls [] C = (C, [])"
| "do_calls (x # xs) C =
     (let (C, r) = do_call x C in
      if r = Crash then (C, [r]) else let (C, rs) = do_calls xs C in (C, r # rs))"

section \<open>What the table means\<close>

lemma c_str_id: "CHR 0x00 \<notin> set s \<Longrightarrow> c_str s = s"
  unfolding c_str_def by (rule takeWhile_eq_all_conv [THEN iffD2]) blast

text \<open>Names without zero bytes.\<close>

definition plain_keys :: "(ckey \<times> cval) list \<Rightarrow> bool" where
  "plain_keys es \<longleftrightarrow> distinct (map fst es) \<and> (\<forall>s \<in> {s. KString s \<in> fst ` set es}. CHR 0x00 \<notin> set s)"

lemma plain_keys_Cons: "plain_keys ((k, v) # es) \<Longrightarrow> plain_keys es"
  by (auto simp: plain_keys_def)

lemma init_path_other:
  "init_path_to_global g es = Some g1 \<Longrightarrow> plain_keys es \<Longrightarrow> KString s \<notin> fst ` set es \<Longrightarrow> g1 s = g s"
proof (induction g es arbitrary: g1 rule: init_path_to_global.induct)
  case (2 g k v r)
  then have k: "c_str k = k" by (intro c_str_id) (simp add: plain_keys_def)
  have r: "init_path_to_global (g(c_str k \<mapsto> v)) r = Some g1" "plain_keys r" "s \<noteq> k" "KString s \<notin> fst ` set r"
    using 2(2) plain_keys_Cons [OF 2(3)] 2(4) by simp_all
  have "g1 s = (g(c_str k \<mapsto> v)) s" by (rule 2(1) [OF r(1,2,4)])
  with r(3) k show ?case by simp
qed simp_all

lemma init_path_strings: "init_path_to_global g es = Some g1 \<Longrightarrow> KOther \<notin> fst ` set es"
  by (induction g es rule: init_path_to_global.induct) auto

lemma init_path_entry:
  "init_path_to_global g es = Some g1 \<Longrightarrow> plain_keys es \<Longrightarrow> (KString s, v) \<in> set es \<Longrightarrow> g1 (c_str s) = Some v"
proof (induction g es rule: init_path_to_global.induct)
  case (2 g k w r)
  have k: "c_str k = k" by (rule c_str_id) (use 2(3) in \<open>simp add: plain_keys_def\<close>)
  show ?case
  proof (cases "(KString s, v) \<in> set r")
    case True
    then show ?thesis using 2(1) 2(2) plain_keys_Cons [OF 2(3)] by (simp del: fun_upd_apply)
  next
    case False
    then have sv: "s = k" "v = w" using 2(4) by auto
    have "KString k \<notin> fst ` set r" using 2(3) by (auto simp: plain_keys_def)
    then have "g1 k = (g(c_str k \<mapsto> w)) k"
      by (rule init_path_other [OF _ plain_keys_Cons [OF 2(3)], rotated]) (use 2(2) in \<open>simp del: fun_upd_apply\<close>)
    then show ?thesis by (simp add: sv k)
  qed
qed simp_all

text \<open>The answers: the text of the last entry of that name, if there is one.\<close>

fun val_text :: "cval \<Rightarrow> string option" where
  "val_text (CString s) = Some s"
| "val_text (CNumber s) = Some s"
| "val_text COther = None"

lemma get_config_value_eq: "get_config_value C key = Option.bind (cf_L C) (\<lambda>g. Option.bind (g (c_str key)) val_text)"
  by (auto simp: get_config_value_def split: option.splits cval.splits)

section \<open>The lock\<close>

definition good_call :: "lua \<times> call \<Rightarrow> bool" where
  "good_call x = (case snd x of Init args \<Rightarrow> checkstring args 0 = None \<or> checkstring args 1 \<noteq> None | _ \<Rightarrow> True)"

lemma load_config_simps [simp]:
  "cf_lock (fst (load_config U p C)) = cf_lock C" "cf_init (fst (load_config U p C)) = cf_init C" "cf_file (fst (load_config U p C)) = cf_file C"
  by (auto simp: load_config_def split: prod.splits option.splits bool.splits)

lemma load_config_lock: "load_config U p C = (C1, r) \<Longrightarrow> cf_lock C1 = cf_lock C"
  by (metis fst_conv load_config_simps(1))

lemma do_call_lock:
  assumes "\<not> cf_lock C" "good_call x" "do_call x C = (C1, r)"
  shows "r \<noteq> Hangs" "r \<noteq> Crash \<Longrightarrow> \<not> cf_lock C1"
proof -
  obtain U c where x: "x = (U, c)" by force
  have "r \<noteq> Hangs \<and> (r \<noteq> Crash \<longrightarrow> \<not> cf_lock C1)"
    using assms by (cases c)
      (auto simp: x good_call_def l_config_init_def l_config_reload_def l_config_get_def Let_def split: option.splits prod.splits if_splits)
  then show "r \<noteq> Hangs" "r \<noteq> Crash \<Longrightarrow> \<not> cf_lock C1" by simp_all
qed

lemma do_calls_lock:
  assumes "\<not> cf_lock C" "\<forall>x \<in> set xs. good_call x" "do_calls xs C = (C1, rs)"
  shows "Hangs \<notin> set rs \<and> (Crash \<notin> set rs \<longrightarrow> \<not> cf_lock C1)"
  using assms
proof (induction xs arbitrary: C rs)
  case (Cons x xs)
  obtain C2 r where r: "do_call x C = (C2, r)" by force
  note l = do_call_lock [OF Cons.prems(1) _ r]
  have g: "good_call x" using Cons.prems(2) by simp
  show ?case
  proof (cases "r = Crash")
    case True
    then show ?thesis using Cons.prems(3) r by auto
  next
    case False
    then obtain rs2 where "do_calls xs C2 = (C1, rs2)" "rs = r # rs2"
      using Cons.prems(3) r by (auto split: prod.splits)
    with Cons.IH [of C2 rs2] l [OF g] Cons.prems(2) False show ?thesis by auto
  qed
qed simp

section \<open>Theorems\<close>

definition ex_lua :: "string \<Rightarrow> returned option \<Rightarrow> lua" where
  "ex_lua text r = \<lparr>lu_libs = [''_VERSION'' \<mapsto> CString ''Lua 5.4''], lu_open = (\<lambda>p. if p = ''cfg.lua'' then FileText text else OpenError),
     lu_run = (\<lambda>g s. map_option (Pair g) r)\<rparr>"

definition ex_calls :: "(lua \<times> call) list" where
  "ex_calls =
     [(ex_lua ''t'' (Some (Table [(KString ''port'', CNumber ''8001''), (KString ''ip'', CString ''::1'')])), Init [Some ''main'', Some ''cfg.lua'']),
      (ex_lua ''?'' None, Reload), (ex_lua ''?'' None, Get [Some ''port''])]"

text \<open>
  C31: If no call of \<open>init\<close> leaves out the path, no call ever waits for ever: the lock is free after every call that returns or throws.
\<close>

theorem calls_never_hang:
  assumes "\<forall>x \<in> set xs. good_call x" "do_calls xs cfg_start = (C, rs)"
  shows "Hangs \<notin> set rs \<and> (Crash \<notin> set rs \<longrightarrow> \<not> cf_lock C \<and> length rs = length xs)"
proof -
  have "length rs = length xs" if "do_calls xs C0 = (C, rs)" "Crash \<notin> set rs" for C0
    using that by (induction xs arbitrary: C0 rs) (auto simp: Let_def split: prod.splits if_splits)
  with do_calls_lock [OF _ assms] assms(2) show ?thesis
    by (auto simp: cfg_start_def)
qed

theorem calls_never_hang_witness:
  "\<exists>C. do_calls ex_calls cfg_start = (C, [Returns [RBool True], Returns [RBool False], Returns [RString ''8001'']]) \<and> \<not> cf_lock C"
proof -
  have e: "\<exists>C. do_calls ex_calls cfg_start = (C, [Returns [RBool True], Returns [RBool False], Returns [RString ''8001'']])"
    by (simp add: ex_calls_def cfg_start_def l_config_init_def l_config_reload_def l_config_get_def load_config_def load_new_def ex_lua_def
        checkstring_def get_config_value_def c_str_def Let_def)
  then obtain C where c: "do_calls ex_calls cfg_start = (C, [Returns [RBool True], Returns [RBool False], Returns [RString ''8001'']])" by blast
  from calls_never_hang [OF _ c] c show ?thesis by (auto simp: ex_calls_def good_call_def checkstring_def)
qed

text \<open>
  The first call of \<open>init\<close> without a path throws its error while it holds the lock: from then on every \<open>get\<close> of a name and every \<open>init\<close> of a
  service, also a correct one, waits for ever.
\<close>

theorem init_without_path_blocks:
  assumes "\<not> cf_lock C" "\<not> cf_init C" "do_call (U, Init (Some service # args)) C = (C1, r)" "checkstring (Some service # args) 1 = None"
  shows "r = Throws \<and> (\<forall>V s rest key. do_call (V, Init (Some s # rest)) C1 = (C1, Hangs) \<and> do_call (V, Get (Some key # rest)) C1 = (C1, Hangs))"
proof -
  have "C1 = C\<lparr>cf_lock := True\<rparr>" "r = Throws"
    using assms by (auto simp: l_config_init_def checkstring_def Let_def)
  then show ?thesis by (simp add: l_config_init_def l_config_get_def checkstring_def)
qed

theorem init_without_path_blocks_witness:
  "\<exists>C. do_call (ex_lua ''t'' None, Init [Some ''main'']) cfg_start = (C, Throws) \<and> do_call (ex_lua ''t'' None, Get [Some ''port'']) C = (C, Hangs)"
proof -
  obtain C r where c: "do_call (ex_lua ''t'' None, Init [Some ''main'']) cfg_start = (C, r)" by force
  have "r = Throws \<and> do_call (ex_lua ''t'' None, Get [Some ''port'']) C = (C, Hangs)"
    using init_without_path_blocks [OF _ _ c] by (simp add: cfg_start_def checkstring_def)
  with c show ?thesis by blast
qed

text \<open>
  C28: Reloading is all or nothing.  If it returns true, the file gave a table with only strings as keys, and every entry of the table is answered
  by \<open>get\<close> from then on; if it returns false, every answer is the one it was before.
\<close>

theorem reload_all_or_nothing:
  assumes "\<not> cf_lock C" "cf_file C = Some path" "l_config_reload U C = (C1, Returns [RBool ok])"
  shows "if ok then \<exists>text g es. lu_open U (c_str path) = FileText text \<and>
        lu_run U ((lu_libs U)(''file'' \<mapsto> COther, ''content'' \<mapsto> CString text)) (c_str text) = Some (g, Table es) \<and>
        KOther \<notin> fst ` set es \<and>
        (plain_keys es \<longrightarrow>
          (\<forall>key v. (KString key, v) \<in> set es \<longrightarrow>
            l_config_get [Some key] C1 = (C1, Returns (case val_text v of None \<Rightarrow> [] | Some s \<Rightarrow> [RString (c_str s)]))))
      else \<forall>args. snd (l_config_get args C1) = snd (l_config_get args C)"
proof -
  obtain C0 res where l: "load_config U path (C\<lparr>cf_lock := True\<rparr>) = (C0, res)" by force
  have l1: "res = Some ok" "C1 = C0\<lparr>cf_lock := False\<rparr>" using assms l by (auto simp: l_config_reload_def split: option.splits)
  show ?thesis
  proof (cases ok)
    case False
    then have "C0 = C\<lparr>cf_lock := True\<rparr>" using l l1(1) by (auto simp: load_config_def split: prod.splits option.splits bool.splits)
    then have "C1 = C" using l1(2) assms(1) by simp
    with False show ?thesis by simp
  next
    case True
    then obtain g1 where n: "load_new U path = (Some g1, False)" and L0: "cf_L C0 = Some g1"
      using l l1(1) by (auto simp: load_config_def split: prod.splits option.splits bool.splits)
    obtain content g es where f: "lu_open U (c_str path) = FileText content"
        "lu_run U ((lu_libs U)(''file'' \<mapsto> COther, ''content'' \<mapsto> CString content)) (c_str content) = Some (g, Table es)"
        "init_path_to_global g es = Some g1"
      using n by (auto simp: load_new_def split: opened.splits option.splits returned.splits)
    have "l_config_get [Some key] C1 = (C1, Returns (case val_text v of None \<Rightarrow> [] | Some s \<Rightarrow> [RString (c_str s)]))"
      if "plain_keys es" "(KString key, v) \<in> set es" for key v
      using init_path_entry [OF f(3) that] L0 l1(2) by (simp add: l_config_get_def checkstring_def get_config_value_eq)
    with True f init_path_strings [OF f(3)] show ?thesis by auto
  qed
qed

theorem reload_all_or_nothing_witness:
  "\<exists>C C1 C2. do_calls (take 1 ex_calls) cfg_start = (C, [Returns [RBool True]]) \<and>
    l_config_reload (ex_lua ''?'' None) C = (C1, Returns [RBool False]) \<and>
    snd (l_config_get [Some ''port''] C1) = snd (l_config_get [Some ''port''] C) \<and>
    l_config_reload (ex_lua ''u'' (Some (Table [(KString ''port'', CNumber ''9000'')]))) C = (C2, Returns [RBool True]) \<and>
    l_config_get [Some ''port''] C2 = (C2, Returns [RString ''9000''])"
proof -
  define C where "C = fst (do_calls (take 1 ex_calls) cfg_start)"
  let ?F = "ex_lua ''?'' None" and ?U = "ex_lua ''u'' (Some (Table [(KString ''port'', CNumber ''9000'')]))"
  note ev = ex_calls_def cfg_start_def l_config_init_def load_config_def load_new_def ex_lua_def checkstring_def c_str_def Let_def
  have c: "do_calls (take 1 ex_calls) cfg_start = (C, [Returns [RBool True]])" "\<not> cf_lock C" "cf_file C = Some ''cfg.lua''"
    by (simp_all add: C_def ev)
  have f: "l_config_reload ?F C = (fst (l_config_reload ?F C), Returns [RBool False])"
    using c(2,3) by (simp add: l_config_reload_def ev)
  have u: "l_config_reload ?U C = (fst (l_config_reload ?U C), Returns [RBool True])"
    using c(2,3) by (simp add: l_config_reload_def ev)
  have "snd (l_config_get [Some ''port''] (fst (l_config_reload ?F C))) = snd (l_config_get [Some ''port''] C)"
    using reload_all_or_nothing [OF c(2,3) f] by simp
  moreover have "l_config_get [Some ''port''] (fst (l_config_reload ?U C)) = (fst (l_config_reload ?U C), Returns [RString ''9000''])"
    using reload_all_or_nothing [OF c(2,3) u] by (auto simp: ex_lua_def plain_keys_def c_str_def)
  ultimately show ?thesis using c(1) f u by blast
qed

end
