(* ===== verification/Snapshot.thy ===== *)
theory Snapshot
  imports Run "HOL-Library.AList"
begin

text \<open>
  The snapshot of the Lua heap, \<^verbatim>\<open>src/depends/snapshot/snapshot.c\<close>: from the registry every table, userdata, function and thread is visited once, and
  for each of them the result says which objects hold it, and by which name.  The heap is a map from addresses to objects and does not change
  meanwhile.  The stack of Lua has the value that is looked at on top; where the code would leave a value too many on it, or take a value for a
  table that is none, the run stops.
\<close>

section \<open>The heap of Lua\<close>

type_synonym addr = nat

text \<open>A number has the text that \<open>%lg\<close> gives it; an object is a reference.\<close>

datatype lval = LNil | LBool bool | LNumber string | LString string | LLight addr | LRef addr

text \<open>
  A call in progress: the short name of its source, the current line, the local variables, which have the numbers from 1 on in
  \<open>lua_getlocal\<close>, and the variable arguments, which have negative numbers.
\<close>

record frame =
  fr_src :: string
  fr_line :: int
  fr_locals :: "(string \<times> lval) list"
  fr_varargs :: "(string \<times> lval) list"

text \<open>
  A table has a metatable and entries, in the order of \<open>lua_next\<close>; a userdata a metatable and a value; a function its upvalues with their
  names, whether it is in C, and where it is defined; a thread its calls, the innermost first.
\<close>

datatype lobj =
    OTable "addr option" "(lval \<times> lval) list"
  | OUserdata "addr option" lval
  | OFunction "(string \<times> lval) list" bool string int
  | OThread "frame list"

datatype kind = TABLE | FUNCTION | THREAD | USERDATA

fun kind_of :: "lobj \<Rightarrow> kind" where
  "kind_of (OTable _ _) = TABLE"
| "kind_of (OUserdata _ _) = USERDATA"
| "kind_of (OFunction _ _ _ _) = FUNCTION"
| "kind_of (OThread _) = THREAD"

type_synonym heap = "addr \<Rightarrow> lobj option"

section \<open>Texts\<close>

definition dec :: "int \<Rightarrow> string" where
  "dec i = (if i < 0 then CHR ''-'' # dec_nat (nat (- i)) else dec_nat (nat i))"

definition cstr :: "string \<Rightarrow> string" where
  "cstr s = takeWhile (\<lambda>c. c \<noteq> CHR 0x00) s"

fun typename :: "kind \<Rightarrow> string" where
  "typename TABLE = ''table''"
| "typename FUNCTION = ''function''"
| "typename THREAD = ''thread''"
| "typename USERDATA = ''userdata''"

text \<open>The name of an entry is its key; \<open>ptr\<close> is the text of an address.\<close>

fun keystring :: "(addr option \<Rightarrow> string) \<Rightarrow> heap \<Rightarrow> lval \<Rightarrow> string" where
  "keystring ptr H (LString s) = s"
| "keystring ptr H (LNumber t) = ''['' @ t @ '']''"
| "keystring ptr H (LBool b) = (if b then ''[true]'' else ''[false]'')"
| "keystring ptr H LNil = ''[nil]''"
| "keystring ptr H (LLight a) = ''[userdata:'' @ ptr (Some a) @ '']''"
| "keystring ptr H (LRef a) = ''['' @ (case H a of None \<Rightarrow> [] | Some ob \<Rightarrow> typename (kind_of ob)) @ '':'' @ ptr (Some a) @ '']''"

section \<open>The second Lua state\<close>

text \<open>
  For every kind a table from objects to their holders with the names, the sources of functions and threads, and the objects that are
  marked.  The holder of the registry is the null pointer.  A name of an older entry of the same holder is replaced.
\<close>

type_synonym holders = "(addr option \<times> string) list"

record dstate =
  d_obj :: "kind \<Rightarrow> addr \<Rightarrow> holders option"
  d_source :: "addr \<Rightarrow> string option"
  d_mark :: "addr set"

definition d_empty :: dstate where
  "d_empty = \<lparr>d_obj = (\<lambda>_ _. None), d_source = (\<lambda>_. None), d_mark = {}\<rparr>"

definition set_obj :: "kind \<Rightarrow> addr \<Rightarrow> holders option \<Rightarrow> dstate \<Rightarrow> dstate" where
  "set_obj k a h d = d\<lparr>d_obj := (d_obj d)(k := (d_obj d k)(a := h))\<rparr>"

text \<open>The address if the object is new.\<close>

definition readobject :: "heap \<Rightarrow> lval \<Rightarrow> addr option \<Rightarrow> string \<Rightarrow> dstate \<Rightarrow> dstate \<times> addr option" where
  "readobject H v parent desc d =
     (case v of
        LRef p \<Rightarrow>
          (case H p of
             None \<Rightarrow> (d, None)
           | Some ob \<Rightarrow>
               let tidx = kind_of ob in
               if p \<in> d_mark d then
                 (case d_obj d tidx p of
                    Some h \<Rightarrow> (set_obj tidx p (Some (AList.update parent (cstr desc) h)) d, None)
                  | None \<Rightarrow> (d, None))
               else (set_obj tidx p (Some [(parent, cstr desc)]) (d\<lparr>d_mark := insert p (d_mark d)\<rparr>), Some p))
      | _ \<Rightarrow> (d, None))"

section \<open>Marking\<close>

text \<open>The mark of an object: in which thread, the value, its holder and the name.\<close>

type_synonym marker = "addr \<Rightarrow> lval \<Rightarrow> addr option \<Rightarrow> string \<Rightarrow> dstate \<Rightarrow> dstate run"

fun mark_all :: "marker \<Rightarrow> addr \<Rightarrow> addr option \<Rightarrow> (string \<times> lval) list \<Rightarrow> dstate \<Rightarrow> dstate run" where
  "mark_all rec L parent [] d = Inr d"
| "mark_all rec L parent ((desc, v) # es) d = bindR (rec L v parent desc d) (mark_all rec L parent es)"

definition raw_get :: "heap \<Rightarrow> addr \<Rightarrow> string \<Rightarrow> lval" where
  "raw_get H a key =
     (case H a of Some (OTable _ es) \<Rightarrow> (case map_of es (LString key) of Some v \<Rightarrow> v | None \<Rightarrow> LNil) | _ \<Rightarrow> LNil)"

definition weak :: "heap \<Rightarrow> addr option \<Rightarrow> char \<Rightarrow> bool" where
  "weak H mt c =
     (case mt of
        None \<Rightarrow> False
      | Some m \<Rightarrow> (case raw_get H m ''__mode'' of LString s \<Rightarrow> c \<in> set (cstr s) | LNumber s \<Rightarrow> c \<in> set (cstr s) | _ \<Rightarrow> False))"

definition metatable_edges :: "addr option \<Rightarrow> (string \<times> lval) list" where
  "metatable_edges mt = (case mt of None \<Rightarrow> [] | Some m \<Rightarrow> [(''[metatable]'', LRef m)])"

definition entry_edges :: "(addr option \<Rightarrow> string) \<Rightarrow> heap \<Rightarrow> bool \<Rightarrow> bool \<Rightarrow> (lval \<times> lval) list \<Rightarrow> (string \<times> lval) list" where
  "entry_edges ptr H weakk weakv es =
     concat (map (\<lambda>(k, v). (if weakv then [] else [(keystring ptr H k, v)]) @ (if weakk then [] else [(''[key]'', k)])) es)"

definition mark_table ::
    "(addr option \<Rightarrow> string) \<Rightarrow> heap \<Rightarrow> marker \<Rightarrow> addr \<Rightarrow> addr option \<Rightarrow> (lval \<times> lval) list \<Rightarrow> lval \<Rightarrow> addr option \<Rightarrow> string \<Rightarrow> dstate \<Rightarrow> dstate run"
where
  "mark_table ptr H rec L mt es v parent desc d =
     (case readobject H v parent desc d of
        (d, None) \<Rightarrow> Inr d
      | (d, Some t) \<Rightarrow>
          bindR (mark_all rec L (Some t) (metatable_edges mt) d) (\<lambda>d.
          mark_all rec L (Some t) (entry_edges ptr H (weak H mt CHR ''k'') (weak H mt CHR ''v'') es) d))"

text \<open>
  The value of a userdata goes to \<open>mark_table\<close>.  A value that is no object stays on the stack there, and one that is a new object other
  than a table is traversed as a table.
\<close>

definition mark_uservalue :: "heap \<Rightarrow> marker \<Rightarrow> addr \<Rightarrow> addr \<Rightarrow> lval \<Rightarrow> dstate \<Rightarrow> dstate run" where
  "mark_uservalue H rec L t uv d =
     (case uv of
        LNil \<Rightarrow> Inr d
      | LRef p \<Rightarrow>
          (case H p of
             None \<Rightarrow> Inl OutOfBounds
           | Some ob \<Rightarrow> if kind_of ob = TABLE \<or> p \<in> d_mark d then rec L uv (Some t) ''[uservalue]'' d else Inl OutOfBounds)
      | _ \<Rightarrow> Inl OutOfBounds)"

definition mark_userdata ::
    "heap \<Rightarrow> marker \<Rightarrow> addr \<Rightarrow> addr option \<Rightarrow> lval \<Rightarrow> lval \<Rightarrow> addr option \<Rightarrow> string \<Rightarrow> dstate \<Rightarrow> dstate run" where
  "mark_userdata H rec L mt uv v parent desc d =
     (case readobject H v parent desc d of
        (d, None) \<Rightarrow> Inr d
      | (d, Some t) \<Rightarrow> bindR (mark_all rec L (Some t) (metatable_edges mt) d) (mark_uservalue H rec L t uv))"

definition upvalue_edges :: "(string \<times> lval) list \<Rightarrow> (string \<times> lval) list" where
  "upvalue_edges ups = map (\<lambda>(name, v). (if name = [] then ''[upvalue]'' else name, v)) ups"

text \<open>A C function without upvalues is a light one, whose entry is removed.\<close>

definition mark_function ::
    "heap \<Rightarrow> marker \<Rightarrow> addr \<Rightarrow> (string \<times> lval) list \<Rightarrow> bool \<Rightarrow> string \<Rightarrow> int \<Rightarrow> lval \<Rightarrow> addr option \<Rightarrow> string \<Rightarrow> dstate \<Rightarrow> dstate run" where
  "mark_function H rec L ups is_c short_src linedefined v parent desc d =
     (case readobject H v parent desc d of
        (d, None) \<Rightarrow> Inr d
      | (d, Some t) \<Rightarrow>
          bindR (mark_all rec L (Some t) (upvalue_edges ups) d) (\<lambda>d.
          if is_c then Inr (if ups = [] then set_obj FUNCTION t None d else d)
          else Inr (d\<lparr>d_source := (d_source d)(t \<mapsto> short_src @ '':'' @ dec linedefined)\<rparr>)))"

text \<open>
  The names of variables are cut to 127 bytes.  The loop over \<open>j\<close> is meant to take the local variables for 1 and the variable arguments for
  -1, but its condition \<open>j > -1\<close> ends it before the second round.
\<close>

definition frame_edges :: "frame \<Rightarrow> (string \<times> lval) list" where
  "frame_edges fr = map (\<lambda>(name, v). (take 127 (cstr name @ '' : '' @ fr_src fr @ '':'' @ dec (fr_line fr)), v)) (fr_locals fr)"

definition frame_source :: "frame \<Rightarrow> string" where
  "frame_source fr = fr_src fr @ (if fr_line fr \<ge> 0 then '':'' @ dec (fr_line fr) @ '' '' else [])"

text \<open>The variables of a thread are marked in that thread; the innermost call is skipped if it is the thread in which this happens.\<close>

definition mark_thread :: "heap \<Rightarrow> marker \<Rightarrow> addr \<Rightarrow> frame list \<Rightarrow> lval \<Rightarrow> addr option \<Rightarrow> string \<Rightarrow> dstate \<Rightarrow> dstate run" where
  "mark_thread H rec L frames v parent desc d =
     (case readobject H v parent desc d of
        (d, None) \<Rightarrow> Inr d
      | (d, Some t) \<Rightarrow>
          let levels = (if t = L then drop 1 frames else frames) in
          bindR (mark_all rec t (Some t) (concat (map frame_edges levels)) d) (\<lambda>d.
          Inr (d\<lparr>d_source := (d_source d)(t \<mapsto> concat (map frame_source levels))\<rparr>)))"

text \<open>The depth of the recursion is bounded by the fuel.\<close>

primrec mark_object :: "(addr option \<Rightarrow> string) \<Rightarrow> heap \<Rightarrow> nat \<Rightarrow> marker" where
  "mark_object ptr H 0 L v parent desc d = Inl Hang"
| "mark_object ptr H (Suc n) L v parent desc d =
     (case v of
        LRef p \<Rightarrow>
          (case H p of
             None \<Rightarrow> Inl OutOfBounds
           | Some (OTable mt es) \<Rightarrow> mark_table ptr H (mark_object ptr H n) L mt es v parent desc d
           | Some (OUserdata mt uv) \<Rightarrow> mark_userdata H (mark_object ptr H n) L mt uv v parent desc d
           | Some (OFunction ups is_c src line) \<Rightarrow> mark_function H (mark_object ptr H n) L ups is_c src line v parent desc d
           | Some (OThread frames) \<Rightarrow> mark_thread H (mark_object ptr H n) L frames v parent desc d)
      | _ \<Rightarrow> Inr d)"

section \<open>The result\<close>

definition gen_table_desc :: "(addr option \<Rightarrow> string) \<Rightarrow> addr option \<times> string \<Rightarrow> string" where
  "gen_table_desc ptr h = ptr (fst h) @ '' : '' @ snd h @ [CHR 0x0A]"

definition desc_head :: "dstate \<Rightarrow> kind \<Rightarrow> addr \<Rightarrow> string" where
  "desc_head d k a =
     (case k of
        FUNCTION \<Rightarrow> (case d_source d a of None \<Rightarrow> ''cfunction'' | Some s \<Rightarrow> s)
      | THREAD \<Rightarrow> (case d_source d a of None \<Rightarrow> [] | Some s \<Rightarrow> s)
      | _ \<Rightarrow> typename k) @ [CHR 0x0A]"

definition pdesc :: "(addr option \<Rightarrow> string) \<Rightarrow> dstate \<Rightarrow> kind \<Rightarrow> (addr \<Rightarrow> string option) \<Rightarrow> addr \<Rightarrow> string option" where
  "pdesc ptr d k res =
     (\<lambda>a. case d_obj d k a of None \<Rightarrow> res a | Some h \<Rightarrow> Some (desc_head d k a @ concat (map (gen_table_desc ptr) h)))"

definition gen_result :: "(addr option \<Rightarrow> string) \<Rightarrow> dstate \<Rightarrow> addr \<Rightarrow> string option" where
  "gen_result ptr d = pdesc ptr d THREAD (pdesc ptr d FUNCTION (pdesc ptr d USERDATA (pdesc ptr d TABLE Map.empty)))"

definition snapshot :: "(addr option \<Rightarrow> string) \<Rightarrow> heap \<Rightarrow> nat \<Rightarrow> addr \<Rightarrow> addr \<Rightarrow> (addr \<Rightarrow> string option) run" where
  "snapshot ptr H fuel L registry =
     bindR (mark_object ptr H fuel L (LRef registry) None ''[registry]'' d_empty) (\<lambda>d. Inr (gen_result ptr d))"

end
