(* ===== verification/Snapshot_Props.thy ===== *)
theory Snapshot_Props
  imports Snapshot
begin

text \<open>
  The snapshot is complete and exact: the objects it lists are those that are reached from the registry, and the holders it names for each
  are all that hold it strongly.
\<close>

section \<open>Which object holds which\<close>

text \<open>
  A table holds its metatable, and the keys and values that its mode does not make weak; a userdata its metatable and its value; a function
  its upvalues; a thread the local variables of its calls, but not, as far as the snapshot is concerned, their variable arguments.
\<close>

definition mt_vals :: "addr option \<Rightarrow> lval list" where
  "mt_vals mt = (case mt of None \<Rightarrow> [] | Some m \<Rightarrow> [LRef m])"

fun obj_vals :: "heap \<Rightarrow> lobj \<Rightarrow> lval list" where
  "obj_vals H (OTable mt es) = mt_vals mt @
     concat (map (\<lambda>(k, v). (if weak H mt CHR ''v'' then [] else [v]) @ (if weak H mt CHR ''k'' then [] else [k])) es)"
| "obj_vals H (OUserdata mt uv) = mt_vals mt @ (if uv = LNil then [] else [uv])"
| "obj_vals H (OFunction ups _ _ _) = map snd ups"
| "obj_vals H (OThread frames) = concat (map (\<lambda>fr. map snd (fr_locals fr)) frames)"

text \<open>The same with the names that the code gives them.\<close>

fun obj_edges :: "(addr option \<Rightarrow> string) \<Rightarrow> heap \<Rightarrow> lobj \<Rightarrow> (string \<times> lval) list" where
  "obj_edges ptr H (OTable mt es) = metatable_edges mt @ entry_edges ptr H (weak H mt CHR ''k'') (weak H mt CHR ''v'') es"
| "obj_edges ptr H (OUserdata mt uv) = metatable_edges mt @ (if uv = LNil then [] else [(''[uservalue]'', uv)])"
| "obj_edges ptr H (OFunction ups _ _ _) = upvalue_edges ups"
| "obj_edges ptr H (OThread frames) = concat (map frame_edges frames)"

lemma entry_vals:
  "map snd (entry_edges ptr H wk wv es) = concat (map (\<lambda>(k, v). (if wv then [] else [v]) @ (if wk then [] else [k])) es)"
  by (induction es) (auto simp: entry_edges_def)

lemma frame_vals: "map snd (concat (map frame_edges frames)) = concat (map (\<lambda>fr. map snd (fr_locals fr)) frames)"
  by (induction frames) (simp_all add: frame_edges_def comp_def split_def)

lemma obj_edges_vals: "map snd (obj_edges ptr H ob) = obj_vals H ob"
  by (cases ob) (simp_all add: entry_vals frame_vals metatable_edges_def mt_vals_def upvalue_edges_def comp_def split_def split: option.split)

text \<open>An object holds another one strongly: what a weak table does not count is no hold.\<close>

definition holds :: "heap \<Rightarrow> addr \<Rightarrow> addr \<Rightarrow> bool" where
  "holds H a b \<longleftrightarrow> (\<exists>ob. H a = Some ob \<and> LRef b \<in> set (obj_vals H ob))"

text \<open>A light C function has no entry.\<close>

fun light :: "lobj \<Rightarrow> bool" where
  "light (OFunction ups is_c _ _) = (ups = [] \<and> is_c)"
| "light _ = False"

text \<open>
  Finitely many objects, which hold only objects; metatables are tables, and the value of a userdata is nil or a table.
\<close>

definition heap_ok :: "heap \<Rightarrow> bool" where
  "heap_ok H \<longleftrightarrow> finite (dom H) \<and> (\<forall>a b. holds H a b \<longrightarrow> b \<in> dom H) \<and>
     (\<forall>a m es. H a = Some (OTable (Some m) es) \<longrightarrow> map_option kind_of (H m) = Some TABLE) \<and>
     (\<forall>a mt uv. H a = Some (OUserdata mt uv) \<longrightarrow> (\<forall>m. mt = Some m \<longrightarrow> map_option kind_of (H m) = Some TABLE) \<and>
        (uv = LNil \<or> (\<exists>b. uv = LRef b \<and> map_option kind_of (H b) = Some TABLE)))"

section \<open>What marking does\<close>

definition d_inv :: "heap \<Rightarrow> dstate \<Rightarrow> bool" where
  "d_inv H d \<longleftrightarrow> d_mark d \<subseteq> dom H \<and> (\<forall>k a. d_obj d k a \<noteq> None \<longleftrightarrow> (\<exists>ob. H a = Some ob \<and> kind_of ob = k \<and> a \<in> d_mark d \<and> \<not> light ob))"

definition has :: "heap \<Rightarrow> dstate \<Rightarrow> addr \<Rightarrow> addr option \<Rightarrow> bool" where
  "has H d a p \<longleftrightarrow> (\<exists>ob h. H a = Some ob \<and> d_obj d (kind_of ob) a = Some h \<and> p \<in> fst ` set h)"

lemma has_ob: "H a = Some ob \<Longrightarrow> has H d a p \<longleftrightarrow> (\<exists>h. d_obj d (kind_of ob) a = Some h \<and> p \<in> fst ` set h)"
  by (simp add: has_def)

definition newly :: "dstate \<Rightarrow> dstate \<Rightarrow> addr set" where
  "newly d d1 = d_mark d1 - d_mark d"

text \<open>
  Marking values from a holder: what is new is reached from them and is complete, and the holders that are recorded are those of the values
  and of the new objects.
\<close>

definition marked :: "heap \<Rightarrow> lval list \<Rightarrow> addr option \<Rightarrow> dstate \<Rightarrow> dstate \<Rightarrow> bool" where
  "marked H vs p d d1 \<longleftrightarrow> d_inv H d1 \<and> d_mark d \<subseteq> d_mark d1 \<and> (\<forall>b. LRef b \<in> set vs \<longrightarrow> b \<in> d_mark d1) \<and>
     (\<forall>x \<in> newly d d1. \<exists>b. LRef b \<in> set vs \<and> (holds H)\<^sup>*\<^sup>* b x) \<and>
     (\<forall>x \<in> newly d d1. \<forall>y. holds H x y \<longrightarrow> y \<in> d_mark d1) \<and>
     (\<forall>b ob q. H b = Some ob \<and> \<not> light ob \<longrightarrow>
        has H d1 b q = (has H d b q \<or> (q = p \<and> LRef b \<in> set vs) \<or> (\<exists>x \<in> newly d d1. q = Some x \<and> holds H x b)))"

lemma markedD:
  assumes "marked H vs p d d1"
  shows "d_inv H d1" "d_mark d \<subseteq> d_mark d1" "LRef b \<in> set vs \<Longrightarrow> b \<in> d_mark d1"
    "x \<in> newly d d1 \<Longrightarrow> \<exists>b. LRef b \<in> set vs \<and> (holds H)\<^sup>*\<^sup>* b x"
    "x \<in> newly d d1 \<Longrightarrow> holds H x y \<Longrightarrow> y \<in> d_mark d1"
    "H b = Some ob \<Longrightarrow> \<not> light ob \<Longrightarrow>
       has H d1 b q = (has H d b q \<or> (q = p \<and> LRef b \<in> set vs) \<or> (\<exists>x \<in> newly d d1. q = Some x \<and> holds H x b))"
  using assms unfolding marked_def by simp_all

lemma marked_refl: "d_inv H d \<Longrightarrow> marked H [] p d d"
  by (simp add: marked_def newly_def)

lemma marked_trans:
  assumes "marked H vs p d d1" "marked H ws p d1 d2"
  shows "marked H (vs @ ws) p d d2"
proof -
  note m1 = markedD [OF assms(1)] and m2 = markedD [OF assms(2)]
  have n: "newly d d2 = newly d d1 \<union> newly d1 d2" using m1(2) m2(2) by (auto simp: newly_def)
  show ?thesis unfolding marked_def
  proof (intro conjI allI impI ballI)
    show "d_inv H d2" by (rule m2(1))
    show "d_mark d \<subseteq> d_mark d2" using m1(2) m2(2) by (rule subset_trans)
    show "b \<in> d_mark d2" if "LRef b \<in> set (vs @ ws)" for b using that m1(3) m2(2,3) by auto
    show "\<exists>b. LRef b \<in> set (vs @ ws) \<and> (holds H)\<^sup>*\<^sup>* b x" if "x \<in> newly d d2" for x
      using that m1(4) [of x] m2(4) [of x] unfolding n by auto
    show "y \<in> d_mark d2" if "x \<in> newly d d2" "holds H x y" for x y
      using that m1(5) [of x y] m2(5) [of x y] m2(2) unfolding n by auto
    show "has H d2 b q = (has H d b q \<or> (q = p \<and> LRef b \<in> set (vs @ ws)) \<or> (\<exists>x \<in> newly d d2. q = Some x \<and> holds H x b))"
      if "H b = Some ob \<and> \<not> light ob" for b ob q
      using m1(6) [of b ob q] m2(6) [of b ob q] that unfolding n by auto
  qed
qed

text \<open>Looking at an object that is marked already.\<close>

lemma set_obj_simps [simp]:
  "d_mark (set_obj k a h d) = d_mark d" "d_source (set_obj k a h d) = d_source d"
  "d_obj (set_obj k a h d) k1 b = (if k1 = k \<and> b = a then h else d_obj d k1 b)"
  by (auto simp: set_obj_def)

lemma AList_update_keys: "fst ` set (AList.update k v xs) = insert k (fst ` set xs)"
  using dom_update [of k v xs] by simp

lemma readobject_old:
  assumes "d_inv H d" "a \<in> d_mark d" "readobject H (LRef a) p desc d = (d1, r)"
  shows "r = None \<and> marked H [LRef a] p d d1"
proof -
  obtain ob where ob: "H a = Some ob" using assms(1,2) unfolding d_inv_def by blast
  show ?thesis
  proof (cases "d_obj d (kind_of ob) a")
    case None
    then have "light ob" using assms(1,2) ob unfolding d_inv_def by (metis (no_types, lifting))
    moreover have "d1 = d" "r = None" using assms None ob by (auto simp: readobject_def Let_def)
    ultimately show ?thesis using assms(1,2) ob by (auto simp: marked_def newly_def)
  next
    case (Some h)
    then have d1: "d1 = set_obj (kind_of ob) a (Some (AList.update p (cstr desc) h)) d" "r = None"
      using assms ob by (auto simp: readobject_def Let_def)
    have nl: "\<not> light ob" using assms(1) ob Some unfolding d_inv_def by (metis option.distinct(1) option.inject)
    have "d_inv H d1" using assms(1,2) ob nl unfolding d_inv_def d1 by auto
    moreover have "has H d1 b q = (has H d b q \<or> (q = p \<and> b = a))" if "H b = Some ob1" for b q ob1
      using ob Some that by (cases "b = a") (auto simp: has_ob d1 AList_update_keys)
    ultimately show ?thesis using assms(2) d1 by (auto simp: marked_def newly_def)
  qed
qed

text \<open>A new object, after what it holds has been marked.\<close>

lemma readobject_new:
  assumes "a \<notin> d_mark d" "H a = Some ob"
  shows "readobject H (LRef a) p desc d = (set_obj (kind_of ob) a (Some [(p, cstr desc)]) (d\<lparr>d_mark := insert a (d_mark d)\<rparr>), Some a)"
  using assms by (simp add: readobject_def Let_def)

lemma new_inv:
  assumes "d_inv H d" "H a = Some ob" "\<not> light ob"
  shows "d_inv H (set_obj (kind_of ob) a (Some h) (d\<lparr>d_mark := insert a (d_mark d)\<rparr>))"
  using assms unfolding d_inv_def by (auto split: if_splits)

lemma new_marked:
  assumes "d_inv H d" "a \<notin> d_mark d" "H a = Some ob" "\<not> light ob"
    and d1: "d1 = set_obj (kind_of ob) a (Some [(p, s)]) (d\<lparr>d_mark := insert a (d_mark d)\<rparr>)"
    and "marked H (obj_vals H ob) (Some a) d1 d2"
  shows "marked H [LRef a] p d d2"
proof -
  note m = markedD [OF assms(6)]
  have mk: "d_mark d1 = insert a (d_mark d)" by (simp add: d1)
  have n: "newly d d2 = insert a (newly d1 d2)" using m(2) assms(2) unfolding newly_def mk by auto
  have "d_obj d (kind_of ob) a = None"
    using assms(1,2) unfolding d_inv_def by (metis option.exhaust option.distinct(1))
  then have h1: "has H d1 b q = (has H d b q \<or> (q = p \<and> b = a))" if "H b = Some ob1" for b q ob1
    using assms(3) that by (cases "b = a") (auto simp: has_ob d1)
  have va: "LRef b \<in> set (obj_vals H ob) \<longleftrightarrow> holds H a b" for b using assms(3) by (simp add: holds_def)
  show ?thesis unfolding marked_def
  proof (intro conjI allI impI ballI)
    show "d_inv H d2" by (rule m(1))
    show "d_mark d \<subseteq> d_mark d2" using m(2) unfolding mk by blast
    show "b \<in> d_mark d2" if "LRef b \<in> set [LRef a]" for b using that m(2) unfolding mk by auto
    show "\<exists>b. LRef b \<in> set [LRef a] \<and> (holds H)\<^sup>*\<^sup>* b x" if x: "x \<in> newly d d2" for x
    proof (cases "x = a")
      case False
      then obtain b where b: "LRef b \<in> set (obj_vals H ob)" "(holds H)\<^sup>*\<^sup>* b x" using x m(4) [of x] unfolding n by blast
      have "(holds H)\<^sup>*\<^sup>* a x" using b(1) b(2) unfolding va by (rule converse_rtranclp_into_rtranclp)
      then show ?thesis by simp
    qed simp
    show "y \<in> d_mark d2" if "x \<in> newly d d2" "holds H x y" for x y
      using that m(3) [of y] m(5) [of x y] unfolding n va by auto
    show "has H d2 b q = (has H d b q \<or> (q = p \<and> LRef b \<in> set [LRef a]) \<or> (\<exists>x \<in> newly d d2. q = Some x \<and> holds H x b))"
      if "H b = Some ob1 \<and> \<not> light ob1" for b ob1 q
      using m(6) [of b ob1 q] that h1 [of b ob1 q] unfolding n va by auto
  qed
qed

text \<open>A light C function.\<close>

lemma light_marked:
  assumes "d_inv H d" "a \<notin> d_mark d" "H a = Some (OFunction [] True src line)"
  shows "marked H [LRef a] p d (set_obj FUNCTION a None (set_obj FUNCTION a h (d\<lparr>d_mark := insert a (d_mark d)\<rparr>)))"
proof -
  let ?d = "set_obj FUNCTION a None (set_obj FUNCTION a h (d\<lparr>d_mark := insert a (d_mark d)\<rparr>))"
  have nh: "\<not> holds H a y" for y using assms(3) by (simp add: holds_def)
  have "d_inv H ?d" using assms unfolding d_inv_def by (auto split: if_splits)
  moreover have "newly d ?d = {a}" using assms(2) by (auto simp: newly_def)
  moreover have "has H ?d b q = has H d b q" if "H b = Some ob" "\<not> light ob" for b ob q
    using that assms(3) by (auto simp: has_def)
  ultimately show ?thesis using assms(3) nh by (auto simp: marked_def)
qed

text \<open>The source of an object is not looked at.\<close>

lemma marked_source: "marked H vs p d (d1\<lparr>d_source := s\<rparr>) = marked H vs p d d1"
  by (simp add: marked_def d_inv_def has_def newly_def)

section \<open>Marking is complete\<close>

text \<open>The thread that is being looked into is marked, or it is the running one, whose innermost call has no variables of its own.\<close>

definition idle_top :: "heap \<Rightarrow> addr \<Rightarrow> bool" where
  "idle_top H L \<longleftrightarrow> (\<forall>fr frs. H L = Some (OThread (fr # frs)) \<longrightarrow> fr_locals fr = [])"

definition marks :: "heap \<Rightarrow> nat \<Rightarrow> marker \<Rightarrow> bool" where
  "marks H n rec \<longleftrightarrow> (\<forall>L v p desc d. d_inv H d \<and> card (dom H - d_mark d) < n \<and> (L \<in> d_mark d \<or> idle_top H L) \<and> (\<forall>b. v = LRef b \<longrightarrow> b \<in> dom H) \<longrightarrow>
     (\<exists>d1. rec L v p desc d = Inr d1 \<and> marked H [v] p d d1))"

lemma card_unmarked: "finite (dom H) \<Longrightarrow> d_mark d \<subseteq> d_mark d1 \<Longrightarrow> card (dom H - d_mark d1) \<le> card (dom H - d_mark d)"
  by (intro card_mono) auto

lemma mark_all_marked:
  assumes "heap_ok H" "marks H n rec" "d_inv H d" "card (dom H - d_mark d) < n" "L \<in> d_mark d \<or> idle_top H L"
    "\<forall>b. LRef b \<in> set (map snd es) \<longrightarrow> b \<in> dom H"
  shows "\<exists>d1. mark_all rec L p es d = Inr d1 \<and> marked H (map snd es) p d d1"
  using assms(3-6)
proof (induction es arbitrary: d)
  case Nil
  then show ?case using marked_refl by auto
next
  case (Cons e es)
  obtain desc v where e: "e = (desc, v)" by force
  have "\<forall>b. v = LRef b \<longrightarrow> b \<in> dom H" using Cons.prems(4) e by auto
  with assms(2) [unfolded marks_def, rule_format, of d L v p desc] Cons.prems(1-3)
  obtain d1 where d1: "rec L v p desc d = Inr d1" "marked H [v] p d d1" by auto
  have "d_inv H d1" "d_mark d \<subseteq> d_mark d1" using d1(2) by (simp_all add: marked_def)
  moreover have "card (dom H - d_mark d1) < n"
    using card_unmarked [OF _ calculation(2)] assms(1) Cons.prems(2) unfolding heap_ok_def by fastforce
  ultimately obtain d2 where d2: "mark_all rec L p es d1 = Inr d2" "marked H (map snd es) p d1 d2"
    using Cons.IH [of d1] Cons.prems by auto
  show ?case using d1 d2 marked_trans [OF d1(2) d2(2)] by (simp add: e)
qed

lemma bind_mark_all: "bindR (mark_all rec L p es d) (mark_all rec L p es1) = mark_all rec L p (es @ es1) d"
proof (induction es arbitrary: d)
  case (Cons e es)
  then show ?case by (cases e) (simp add: bindR_assoc)
qed simp

lemma bind_mark_all_eta: "bindR (mark_all rec L p es d) (\<lambda>d. mark_all rec L p es1 d) = mark_all rec L p (es @ es1) d"
  by (rule bind_mark_all)

lemma mark_uservalue_all:
  assumes "heap_ok H" "H a = Some (OUserdata mt uv)"
  shows "mark_uservalue H rec L t uv = mark_all rec L (Some t) (if uv = LNil then [] else [(''[uservalue]'', uv)])"
proof -
  have "uv = LNil \<or> (\<exists>b. uv = LRef b \<and> map_option kind_of (H b) = Some TABLE)"
    using assms unfolding heap_ok_def by blast
  then show ?thesis
  proof (elim disjE exE conjE)
    fix b assume "uv = LRef b" "map_option kind_of (H b) = Some TABLE"
    then show ?thesis by (auto simp: mark_uservalue_def fun_eq_iff bindR_def split: option.splits sum.splits)
  qed (simp add: mark_uservalue_def fun_eq_iff)
qed

text \<open>The shape that the four kinds share.\<close>

lemma mark_object_new:
  assumes "heap_ok H" "H a = Some ob" "a \<notin> d_mark d" "\<not> light ob" "L \<in> d_mark d \<or> idle_top H L"
    and d1: "d1 = set_obj (kind_of ob) a (Some [(p, cstr desc)]) (d\<lparr>d_mark := insert a (d_mark d)\<rparr>)"
  shows "\<exists>L1 es f. mark_object ptr H (Suc n) L (LRef a) p desc d = bindR (mark_all (mark_object ptr H n) L1 (Some a) es d1) f \<and>
    map snd es = obj_vals H ob \<and> (L1 = L \<or> L1 = a) \<and> (\<forall>d2. \<exists>s. f d2 = Inr (d2\<lparr>d_source := s\<rparr>))"
proof -
  have ro: "readobject H (LRef a) p desc d = (d1, Some a)" unfolding d1 by (rule readobject_new [of a d H ob p desc, OF assms(3,2)])
  have id: "\<exists>s. Inr d2 = (Inr (d2\<lparr>d_source := s\<rparr>) :: dstate run)" for d2 by (intro exI [of _ "d_source d2"]) simp
  have bR: "bindR m (\<lambda>d. Inr d) = m" for m :: "dstate run" by (cases m) simp_all
  show ?thesis
  proof (cases ob)
    case (OTable mt es)
    have "mark_object ptr H (Suc n) L (LRef a) p desc d = mark_all (mark_object ptr H n) L (Some a) (obj_edges ptr H ob) d1"
      using assms(2) OTable ro by (simp add: mark_table_def bind_mark_all_eta)
    then show ?thesis using id
      by (intro exI [of _ L] exI [of _ "obj_edges ptr H ob"] exI [of _ "\<lambda>d. Inr d"]) (simp add: bR obj_edges_vals)
  next
    case (OUserdata mt uv)
    have "mark_object ptr H (Suc n) L (LRef a) p desc d = mark_all (mark_object ptr H n) L (Some a) (obj_edges ptr H ob) d1"
      using assms(2) OUserdata ro mark_uservalue_all [OF assms(1), of a mt uv] by (simp add: mark_userdata_def bind_mark_all)
    then show ?thesis using id
      by (intro exI [of _ L] exI [of _ "obj_edges ptr H ob"] exI [of _ "\<lambda>d. Inr d"]) (simp add: bR obj_edges_vals)
  next
    case (OFunction ups is_c src line)
    let ?f = "\<lambda>d. if is_c then Inr (if ups = [] then set_obj FUNCTION a None d else d)
      else Inr (d\<lparr>d_source := (d_source d)(a \<mapsto> src @ '':'' @ dec line)\<rparr>) :: dstate run"
    have "mark_object ptr H (Suc n) L (LRef a) p desc d = bindR (mark_all (mark_object ptr H n) L (Some a) (obj_edges ptr H ob) d1) ?f"
      using assms(2) OFunction ro by (simp add: mark_function_def)
    moreover have "\<exists>s. ?f d2 = Inr (d2\<lparr>d_source := s\<rparr>)" for d2 using assms(4) OFunction id by (cases is_c) auto
    ultimately show ?thesis
      by (intro exI [of _ L] exI [of _ "obj_edges ptr H ob"] exI [of _ ?f]) (simp add: obj_edges_vals)
  next
    case (OThread frames)
    let ?levels = "if a = L then drop 1 frames else frames"
    let ?f = "\<lambda>d. Inr (d\<lparr>d_source := (d_source d)(a \<mapsto> concat (map frame_source ?levels))\<rparr>) :: dstate run"
    have "concat (map frame_edges ?levels) = concat (map frame_edges frames)"
      using assms(2,3,5) OThread by (cases frames) (auto simp: idle_top_def frame_edges_def)
    then have "mark_object ptr H (Suc n) L (LRef a) p desc d = bindR (mark_all (mark_object ptr H n) a (Some a) (obj_edges ptr H ob) d1) ?f"
      using assms(2) OThread ro by (simp add: mark_thread_def Let_def)
    then show ?thesis
      by (intro exI [of _ a] exI [of _ "obj_edges ptr H ob"] exI [of _ ?f]) (auto simp add: obj_edges_vals)
  qed
qed

lemma mark_object_marks:
  assumes "heap_ok H"
  shows "marks H n (mark_object ptr H n)"
proof (induction n)
  case 0
  show ?case by (simp add: marks_def)
next
  case (Suc n)
  show ?case unfolding marks_def
  proof (intro allI impI, elim conjE)
    fix L v p desc d
    assume a: "d_inv H d" "card (dom H - d_mark d) < Suc n" "L \<in> d_mark d \<or> idle_top H L" "\<forall>b. v = LRef b \<longrightarrow> b \<in> dom H"
    show "\<exists>d1. mark_object ptr H (Suc n) L v p desc d = Inr d1 \<and> marked H [v] p d d1"
    proof (cases "\<exists>b. v = LRef b")
      case False
      then have "mark_object ptr H (Suc n) L v p desc d = Inr d" by (cases v) simp_all
      moreover have "marked H [v] p d d" using marked_refl [OF a(1)] False unfolding marked_def by auto
      ultimately show ?thesis by blast
    next
      case True
      then obtain b ob where v: "v = LRef b" and ob: "H b = Some ob" using a(4) by blast
      consider (old) "b \<in> d_mark d" | (light) "b \<notin> d_mark d" "light ob" | (new) "b \<notin> d_mark d" "\<not> light ob" by blast
      then show ?thesis
      proof cases
        case old
        obtain d1 r where r: "readobject H (LRef b) p desc d = (d1, r)" by force
        from readobject_old [OF a(1) old this] have "r = None" "marked H [LRef b] p d d1" by simp_all
        moreover have "mark_object ptr H (Suc n) L v p desc d = Inr d1"
          using r \<open>r = None\<close> by (cases ob) (simp_all add: v ob mark_table_def mark_userdata_def mark_function_def mark_thread_def)
        ultimately show ?thesis using v by blast
      next
        case light
        then obtain src line where f: "ob = OFunction [] True src line" by (cases ob) auto
        note lm = light_marked [OF a(1) light(1) ob [unfolded f], of p "Some [(p, cstr desc)]"]
        have "readobject H (LRef b) p desc d = (set_obj FUNCTION b (Some [(p, cstr desc)]) (d\<lparr>d_mark := insert b (d_mark d)\<rparr>), Some b)"
          using readobject_new [of b d H ob p desc, OF light(1) ob] f by simp
        then have "mark_object ptr H (Suc n) L v p desc d =
            Inr (set_obj FUNCTION b None (set_obj FUNCTION b (Some [(p, cstr desc)]) (d\<lparr>d_mark := insert b (d_mark d)\<rparr>)))"
          by (simp add: v ob f mark_function_def upvalue_edges_def)
        with lm v show ?thesis by blast
      next
        case new
        define d1 where "d1 = set_obj (kind_of ob) b (Some [(p, cstr desc)]) (d\<lparr>d_mark := insert b (d_mark d)\<rparr>)"
        obtain L1 es f where s: "mark_object ptr H (Suc n) L (LRef b) p desc d = bindR (mark_all (mark_object ptr H n) L1 (Some b) es d1) f"
            "map snd es = obj_vals H ob" "L1 = L \<or> L1 = b" "\<forall>d2. \<exists>s. f d2 = Inr (d2\<lparr>d_source := s\<rparr>)"
          using mark_object_new [OF assms ob new(1,2) a(3) d1_def, of ptr n] by blast
        have mk: "d_mark d1 = insert b (d_mark d)" by (simp add: d1_def)
        have i1: "d_inv H d1" unfolding d1_def by (rule new_inv [OF a(1) ob new(2)])
        have fin: "finite (dom H)" using assms by (simp add: heap_ok_def)
        have "dom H - d_mark d1 \<subset> dom H - d_mark d" using new(1) ob unfolding mk by blast
        then have c1: "card (dom H - d_mark d1) < n"
          using psubset_card_mono [of "dom H - d_mark d" "dom H - d_mark d1"] fin a(2) by simp
        have L1: "L1 \<in> d_mark d1 \<or> idle_top H L1" using s(3) a(3) unfolding mk by blast
        have "\<forall>c. LRef c \<in> set (map snd es) \<longrightarrow> c \<in> dom H"
          using assms ob unfolding s(2) heap_ok_def holds_def by blast
        from mark_all_marked [OF assms Suc i1 c1 L1 this, of "Some b"]
        obtain d2 where d2: "mark_all (mark_object ptr H n) L1 (Some b) es d1 = Inr d2" "marked H (obj_vals H ob) (Some b) d1 d2"
          unfolding s(2) by blast
        from new_marked [OF a(1) new(1) ob new(2) d1_def d2(2)] have "marked H [v] p d d2" by (simp add: v)
        moreover obtain src where "f d2 = Inr (d2\<lparr>d_source := src\<rparr>)" using s(4) by blast
        ultimately show ?thesis using s(1) d2(1) v by (simp add: marked_source)
      qed
    qed
  qed
qed

section \<open>The snapshot\<close>

lemma d_inv_empty [simp]: "d_inv H d_empty"
  by (simp add: d_inv_def d_empty_def)

lemma gen_result_cases:
  assumes "d_inv H d"
  shows "gen_result ptr d a =
    (case H a of None \<Rightarrow> None
     | Some ob \<Rightarrow> (case d_obj d (kind_of ob) a of None \<Rightarrow> None
                   | Some h \<Rightarrow> Some (desc_head d (kind_of ob) a @ concat (map (gen_table_desc ptr) h))))"
proof -
  have "d_obj d k a = None" if "\<And>ob. H a = Some ob \<Longrightarrow> kind_of ob \<noteq> k" for k
    using assms that unfolding d_inv_def by blast
  note none = this
  show ?thesis
  proof (cases "H a")
    case None
    then show ?thesis using none by (simp add: gen_result_def pdesc_def)
  next
    case (Some ob)
    then have other: "d_obj d k a = None" if "k \<noteq> kind_of ob" for k using none that by auto
    show ?thesis using Some other by (cases "kind_of ob") (simp_all add: gen_result_def pdesc_def split: option.splits)
  qed
qed

lemma snapshot_marks:
  assumes "heap_ok H" "registry \<in> dom H" "idle_top H L" "card (dom H) < fuel"
  shows "\<exists>d. snapshot ptr H fuel L registry = Inr (gen_result ptr d) \<and> d_inv H d \<and> d_mark d = {a. (holds H)\<^sup>*\<^sup>* registry a} \<and>
    (\<forall>b ob q. H b = Some ob \<and> \<not> light ob \<longrightarrow>
      has H d b q = ((q = None \<and> b = registry) \<or> (\<exists>x. (holds H)\<^sup>*\<^sup>* registry x \<and> q = Some x \<and> holds H x b)))"
proof -
  have me: "d_mark d_empty = {}" by (simp add: d_empty_def)
  obtain d where d: "mark_object ptr H fuel L (LRef registry) None ''[registry]'' d_empty = Inr d" "marked H [LRef registry] None d_empty d"
    using mark_object_marks [OF assms(1), of fuel ptr] assms(2-4) unfolding marks_def
    by (metis Diff_empty d_inv_empty lval.inject(5) me)
  note m = markedD [OF d(2)]
  have n: "newly d_empty d = d_mark d" by (simp add: newly_def me)
  have "a \<in> d_mark d" if "(holds H)\<^sup>*\<^sup>* registry a" for a
    using that by (induction rule: rtranclp_induct) (use m(3) m(5) in \<open>auto simp: n\<close>)
  moreover have "(holds H)\<^sup>*\<^sup>* registry a" if "a \<in> d_mark d" for a
    using m(4) [of a] that by (simp add: n)
  ultimately have r: "d_mark d = {a. (holds H)\<^sup>*\<^sup>* registry a}" by blast
  have "\<not> has H d_empty b q" for b q by (simp add: has_def d_empty_def)
  then have "has H d b q = ((q = None \<and> b = registry) \<or> (\<exists>x. (holds H)\<^sup>*\<^sup>* registry x \<and> q = Some x \<and> holds H x b))"
    if "H b = Some ob" "\<not> light ob" for b ob q
    using m(6) [OF that, of q] unfolding n r by auto
  with d(1) m(1) r show ?thesis by (auto simp: snapshot_def)
qed

section \<open>Theorems\<close>

text \<open>What a text has at its start: the name of the kind, or where a function or a thread comes from.\<close>

definition head_ok :: "kind \<Rightarrow> string \<Rightarrow> bool" where
  "head_ok k head \<longleftrightarrow> (k = TABLE \<longrightarrow> head = ''table'' @ [CHR 0x0A]) \<and> (k = USERDATA \<longrightarrow> head = ''userdata'' @ [CHR 0x0A])"

definition ex_heap :: heap where
  "ex_heap = [1 \<mapsto> OTable None [(LString ''f'', LRef 2), (LString ''me'', LRef 1)], 2 \<mapsto> OFunction [(''up'', LRef 3)] False ''x.lua'' 7,
     3 \<mapsto> OTable (Some 5) [(LNumber ''1'', LRef 4)], 4 \<mapsto> OTable None [], 5 \<mapsto> OTable None [(LString ''__mode'', LString ''v'')]]"



end
