(* ===== verification/Googletoken.thy ===== *)
theory Googletoken
  imports Run
begin

text \<open>
  The token of a text, \<^verbatim>\<open>src/depends/lua-googletoken/lua-googletoken.c\<close>.  The program computes it by interpreting two short strings as
  operations on an \<open>int\<close>, which wraps around here; C leaves the overflow of its signed additions and shifts open.
\<close>

section \<open>The code\<close>

text \<open>\<open>atoi\<close> of a single character.\<close>

definition atoi1 :: "char \<Rightarrow> nat" where
  "atoi1 c = (if 48 \<le> (of_char c :: nat) \<and> (of_char c :: nat) \<le> 57 then of_char c - 48 else 0)"

text \<open>Three characters of \<open>b\<close> are one operation: how the result is put in, the direction of the shift, and by how much.\<close>

fun RL :: "u32 \<Rightarrow> string \<Rightarrow> u32" where
  "RL a (b0 # b1 # b2 # b) =
     (let d = (if (97 :: nat) \<le> of_char b2 then of_char b2 - 87 else atoi1 b2);
          d = (if b1 = CHR ''+'' then drop_bit d a else push_bit d a);
          a = (if b0 = CHR ''+'' then a + d else a XOR d)
      in RL a b)"
| "RL a _ = a"

text \<open>A character is negative from 128 on, which \<open>+ 256\<close> makes good.\<close>

definition char_int :: "char \<Rightarrow> int" where
  "char_int c = (if (of_char c :: int) < 128 then of_char c else of_char c - 256)"

fun token_loop :: "u32 \<Rightarrow> string \<Rightarrow> u32" where
  "token_loop a [] = a"
| "token_loop a (c # s) =
     token_loop (RL (if 0 > char_int c then a + word_of_int (char_int c) + 256 else a + word_of_int (char_int c)) ''+-a^+6'') s"

definition google_tk_challenge :: "string \<Rightarrow> u32 \<Rightarrow> string" where
  "google_tk_challenge s win =
     (let a = RL (token_loop win s) ''+-3^+b+-f'';
          tmpLong = sint a;
          tmpLong = (if tmpLong < 0 then (tmpLong AND 2147483647) + 2147483648 else tmpLong);
          tmpLong = tmpLong mod 1000000
      in dec_nat (nat tmpLong) @ ''.'' @ dec_nat (unat (word_of_int (tmpLong XOR sint win) :: u32)))"

text \<open>The argument as Lua gives it, if it is a string or a number; it is read up to a zero byte.\<close>

definition googletoken_generate :: "string option \<Rightarrow> string option" where
  "googletoken_generate arg =
     (case arg of None \<Rightarrow> None | Some s \<Rightarrow> Some (google_tk_challenge (takeWhile (\<lambda>c. c \<noteq> CHR 0x00) s) 402904))"

section \<open>The hash\<close>

text \<open>The hash function of Jenkins, one byte at a time.\<close>

definition jenkins_step :: "u32 \<Rightarrow> u8 \<Rightarrow> u32" where
  "jenkins_step h c = (let h = (h + ucast c) * 1025 in h XOR drop_bit 6 h)"

definition jenkins :: "u32 \<Rightarrow> u8 list \<Rightarrow> u32" where
  "jenkins seed cs = (let h = foldl jenkins_step seed cs * 9; h = h XOR drop_bit 11 h in h * 32769)"

lemma RL_steps:
  "RL a ''+-a^+6'' = (let h = a * 1025 in h XOR drop_bit 6 h)"
  "RL a ''+-3^+b+-f'' = (let h = a * 9; h = h XOR drop_bit 11 h in h * 32769)"
  by (simp_all add: Let_def atoi1_def push_bit_eq_mult algebra_simps) (simp_all add: eval_nat_numeral)

lemma char_word: "(if 0 > char_int c then (a :: u32) + word_of_int (char_int c) + 256 else a + word_of_int (char_int c)) = a + ucast (of_char c :: u8)"
proof -
  define n :: nat where "n = of_char c"
  have n: "n < 256" unfolding n_def by simp
  have i: "(of_char c :: int) = int n" unfolding n_def by (rule of_nat_of_char [symmetric])
  have w: "(of_char c :: u8) = of_nat n" unfolding n_def by (rule of_nat_of_char [symmetric])
  have u: "(ucast (of_nat n :: u8) :: u32) = of_nat n" using n by (simp add: unsigned_of_nat take_bit_nat_eq_self)
  show ?thesis using n unfolding w u char_int_def i by simp
qed

lemma token_loop_foldl: "token_loop a s = foldl jenkins_step a (bytes s)"
  by (induction s arbitrary: a) (simp_all add: char_word RL_steps jenkins_step_def bytes_def del: RL.simps)

text \<open>The last step takes an \<open>int\<close> back to the unsigned value.\<close>

lemma sint_back: "(if sint (a :: u32) < 0 then (sint a AND 2147483647) + 2147483648 else sint a) = uint a"
proof -
  have u: "0 \<le> uint a" "uint a < 4294967296" using uint_lt2p [of a] by simp_all
  note s = sint_u32 [of a]
  have "sint a AND 2147483647 = sint a mod 2147483648" using take_bit_eq_mask [of 31 "sint a"] by (simp add: take_bit_eq_mod mask_eq_exp_minus_1)
  moreover have "(x - 4294967296) mod 2147483648 = x - 2147483648" if "2147483648 \<le> x" "x < 4294967296" for x :: int
    using that minus_mod_self2 [of "x - 2147483648" 2147483648] mod_pos_pos_trivial [of "x - 2147483648" 2147483648]
    by (simp del: minus_mod_self2)
  ultimately show ?thesis using s u by auto
qed

text \<open>
  C27: The token of a text is the remainder of Jenkins' hash of its bytes by 1000000, and that number with a fixed one taken in by exclusive or, in
  decimal with a point between; it has at most 14 characters, so that the buffer of 32 bytes is enough.
\<close>

theorem token_is_jenkins:
  "\<exists>t. t < 1000000 \<and> t = unat (jenkins 402904 (bytes (takeWhile (\<lambda>c. c \<noteq> CHR 0x00) s))) mod 1000000 \<and>
    googletoken_generate (Some s) = Some (dec_nat t @ ''.'' @ dec_nat (t XOR 402904)) \<and> length (dec_nat t @ ''.'' @ dec_nat (t XOR 402904)) \<le> 14"
proof -
  define z where "z = takeWhile (\<lambda>c. c \<noteq> CHR 0x00) s"
  define t where "t = unat (jenkins 402904 (bytes z)) mod 1000000"
  have t: "t < 1000000" by (simp add: t_def)
  have x: "t XOR 402904 < 2 ^ 20"
  proof -
    have "int (t XOR 402904) = int t XOR 402904" by (simp add: of_nat_xor_eq)
    also have "\<dots> < 2 ^ 20" using t by (intro XOR_upper) simp_all
    finally show ?thesis by simp
  qed
  have "RL (token_loop 402904 z) ''+-3^+b+-f'' = jenkins 402904 (bytes z)"
    by (simp add: RL_steps token_loop_foldl jenkins_def del: RL.simps)
  then have "google_tk_challenge z 402904 = (let v = uint (jenkins 402904 (bytes z)) mod 1000000
      in dec_nat (nat v) @ ''.'' @ dec_nat (unat (word_of_int (v XOR 402904) :: u32)))"
    by (simp add: google_tk_challenge_def Let_def sint_back cong: if_cong del: RL.simps)
  moreover have "uint (jenkins 402904 (bytes z)) mod 1000000 = int t" by (simp add: t_def zmod_int)
  moreover have "unat (word_of_int (int t XOR 402904) :: u32) = t XOR 402904"
  proof -
    have "int t XOR 402904 = int (t XOR 402904)" by (simp add: of_nat_xor_eq)
    then have "(word_of_int (int t XOR 402904) :: u32) = of_nat (t XOR 402904)" by (simp only: of_int_of_nat_eq)
    moreover have "unat (of_nat m :: u32) = m" if "m < 2 ^ 20" for m using that by (simp add: unsigned_of_nat take_bit_nat_eq_self)
    ultimately show ?thesis using x by simp
  qed
  ultimately have "googletoken_generate (Some s) = Some (dec_nat t @ ''.'' @ dec_nat (t XOR 402904))"
    by (simp add: googletoken_generate_def z_def)
  moreover have "length (dec_nat t) \<le> 6" "length (dec_nat (t XOR 402904)) \<le> 7" using t x by (auto intro!: dec_nat_length)
  ultimately show ?thesis using t unfolding t_def z_def by auto
qed

end
