(* ===== verification/Spec2Isabelle.thy ===== *)
theory Spec2Isabelle
  imports Timer_Free Timeskiplist Zset_Free Kcp_Timing Kcp_Reassembly Crc32 Maths Lutil Json_Roundtrip
    Hloggerlib Luacfg Snapshot_Props Googletoken
begin

text \<open>
  The C libraries that the game server keeps under \<^verbatim>\<open>src/depends\<close> and calls from its Lua services.

  \<^bold>\<open>The parts.\<close>  Each library is loaded into the Lua states of the services and keeps its own state; they meet only through
  the services.  Timers drive the services, the skip lists keep their ranks, the datagram protocol talks to the clients, and the JSON
  library writes and reads their messages; the log service keeps what they report, and the configuration is shared by all of them; the rest
  are small helpers.

  \<^item> Timing wheel (\<^verbatim>\<open>timer/timer.c\<close>, \<^verbatim>\<open>spinlock.h\<close>, \<^verbatim>\<open>lua-timer.c\<close>).  \<open>Timer\<close> has the record and all functions, with the
    spin lock and the callbacks; a loop that would not end, such as taking the lock twice, is \<open>None\<close>.  \<open>Timer_Slots\<close> says where a timer is
    kept, \<open>Timer_Correct\<close> relates the wheel to a calendar, \<open>Timer_Props\<close> has the properties, and \<open>Timer_Free\<close> the end of a wheel.
  \<^item> Skip lists (\<^verbatim>\<open>lua-zset/skiplist.c\<close>, \<^verbatim>\<open>lua-skiplist.c\<close>, and the variant with time stamps \<^verbatim>\<open>lua-timezset/*\<close>).  \<open>Zset\<close> has
    the nodes in an explicit memory from addresses to nodes, so that a wrong pointer is an error; \<open>Zset_Inv\<close>, \<open>Zset_Insert\<close>,
    \<open>Zset_Delete\<close> and \<open>Zset_Walks\<close> have the invariant and that every operation keeps it; the locale \<open>obj_order\<close> of \<open>Zset_Order\<close> is what the
    list needs of the comparison of objects, and \<open>Zset_Ops\<close> relates every operation to the sorted set inside it.  \<open>Skiplist\<close> and
    \<open>Timeskiplist\<close> interpret the locale on the two comparisons of the code; \<open>Zset_Free\<close> is the finaliser.
  \<^item> Datagram protocol (\<^verbatim>\<open>lua-kcp/kcp/ikcp.c\<close>, \<^verbatim>\<open>ikcp.h\<close>, \<^verbatim>\<open>lua-kcp/src/lkcp.c\<close>).  \<open>Kcp\<close> has the control block and the operations; every
    handler is the whole handler.  \<open>Kcp_Codec\<close> is the wire format, \<open>Kcp_Flush\<close>, \<open>Kcp_Packets\<close>, \<open>Kcp_Receiver\<close> and \<open>Kcp_Sender\<close> keep the
    invariant, \<open>Kcp_Link\<close> and \<open>Kcp_Transfer\<close> put two ends together over a network that loses, repeats and reorders packets, and
    \<open>Kcp_Props\<close>, \<open>Kcp_Timing\<close> and \<open>Kcp_Reassembly\<close> have the properties.
  \<^item> JSON (\<^verbatim>\<open>json/strbuf.c\<close>, \<^verbatim>\<open>fpconv.c\<close>, \<^verbatim>\<open>lua_cjson.c\<close>).  \<open>Strbuf\<close> is the growing buffer, where every write is checked against the
    allocation; \<open>Fpconv\<close> the conversion of numbers, with \<open>strtod\<close> and the format \<open>%g\<close> of the C library exactly rounded; \<open>Json_Config\<close> the
    options; \<open>Json_String\<close> escaping and unescaping; \<open>Json_Parse\<close> the tokens and the recursive parser; \<open>Json_Encode\<close> the encoder.  A
    failure is a value of \<open>stop\<close>: an error thrown to Lua, the end of the process, an overflow, an access out of bounds, or a loop without
    end.  \<open>Fpconv_Props\<close>, \<open>Json_String_Props\<close>, \<open>Json_Parse_Props\<close> and \<open>Json_Encode_Props\<close> have what each part does alone: that it stays
    inside its memory, always ends, and fails only by errors that are documented.  \<open>Json_Render\<close> defines the text of a JSON value and
    shows that the encoder writes it, \<open>Json_Roundtrip\<close> that the decoder reads it back.
  \<^item> Checksums (\<^verbatim>\<open>lua-crc32/*\<close>) in \<open>Crc32\<close>, geometry and random numbers (\<^verbatim>\<open>lua-maths/mathS.c\<close>) in \<open>Maths\<close>, and the clock and byte order
    helpers (\<^verbatim>\<open>lua-kcp/src/lutil.c\<close>) in \<open>Lutil\<close>.
  \<^item> Logging (\<^verbatim>\<open>hlogger/hlogger.c\<close>, \<^verbatim>\<open>hloggerlib/hloggerlib.c\<close>).  \<open>Hlogger\<close> is the service over a model of the file system, in which a failing call
    of the system is an argument; \<open>Hlogger_Files\<close> shows which directories are made and that files can be opened, \<open>Hlogger_Props\<close> what a message
    writes and where, and \<open>Hloggerlib\<close> has the Lua functions that send a message, and what the service makes of what they send.
  \<^item> Shared configuration (\<^verbatim>\<open>lua-cfg/luacfg.c\<close>) in \<open>Luacfg\<close>, with the lock as a part of the state, so that a call can wait for ever.
  \<^item> Heap snapshot (\<^verbatim>\<open>snapshot/snapshot.c\<close>).  \<open>Snapshot\<close> is the walk over the objects of Lua with the tables of the second Lua state, and
    \<open>Snapshot_Props\<close> shows that it lists what is reached from the registry, with all holders.
  \<^item> Tokens (\<^verbatim>\<open>lua-googletoken/lua-googletoken.c\<close>) in \<open>Googletoken\<close>, whose interpreted operations are shown to be a known hash function.

  \<open>Prelude\<close> has the C integer types as words and the facts on words, lists and options that all share; \<open>Lua_Number\<close> has doubles as rational
  numbers with the three special values, and their comparisons and casts; \<open>Run\<close> has the failures as a sum.

  \<^bold>\<open>Conventions.\<close>  Definitions have the names of the C functions, with a suffix where a name is taken; a loop is a function of its own
  where it has more than a few lines.  Integers have their width: \<open>u8\<close>, \<open>u32\<close> and \<open>u64\<close> wrap around, and signed ones are integers whose
  range is checked, since leaving it is undefined in C.  Allocation is taken to succeed.

  \<^bold>\<open>Termination and fuel.\<close>  All recursive definitions are total.  The parser ends because every call leaves less of the text, the encoder
  because the depth is bounded, and the growth of the buffer because the size doubles.  Where a model has fuel, a lemma shows that the
  fuel its operations give is enough; the fuel of the snapshot bounds the depth of its recursion, and one more than the number of objects
  is enough.

  \<^bold>\<open>Not modelled.\<close>  Code that comes from elsewhere and is only built here: \<^verbatim>\<open>libfaketime\<close>, \<^verbatim>\<open>luafilesystem\<close>, \<^verbatim>\<open>lua-curl\<close>, \<^verbatim>\<open>lua-zlib\<close>, which
  are wrappers of system calls or of libraries that are not in the repository, and the network simulator that KCP ships for its tests.  Then
  \<^verbatim>\<open>lua-maxminddb\<close>, which only calls a library that is not in the repository, the registration of functions with Lua, and what is printed on
  the terminal.  The Lua code under \<^verbatim>\<open>game\<close> runs on top of these libraries and of the skynet framework, which is not in the repository.
\<close>

end
